(* ===== verification/Prelude.thy ===== *)
theory Prelude
  imports Main "HOL-Library.Word"
begin

text \<open>
  Shared ground of the development.

  \<^item> Fixed-width integers of the C++ sources (\<open>std::uint8_t\<close> .. \<open>std::uint64_t\<close>) are words;
    \<open>std::byte\<close> is an 8-bit word; \<open>std::size_t\<close> is \<open>nat\<close>, except for the cursors of the SPSC ring,
    which are meant to wrap and are 64-bit words.
  \<^item> A \<open>std::span<const std::byte>\<close> is a list of bytes; an output span is a list of bytes that an
    operation returns updated, its length being the size of the span.
  \<^item> A fixed array of structures with an element counter is a function from indices together with
    that counter; \<open>live a n\<close> is the list of the elements in use. The two shifting loops the sources
    use to delete from and insert into such an array are \<open>shift_down\<close> and \<open>shift_up\<close>.
  \<^item> \<open>memcpy_at\<close> overwrites a block of a byte array, \<open>write_be16\<close> .. \<open>read_be32\<close> are the big-endian
    accessors.
  \<^item> \<open>deadline_from\<close> is the saturating 64-bit addition used for every timer.
\<close>

unbundle bit_operations_syntax

type_synonym u8 = "8 word"
type_synonym u16 = "16 word"
type_synonym u32 = "32 word"
type_synonym u64 = "64 word"
type_synonym byte = "8 word"
type_synonym 'a arr = "nat \<Rightarrow> 'a"

text \<open>\<open>std::error_code\<close>: no error, the portable errors the sources make, or an \<open>errno\<close> of the system.\<close>

datatype error_code = no_error | bad_file_descriptor | invalid_argument | message_size
  | protocol_not_supported | operation_not_supported | protocol_error | value_too_large | io_error
  | timed_out | device_or_resource_busy | no_such_device | address_not_available | other_error nat

named_theorems array_simps \<open>closed forms of the shifting loops on fixed arrays\<close>
named_theorems endian_simps \<open>big-endian accessors\<close>
named_theorems seq_simps \<open>modulo-2^32 sequence comparisons as comparisons of offsets\<close>

section \<open>Fixed arrays\<close>

definition live :: "'a arr \<Rightarrow> nat \<Rightarrow> 'a list" where
  "live a n = map a [0..<n]"

text \<open>
  \<open>for (index = i; index < n; ++index) a[index - k] = a[index];\<close>
\<close>

function shift_down :: "'a arr \<Rightarrow> nat \<Rightarrow> nat \<Rightarrow> nat \<Rightarrow> 'a arr" where
  "shift_down a k i n = (if i < n then shift_down (a(i - k := a i)) k (Suc i) n else a)"
  by pat_completeness auto
termination
  by (relation "measure (\<lambda>(a, k, i, n). n - i)") auto

declare shift_down.simps [simp del]

text \<open>
  \<open>for (index = i; index > lo; --index) a[index] = a[index - 1];\<close>
\<close>

fun shift_up :: "'a arr \<Rightarrow> nat \<Rightarrow> nat \<Rightarrow> 'a arr" where
  "shift_up a 0 lo = a"
| "shift_up a (Suc i) lo = (if lo < Suc i then shift_up (a(Suc i := a i)) i lo else a)"

section \<open>Byte blocks and big-endian accessors\<close>

definition memcpy_at :: "byte list \<Rightarrow> nat \<Rightarrow> byte list \<Rightarrow> byte list" where
  "memcpy_at dst off src = take off dst @ src @ drop (off + length src) dst"

definition write_be16 :: "byte list \<Rightarrow> nat \<Rightarrow> u16 \<Rightarrow> byte list" where
  "write_be16 out off v =
     out[off := ucast (drop_bit 8 v AND 0xFF), off + 1 := ucast (v AND 0xFF)]"

definition write_be32 :: "byte list \<Rightarrow> nat \<Rightarrow> u32 \<Rightarrow> byte list" where
  "write_be32 out off v =
     out[off := ucast (drop_bit 24 v AND 0xFF), off + 1 := ucast (drop_bit 16 v AND 0xFF),
         off + 2 := ucast (drop_bit 8 v AND 0xFF), off + 3 := ucast (v AND 0xFF)]"

definition read_be16 :: "byte list \<Rightarrow> nat \<Rightarrow> u16" where
  "read_be16 bs off = push_bit 8 (ucast (bs ! off)) OR ucast (bs ! (off + 1))"

definition read_be32 :: "byte list \<Rightarrow> nat \<Rightarrow> u32" where
  "read_be32 bs off =
     push_bit 24 (ucast (bs ! off)) OR push_bit 16 (ucast (bs ! (off + 1)))
     OR push_bit 8 (ucast (bs ! (off + 2))) OR ucast (bs ! (off + 3))"

text \<open>The bytes written by the two writers, as lists.\<close>

definition be16 :: "u16 \<Rightarrow> byte list" where
  "be16 v = [ucast (drop_bit 8 v AND 0xFF), ucast (v AND 0xFF)]"

definition be32 :: "u32 \<Rightarrow> byte list" where
  "be32 v = [ucast (drop_bit 24 v AND 0xFF), ucast (drop_bit 16 v AND 0xFF),
             ucast (drop_bit 8 v AND 0xFF), ucast (v AND 0xFF)]"

section \<open>Saturating deadlines\<close>

definition deadline_from :: "u64 \<Rightarrow> u64 \<Rightarrow> u64" where
  "deadline_from now_ns interval_ns =
     (if interval_ns > - 1 - now_ns then - 1 else now_ns + interval_ns)"

section \<open>Lemmas: fixed arrays\<close>

lemma length_live [simp]: "length (live a n) = n"
  by (simp add: live_def)

lemma nth_live [simp]: "i < n \<Longrightarrow> live a n ! i = a i"
  by (simp add: live_def)

lemma set_live: "set (live a n) = a ` {..<n}"
  by (auto simp: live_def)

lemma live_0 [simp]: "live a 0 = []"
  by (simp add: live_def)

lemma live_Suc: "live a (Suc n) = live a n @ [a n]"
  by (simp add: live_def)

lemma live_eq_Nil [simp]: "live a n = [] \<longleftrightarrow> n = 0"
  by (simp add: live_def)

lemma live_cong: "(\<And>i. i < n \<Longrightarrow> a i = b i) \<Longrightarrow> live a n = live b n"
  by (simp add: live_def)

lemma live_update_beyond [simp]: "n \<le> i \<Longrightarrow> live (a(i := x)) n = live a n"
  by (rule live_cong) simp

lemma live_push: "live (a(n := x)) (Suc n) = live a n @ [x]"
  by (simp add: live_Suc)

lemma live_update: "i < n \<Longrightarrow> live (a(i := x)) n = (live a n)[i := x]"
  by (rule nth_equalityI) (auto simp: nth_list_update)

lemma take_live: "k \<le> n \<Longrightarrow> take k (live a n) = live a k"
  by (rule nth_equalityI) auto

lemma live_Cons: "live a (Suc n) = a 0 # live (\<lambda>i. a (Suc i)) n"
  by (rule nth_equalityI) (auto simp: nth_Cons split: nat.split)

lemma shift_down_apply [array_simps]:
  assumes "k \<le> i"
  shows "shift_down a k i n j = (if i - k \<le> j \<and> j < n - k then a (j + k) else a j)"
  using assms
proof (induction a k i n arbitrary: j rule: shift_down.induct)
  case (1 a k i n)
  show ?case
  proof (cases "i < n")
    case True
    have k: "k \<le> Suc i" using "1.prems" by simp
    have "shift_down a k i n j = shift_down (a(i - k := a i)) k (Suc i) n j"
      using True by (simp add: shift_down.simps [of a k i n])
    also have "\<dots> = (if Suc i - k \<le> j \<and> j < n - k then (a(i - k := a i)) (j + k)
                     else (a(i - k := a i)) j)"
      by (rule "1.IH" [OF True k])
    also have "\<dots> = (if i - k \<le> j \<and> j < n - k then a (j + k) else a j)"
      using "1.prems" True by (auto simp: not_le)
    finally show ?thesis .
  next
    case False
    then show ?thesis using "1.prems" by (auto simp: shift_down.simps [of a k i n])
  qed
qed

lemma live_shift_down [array_simps]:
  assumes "k \<le> i" "i \<le> n"
  shows "live (shift_down a k i n) (n - k) = take (i - k) (live a n) @ drop i (live a n)"
  by (rule nth_equalityI) (use assms in \<open>auto simp: shift_down_apply nth_append min_def\<close>)

lemma shift_up_apply [array_simps]:
  "shift_up a i lo j = (if lo < j \<and> j \<le> i then a (j - 1) else a j)"
proof (induction i arbitrary: a)
  case 0
  show ?case by simp
next
  case (Suc i)
  show ?case by (simp add: Suc.IH) (auto simp: less_Suc_eq_le le_Suc_eq)
qed

lemma live_insert_at [array_simps]:
  assumes "lo \<le> n"
  shows "live ((shift_up a n lo)(lo := x)) (Suc n) = take lo (live a n) @ x # drop lo (live a n)"
proof (rule nth_equalityI)
  show "length (live ((shift_up a n lo)(lo := x)) (Suc n))
          = length (take lo (live a n) @ x # drop lo (live a n))"
    using assms by simp
  fix i assume "i < length (live ((shift_up a n lo)(lo := x)) (Suc n))"
  then have i: "i < Suc n" by simp
  consider "i < lo" | "i = lo" | d where "i = Suc (lo + d)"
    by (metis less_imp_Suc_add linorder_neqE_nat)
  then show "live ((shift_up a n lo)(lo := x)) (Suc n) ! i
               = (take lo (live a n) @ x # drop lo (live a n)) ! i"
    by cases (use assms i in \<open>simp_all add: shift_up_apply nth_append\<close>)
qed

text \<open>\<open>for (i = 0; i < n; ++i) out[i] = f(i);\<close>\<close>

lemma fold_update_prefix [array_simps]:
  "n \<le> length out \<Longrightarrow> fold (\<lambda>i out. out[i := f i]) [0..<n] out = live f n @ drop n out"
proof (induction n)
  case (Suc n)
  then have "drop n out = out ! n # drop (Suc n) out" by (simp add: Cons_nth_drop_Suc)
  then show ?case using Suc by (simp add: live_Suc list_update_append)
qed simp

text \<open>Loops over the indices of an array, with an invariant indexed by the loop counter.\<close>

lemma fold_upt_invariant:
  assumes "P 0 s" "\<And>i s. i < n \<Longrightarrow> P i s \<Longrightarrow> P (Suc i) (f i s)"
  shows "P n (fold f [0..<n] s)"
proof -
  have "k \<le> n \<Longrightarrow> P k (fold f [0..<k] s)" for k
    by (induction k) (use assms in auto)
  then show ?thesis by blast
qed

section \<open>Lemmas: byte blocks\<close>

lemma length_memcpy_at [simp]:
  "off + length src \<le> length dst \<Longrightarrow> length (memcpy_at dst off src) = length dst"
  by (simp add: memcpy_at_def)

lemma take_memcpy_at:
  "off \<le> length dst \<Longrightarrow> take (off + length src) (memcpy_at dst off src) = take off dst @ src"
  by (simp add: memcpy_at_def)

lemma memcpy_at_nth:
  assumes "off + length src \<le> length dst" "k < length dst"
  shows "memcpy_at dst off src ! k =
           (if off \<le> k \<and> k < off + length src then src ! (k - off) else dst ! k)"
  using assms by (auto simp: memcpy_at_def nth_append min_def)

lemma memcpy_at_append:
  assumes "off + length s + length t \<le> length dst"
  shows "memcpy_at (memcpy_at dst off s) (off + length s) t = memcpy_at dst off (s @ t)"
proof (rule nth_equalityI)
  show "length (memcpy_at (memcpy_at dst off s) (off + length s) t)
          = length (memcpy_at dst off (s @ t))"
    using assms by simp
  fix k assume "k < length (memcpy_at (memcpy_at dst off s) (off + length s) t)"
  then have "k < length dst" using assms by simp
  then show "memcpy_at (memcpy_at dst off s) (off + length s) t ! k
               = memcpy_at dst off (s @ t) ! k"
    using assms by (auto simp: memcpy_at_nth nth_append)
qed

lemma list_update_memcpy: "off < length out \<Longrightarrow> out[off := b] = memcpy_at out off [b]"
  by (simp add: memcpy_at_def upd_conv_take_nth_drop)

lemma memcpy_at_append_eq:
  "off' = off + length s \<Longrightarrow> off + length s + length t \<le> length dst \<Longrightarrow>
   memcpy_at (memcpy_at dst off s) off' t = memcpy_at dst off (s @ t)"
  using memcpy_at_append by simp

text \<open>Overwriting a block inside a block that was just written.\<close>

lemma memcpy_at_inside:
  assumes "length s = k" "length t = length u" "k + length t + length v \<le> length dst"
  shows "memcpy_at (memcpy_at dst 0 (s @ t @ v)) k u = memcpy_at dst 0 (s @ u @ v)"
proof (rule nth_equalityI)
  show "length (memcpy_at (memcpy_at dst 0 (s @ t @ v)) k u) = length (memcpy_at dst 0 (s @ u @ v))"
    using assms by simp
  fix j assume "j < length (memcpy_at (memcpy_at dst 0 (s @ t @ v)) k u)"
  then have "j < length dst" using assms by simp
  then show "memcpy_at (memcpy_at dst 0 (s @ t @ v)) k u ! j = memcpy_at dst 0 (s @ u @ v) ! j"
    using assms by (auto simp: memcpy_at_nth nth_append)
qed

lemma memcpy_at_Nil [simp]: "memcpy_at dst off [] = dst"
  by (simp add: memcpy_at_def)

lemma length_be16 [simp]: "length (be16 v) = 2"
  by (simp add: be16_def)

lemma length_be32 [simp]: "length (be32 v) = 4"
  by (simp add: be32_def)

lemma length_write_be [simp]:
  "length (write_be16 out off v) = length out" "length (write_be32 out off w) = length out"
  by (simp_all add: write_be16_def write_be32_def)

lemma write_be16_memcpy [endian_simps]:
  "off + 2 \<le> length out \<Longrightarrow> write_be16 out off v = memcpy_at out off (be16 v)"
  by (rule nth_equalityI)
     (auto simp: write_be16_def be16_def memcpy_at_nth nth_list_update nth_Cons split: nat.split)

lemma write_be32_memcpy [endian_simps]:
  assumes "off + 4 \<le> length out"
  shows "write_be32 out off v = memcpy_at out off (be32 v)"
proof (rule nth_equalityI)
  show "length (write_be32 out off v) = length (memcpy_at out off (be32 v))"
    using assms by simp
  fix k assume "k < length (write_be32 out off v)"
  then have k: "k < length out" by simp
  consider "k = off" | "k = off + 1" | "k = off + 2" | "k = off + 3"
    | "k < off" | "off + 4 \<le> k" by linarith
  then show "write_be32 out off v ! k = memcpy_at out off (be32 v) ! k"
    by cases (use assms k in \<open>simp_all add: write_be32_def be32_def memcpy_at_nth numeral_3_eq_3\<close>)
qed

lemma low_byte_mask: "(0xFF :: 'a::len word) = mask 8"
  by (simp add: mask_eq_exp_minus_1)

lemma read_be16_be16 [endian_simps]: "read_be16 (be16 v) 0 = v"
  by (rule bit_word_eqI) (auto simp: read_be16_def be16_def low_byte_mask bit_simps)

lemma read_be32_be32 [endian_simps]: "read_be32 (be32 v) 0 = v"
proof (rule bit_word_eqI)
  fix n assume "n < LENGTH(32)"
  then have "n < 8 \<or> 8 \<le> n \<and> n < 16 \<or> 16 \<le> n \<and> n < 24 \<or> 24 \<le> n \<and> n < 32" by auto
  then show "bit (read_be32 (be32 v) 0) n \<longleftrightarrow> bit v n"
    by (elim disjE) (auto simp: read_be32_def be32_def low_byte_mask bit_simps numeral_3_eq_3)
qed

lemma read_be16_append [endian_simps]:
  "length xs \<le> off \<Longrightarrow> read_be16 (xs @ ys) off = read_be16 ys (off - length xs)"
  by (simp add: read_be16_def nth_append Suc_diff_le)

lemma read_be32_append [endian_simps]:
  "length xs \<le> off \<Longrightarrow> read_be32 (xs @ ys) off = read_be32 ys (off - length xs)"
  by (simp add: read_be32_def nth_append Suc_diff_le)

lemma read_be16_prefix [endian_simps]:
  "off + 2 \<le> length xs \<Longrightarrow> read_be16 (xs @ ys) off = read_be16 xs off"
  by (simp add: read_be16_def nth_append)

lemma read_be32_prefix [endian_simps]:
  "off + 4 \<le> length xs \<Longrightarrow> read_be32 (xs @ ys) off = read_be32 xs off"
  by (simp add: read_be32_def nth_append)

lemma read_be32_drop: "off \<le> length bs \<Longrightarrow> read_be32 bs (off + j) = read_be32 (drop off bs) j"
  using read_be32_append [of "take off bs" "off + j" "drop off bs"] by simp

lemma read_be16_Cons [endian_simps]: "0 < n \<Longrightarrow> read_be16 (x # xs) n = read_be16 xs (n - 1)"
  by (cases n) (simp_all add: read_be16_def)

lemma read_be32_Cons [endian_simps]: "0 < n \<Longrightarrow> read_be32 (x # xs) n = read_be32 xs (n - 1)"
  by (cases n) (simp_all add: read_be32_def add.commute)

lemma be16_read_be16:
  assumes "off + 2 \<le> length bs"
  shows "be16 (read_be16 bs off) = take 2 (drop off bs)"
proof (rule nth_equalityI)
  show "length (be16 (read_be16 bs off)) = length (take 2 (drop off bs))" using assms by simp
  fix k assume "k < length (be16 (read_be16 bs off))"
  then have "k = 0 \<or> k = 1" by auto
  then show "be16 (read_be16 bs off) ! k = take 2 (drop off bs) ! k"
    using assms
    by (elim disjE; intro bit_word_eqI)
       (auto simp: be16_def read_be16_def low_byte_mask bit_simps dest: bit_imp_le_length)
qed

lemma be32_read_be32:
  assumes "off + 4 \<le> length bs"
  shows "be32 (read_be32 bs off) = take 4 (drop off bs)"
proof (rule nth_equalityI)
  show "length (be32 (read_be32 bs off)) = length (take 4 (drop off bs))" using assms by simp
  fix k assume "k < length (be32 (read_be32 bs off))"
  then have "k = 0 \<or> k = 1 \<or> k = 2 \<or> k = 3" by auto
  then show "be32 (read_be32 bs off) ! k = take 4 (drop off bs) ! k"
    using assms
    by (elim disjE; intro bit_word_eqI)
       (auto simp: be32_def read_be32_def low_byte_mask bit_simps numeral_3_eq_3
             dest: bit_imp_le_length)
qed

text \<open>The \<open>i\<close>-th block of a concatenation of blocks of equal length.\<close>

lemma length_concat_const: "(\<And>x. length (f x) = k) \<Longrightarrow> length (concat (map f xs)) = k * length xs"
  by (induction xs) auto

lemma drop_concat_const:
  assumes "\<And>x. length (f x) = k" "i < n"
  shows "\<exists>rest'. drop (k * i) (concat (map f [0..<n]) @ rest) = f i @ rest'"
proof -
  have "[0..<n] = [0..<i] @ i # [Suc i..<n]"
    using assms(2) upt_add_eq_append [of 0 i "n - i"] by (simp add: upt_conv_Cons)
  then have "concat (map f [0..<n]) = concat (map f [0..<i]) @ f i @ concat (map f [Suc i..<n])"
    by simp
  moreover have "length (concat (map f [0..<i])) = k * i"
    using length_concat_const [of f k "[0..<i]"] assms(1) by simp
  ultimately show ?thesis by simp
qed

section \<open>Lemmas: arithmetic that does not wrap\<close>

lemma unat_add_nowrap: "unat a + unat b < 2 ^ LENGTH('a) \<Longrightarrow> unat (a + b :: 'a::len word) = unat a + unat b"
  by (simp add: unat_word_ariths)

lemma unat_mult_nowrap: "unat a * unat b < 2 ^ LENGTH('a) \<Longrightarrow> unat (a * b :: 'a::len word) = unat a * unat b"
  by (simp add: unat_word_ariths)

lemma unat_min: "unat (min a b :: 'a::len word) = min (unat a) (unat b)"
  by (simp add: min_def word_le_nat_alt)

lemma unat_max: "unat (max a b :: 'a::len word) = max (unat a) (unat b)"
  by (simp add: max_def word_le_nat_alt)

lemma unat_sub_nowrap: "unat b \<le> unat a \<Longrightarrow> unat (a - b :: 'a::len word) = unat a - unat b"
  by (simp add: unat_sub word_le_nat_alt)

lemma unat_div_word: "unat (a div b :: 'a::len word) = unat a div unat b"
  by (rule unat_div_distrib)

lemma unat_u32_max: "unat (- 1 :: u32) = 2 ^ 32 - 1"
  by (simp add: unsigned_minus_1_eq_mask mask_eq_exp_minus_1)

lemma unat_u32_bound: "unat (w :: u32) < 2 ^ 32"
proof -
  have "unat w < 2 ^ LENGTH(32)" by (rule unsigned_less)
  then show ?thesis by simp
qed

lemma unat_u64_ucast_u32: "unat (ucast (w :: u32) :: u64) = unat w"
  using unat_u32_bound [of w] by (simp add: unsigned_ucast_eq take_bit_nat_eq_self)

lemma unat_u32_ucast_u64: "unat (w :: u64) < 2 ^ 32 \<Longrightarrow> unat (ucast w :: u32) = unat w"
  by (simp add: unsigned_ucast_eq take_bit_nat_eq_self)

lemmas nowrap_simps = unat_add_nowrap unat_mult_nowrap unat_min unat_max unat_sub_nowrap
  unat_div_word word_le_nat_alt word_less_nat_alt

section \<open>Lemmas: deadlines\<close>

lemma unat_u64_max: "unat (- 1 :: u64) = 2 ^ 64 - 1"
  by (simp add: unsigned_minus_1_eq_mask mask_eq_exp_minus_1)

lemma unat_u64_le: "unat (w :: u64) \<le> 2 ^ 64 - 1"
proof -
  have "unat w < 2 ^ LENGTH(64)" by (rule unsigned_less)
  then show ?thesis by simp
qed

lemma unat_deadline_from:
  "unat (deadline_from now d) = min (unat now + unat d) (2 ^ 64 - 1)"
proof -
  have m: "unat (- 1 - now :: u64) = 2 ^ 64 - 1 - unat now"
    by (subst unat_sub) (simp_all only: unat_u64_max word_order.extremum)
  show ?thesis
  proof (cases "d > - 1 - now")
    case True
    then have "2 ^ 64 - 1 - unat now < unat d" by (simp only: word_less_nat_alt m)
    with True show ?thesis by (simp add: deadline_from_def unat_u64_max)
  next
    case False
    then have "unat d \<le> 2 ^ 64 - 1 - unat now" by (simp only: word_less_nat_alt m not_less)
    then have "unat now + unat d \<le> 2 ^ 64 - 1" using unat_u64_le [of now] by linarith
    with False show ?thesis by (simp add: deadline_from_def unat_word_ariths)
  qed
qed

lemma deadline_from_mono: "s \<le> t \<Longrightarrow> deadline_from s d \<le> deadline_from t d"
  by (auto simp: word_le_nat_alt unat_deadline_from)

lemma deadline_from_ge: "now \<le> deadline_from now d"
  using unat_u64_le [of now] by (simp add: word_le_nat_alt unat_deadline_from)

end
