(* ===== verification/Conn_State_Machine.thy ===== *)
theory Conn_State_Machine
  imports Prelude
begin

text \<open>
  The connection state machine (\<^verbatim>\<open>include/vectornet/transport/state_machine.hpp\<close>,
  \<^verbatim>\<open>src/transport/state_machine.cpp\<close>): the transition table with its 23 rows, and \<open>handle\<close>, which
  looks an event up in it and closes the connection when there is no row.

  \<open>documented\<close> is the transition table of \<^verbatim>\<open>LLD.md\<close> 4.2 as an inductive relation, and \<open>tabled\<close> adds the two rows
  that only the code and \<^verbatim>\<open>src/transport/README.md\<close> have. The lemmas show that the code has the rows of \<open>tabled\<close> and no
  other, so that it implements the documented table outside those two, and that a connection attempt answers with
  at most one RST.
\<close>

datatype ConnectionState = closed | syn_sent | syn_received | established | fin_wait_1
  | fin_wait_2 | close_wait | last_ack | time_wait | state_count

datatype ConnectionEvent = app_connect | app_close | receive_syn | receive_syn_ack | receive_ack
  | receive_fin | receive_rst | time_wait_expired | event_count

type_synonym ConnectionAction = u16

definition act_none :: ConnectionAction where "act_none = 0"
definition send_syn :: ConnectionAction where "send_syn = push_bit 0 1"
definition send_ack :: ConnectionAction where "send_ack = push_bit 1 1"
definition send_fin :: ConnectionAction where "send_fin = push_bit 2 1"
definition send_rst :: ConnectionAction where "send_rst = push_bit 3 1"
definition notify_connected :: ConnectionAction where "notify_connected = push_bit 4 1"
definition notify_closed :: ConnectionAction where "notify_closed = push_bit 5 1"
definition notify_error :: ConnectionAction where "notify_error = push_bit 6 1"

definition has_action :: "ConnectionAction \<Rightarrow> ConnectionAction \<Rightarrow> bool" where
  "has_action actions action \<longleftrightarrow> actions AND action \<noteq> 0"

record TransitionResult =
  tr_previous :: ConnectionState
  tr_current :: ConnectionState
  tr_actions :: ConnectionAction
  tr_accepted :: bool

record Transition =
  t_from :: ConnectionState
  t_event :: ConnectionEvent
  t_to :: ConnectionState
  t_actions :: ConnectionAction

record ConnectionStateMachine =
  sm_state :: ConnectionState
  sm_reset_sent :: bool

definition kSynAck :: ConnectionAction where "kSynAck = send_syn OR send_ack"
definition kCloseError :: ConnectionAction where "kCloseError = notify_error OR notify_closed"

definition row :: "ConnectionState \<Rightarrow> ConnectionEvent \<Rightarrow> ConnectionState \<Rightarrow> ConnectionAction \<Rightarrow> Transition"
  where "row f e t a = \<lparr>t_from = f, t_event = e, t_to = t, t_actions = a\<rparr>"

definition kTransitions :: "Transition list" where
  "kTransitions =
    [row closed app_connect syn_sent send_syn,
     row closed receive_syn syn_received kSynAck,
     row syn_sent receive_syn syn_received kSynAck,
     row syn_sent receive_syn_ack established (send_ack OR notify_connected),
     row syn_received receive_ack established notify_connected,
     row established app_close fin_wait_1 send_fin,
     row established receive_fin close_wait send_ack,
     row fin_wait_1 receive_ack fin_wait_2 act_none,
     row fin_wait_1 receive_fin time_wait send_ack,
     row fin_wait_2 receive_fin time_wait send_ack,
     row close_wait app_close last_ack send_fin,
     row last_ack receive_ack closed notify_closed,
     row time_wait time_wait_expired closed notify_closed,
     row syn_sent receive_rst closed kCloseError,
     row syn_received receive_rst closed kCloseError,
     row established receive_rst closed kCloseError,
     row fin_wait_1 receive_rst closed kCloseError,
     row fin_wait_2 receive_rst closed kCloseError,
     row close_wait receive_rst closed kCloseError,
     row last_ack receive_rst closed kCloseError,
     row time_wait receive_rst closed kCloseError,
     row closed receive_rst closed notify_error,
     row closed time_wait_expired closed act_none]"

definition initial_machine :: ConnectionStateMachine where
  "initial_machine = \<lparr>sm_state = closed, sm_reset_sent = False\<rparr>"

definition handle ::
  "ConnectionStateMachine \<Rightarrow> ConnectionEvent \<Rightarrow> ConnectionStateMachine \<times> TransitionResult" where
  "handle m event =
     (let previous = sm_state m in
      case find (\<lambda>t. \<not> (t_from t \<noteq> sm_state m \<or> t_event t \<noteq> event)) kTransitions of
        Some t \<Rightarrow>
          let m = m\<lparr>sm_state := t_to t\<rparr>;
              m = (if previous = closed \<and> (event = app_connect \<or> event = receive_syn)
                   then m\<lparr>sm_reset_sent := False\<rparr> else m)
          in (m, \<lparr>tr_previous = previous, tr_current = sm_state m, tr_actions = t_actions t,
                  tr_accepted = True\<rparr>)
      | None \<Rightarrow>
          let actions = notify_error;
              actions = (if \<not> sm_reset_sent m then actions OR send_rst else actions);
              m = (if \<not> sm_reset_sent m then m\<lparr>sm_reset_sent := True\<rparr> else m);
              m = m\<lparr>sm_state := closed\<rparr>
          in (m, \<lparr>tr_previous = previous, tr_current = sm_state m, tr_actions = actions,
                  tr_accepted = False\<rparr>))"

text \<open>The machine's answers to a sequence of events.\<close>

fun handle_all :: "ConnectionStateMachine \<Rightarrow> ConnectionEvent list \<Rightarrow> TransitionResult list" where
  "handle_all m [] = []"
| "handle_all m (e # es) = (case handle m e of (m', r) \<Rightarrow> r # handle_all m' es)"

section \<open>The documented table\<close>

text \<open>
  The transition table of \<^verbatim>\<open>LLD.md\<close> 4.2, with the notifications that the table of \<^verbatim>\<open>src/transport/README.md\<close> adds to its
  rows. A pair of a state and an event with no row is invalid.
\<close>

inductive documented ::
  "ConnectionState \<Rightarrow> ConnectionEvent \<Rightarrow> ConnectionState \<Rightarrow> ConnectionAction \<Rightarrow> bool" where
  "documented closed app_connect syn_sent send_syn"
| "documented closed receive_syn syn_received (send_syn OR send_ack)"
| "documented syn_sent receive_syn_ack established (send_ack OR notify_connected)"
| "documented syn_received receive_ack established notify_connected"
| "documented established app_close fin_wait_1 send_fin"
| "documented established receive_fin close_wait send_ack"
| "documented fin_wait_1 receive_ack fin_wait_2 act_none"
| "documented fin_wait_1 receive_fin time_wait send_ack"
| "documented fin_wait_2 receive_fin time_wait send_ack"
| "documented close_wait app_close last_ack send_fin"
| "documented last_ack receive_ack closed notify_closed"
| "documented time_wait time_wait_expired closed notify_closed"
| "s \<noteq> closed \<Longrightarrow> s \<noteq> state_count \<Longrightarrow> documented s receive_rst closed (notify_error OR notify_closed)"
| "documented closed receive_rst closed notify_error"

text \<open>
  Two pairs are accepted by the code, by its test and by the README, while \<^verbatim>\<open>LLD.md\<close> has no row for them: a SYN in
  SYN_SENT and the expiry of TIME_WAIT in CLOSED.
\<close>

definition disputed :: "ConnectionState \<Rightarrow> ConnectionEvent \<Rightarrow> bool" where
  "disputed s e \<longleftrightarrow> s = syn_sent \<and> e = receive_syn \<or> s = closed \<and> e = time_wait_expired"

text \<open>The rows of the code as a relation: the documented ones and the two disputed ones.\<close>

inductive tabled ::
  "ConnectionState \<Rightarrow> ConnectionEvent \<Rightarrow> ConnectionState \<Rightarrow> ConnectionAction \<Rightarrow> bool" where
  "documented s e t a \<Longrightarrow> tabled s e t a"
| "tabled syn_sent receive_syn syn_received (send_syn OR send_ack)"
| "tabled closed time_wait_expired closed act_none"

lemmas action_defs = act_none_def send_syn_def send_ack_def send_fin_def send_rst_def
  notify_connected_def notify_closed_def notify_error_def kSynAck_def kCloseError_def

inductive_cases documentedE: "documented s e t a"

inductive_simps documented_simps: "documented s e t a"

lemma tabled_simps:
  "tabled s e t a \<longleftrightarrow> documented s e t a \<or> s = syn_sent \<and> e = receive_syn \<and> t = syn_received \<and> a = send_syn OR send_ack \<or>
     s = closed \<and> e = time_wait_expired \<and> t = closed \<and> a = act_none"
  by (auto simp: tabled.simps)

lemma documented_undisputed: "documented s e t a \<Longrightarrow> \<not> disputed s e"
  by (auto simp: disputed_def elim!: documentedE)

lemma tabled_undisputed: "\<not> disputed s e \<Longrightarrow> tabled s e t a \<longleftrightarrow> documented s e t a"
  by (auto simp: tabled_simps disputed_def)

section \<open>The table lookup\<close>

definition lookup_row :: "ConnectionState \<Rightarrow> ConnectionEvent \<Rightarrow> Transition option" where
  "lookup_row s e = find (\<lambda>t. \<not> (t_from t \<noteq> s \<or> t_event t \<noteq> e)) kTransitions"

lemma lookup_row_tabled:
  "(case lookup_row s e of Some r \<Rightarrow> tabled s e (t_to r) (t_actions r)
    | None \<Rightarrow> \<not> (\<exists>t a. tabled s e t a))"
  by (cases s; cases e)
     (simp_all add: lookup_row_def kTransitions_def row_def tabled_simps documented_simps kSynAck_def
        kCloseError_def)

lemma tabled_deterministic:
  "tabled s e t a \<Longrightarrow> tabled s e t' a' \<Longrightarrow> t = t' \<and> a = a'"
  by (auto simp: tabled_simps elim!: documentedE)

lemma lookup_row_Some: "tabled s e t a \<Longrightarrow>
   \<exists>r. lookup_row s e = Some r \<and> t_to r = t \<and> t_actions r = a"
  using lookup_row_tabled [of s e] tabled_deterministic
  by (cases "lookup_row s e") auto

lemma lookup_row_None: "\<not> (\<exists>t a. tabled s e t a) \<Longrightarrow> lookup_row s e = None"
  using lookup_row_tabled [of s e] by (cases "lookup_row s e") auto

lemma handle_tabled:
  assumes "tabled (sm_state m) e t a"
  shows "handle m e =
    (\<lparr>sm_state = t, sm_reset_sent = (if sm_state m = closed \<and> (e = app_connect \<or> e = receive_syn)
                                     then False else sm_reset_sent m)\<rparr>,
     \<lparr>tr_previous = sm_state m, tr_current = t, tr_actions = a, tr_accepted = True\<rparr>)"
  using lookup_row_Some [OF assms]
  by (cases m) (auto simp: handle_def lookup_row_def Let_def)

lemma handle_untabled:
  assumes "\<not> (\<exists>t a. tabled (sm_state m) e t a)"
  shows "handle m e =
    (\<lparr>sm_state = closed, sm_reset_sent = True\<rparr>,
     \<lparr>tr_previous = sm_state m, tr_current = closed,
      tr_actions = (if sm_reset_sent m then notify_error else notify_error OR send_rst),
      tr_accepted = False\<rparr>)"
  using lookup_row_None [OF assms]
  by (cases m) (auto simp: handle_def lookup_row_def Let_def)

text \<open>Whether an event starts a new connection attempt.\<close>

definition starts_attempt :: "TransitionResult \<Rightarrow> bool" where
  "starts_attempt r \<longleftrightarrow> tr_previous r = closed \<and> tr_current r \<in> {syn_sent, syn_received}"

lemma tabled_no_rst: "tabled s e t a \<Longrightarrow> \<not> has_action a send_rst"
  by (auto simp: tabled_simps has_action_def action_defs elim!: documentedE)

lemma tabled_attempt:
  "tabled closed e t a \<Longrightarrow> t \<in> {syn_sent, syn_received} \<longleftrightarrow> e = app_connect \<or> e = receive_syn"
  by (auto simp: tabled_simps elim!: documentedE)

lemma handle_rst_once:
  assumes "handle m e = (m', r)" "\<not> starts_attempt r"
  shows "(has_action (tr_actions r) send_rst \<longrightarrow> \<not> sm_reset_sent m \<and> sm_reset_sent m') \<and>
         (sm_reset_sent m \<longrightarrow> sm_reset_sent m')"
proof (cases "\<exists>t a. tabled (sm_state m) e t a")
  case True
  then obtain t a where d: "tabled (sm_state m) e t a" by blast
  then show ?thesis
    using assms tabled_no_rst [OF d] tabled_attempt [of e t a]
    by (auto simp: handle_tabled [OF d] starts_attempt_def)
next
  case False
  then show ?thesis
    using assms by (auto simp: handle_untabled has_action_def action_defs)
qed

lemma handle_all_rst_once:
  "\<forall>r \<in> set (handle_all m es). \<not> starts_attempt r \<Longrightarrow>
   length (filter (\<lambda>r. has_action (tr_actions r) send_rst) (handle_all m es))
     \<le> (if sm_reset_sent m then 0 else 1)"
proof (induction es arbitrary: m)
  case Nil
  show ?case by simp
next
  case (Cons e es)
  obtain m' r where h: "handle m e = (m', r)" by fastforce
  then have "\<not> starts_attempt r" "\<forall>r \<in> set (handle_all m' es). \<not> starts_attempt r"
    using Cons.prems by auto
  then show ?case
    using Cons.IH [of m'] handle_rst_once [OF h] h by (auto split: if_splits)
qed

section \<open>Properties\<close>

text \<open>
  Claim C12. The state machine implements the transition table of \<^verbatim>\<open>LLD.md\<close> 4.2: an event with a row moves to
  the row's state and asks for exactly the row's actions; any other event is rejected, closes the connection, reports
  an error and asks for an RST unless one was asked for already. Excepted are the two pairs that \<^verbatim>\<open>LLD.md\<close> does not list
  and the code accepts.
\<close>

theorem state_machine_refines_table:
  assumes "\<not> disputed (sm_state m) e"
  shows "case handle m e of (m', r) \<Rightarrow>
      if (\<exists>t a. documented (sm_state m) e t a)
      then tr_accepted r \<and> documented (sm_state m) e (sm_state m') (tr_actions r) \<and>
           tr_current r = sm_state m' \<and> tr_previous r = sm_state m
      else \<not> tr_accepted r \<and> sm_state m' = closed \<and> tr_current r = closed \<and> tr_previous r = sm_state m \<and>
           sm_reset_sent m' \<and>
           tr_actions r = (if sm_reset_sent m then notify_error else notify_error OR send_rst)"
proof (cases "\<exists>t a. documented (sm_state m) e t a")
  case True
  then obtain t a where d: "tabled (sm_state m) e t a" by (auto simp: tabled_simps)
  then show ?thesis using True assms by (auto simp: handle_tabled [OF d] tabled_undisputed)
next
  case False
  then have "\<not> (\<exists>t a. tabled (sm_state m) e t a)" using assms by (simp add: tabled_undisputed)
  from handle_untabled [OF this] show ?thesis using False by simp
qed

theorem state_machine_refines_table_witness:
  "\<not> disputed closed app_connect \<and>
   (case handle initial_machine app_connect of (m', r) \<Rightarrow>
      if (\<exists>t a. documented closed app_connect t a)
      then tr_accepted r \<and> documented closed app_connect (sm_state m') (tr_actions r) \<and>
           tr_current r = sm_state m' \<and> tr_previous r = closed
      else \<not> tr_accepted r \<and> sm_state m' = closed \<and> tr_current r = closed \<and> tr_previous r = closed \<and>
           sm_reset_sent m' \<and> tr_actions r = notify_error OR send_rst)"
proof -
  have d: "\<not> disputed (sm_state initial_machine) app_connect" by (simp add: disputed_def initial_machine_def)
  have "sm_state initial_machine = closed" "\<not> sm_reset_sent initial_machine" by (simp_all add: initial_machine_def)
  then show ?thesis using state_machine_refines_table [OF d] d by (simp cong: if_cong del: split_paired_Ex)
qed

text \<open>What the code does in the two disputed cases.\<close>

lemma disputed_accepted:
  "disputed (sm_state m) e \<Longrightarrow> tr_accepted (snd (handle m e)) \<and>
     sm_state (fst (handle m e)) = (if e = receive_syn then syn_received else closed)"
  using handle_tabled [of m receive_syn syn_received "send_syn OR send_ack"]
    handle_tabled [of m time_wait_expired closed act_none]
  by (auto simp: disputed_def tabled.intros(2,3))

text \<open>
  Claim C21. Between two connection attempts the machine asks for at most one RST, whatever events
  arrive and in whatever order.
\<close>

theorem at_most_one_reset:
  assumes "\<forall>r \<in> set (handle_all m es). \<not> starts_attempt r"
  shows "length (filter (\<lambda>r. has_action (tr_actions r) send_rst) (handle_all m es)) \<le> 1"
  using handle_all_rst_once [OF assms] by (simp split: if_splits)

theorem at_most_one_reset_witness:
  "length (filter (\<lambda>r. has_action (tr_actions r) send_rst)
     (handle_all initial_machine [receive_fin, receive_ack, app_close, receive_rst])) \<le> 1"
proof -
  have "\<forall>r \<in> set (handle_all initial_machine [receive_fin, receive_ack, app_close, receive_rst]).
          \<not> starts_attempt r"
    by (simp add: initial_machine_def handle_def kTransitions_def row_def starts_attempt_def)
  then show ?thesis by (rule at_most_one_reset)
qed

end
