(* ===== verification/Sequence.thy ===== *)
theory Sequence
  imports Prelude
begin

text \<open>
  Modulo-2^32 sequence numbers (\<^verbatim>\<open>include/vectornet/transport/sequence.hpp\<close>).

  \<open>sequence_less\<close>, \<open>sequence_less_equal\<close> and \<open>sequence_greater\<close> are the three comparisons of the
  source. They are no order on all 32-bit words; \<open>seq_off c x\<close>, the distance from \<open>c\<close> up to \<open>x\<close>,
  makes them the order of the distances for any two numbers that lie less than 2^31 above a common
  base. The locale \<open>seq_window\<close> states that contract, and every component that compares sequence
  numbers uses its lemmas through the interpretation \<open>seq32\<close>.
\<close>

definition sequence_less :: "u32 \<Rightarrow> u32 \<Rightarrow> bool" where
  "sequence_less left right \<longleftrightarrow> sint (left - right) < 0"

definition sequence_less_equal :: "u32 \<Rightarrow> u32 \<Rightarrow> bool" where
  "sequence_less_equal left right \<longleftrightarrow> left = right \<or> sequence_less left right"

definition sequence_greater :: "u32 \<Rightarrow> u32 \<Rightarrow> bool" where
  "sequence_greater left right \<longleftrightarrow> sequence_less right left"

text \<open>The distance from the base \<open>c\<close> up to \<open>x\<close>, modulo 2^32.\<close>

definition seq_off :: "u32 \<Rightarrow> u32 \<Rightarrow> nat" where
  "seq_off c x = unat (x - c)"

section \<open>The contract of wrap-safe comparison\<close>

locale seq_window =
  fixes lt :: "'a \<Rightarrow> 'a \<Rightarrow> bool" and le :: "'a \<Rightarrow> 'a \<Rightarrow> bool"
    and off :: "'a \<Rightarrow> 'a \<Rightarrow> nat" and half :: nat
  assumes lt_iff: "off c a < half \<Longrightarrow> off c b < half \<Longrightarrow> lt a b \<longleftrightarrow> off c a < off c b"
    and le_iff: "off c a < half \<Longrightarrow> off c b < half \<Longrightarrow> le a b \<longleftrightarrow> off c a \<le> off c b"
    and below_iff: "lt a c \<longleftrightarrow> half \<le> off c a"
    and off_inj: "off c a = off c b \<Longrightarrow> a = b"
    and off_base: "off c c = 0"
begin

lemma irrefl: "off c a < half \<Longrightarrow> \<not> lt a a"
  by (simp add: lt_iff [of c a a])

lemma trans_in_window:
  "off c a < half \<Longrightarrow> off c b < half \<Longrightarrow> off c d < half \<Longrightarrow> lt a b \<Longrightarrow> lt b d \<Longrightarrow> lt a d"
  by (simp add: lt_iff [of c])

lemma total_in_window:
  "off c a < half \<Longrightarrow> off c b < half \<Longrightarrow> lt a b \<or> a = b \<or> lt b a"
  using off_inj [of c a b] by (auto simp: lt_iff [of c])

lemma le_total_in_window:
  "off c a < half \<Longrightarrow> off c b < half \<Longrightarrow> le a b \<longleftrightarrow> \<not> lt b a"
  by (auto simp: lt_iff [of c] le_iff [of c])

lemma base_le: "off c a < half \<Longrightarrow> le c a"
  by (simp add: le_iff [of c] off_base)

end

section \<open>The source's comparisons satisfy it\<close>

lemma sint_neg_iff: "sint (w :: u32) < 0 \<longleftrightarrow> 2 ^ 31 \<le> unat w"
proof -
  have "unat w < 2 ^ LENGTH(32)" by (rule unsigned_less)
  then have lt: "unat w div 2 ^ 31 < 2" by (simp add: div_less_iff_less_mult)
  have "sint w < 0 \<longleftrightarrow> bit w 31"
    by (simp add: bit_last_iff [where 'a = 32, symmetric])
  also have "\<dots> \<longleftrightarrow> bit (unat w) 31" by (simp add: bit_unsigned_iff)
  also have "\<dots> \<longleftrightarrow> odd (unat w div 2 ^ 31)" by (simp add: bit_iff_odd)
  also have "\<dots> \<longleftrightarrow> unat w div 2 ^ 31 \<noteq> 0" using lt by (auto simp: less_2_cases_iff)
  also have "\<dots> \<longleftrightarrow> 2 ^ 31 \<le> unat w" by (simp add: div_eq_0_iff not_less)
  finally show ?thesis .
qed

lemma seq_off_self [simp]: "seq_off c c = 0"
  by (simp add: seq_off_def)

lemma seq_off_eq_0 [simp]: "seq_off c x = 0 \<longleftrightarrow> x = c"
  by (simp add: seq_off_def unat_eq_0)

lemma seq_off_pos [simp]: "0 < seq_off c x \<longleftrightarrow> x \<noteq> c"
  using seq_off_eq_0 [of c x] by linarith

lemma seq_off_inject: "seq_off c a = seq_off c b \<Longrightarrow> a = b"
  using unsigned_word_eqI [of "a - c" "b - c"] by (simp add: seq_off_def)

lemma seq_off_bound: "seq_off c x < 2 ^ 32"
proof -
  have "unat (x - c) < 2 ^ LENGTH(32)" by (rule unsigned_less)
  then show ?thesis by (simp add: seq_off_def)
qed

lemma seq_off_add: "seq_off c a + n < 2 ^ 32 \<Longrightarrow> seq_off c (a + of_nat n) = seq_off c a + n"
proof -
  assume "seq_off c a + n < 2 ^ 32"
  moreover from this have "unat (of_nat n :: u32) = n"
    by (simp add: unat_of_nat take_bit_nat_eq_self)
  moreover have "unat (a + of_nat n - c) = unat ((a - c) + of_nat n)"
    by (simp add: algebra_simps)
  ultimately show ?thesis by (simp add: seq_off_def unat_word_ariths)
qed

lemma seq_off_of_add: "n < 2 ^ 32 \<Longrightarrow> seq_off c (c + of_nat n) = n"
  using seq_off_add [of c c n] by simp

lemma seq_off_recover: "c + of_nat (seq_off c x) = x"
  by (simp add: seq_off_def)

lemma seq_off_triangle:
  assumes "seq_off c d \<le> seq_off c x"
  shows "seq_off d x = seq_off c x - seq_off c d"
proof -
  have "d - c \<le> x - c" using assms by (simp add: seq_off_def word_le_nat_alt)
  then have "unat ((x - c) - (d - c)) = unat (x - c) - unat (d - c)" by (rule unat_sub)
  then show ?thesis by (simp add: seq_off_def)
qed

lemma seq_off_below:
  assumes "seq_off c x < seq_off c d"
  shows "seq_off d x = 2 ^ 32 + seq_off c x - seq_off c d"
proof -
  have "unat ((x - c) - (d - c)) = unat (x - c) + 2 ^ 32 - unat (d - c)"
    using assms unat_sub_if_size [of "x - c" "d - c"] by (simp add: seq_off_def word_size)
  then show ?thesis by (simp add: seq_off_def)
qed

lemma sequence_less_iff [seq_simps]:
  assumes "seq_off c a < 2 ^ 31" "seq_off c b < 2 ^ 31"
  shows "sequence_less a b \<longleftrightarrow> seq_off c a < seq_off c b"
proof (cases "seq_off c a < seq_off c b")
  case True
  with assms show ?thesis
    by (simp add: sequence_less_def sint_neg_iff seq_off_below [of c a b] flip: seq_off_def)
next
  case False
  with assms show ?thesis
    by (simp add: sequence_less_def sint_neg_iff seq_off_triangle [of c b a] flip: seq_off_def)
qed

lemma sequence_less_equal_iff [seq_simps]:
  assumes "seq_off c a < 2 ^ 31" "seq_off c b < 2 ^ 31"
  shows "sequence_less_equal a b \<longleftrightarrow> seq_off c a \<le> seq_off c b"
  using assms seq_off_inject [of c a b]
  by (auto simp: sequence_less_equal_def sequence_less_iff [of c])

lemma sequence_less_base: "sequence_less a c \<longleftrightarrow> 2 ^ 31 \<le> seq_off c a"
  by (simp add: sequence_less_def sint_neg_iff seq_off_def)

lemma sequence_greater_base: "sequence_greater a c \<longleftrightarrow> 2 ^ 31 \<le> seq_off a c"
  by (simp add: sequence_greater_def sequence_less_base)

interpretation seq32: seq_window sequence_less sequence_less_equal seq_off "2 ^ 31"
proof unfold_locales
  show "sequence_less a c \<longleftrightarrow> 2 ^ 31 \<le> seq_off c a" for a c
    by (rule sequence_less_base)
qed (auto simp only: sequence_less_iff sequence_less_equal_iff seq_off_self
          dest: seq_off_inject)

lemma sequence_less_irrefl [simp]: "\<not> sequence_less a a"
  by (simp add: sequence_less_def)

lemma sequence_less_equal_refl [simp]: "sequence_less_equal a a"
  by (simp add: sequence_less_equal_def)

end
