(* ===== verification/Codec.thy ===== *)
theory Codec
  imports Prelude
begin

text \<open>
  The contract of a wire format: an encoder and a decoder that reports how many bytes it consumed.
  The transport header, the ARP message and the IPv4 header of the stack are interpretations of the
  locale, in the theories of those formats.
\<close>

locale codec =
  fixes enc :: "'m \<Rightarrow> byte list"
    and dec :: "byte list \<Rightarrow> ('m \<times> nat) option"
    and ok :: "'m \<Rightarrow> bool"
  assumes dec_enc: "ok m \<Longrightarrow> dec (enc m @ rest) = Some (m, length (enc m))"
    and enc_dec: "dec bs = Some (m, n) \<Longrightarrow> ok m \<and> n \<le> length bs \<and> take n bs = enc m"
begin

lemma consumed: "dec bs = Some (m, n) \<Longrightarrow> n = length (enc m)"
  using enc_dec [of bs m n] by (metis length_take min.absorb2)

lemma dec_iff:
  "dec bs = Some (m, n) \<longleftrightarrow> ok m \<and> n = length (enc m) \<and> (\<exists>rest. bs = enc m @ rest)"
proof
  assume d: "dec bs = Some (m, n)"
  then have "bs = enc m @ drop n bs" using enc_dec [OF d] by (metis append_take_drop_id)
  then show "ok m \<and> n = length (enc m) \<and> (\<exists>rest. bs = enc m @ rest)"
    using enc_dec [OF d] consumed [OF d] by blast
next
  assume "ok m \<and> n = length (enc m) \<and> (\<exists>rest. bs = enc m @ rest)"
  then show "dec bs = Some (m, n)" using dec_enc by blast
qed

lemma accepts_exactly: "dec bs \<noteq> None \<longleftrightarrow> (\<exists>m rest. ok m \<and> bs = enc m @ rest)"
proof
  assume "dec bs \<noteq> None"
  then obtain m n where "dec bs = Some (m, n)" by auto
  then show "\<exists>m rest. ok m \<and> bs = enc m @ rest" using dec_iff by blast
next
  assume "\<exists>m rest. ok m \<and> bs = enc m @ rest"
  then show "dec bs \<noteq> None" using dec_enc by auto
qed

lemma unique_parse:
  assumes "ok a" "ok b" "enc a @ r = enc b @ s"
  shows "a = b \<and> r = s"
proof -
  have "Some (a, length (enc a)) = Some (b, length (enc b))"
    using dec_enc [OF assms(1), of r] dec_enc [OF assms(2), of s] assms(3) by simp
  then show ?thesis using assms(3) by simp
qed

end

end
