(* ===== verification/Wire.thy ===== *)
theory Wire
  imports Sequence Codec
begin

text \<open>
  The transport wire format (\<^verbatim>\<open>include/vectornet/transport/wire.hpp\<close>,
  \<^verbatim>\<open>src/transport/wire.cpp\<close>): a 12-byte fixed header followed by at most four 8-byte SACK blocks.

  \<open>serialize_transport_header\<close> writes into an output span and \<open>parse_transport_header\<close> reads an
  input span; both return the status, the span or header they wrote, and the number of bytes written
  or consumed. The lemmas show the two are inverse to each other in both directions.
\<close>

definition kTransportFixedHeaderBytes :: nat where "kTransportFixedHeaderBytes = 12"
definition kSackBlockBytes :: nat where "kSackBlockBytes = 8"
definition kMaximumSackBlocks :: nat where "kMaximumSackBlocks = 4"
definition kMaximumTransportHeaderBytes :: nat where
  "kMaximumTransportHeaderBytes = kTransportFixedHeaderBytes + kMaximumSackBlocks * kSackBlockBytes"

definition kFlagSyn :: u8 where "kFlagSyn = 0x01"
definition kFlagAck :: u8 where "kFlagAck = 0x02"
definition kFlagFin :: u8 where "kFlagFin = 0x04"
definition kFlagRst :: u8 where "kFlagRst = 0x08"
definition kKnownFlags :: u8 where
  "kKnownFlags = kFlagSyn OR kFlagAck OR kFlagFin OR kFlagRst"

record SackBlock =
  sb_start :: u32
  sb_end :: u32

record TransportHeader =
  th_sequence :: u32
  th_cumulative_ack :: u32
  th_flags :: u8
  th_sack_count :: u8
  th_window :: u16
  th_sacks :: "SackBlock list"

datatype WireStatus = wire_ok | buffer_too_small | invalid_flags | too_many_sacks
  | invalid_sack_range

definition default_SackBlock :: SackBlock where
  "default_SackBlock = \<lparr>sb_start = 0, sb_end = 0\<rparr>"

definition default_sacks :: "SackBlock list" where
  "default_sacks = replicate kMaximumSackBlocks default_SackBlock"

definition write_u16 :: "byte list \<Rightarrow> nat \<Rightarrow> u16 \<Rightarrow> byte list" where
  "write_u16 output offset v =
     output[offset := ucast (drop_bit 8 v), offset + 1 := ucast (v AND 0xFF)]"

definition write_u32 :: "byte list \<Rightarrow> nat \<Rightarrow> u32 \<Rightarrow> byte list" where
  "write_u32 output offset v =
     output[offset := ucast (drop_bit 24 v), offset + 1 := ucast (drop_bit 16 v AND 0xFF),
            offset + 2 := ucast (drop_bit 8 v AND 0xFF), offset + 3 := ucast (v AND 0xFF)]"

definition read_u16 :: "byte list \<Rightarrow> nat \<Rightarrow> u16" where
  "read_u16 input offset = push_bit 8 (ucast (input ! offset)) OR ucast (input ! (offset + 1))"

definition read_u32 :: "byte list \<Rightarrow> nat \<Rightarrow> u32" where
  "read_u32 input offset =
     push_bit 24 (ucast (input ! offset)) OR push_bit 16 (ucast (input ! (offset + 1)))
     OR push_bit 8 (ucast (input ! (offset + 2))) OR ucast (input ! (offset + 3))"

definition validate :: "TransportHeader \<Rightarrow> WireStatus" where
  "validate header =
     (if th_flags header AND NOT kKnownFlags \<noteq> 0 then invalid_flags
      else if unat (th_sack_count header) > kMaximumSackBlocks then too_many_sacks
      else if list_ex (\<lambda>index. sb_start (th_sacks header ! index) = sb_end (th_sacks header ! index))
                [0..<unat (th_sack_count header)]
      then invalid_sack_range
      else wire_ok)"

text \<open>The loops over the declared SACK blocks of the two functions below.\<close>

definition write_sacks :: "SackBlock list \<Rightarrow> nat \<Rightarrow> byte list \<Rightarrow> byte list" where
  "write_sacks sacks n output =
     fold (\<lambda>index out.
         let offset = kTransportFixedHeaderBytes + index * kSackBlockBytes in
         write_u32 (write_u32 out offset (sb_start (sacks ! index)))
           (offset + 4) (sb_end (sacks ! index)))
       [0..<n] output"

definition read_sacks :: "byte list \<Rightarrow> nat \<Rightarrow> SackBlock list \<Rightarrow> SackBlock list" where
  "read_sacks input n sacks =
     fold (\<lambda>index sacks.
         let offset = kTransportFixedHeaderBytes + index * kSackBlockBytes in
         sacks[index := \<lparr>sb_start = read_u32 input offset, sb_end = read_u32 input (offset + 4)\<rparr>])
       [0..<n] sacks"

definition serialize_transport_header ::
  "TransportHeader \<Rightarrow> byte list \<Rightarrow> WireStatus \<times> byte list \<times> nat" where
  "serialize_transport_header header output =
     (let status = validate header in
      if status \<noteq> wire_ok then (status, output, 0)
      else
        let needed = kTransportFixedHeaderBytes + unat (th_sack_count header) * kSackBlockBytes in
        if length output < needed then (buffer_too_small, output, 0)
        else
          let output = write_u32 output 0 (th_sequence header);
              output = write_u32 output 4 (th_cumulative_ack header);
              output = output[8 := th_flags header];
              output = output[9 := th_sack_count header];
              output = write_u16 output 10 (th_window header);
              output = write_sacks (th_sacks header) (unat (th_sack_count header)) output
          in (wire_ok, output, needed))"

definition parse_transport_header ::
  "byte list \<Rightarrow> TransportHeader \<Rightarrow> WireStatus \<times> TransportHeader \<times> nat" where
  "parse_transport_header input header =
     (if length input < kTransportFixedHeaderBytes then (buffer_too_small, header, 0)
      else
        let parsed = \<lparr>th_sequence = read_u32 input 0, th_cumulative_ack = read_u32 input 4,
                      th_flags = input ! 8, th_sack_count = input ! 9,
                      th_window = read_u16 input 10, th_sacks = default_sacks\<rparr> in
        if unat (th_sack_count parsed) > kMaximumSackBlocks then (too_many_sacks, header, 0)
        else
          let needed = kTransportFixedHeaderBytes + unat (th_sack_count parsed) * kSackBlockBytes in
          if length input < needed then (buffer_too_small, header, 0)
          else
            let parsed = parsed\<lparr>th_sacks :=
                  read_sacks input (unat (th_sack_count parsed)) (th_sacks parsed)\<rparr>;
                status = validate parsed
            in if status \<noteq> wire_ok then (status, header, 0)
               else (wire_ok, parsed, needed))"

section \<open>Well-formed headers and their encoding\<close>

text \<open>
  A header whose block array has its four entries, with the entries past the declared count still at
  their default value; the parser only produces such headers.
\<close>

definition header_padded :: "TransportHeader \<Rightarrow> bool" where
  "header_padded h \<longleftrightarrow> length (th_sacks h) = kMaximumSackBlocks \<and>
     (\<forall>i < kMaximumSackBlocks. unat (th_sack_count h) \<le> i \<longrightarrow> th_sacks h ! i = default_SackBlock)"

definition header_bytes_of :: "TransportHeader \<Rightarrow> nat" where
  "header_bytes_of h = kTransportFixedHeaderBytes + unat (th_sack_count h) * kSackBlockBytes"

definition encode_sack :: "SackBlock \<Rightarrow> byte list" where
  "encode_sack b = be32 (sb_start b) @ be32 (sb_end b)"

definition encode_fixed :: "TransportHeader \<Rightarrow> byte list" where
  "encode_fixed h = be32 (th_sequence h) @ be32 (th_cumulative_ack h) @
     [th_flags h, th_sack_count h] @ be16 (th_window h)"

definition encode_header :: "TransportHeader \<Rightarrow> byte list" where
  "encode_header h = encode_fixed h @
     concat (map (\<lambda>i. encode_sack (th_sacks h ! i)) [0..<unat (th_sack_count h)])"

lemmas wire_consts = kTransportFixedHeaderBytes_def kSackBlockBytes_def kMaximumSackBlocks_def

section \<open>The accessors are the big-endian ones\<close>

lemma top_byte_16: "ucast (drop_bit 8 (v :: u16)) = (ucast (drop_bit 8 v AND 0xFF) :: byte)"
  by (rule bit_word_eqI) (auto simp: low_byte_mask bit_simps)

lemma top_byte_32: "ucast (drop_bit 24 (v :: u32)) = (ucast (drop_bit 24 v AND 0xFF) :: byte)"
  by (rule bit_word_eqI) (auto simp: low_byte_mask bit_simps)

lemma write_u16_be [endian_simps]: "write_u16 out off v = write_be16 out off v"
  by (simp add: write_u16_def write_be16_def top_byte_16)

lemma write_u32_be [endian_simps]: "write_u32 out off v = write_be32 out off v"
  by (simp add: write_u32_def write_be32_def top_byte_32)

lemma read_u16_be [endian_simps]: "read_u16 bs off = read_be16 bs off"
  by (simp add: read_u16_def read_be16_def)

lemma read_u32_be [endian_simps]: "read_u32 bs off = read_be32 bs off"
  by (simp add: read_u32_def read_be32_def)

lemma length_write_u [simp]:
  "length (write_u16 out off v) = length out" "length (write_u32 out off w) = length out"
  by (simp_all add: endian_simps del: write_be16_memcpy write_be32_memcpy)

section \<open>Closed form of the serializer\<close>

lemma length_encode_fixed [simp]: "length (encode_fixed h) = 12"
  by (simp add: encode_fixed_def)

lemma length_encode_sack [simp]: "length (encode_sack b) = 8"
  by (simp add: encode_sack_def)

lemma length_encode_header [simp]: "length (encode_header h) = header_bytes_of h"
  by (simp add: encode_header_def header_bytes_of_def length_concat_const [where k = 8] wire_consts)

lemma write_block_memcpy:
  assumes "off' = off + 4" "off + 8 \<le> length out"
  shows "write_u32 (write_u32 out off (sb_start b)) off' (sb_end b)
           = memcpy_at out off (encode_sack b)"
  using assms
  by (simp add: write_u32_be write_be32_memcpy encode_sack_def memcpy_at_append_eq)

lemma write_sacks_memcpy:
  assumes "12 + n * 8 \<le> length out"
  shows "write_sacks sk n out
           = memcpy_at out 12 (concat (map (\<lambda>i. encode_sack (sk ! i)) [0..<n]))"
  using assms
proof (induction n)
  case 0
  show ?case by (simp add: write_sacks_def)
next
  case (Suc n)
  let ?bs = "concat (map (\<lambda>i. encode_sack (sk ! i)) [0..<n])"
  have len: "length ?bs = 8 * n" by (simp add: length_concat_const [where k = 8])
  have "memcpy_at (memcpy_at out 12 ?bs) (12 + n * 8) (encode_sack (sk ! n))
          = memcpy_at out 12 (?bs @ encode_sack (sk ! n))"
    using Suc.prems len by (intro memcpy_at_append_eq) simp_all
  moreover have "write_sacks sk n out = memcpy_at out 12 ?bs" using Suc by simp
  ultimately show ?case
    using Suc.prems len by (simp add: write_sacks_def wire_consts write_block_memcpy)
qed

lemma write_fixed_memcpy:
  assumes "12 \<le> length out"
  shows "write_u16 ((write_u32 (write_u32 out 0 (th_sequence h)) 4 (th_cumulative_ack h))
             [8 := th_flags h, 9 := th_sack_count h]) 10 (th_window h)
         = memcpy_at out 0 (encode_fixed h)"
  using assms
  by (simp add: endian_simps list_update_memcpy encode_fixed_def memcpy_at_append_eq)

lemma serialize_ok:
  assumes "validate h = wire_ok" "header_bytes_of h \<le> length out"
  shows "serialize_transport_header h out
           = (wire_ok, encode_header h @ drop (header_bytes_of h) out, header_bytes_of h)"
proof -
  let ?n = "unat (th_sack_count h)"
  let ?bs = "concat (map (\<lambda>i. encode_sack (th_sacks h ! i)) [0..<?n])"
  have room: "12 + ?n * 8 \<le> length out"
    using assms(2) by (simp add: header_bytes_of_def wire_consts)
  have len: "length ?bs = 8 * ?n" by (simp add: length_concat_const [where k = 8])
  have "memcpy_at (memcpy_at out 0 (encode_fixed h)) 12 ?bs
          = memcpy_at out 0 (encode_fixed h @ ?bs)"
    using room len by (intro memcpy_at_append_eq) simp_all
  then show ?thesis
    using assms room len
    by (simp add: serialize_transport_header_def Let_def write_sacks_memcpy write_fixed_memcpy)
       (simp add: encode_header_def header_bytes_of_def memcpy_at_def wire_consts mult.commute)
qed

lemma serialize_status:
  "fst (serialize_transport_header h out) =
     (if validate h \<noteq> wire_ok then validate h
      else if length out < header_bytes_of h then buffer_too_small else wire_ok)"
  by (simp add: serialize_transport_header_def header_bytes_of_def Let_def)

lemma serialize_failed:
  "fst (serialize_transport_header h out) \<noteq> wire_ok \<Longrightarrow>
   serialize_transport_header h out = (fst (serialize_transport_header h out), out, 0)"
  by (simp add: serialize_transport_header_def Let_def split: if_splits)

section \<open>Closed form of the parser\<close>

definition block_at :: "byte list \<Rightarrow> nat \<Rightarrow> SackBlock" where
  "block_at input i =
     \<lparr>sb_start = read_u32 input (12 + i * 8), sb_end = read_u32 input (12 + i * 8 + 4)\<rparr>"

lemma read_sacks_eq:
  "n \<le> length sacks \<Longrightarrow> read_sacks input n sacks = map (block_at input) [0..<n] @ drop n sacks"
proof (induction n)
  case 0
  show ?case by (simp add: read_sacks_def)
next
  case (Suc n)
  then have "read_sacks input n sacks = map (block_at input) [0..<n] @ drop n sacks" by simp
  then show ?case
    using Suc.prems
    by (simp add: read_sacks_def wire_consts block_at_def Let_def list_update_append
        Cons_nth_drop_Suc [symmetric])
qed

lemma parse_sacks_padded:
  "unat c \<le> 4 \<Longrightarrow>
   header_padded \<lparr>th_sequence = a, th_cumulative_ack = b, th_flags = f, th_sack_count = c,
                  th_window = w, th_sacks = read_sacks input (unat c) default_sacks\<rparr>"
  by (auto simp: header_padded_def read_sacks_eq default_sacks_def wire_consts nth_append)

lemma block_at_encode:
  assumes "i < unat (th_sack_count h)"
  shows "block_at (encode_header h @ rest) i = th_sacks h ! i"
proof -
  let ?f = "\<lambda>i. encode_sack (th_sacks h ! i)"
  let ?m = "unat (th_sack_count h)"
  obtain r where r: "drop (8 * i) (concat (map ?f [0..<?m]) @ rest) = ?f i @ r"
    using drop_concat_const [of ?f 8 i ?m rest] assms by auto
  have "read_u32 (encode_header h @ rest) (12 + i * 8 + j)
          = read_be32 (concat (map ?f [0..<?m]) @ rest) (8 * i + j)" for j
    by (simp add: encode_header_def read_u32_be read_be32_append mult.commute)
  moreover have "read_be32 (concat (map ?f [0..<?m]) @ rest) (8 * i + j)
                   = read_be32 (drop (8 * i) (concat (map ?f [0..<?m]) @ rest)) j" for j
    using assms by (intro read_be32_drop) (simp add: length_concat_const [where k = 8])
  ultimately have "read_u32 (encode_header h @ rest) (12 + i * 8 + j) = read_be32 (?f i @ r) j" for j
    by (simp only: r)
  from this [of 0] this [of 4] show ?thesis
    by (simp add: block_at_def encode_sack_def endian_simps)
qed

lemma parse_encode:
  assumes valid: "validate h = wire_ok" and padded: "header_padded h"
  shows "parse_transport_header (encode_header h @ rest) h0 = (wire_ok, h, header_bytes_of h)"
proof -
  let ?in = "encode_header h @ rest"
  let ?n = "unat (th_sack_count h)"
  have n: "?n \<le> 4" using valid by (auto simp: validate_def wire_consts split: if_splits)
  have "map (block_at ?in) [0..<?n] = map (\<lambda>i. th_sacks h ! i) [0..<?n]"
    by (rule map_cong) (simp_all add: block_at_encode)
  then have sacks: "read_sacks ?in ?n default_sacks = th_sacks h"
    using padded n
    by (intro nth_equalityI)
       (auto simp: read_sacks_eq default_sacks_def header_padded_def wire_consts nth_append)
  have fixed: "read_u32 ?in 0 = th_sequence h" "read_u32 ?in 4 = th_cumulative_ack h"
      "?in ! 8 = th_flags h" "?in ! 9 = th_sack_count h" "read_u16 ?in 10 = th_window h"
    by (simp_all add: encode_header_def encode_fixed_def endian_simps nth_append)
  have "12 + ?n * 8 \<le> length ?in" by (simp add: header_bytes_of_def wire_consts)
  moreover have "validate \<lparr>th_sequence = th_sequence h, th_cumulative_ack = th_cumulative_ack h,
      th_flags = th_flags h, th_sack_count = th_sack_count h, th_window = th_window h,
      th_sacks = th_sacks h\<rparr> = validate h" by (simp add: validate_def)
  ultimately show ?thesis
    using valid n
    by (simp add: parse_transport_header_def Let_def fixed sacks header_bytes_of_def wire_consts)
qed

lemma encode_fixed_parsed:
  assumes "12 \<le> length input"
  shows "be32 (read_u32 input 0) @ be32 (read_u32 input 4) @ [input ! 8, input ! 9]
           @ be16 (read_u16 input 10) = take 12 input"
proof -
  have "take (4 + (4 + (2 + 2))) input = take 4 input @ take 4 (drop 4 input)
          @ take 2 (drop 8 input) @ take 2 (drop 10 input)"
    unfolding take_add by simp
  moreover have "take 2 (drop 8 input) = [input ! 8, input ! 9]"
    using assms by (simp add: take_Suc_conv_app_nth numeral_2_eq_2)
  ultimately show ?thesis
    using assms by (simp add: read_u32_be read_u16_be be32_read_be32 be16_read_be16)
qed

lemma encode_block_at:
  assumes "12 + n * 8 \<le> length input"
  shows "concat (map (\<lambda>i. encode_sack (block_at input i)) [0..<n]) = take (8 * n) (drop 12 input)"
  using assms
proof (induction n)
  case 0
  show ?case by simp
next
  case (Suc n)
  have "encode_sack (block_at input n)
          = take 4 (drop (12 + n * 8) input) @ take 4 (drop (12 + n * 8 + 4) input)"
    using Suc.prems by (simp add: encode_sack_def block_at_def read_u32_be be32_read_be32)
  also have "\<dots> = take (4 + 4) (drop (8 * n) (drop 12 input))"
    unfolding take_add by (simp add: add.commute mult.commute)
  finally have "encode_sack (block_at input n) = take 8 (drop (8 * n) (drop 12 input))" by simp
  moreover have "take (8 * Suc n) (drop 12 input)
                   = take (8 * n) (drop 12 input) @ take 8 (drop (8 * n) (drop 12 input))"
    using take_add [of "8 * n" 8 "drop 12 input"] by (simp add: add.commute)
  ultimately show ?case using Suc by simp
qed

lemma parse_okD:
  assumes "parse_transport_header input h0 = (wire_ok, h, n)"
  shows "validate h = wire_ok" "header_padded h" "n = header_bytes_of h" "n \<le> length input"
    "take n input = encode_header h"
proof -
  let ?c = "unat (input ! 9)"
  let ?h = "\<lparr>th_sequence = read_u32 input 0, th_cumulative_ack = read_u32 input 4,
             th_flags = input ! 8, th_sack_count = input ! 9, th_window = read_u16 input 10,
             th_sacks = read_sacks input ?c default_sacks\<rparr>"
  from assms have c: "?c \<le> 4" and len: "12 + ?c * 8 \<le> length input"
    and h: "h = ?h" and valid: "validate ?h = wire_ok" and n: "n = 12 + ?c * 8"
    by (auto simp: parse_transport_header_def Let_def wire_consts split: if_splits)
  show "validate h = wire_ok" using h valid by simp
  show "header_padded h" unfolding h by (rule parse_sacks_padded [OF c])
  show "n = header_bytes_of h" using h n by (simp add: header_bytes_of_def wire_consts)
  show "n \<le> length input" using n len by simp
  have blocks: "map (\<lambda>i. encode_sack (read_sacks input ?c default_sacks ! i)) [0..<?c]
          = map (\<lambda>i. encode_sack (block_at input i)) [0..<?c]"
    using c by (simp add: read_sacks_eq default_sacks_def wire_consts nth_append)
  have "concat (map (\<lambda>i. encode_sack (read_sacks input ?c default_sacks ! i)) [0..<?c])
          = take (8 * ?c) (drop 12 input)"
    by (simp only: blocks encode_block_at [OF len])
  moreover have "encode_fixed ?h = take 12 input"
    using len encode_fixed_parsed [of input] by (simp add: encode_fixed_def)
  ultimately have "encode_header ?h = take 12 input @ take (8 * ?c) (drop 12 input)"
    by (simp add: encode_header_def)
  then show "take n input = encode_header h"
    unfolding h n by (simp add: take_add mult.commute)
qed

section \<open>The format as a codec\<close>

definition decode_header :: "byte list \<Rightarrow> (TransportHeader \<times> nat) option" where
  "decode_header input =
     (case parse_transport_header input undefined of
        (wire_ok, h, n) \<Rightarrow> Some (h, n) | _ \<Rightarrow> None)"

definition header_ok :: "TransportHeader \<Rightarrow> bool" where
  "header_ok h \<longleftrightarrow> validate h = wire_ok \<and> header_padded h"

lemma decode_header_Some:
  "decode_header input = Some (h, n) \<longleftrightarrow> parse_transport_header input undefined = (wire_ok, h, n)"
  by (auto simp: decode_header_def split: prod.splits WireStatus.splits)

lemma parse_status_independent:
  "fst (parse_transport_header input h0) = fst (parse_transport_header input h1)"
  by (simp add: parse_transport_header_def Let_def)

interpretation transport_codec: codec encode_header decode_header header_ok
proof unfold_locales
  show "decode_header (encode_header m @ rest) = Some (m, length (encode_header m))"
    if "header_ok m" for m rest
    using that by (simp add: decode_header_Some header_ok_def parse_encode)
  show "header_ok m \<and> n \<le> length bs \<and> take n bs = encode_header m"
    if "decode_header bs = Some (m, n)" for bs m n
    using that by (auto simp: decode_header_Some header_ok_def dest: parse_okD)
qed

lemma parse_ok_decode:
  "fst (parse_transport_header input h0) = wire_ok \<longleftrightarrow> decode_header input \<noteq> None"
proof -
  have "fst (parse_transport_header input h0) = fst (parse_transport_header input undefined)"
    by (rule parse_status_independent)
  then show ?thesis by (auto simp: decode_header_def split: prod.splits WireStatus.splits)
qed

lemma parse_failed:
  "fst (parse_transport_header input h0) \<noteq> wire_ok \<Longrightarrow>
   parse_transport_header input h0 = (fst (parse_transport_header input h0), h0, 0)"
  by (simp add: parse_transport_header_def Let_def split: if_splits)

section \<open>Properties\<close>

text \<open>
  Claim C14. Serializing a valid header into a large enough buffer succeeds, reports the header's
  size, leaves the rest of the buffer alone, and parsing the buffer gives the header back whatever
  follows it.
\<close>

theorem transport_header_roundtrip:
  assumes "validate h = wire_ok" "header_padded h" "header_bytes_of h \<le> length out"
  shows "\<exists>out'. serialize_transport_header h out = (wire_ok, out', header_bytes_of h) \<and>
           length out' = length out \<and>
           drop (header_bytes_of h) out' = drop (header_bytes_of h) out \<and>
           parse_transport_header out' h0 = (wire_ok, h, header_bytes_of h)"
proof (intro exI conjI)
  show "serialize_transport_header h out
          = (wire_ok, encode_header h @ drop (header_bytes_of h) out, header_bytes_of h)"
    using assms(1,3) by (rule serialize_ok)
  show "parse_transport_header (encode_header h @ drop (header_bytes_of h) out) h0
          = (wire_ok, h, header_bytes_of h)"
    using assms(1,2) by (rule parse_encode)
qed (use assms(3) in simp_all)

definition example_header :: TransportHeader where
  "example_header = \<lparr>th_sequence = 0xFFFFFFF0, th_cumulative_ack = 7, th_flags = 2,
     th_sack_count = 1, th_window = 65535,
     th_sacks = [\<lparr>sb_start = 9, sb_end = 12\<rparr>, default_SackBlock, default_SackBlock,
                 default_SackBlock]\<rparr>"

lemma example_header_ok: "validate example_header = wire_ok" "header_padded example_header"
    "header_bytes_of example_header = 20"
proof -
  show "validate example_header = wire_ok"
    by (simp add: validate_def example_header_def wire_consts kKnownFlags_def kFlagSyn_def
        kFlagAck_def kFlagFin_def kFlagRst_def default_SackBlock_def)
  show "header_padded example_header"
    by (auto simp: header_padded_def example_header_def wire_consts less_Suc_eq numeral_eq_Suc)
  show "header_bytes_of example_header = 20"
    by (simp add: header_bytes_of_def example_header_def wire_consts)
qed

theorem transport_header_roundtrip_witness:
  "\<exists>out'. serialize_transport_header example_header (replicate 44 0) = (wire_ok, out', 20) \<and>
     length out' = 44 \<and> parse_transport_header out' example_header = (wire_ok, example_header, 20)"
  using transport_header_roundtrip [of example_header "replicate 44 0" example_header]
  by (simp add: example_header_ok) blast

text \<open>
  Claim C15. The parser accepts exactly the byte strings that start with the encoding of a valid
  header, and rejects everything else with no effect on the caller's header and no byte consumed.
\<close>

theorem transport_parser_exact:
  "(fst (parse_transport_header input h0) = wire_ok \<longleftrightarrow>
      (\<exists>h rest. validate h = wire_ok \<and> header_padded h \<and> input = encode_header h @ rest)) \<and>
   (fst (parse_transport_header input h0) = wire_ok \<or>
      snd (parse_transport_header input h0) = (h0, 0))"
proof
  show "fst (parse_transport_header input h0) = wire_ok \<longleftrightarrow>
      (\<exists>h rest. validate h = wire_ok \<and> header_padded h \<and> input = encode_header h @ rest)"
    using transport_codec.accepts_exactly [of input]
    by (simp only: parse_ok_decode header_ok_def conj_assoc)
  show "fst (parse_transport_header input h0) = wire_ok \<or>
      snd (parse_transport_header input h0) = (h0, 0)"
    using parse_failed [of input h0] by (metis snd_conv)
qed

end
