(* ===== verification/Intervals.thy ===== *)
theory Intervals
  imports Main
begin

text \<open>
  Reference algorithms on sorted lists of half-open intervals of natural numbers, shared by the
  receive ranges of the transport and the hole list of the IPv4 reassembly. A list is \<open>gapped lo\<close>
  when its intervals are non-empty, lie above \<open>lo\<close> and are separated by at least one missing number;
  \<open>covered\<close> is the set it stands for. \<open>ins\<close> adds an interval, merging what it touches, and \<open>adv\<close>
  removes the intervals that a growing prefix has reached.
\<close>

type_synonym interval = "nat \<times> nat"

fun gapped :: "nat \<Rightarrow> interval list \<Rightarrow> bool" where
  "gapped lo [] = True"
| "gapped lo ((a, b) # r) = (lo < a \<and> a < b \<and> gapped b r)"

definition covered :: "interval list \<Rightarrow> nat set" where
  "covered ivs = (\<Union>(a, b) \<in> set ivs. {a..<b})"

fun ins :: "nat \<Rightarrow> nat \<Rightarrow> interval list \<Rightarrow> interval list" where
  "ins s e [] = [(s, e)]"
| "ins s e ((a, b) # r) =
     (if b < s then (a, b) # ins s e r
      else if e < a then (s, e) # (a, b) # r
      else ins (min s a) (max e b) r)"

fun adv :: "nat \<Rightarrow> interval list \<Rightarrow> nat \<times> interval list" where
  "adv k [] = (k, [])"
| "adv k ((a, b) # r) = (if a \<le> k then adv (max k b) r else (k, (a, b) # r))"

lemma covered_Nil [simp]: "covered [] = {}"
  by (simp add: covered_def)

lemma covered_Cons [simp]: "covered ((a, b) # r) = {a..<b} \<union> covered r"
  by (simp add: covered_def)

lemma covered_append [simp]: "covered (xs @ ys) = covered xs \<union> covered ys"
  by (simp add: covered_def)

lemma gapped_weaken: "gapped lo ivs \<Longrightarrow> lo' \<le> lo \<Longrightarrow> gapped lo' ivs"
  by (cases ivs) auto

lemma gapped_covered_above: "gapped lo ivs \<Longrightarrow> x \<in> covered ivs \<Longrightarrow> lo < x"
  by (induction lo ivs rule: gapped.induct) auto

lemma gapped_mem: "gapped lo ivs \<Longrightarrow> (a, b) \<in> set ivs \<Longrightarrow> lo < a \<and> a < b"
  by (induction lo ivs rule: gapped.induct) auto

lemma gapped_append:
  "gapped lo (xs @ (a, b) # ys) \<longleftrightarrow> gapped lo xs \<and> (\<forall>(c, d) \<in> set xs. d < a) \<and>
     lo < a \<and> a < b \<and> gapped b ys"
  by (induction lo xs rule: gapped.induct) (auto dest: gapped_mem)

lemma gapped_append_above:
  "gapped lo (xs @ ys) \<Longrightarrow> (a, b) \<in> set xs \<Longrightarrow> x \<in> covered ys \<Longrightarrow> b < x"
proof (induction xs arbitrary: lo)
  case (Cons iv xs)
  then show ?case using gapped_covered_above [of "snd iv" "xs @ ys" x] by (cases iv) auto
qed simp

lemma gapped_ends:
  "gapped lo ivs \<Longrightarrow> (a, b) \<in> set ivs \<Longrightarrow> a - 1 \<notin> covered ivs \<and> b \<notin> covered ivs"
proof (induction ivs arbitrary: lo)
  case (Cons iv ivs)
  then have g: "gapped (snd iv) ivs" "lo < fst iv" "fst iv < snd iv" by (cases iv; simp)+
  show ?case
  proof (cases "iv = (a, b)")
    case True
    then show ?thesis using g gapped_covered_above [OF g(1), of "a - 1"] gapped_covered_above [OF g(1), of b] by fastforce
  next
    case False
    then have m: "(a, b) \<in> set ivs" using Cons.prems by simp
    then show ?thesis using g gapped_mem [OF g(1) m] Cons.IH [OF g(1) m] by (cases iv) auto
  qed
qed simp

lemma ins_covered: "s < e \<Longrightarrow> gapped lo ivs \<Longrightarrow> covered (ins s e ivs) = covered ivs \<union> {s..<e}"
proof (induction s e ivs arbitrary: lo rule: ins.induct)
  case (2 s e a b r)
  have ab: "a < b" "gapped b r" using "2.prems" by auto
  consider "b < s" | "\<not> b < s" "e < a" | "\<not> b < s" "\<not> e < a" by blast
  then show ?case
  proof cases
    case 1
    then show ?thesis using "2.IH"(1) "2.prems" ab by auto
  next
    case 2
    then show ?thesis by auto
  next
    case 3
    then have "{min s a..<max e b} = {s..<e} \<union> {a..<b}"
      using "2.prems"(1) ab(1) by (auto simp: min_def max_def)
    moreover have "covered (ins (min s a) (max e b) r) = covered r \<union> {min s a..<max e b}"
      using 3 "2.IH"(2) [of b] "2.prems"(1) ab by auto
    ultimately show ?thesis using 3 by auto
  qed
qed auto

lemma ins_gapped: "s < e \<Longrightarrow> lo < s \<Longrightarrow> gapped lo ivs \<Longrightarrow> gapped lo (ins s e ivs)"
proof (induction s e ivs arbitrary: lo rule: ins.induct)
  case (2 s e a b r)
  have ab: "lo < a" "a < b" "gapped b r" using "2.prems" by auto
  consider "b < s" | "\<not> b < s" "e < a" | "\<not> b < s" "\<not> e < a" by blast
  then show ?case
  proof cases
    case 1
    then show ?thesis using "2.IH"(1) "2.prems" ab by auto
  next
    case 2
    then show ?thesis using "2.prems" ab by auto
  next
    case 3
    have "gapped lo r" using ab by (auto intro: gapped_weaken)
    then show ?thesis using 3 "2.IH"(2) [of lo] "2.prems" ab by auto
  qed
qed auto

lemma ins_bound:
  "\<forall>(a, b) \<in> set ivs. b \<le> N \<Longrightarrow> e \<le> N \<Longrightarrow> \<forall>(a, b) \<in> set (ins s e ivs). b \<le> N"
  by (induction s e ivs rule: ins.induct) auto

lemma adv_covered:
  "adv k ivs = (k', ivs') \<Longrightarrow> gapped lo ivs \<Longrightarrow> {..<k} \<union> covered ivs = {..<k'} \<union> covered ivs'"
proof (induction k ivs arbitrary: lo rule: adv.induct)
  case (2 k a b r)
  show ?case
  proof (cases "a \<le> k")
    case True
    have "{..<k} \<union> covered ((a, b) # r) = {..<max k b} \<union> covered r" using True by auto
    then show ?thesis using 2 True by auto
  qed (use 2 in auto)
qed auto

lemma adv_gapped: "adv k ivs = (k', ivs') \<Longrightarrow> gapped lo ivs \<Longrightarrow> gapped k' ivs' \<and> k \<le> k'"
proof (induction k ivs arbitrary: lo rule: adv.induct)
  case (2 k a b r)
  show ?case
  proof (cases "a \<le> k")
    case True
    then show ?thesis using 2 by fastforce
  qed (use 2 in auto)
qed auto

lemma adv_subset: "adv k ivs = (k', ivs') \<Longrightarrow> set ivs' \<subseteq> set ivs \<and> length ivs' \<le> length ivs"
  by (induction k ivs rule: adv.induct) (auto split: if_splits)

lemma adv_bound:
  "adv k ivs = (k', ivs') \<Longrightarrow> \<forall>(a, b) \<in> set ivs. b < N \<Longrightarrow> k < N \<Longrightarrow> k' < N"
  by (induction k ivs rule: adv.induct) (auto split: if_splits)

lemma least_missing:
  assumes "{..<k} \<union> covered ivs = U" "gapped k ivs"
  shows "(LEAST n. n \<notin> U) = k"
proof (rule Least_equality)
  show "k \<notin> U" using assms gapped_covered_above [OF assms(2)] by auto
  show "k \<le> n" if "n \<notin> U" for n using that assms(1) by (metis UnI1 lessThan_iff not_le)
qed

text \<open>Moving the origin up by \<open>k\<close>.\<close>

definition rebase :: "nat \<Rightarrow> interval list \<Rightarrow> interval list" where
  "rebase k ivs = map (\<lambda>(a, b). (a - k, b - k)) ivs"

lemma gapped_rebase: "gapped lo ivs \<Longrightarrow> k \<le> lo \<Longrightarrow> gapped (lo - k) (rebase k ivs)"
  by (induction lo ivs rule: gapped.induct) (auto simp: rebase_def)

lemma covered_rebase: "gapped lo ivs \<Longrightarrow> k \<le> lo \<Longrightarrow> covered (rebase k ivs) = (\<lambda>x. x - k) ` covered ivs"
proof (induction lo ivs rule: gapped.induct)
  case (2 lo a b r)
  have "{a - k..<b - k} = (\<lambda>x. x - k) ` {a..<b}"
  proof (intro set_eqI iffI)
    fix x assume "x \<in> {a - k..<b - k}"
    then have "x = (x + k) - k" "x + k \<in> {a..<b}" using 2 by auto
    then show "x \<in> (\<lambda>x. x - k) ` {a..<b}" by blast
  qed (use 2 in auto)
  moreover have "covered (rebase k r) = (\<lambda>x. x - k) ` covered r" using 2 by simp
  ultimately show ?case by (simp add: rebase_def image_Un)
qed (simp add: rebase_def)

section \<open>Subtraction from a list of holes\<close>

text \<open>
  \<open>spaced lo\<close> lists may start at \<open>lo\<close>; consecutive intervals are separated by at least one number.
  \<open>sub\<close> removes a range, splitting the interval that strictly contains it.
\<close>

fun spaced :: "nat \<Rightarrow> interval list \<Rightarrow> bool" where
  "spaced lo [] = True"
| "spaced lo ((a, b) # r) = (lo \<le> a \<and> a < b \<and> spaced (Suc b) r)"

fun sub :: "nat \<Rightarrow> nat \<Rightarrow> interval list \<Rightarrow> interval list" where
  "sub s e [] = []"
| "sub s e ((a, b) # r) =
     (if e \<le> a \<or> s \<ge> b then (a, b) # sub s e r
      else if s \<le> a \<and> e \<ge> b then sub s e r
      else if s \<le> a then (e, b) # sub s e r
      else if e \<ge> b then (a, s) # sub s e r
      else (a, s) # (e, b) # r)"

lemma spaced_weaken: "spaced lo ivs \<Longrightarrow> lo' \<le> lo \<Longrightarrow> spaced lo' ivs"
  by (cases ivs) auto

lemma spaced_covered_above: "spaced lo ivs \<Longrightarrow> x \<in> covered ivs \<Longrightarrow> lo \<le> x"
  by (induction lo ivs rule: spaced.induct) auto

lemma spaced_mem: "spaced lo ivs \<Longrightarrow> (a, b) \<in> set ivs \<Longrightarrow> lo \<le> a \<and> a < b"
  by (induction lo ivs rule: spaced.induct) auto

lemma sub_spaced: "s < e \<Longrightarrow> spaced lo ivs \<Longrightarrow> spaced lo (sub s e ivs)"
proof (induction s e ivs arbitrary: lo rule: sub.induct)
  case (2 s e a b r)
  have ab: "lo \<le> a" "a < b" "spaced (Suc b) r" using "2.prems" by auto
  consider "e \<le> a \<or> s \<ge> b" | "\<not> (e \<le> a \<or> s \<ge> b)" "s \<le> a" "e \<ge> b"
    | "\<not> (e \<le> a \<or> s \<ge> b)" "s \<le> a" "e < b" | "\<not> (e \<le> a \<or> s \<ge> b)" "a < s" "e \<ge> b"
    | "\<not> (e \<le> a \<or> s \<ge> b)" "a < s" "e < b" by linarith
  then show ?case
  proof cases
    case 1
    then have "spaced (Suc b) (sub s e r)" using "2.prems"(1) ab(3) by (intro "2.IH"(1)) auto
    then show ?thesis using 1 ab by auto
  next
    case 2
    then have "spaced (Suc b) (sub s e r)" using "2.prems"(1) ab(3) by (intro "2.IH"(2)) auto
    then show ?thesis using 2 ab by (auto intro: spaced_weaken)
  next
    case 3
    then have "spaced (Suc b) (sub s e r)" using "2.prems"(1) ab(3) by (intro "2.IH"(3)) auto
    then show ?thesis using 3 ab by auto
  next
    case 4
    then have "spaced (Suc b) (sub s e r)" using "2.prems"(1) ab(3) by (intro "2.IH"(4)) auto
    then show ?thesis using 4 ab by (auto intro: spaced_weaken)
  next
    case 5
    then show ?thesis using ab "2.prems"(1) by auto
  qed
qed simp

lemma sub_covered: "s < e \<Longrightarrow> spaced lo ivs \<Longrightarrow> covered (sub s e ivs) = covered ivs - {s..<e}"
proof (induction s e ivs arbitrary: lo rule: sub.induct)
  case (2 s e a b r)
  have ab: "lo \<le> a" "a < b" "spaced (Suc b) r" using "2.prems" by auto
  have above: "x \<in> covered r \<Longrightarrow> b < x" for x using spaced_covered_above [OF ab(3)] by fastforce
  consider "e \<le> a \<or> s \<ge> b" | "\<not> (e \<le> a \<or> s \<ge> b)" "s \<le> a" "e \<ge> b"
    | "\<not> (e \<le> a \<or> s \<ge> b)" "s \<le> a" "e < b" | "\<not> (e \<le> a \<or> s \<ge> b)" "a < s" "e \<ge> b"
    | "\<not> (e \<le> a \<or> s \<ge> b)" "a < s" "e < b" by linarith
  then show ?case
  proof cases
    case 1
    then have "covered (sub s e r) = covered r - {s..<e}" using "2.prems"(1) ab(3) 1 by (intro "2.IH"(1)) auto
    moreover have "{a..<b} \<inter> {s..<e} = {}" using 1 by auto
    ultimately show ?thesis using 1 by (simp add: Un_Diff Diff_triv)
  next
    case 2
    then have "covered (sub s e r) = covered r - {s..<e}" using "2.prems"(1) ab(3) 2 by (intro "2.IH"(2)) auto
    moreover have "{a..<b} \<subseteq> {s..<e}" using 2 by auto
    ultimately show ?thesis using 2 unfolding covered_Cons by (simp only: sub.simps if_False if_True) auto
  next
    case 3
    then have "covered (sub s e r) = covered r - {s..<e}" using "2.prems"(1) ab(3) 3 by (intro "2.IH"(3)) auto
    moreover have "{a..<b} - {s..<e} = {e..<b}" using 3 by auto
    ultimately show ?thesis using 3 by (simp add: Un_Diff)
  next
    case 4
    then have "covered (sub s e r) = covered r - {s..<e}" using "2.prems"(1) ab(3) 4 by (intro "2.IH"(4)) auto
    moreover have "{a..<b} - {s..<e} = {a..<s}" using 4 by auto
    ultimately show ?thesis using 4 by (simp add: Un_Diff)
  next
    case 5
    then have "{a..<b} - {s..<e} = {a..<s} \<union> {e..<b}" by auto
    moreover have "covered r - {s..<e} = covered r" using above 5(3) by fastforce
    ultimately show ?thesis using 5 by (simp add: Un_Diff Un_assoc)
  qed
qed simp

lemma sub_ends:
  "\<forall>(a, b) \<in> set ivs. b \<le> N \<Longrightarrow> \<forall>(a, b) \<in> set (sub s e ivs). b \<le> N"
  by (induction s e ivs rule: sub.induct) auto

lemma sub_begins:
  "\<forall>(a, b) \<in> set ivs. P a \<Longrightarrow> P e \<or> (\<forall>(a, b) \<in> set ivs. b \<le> e) \<Longrightarrow>
   \<forall>(a, b) \<in> set (sub s e ivs). P a"
  by (induction s e ivs rule: sub.induct) auto

lemma spaced_distinct: "spaced lo ivs \<Longrightarrow> distinct (map fst ivs)"
  by (induction lo ivs rule: spaced.induct) (auto dest: spaced_mem)

text \<open>The number of intervals that start at multiples of eight below a bound.\<close>

lemma spaced_count:
  assumes "spaced lo ivs" "\<forall>(a, b) \<in> set ivs. a mod 8 = 0 \<and> b \<le> N"
  shows "length ivs \<le> (N + 7) div 8"
proof -
  have "set (map fst ivs) \<subseteq> (\<lambda>i. 8 * i) ` {..<(N + 7) div 8}"
  proof
    fix a assume "a \<in> set (map fst ivs)"
    then obtain b where b: "(a, b) \<in> set ivs" by auto
    then have "a mod 8 = 0" "a < N" using assms spaced_mem [OF assms(1) b] by auto
    then have "a = 8 * (a div 8)" "a div 8 < (N + 7) div 8" by auto
    then show "a \<in> (\<lambda>i. 8 * i) ` {..<(N + 7) div 8}" by blast
  qed
  then have "card (set (map fst ivs)) \<le> card ((\<lambda>i. 8 * i) ` {..<(N + 7) div 8})"
    by (intro card_mono) auto
  also have "\<dots> \<le> (N + 7) div 8" using card_image_le [of "{..<(N + 7) div 8}"] by simp
  finally show ?thesis using distinct_card [OF spaced_distinct [OF assms(1)]] by simp
qed

end
