(* ===== verification/Receive_Ranges.thy ===== *)
theory Receive_Ranges
  imports Wire Intervals
begin

text \<open>
  The receiver's out-of-order range set (\<^verbatim>\<open>include/vectornet/transport/receive_ranges.hpp\<close>,
  \<^verbatim>\<open>src/transport/receive_ranges.cpp\<close>): a fixed array of half-open sequence ranges above the
  cumulative acknowledgement.

  \<open>insert\<close> is \<open>rr_insert\<close>; its two scanning loops are \<open>skip_before\<close> and \<open>merge_overlap\<close>. Offsets from
  the cumulative acknowledgement turn the array into a list of intervals (\<open>rr_ivs\<close>), on which the code
  computes the reference functions \<open>ins\<close> and \<open>adv\<close> of the theory of intervals; the properties state
  what that means for the set of buffered sequence numbers.
\<close>

definition kReceiveRangeCapacity :: nat where "kReceiveRangeCapacity = 1024"

datatype ReceiveRangeStatus = range_accepted | range_duplicate | range_full | invalid_range
  | outside_window

record ReceiveRangeResult =
  rres_status :: ReceiveRangeStatus
  rres_cumulative_ack :: u32
  rres_newly_contiguous_bytes :: u32

record ReceiveRangeSet =
  rr_ranges :: "SackBlock arr"
  rr_capacity :: nat
  rr_size :: nat
  rr_cumulative_ack :: u32

definition new_ReceiveRangeSet :: "u32 \<Rightarrow> nat \<Rightarrow> ReceiveRangeSet" where
  "new_ReceiveRangeSet initial_sequence capacity =
     \<lparr>rr_ranges = (\<lambda>_. default_SackBlock), rr_capacity = min capacity kReceiveRangeCapacity,
      rr_size = 0, rr_cumulative_ack = initial_sequence\<rparr>"

definition range_result :: "ReceiveRangeStatus \<Rightarrow> u32 \<Rightarrow> u32 \<Rightarrow> ReceiveRangeResult" where
  "range_result st ack n = \<lparr>rres_status = st, rres_cumulative_ack = ack,
     rres_newly_contiguous_bytes = n\<rparr>"

definition rr_remove :: "ReceiveRangeSet \<Rightarrow> nat \<Rightarrow> ReceiveRangeSet" where
  "rr_remove s index =
     s\<lparr>rr_ranges := shift_down (rr_ranges s) 1 (index + 1) (rr_size s), rr_size := rr_size s - 1\<rparr>"

function advance_contiguous :: "ReceiveRangeSet \<Rightarrow> ReceiveRangeSet" where
  "advance_contiguous s =
     (if rr_size s \<noteq> 0 \<and> sequence_less_equal (sb_start (rr_ranges s 0)) (rr_cumulative_ack s)
      then
        let s' = (if sequence_less (rr_cumulative_ack s) (sb_end (rr_ranges s 0))
                  then s\<lparr>rr_cumulative_ack := sb_end (rr_ranges s 0)\<rparr> else s)
        in advance_contiguous (rr_remove s' 0)
      else s)"
  by pat_completeness auto
termination
  by (relation "measure rr_size") (auto simp: rr_remove_def)

declare advance_contiguous.simps [simp del]

text \<open>\<open>while (first < size_ && sequence_less(ranges_[first].end, start)) ++first;\<close>\<close>

function skip_before :: "SackBlock arr \<Rightarrow> nat \<Rightarrow> u32 \<Rightarrow> nat \<Rightarrow> nat" where
  "skip_before ranges n start first =
     (if first < n \<and> sequence_less (sb_end (ranges first)) start
      then skip_before ranges n start (Suc first) else first)"
  by pat_completeness auto
termination
  by (relation "measure (\<lambda>(ranges, n, start, first). n - first)") auto

declare skip_before.simps [simp del]

text \<open>The loop that extends the merged range over the stored ranges it touches.\<close>

function merge_overlap :: "SackBlock arr \<Rightarrow> nat \<Rightarrow> nat \<Rightarrow> u32 \<Rightarrow> u32 \<Rightarrow> nat \<times> u32 \<times> u32" where
  "merge_overlap ranges n lst merged_start merged_end =
     (if lst < n \<and> sequence_less_equal (sb_start (ranges lst)) merged_end
      then
        let merged_start = (if sequence_less (sb_start (ranges lst)) merged_start
                            then sb_start (ranges lst) else merged_start);
            merged_end = (if sequence_less merged_end (sb_end (ranges lst))
                          then sb_end (ranges lst) else merged_end)
        in merge_overlap ranges n (Suc lst) merged_start merged_end
      else (lst, merged_start, merged_end))"
  by pat_completeness auto
termination
  by (relation "measure (\<lambda>(ranges, n, lst, ms, me). n - lst)") auto

declare merge_overlap.simps [simp del]

definition rr_insert ::
  "ReceiveRangeSet \<Rightarrow> u32 \<Rightarrow> u32 \<Rightarrow> ReceiveRangeSet \<times> ReceiveRangeResult" where
  "rr_insert s start end' =
     (if start = end' then (s, range_result invalid_range (rr_cumulative_ack s) 0)
      else if end' - start \<ge> 0x80000000
      then (s, range_result outside_window (rr_cumulative_ack s) 0)
      else if sequence_less_equal end' (rr_cumulative_ack s)
      then (s, range_result range_duplicate (rr_cumulative_ack s) 0)
      else
        let start = (if sequence_less start (rr_cumulative_ack s) then rr_cumulative_ack s
                     else start) in
        if start - rr_cumulative_ack s \<ge> 0x80000000
        then (s, range_result outside_window (rr_cumulative_ack s) 0)
        else
          let previous_ack = rr_cumulative_ack s in
          if start = rr_cumulative_ack s
          then
            let s = advance_contiguous (s\<lparr>rr_cumulative_ack := end'\<rparr>)
            in (s, range_result range_accepted (rr_cumulative_ack s)
                     (rr_cumulative_ack s - previous_ack))
          else
            let first = skip_before (rr_ranges s) (rr_size s) start 0;
                (lst, merged_start, merged_end)
                  = merge_overlap (rr_ranges s) (rr_size s) first start end'
            in if first = lst \<and> rr_size s = rr_capacity s
               then (s, range_result range_full (rr_cumulative_ack s) 0)
               else if first < lst
               then
                 let removed = lst - first - 1;
                     ranges = (rr_ranges s)(first := \<lparr>sb_start = merged_start, sb_end = merged_end\<rparr>)
                 in (s\<lparr>rr_ranges := shift_down ranges removed lst (rr_size s),
                        rr_size := rr_size s - removed\<rparr>,
                     range_result range_accepted (rr_cumulative_ack s) 0)
               else
                 (s\<lparr>rr_ranges := (shift_up (rr_ranges s) (rr_size s) first)
                      (first := \<lparr>sb_start = merged_start, sb_end = merged_end\<rparr>),
                    rr_size := rr_size s + 1\<rparr>,
                  range_result range_accepted (rr_cumulative_ack s) 0))"

definition generate_sacks :: "ReceiveRangeSet \<Rightarrow> SackBlock list \<Rightarrow> SackBlock list \<times> nat" where
  "generate_sacks s output =
     (let count = min (min (rr_size s) (length output)) kMaximumSackBlocks
      in (fold (\<lambda>index out. out[index := rr_ranges s index]) [0..<count] output, count))"

section \<open>Offsets and invariant\<close>

definition blk_iv :: "u32 \<Rightarrow> SackBlock \<Rightarrow> interval" where
  "blk_iv c b = (seq_off c (sb_start b), seq_off c (sb_end b))"

definition rr_live :: "ReceiveRangeSet \<Rightarrow> SackBlock list" where
  "rr_live s = live (rr_ranges s) (rr_size s)"

definition rr_ivs :: "ReceiveRangeSet \<Rightarrow> interval list" where
  "rr_ivs s = map (blk_iv (rr_cumulative_ack s)) (rr_live s)"

definition in_window :: "interval list \<Rightarrow> bool" where
  "in_window ivs \<longleftrightarrow> (\<forall>(a, b) \<in> set ivs. a < 2 ^ 31 \<and> b < 2 ^ 31)"

definition rr_inv :: "ReceiveRangeSet \<Rightarrow> bool" where
  "rr_inv s \<longleftrightarrow> rr_capacity s \<le> kReceiveRangeCapacity \<and> rr_size s \<le> rr_capacity s \<and>
     gapped 0 (rr_ivs s) \<and> in_window (rr_ivs s)"

text \<open>Offsets above the cumulative acknowledgement of the bytes held out of order.\<close>

definition rr_bytes :: "ReceiveRangeSet \<Rightarrow> nat set" where
  "rr_bytes s = covered (rr_ivs s)"

lemma rr_inv_new: "rr_inv (new_ReceiveRangeSet isn cap)"
  by (simp add: rr_inv_def new_ReceiveRangeSet_def rr_ivs_def rr_live_def in_window_def)

lemma rr_bytes_new [simp]: "rr_bytes (new_ReceiveRangeSet isn cap) = {}"
  by (simp add: rr_bytes_def new_ReceiveRangeSet_def rr_ivs_def rr_live_def)

section \<open>The scanning loops compute the reference insertion\<close>

lemma skip_before_spec:
  "i \<le> n \<Longrightarrow> skip_before a n start i
     = i + length (takeWhile (\<lambda>b. sequence_less (sb_end b) start) (drop i (live a n)))"
proof (induction a n start i rule: skip_before.induct)
  case (1 a n start i)
  show ?case
  proof (cases "i < n")
    case True
    then have "drop i (live a n) = a i # drop (Suc i) (live a n)"
      by (simp add: Cons_nth_drop_Suc [symmetric])
    then show ?thesis using 1 True by (auto simp: skip_before.simps [of a n start i])
  next
    case False
    then have "i = n" using "1.prems" by simp
    then show ?thesis by (simp add: skip_before.simps [of a n start n])
  qed
qed

text \<open>The second half of \<open>ins\<close>, once the intervals that end below the new one are skipped.\<close>

fun ins_merge :: "nat \<Rightarrow> nat \<Rightarrow> interval list \<Rightarrow> interval \<times> interval list" where
  "ins_merge s e [] = ((s, e), [])"
| "ins_merge s e ((a, b) # r) =
     (if e < a then ((s, e), (a, b) # r) else ins_merge (min s a) (max e b) r)"

lemma ins_eq_merge:
  "gapped lo ivs \<Longrightarrow> s < e \<Longrightarrow> \<forall>(a, b) \<in> set ivs. s \<le> b \<Longrightarrow>
   ins s e ivs = (case ins_merge s e ivs of (iv, rest) \<Rightarrow> iv # rest)"
proof (induction s e ivs arbitrary: lo rule: ins_merge.induct)
  case (2 s e a b r)
  show ?case
  proof (cases "e < a")
    case False
    have "ins (min s a) (max e b) r
            = (case ins_merge (min s a) (max e b) r of (iv, rest) \<Rightarrow> iv # rest)"
      using 2 False by (intro "2.IH" [of b]) auto
    then show ?thesis using 2 False by auto
  qed (use 2 in auto)
qed auto

lemma ins_skip:
  "gapped lo ivs \<Longrightarrow> s < e \<Longrightarrow>
   ins s e ivs = takeWhile (\<lambda>(a, b). b < s) ivs @
     (case ins_merge s e (dropWhile (\<lambda>(a, b). b < s) ivs) of (iv, rest) \<Rightarrow> iv # rest)"
proof (induction lo ivs rule: gapped.induct)
  case (2 lo a b r)
  show ?case
  proof (cases "b < s")
    case False
    have "\<forall>(c, d) \<in> set ((a, b) # r). s \<le> d"
      using 2 False gapped_mem [of b r] by fastforce
    then show ?thesis using False ins_eq_merge [of lo "(a, b) # r" s e] 2 by auto
  qed (use 2 in auto)
qed auto

lemma merge_overlap_spec:
  assumes "i \<le> n" "in_window (map (blk_iv c) (drop i (live a n)))"
    "seq_off c ms < 2 ^ 31" "seq_off c me < 2 ^ 31"
    "merge_overlap a n i ms me = (l, ms', me')"
  shows "i \<le> l \<and> l \<le> n \<and> seq_off c ms' < 2 ^ 31 \<and> seq_off c me' < 2 ^ 31 \<and>
    ins_merge (seq_off c ms) (seq_off c me) (map (blk_iv c) (drop i (live a n)))
      = ((seq_off c ms', seq_off c me'), map (blk_iv c) (drop l (live a n)))"
  using assms
proof (induction a n i ms me rule: merge_overlap.induct)
  case (1 a n i ms me)
  show ?case
  proof (cases "i < n")
    case True
    let ?A = "seq_off c (sb_start (a i))" and ?B = "seq_off c (sb_end (a i))"
    have d: "drop i (live a n) = a i # drop (Suc i) (live a n)"
      using True by (simp add: Cons_nth_drop_Suc [symmetric])
    have w: "?A < 2 ^ 31" "?B < 2 ^ 31" "in_window (map (blk_iv c) (drop (Suc i) (live a n)))"
      using "1.prems"(2) unfolding d by (auto simp: in_window_def blk_iv_def)
    note le = sequence_less_equal_iff [OF w(1) "1.prems"(4)]
      and lt1 = sequence_less_iff [OF w(1) "1.prems"(3)]
      and lt2 = sequence_less_iff [OF "1.prems"(4) w(2)]
    let ?ms = "if sequence_less (sb_start (a i)) ms then sb_start (a i) else ms"
    let ?me = "if sequence_less me (sb_end (a i)) then sb_end (a i) else me"
    have off: "seq_off c ?ms = min (seq_off c ms) ?A" "seq_off c ?me = max (seq_off c me) ?B"
      by (auto simp: lt1 lt2)
    show ?thesis
    proof (cases "?A \<le> seq_off c me")
      case cont: True
      then have "merge_overlap a n (Suc i) ?ms ?me = (l, ms', me')"
        using "1.prems"(5) True by (simp add: merge_overlap.simps [of a n i ms me] le Let_def)
      moreover have "seq_off c ?ms < 2 ^ 31" "seq_off c ?me < 2 ^ 31"
        using "1.prems" w off by auto
      ultimately have "Suc i \<le> l \<and> l \<le> n \<and> seq_off c ms' < 2 ^ 31 \<and> seq_off c me' < 2 ^ 31 \<and>
          ins_merge (seq_off c ?ms) (seq_off c ?me) (map (blk_iv c) (drop (Suc i) (live a n)))
            = ((seq_off c ms', seq_off c me'), map (blk_iv c) (drop l (live a n)))"
        using True cont w(3) by (intro "1.IH" [OF _ refl refl]) (simp_all add: le)
      moreover have "ins_merge (seq_off c ms) (seq_off c me) (map (blk_iv c) (drop i (live a n)))
          = ins_merge (seq_off c ?ms) (seq_off c ?me) (map (blk_iv c) (drop (Suc i) (live a n)))"
        using cont unfolding d off by (simp add: blk_iv_def)
      ultimately show ?thesis by simp
    next
      case stop: False
      then have "l = i" "ms' = ms" "me' = me"
        using "1.prems"(5) by (auto simp: merge_overlap.simps [of a n i ms me] le)
      then show ?thesis using stop "1.prems" by (simp add: d blk_iv_def)
    qed
  next
    case False
    then have "i = n" using "1.prems"(1) by simp
    then show ?thesis using "1.prems" by (simp add: merge_overlap.simps [of a n n ms me])
  qed
qed

lemma rr_inv_mem:
  assumes "in_window (map (blk_iv c) bs)" "b \<in> set bs"
  shows "seq_off c (sb_start b) < 2 ^ 31 \<and> seq_off c (sb_end b) < 2 ^ 31"
  using assms by (auto simp: in_window_def blk_iv_def)

lemma skip_before_ivs:
  assumes "rr_inv s" "seq_off (rr_cumulative_ack s) start < 2 ^ 31"
  shows "skip_before (rr_ranges s) (rr_size s) start 0
    = length (takeWhile (\<lambda>(a, b). b < seq_off (rr_cumulative_ack s) start) (rr_ivs s))"
proof -
  let ?c = "rr_cumulative_ack s"
  have "takeWhile (\<lambda>b. sequence_less (sb_end b) start) (rr_live s)
      = takeWhile (\<lambda>b. seq_off ?c (sb_end b) < seq_off ?c start) (rr_live s)"
  proof (rule takeWhile_cong [OF refl])
    fix b assume "b \<in> set (rr_live s)"
    then have "seq_off ?c (sb_end b) < 2 ^ 31"
      using assms(1) rr_inv_mem by (auto simp: rr_inv_def rr_ivs_def)
    then show "sequence_less (sb_end b) start \<longleftrightarrow> seq_off ?c (sb_end b) < seq_off ?c start"
      using assms(2) by (rule sequence_less_iff)
  qed
  then show ?thesis
    by (simp add: skip_before_spec rr_ivs_def takeWhile_map comp_def blk_iv_def flip: rr_live_def)
qed

lemma live_replace_block:
  assumes "f < l" "l \<le> n"
  shows "live (shift_down (a(f := x)) (l - f - 1) l n) (n - (l - f - 1))
           = take f (live a n) @ x # drop l (live a n)"
proof -
  have "live (shift_down (a(f := x)) (l - f - 1) l n) (n - (l - f - 1))
          = take (l - (l - f - 1)) (live (a(f := x)) n) @ drop l (live (a(f := x)) n)"
    using assms by (intro live_shift_down) auto
  also have "\<dots> = take (Suc f) ((live a n)[f := x]) @ drop l (live a n)"
    using assms by (simp add: live_update)
  also have "\<dots> = take f (live a n) @ x # drop l (live a n)"
    using assms by (simp add: take_Suc_conv_app_nth)
  finally show ?thesis .
qed

text \<open>The code of an insertion ahead of the cumulative acknowledgement: every early return is passed,
  and what is left is the skip, the merge and one of the three ways to store the merged block.\<close>

lemma rr_insert_code_ahead:
  assumes lo: "0 < seq_off (rr_cumulative_ack s) start"
      "seq_off (rr_cumulative_ack s) start < seq_off (rr_cumulative_ack s) fin"
    and hi: "seq_off (rr_cumulative_ack s) fin < 2 ^ 31"
    and f: "f = skip_before (rr_ranges s) (rr_size s) start 0"
    and mo: "merge_overlap (rr_ranges s) (rr_size s) f start fin = (l, ms, me)"
  shows "rr_insert s start fin =
     (if f = l \<and> rr_size s = rr_capacity s then (s, range_result range_full (rr_cumulative_ack s) 0)
      else if f < l
      then (s\<lparr>rr_ranges := shift_down ((rr_ranges s)(f := \<lparr>sb_start = ms, sb_end = me\<rparr>)) (l - f - 1) l (rr_size s),
              rr_size := rr_size s - (l - f - 1)\<rparr>, range_result range_accepted (rr_cumulative_ack s) 0)
      else (s\<lparr>rr_ranges := (shift_up (rr_ranges s) (rr_size s) f)(f := \<lparr>sb_start = ms, sb_end = me\<rparr>),
              rr_size := rr_size s + 1\<rparr>, range_result range_accepted (rr_cumulative_ack s) 0))"
proof -
  let ?c = "rr_cumulative_ack s"
  have guards: "start \<noteq> fin" "\<not> 0x80000000 \<le> fin - start" "\<not> sequence_less_equal fin ?c"
    "\<not> sequence_less start ?c" "\<not> 0x80000000 \<le> start - ?c" "start \<noteq> ?c"
    using lo hi seq_off_triangle [of ?c start fin]
    by (auto simp: sequence_less_equal_iff [of ?c] sequence_less_base word_le_nat_alt
             simp flip: seq_off_def)
  show ?thesis by (simp add: rr_insert_def guards Let_def mo flip: f)
qed

text \<open>What the skip and the merge compute is the reference insertion on the offsets.\<close>

lemma rr_merged_ivs:
  assumes inv: "rr_inv s"
    and lo: "seq_off (rr_cumulative_ack s) start < seq_off (rr_cumulative_ack s) fin"
    and hi: "seq_off (rr_cumulative_ack s) fin < 2 ^ 31"
    and f: "f = skip_before (rr_ranges s) (rr_size s) start 0"
    and mo: "merge_overlap (rr_ranges s) (rr_size s) f start fin = (l, ms, me)"
  shows "f \<le> l \<and> l \<le> rr_size s \<and>
    ins (seq_off (rr_cumulative_ack s) start) (seq_off (rr_cumulative_ack s) fin) (rr_ivs s) =
      map (blk_iv (rr_cumulative_ack s)) (take f (live (rr_ranges s) (rr_size s)) @
        \<lparr>sb_start = ms, sb_end = me\<rparr> # drop l (live (rr_ranges s) (rr_size s)))"
proof -
  let ?c = "rr_cumulative_ack s" and ?a = "rr_ranges s" and ?n = "rr_size s"
  let ?lo = "seq_off ?c start" and ?hi = "seq_off ?c fin"
  have lo31: "?lo < 2 ^ 31" using lo hi by simp
  have f: "f = length (takeWhile (\<lambda>(a, b). b < ?lo) (rr_ivs s))"
    unfolding f by (rule skip_before_ivs [OF inv lo31])
  have fn: "f \<le> ?n" unfolding f
    using length_takeWhile_le [of _ "rr_ivs s"] by (simp add: rr_ivs_def rr_live_def)
  have w: "in_window (map (blk_iv ?c) (drop f (live ?a ?n)))"
    using inv unfolding rr_inv_def rr_ivs_def rr_live_def in_window_def
    by (metis (no_types, lifting) drop_map in_set_dropD)
  note spec = merge_overlap_spec [OF fn w lo31 hi mo]
  have t: "takeWhile (\<lambda>(a, b). b < ?lo) (rr_ivs s) = take f (rr_ivs s)"
    "dropWhile (\<lambda>(a, b). b < ?lo) (rr_ivs s) = drop f (rr_ivs s)"
    unfolding f by (rule takeWhile_eq_take, rule dropWhile_eq_drop)
  have "ins ?lo ?hi (rr_ivs s) = take f (rr_ivs s) @
      (case ins_merge ?lo ?hi (drop f (rr_ivs s)) of (iv, rest) \<Rightarrow> iv # rest)"
    using inv lo ins_skip [of 0 "rr_ivs s" ?lo ?hi] by (simp add: rr_inv_def t)
  also have "\<dots> = take f (rr_ivs s) @ (seq_off ?c ms, seq_off ?c me) # drop l (rr_ivs s)"
    using spec by (simp add: rr_ivs_def rr_live_def drop_map)
  also have "\<dots> = map (blk_iv ?c) (take f (live ?a ?n) @ \<lparr>sb_start = ms, sb_end = me\<rparr>
                     # drop l (live ?a ?n))"
    by (simp add: rr_ivs_def rr_live_def take_map drop_map blk_iv_def)
  finally show ?thesis using spec by blast
qed

lemma rr_insert_ahead:
  assumes inv: "rr_inv s"
    and lo: "0 < seq_off (rr_cumulative_ack s) start"
      "seq_off (rr_cumulative_ack s) start < seq_off (rr_cumulative_ack s) fin"
    and hi: "seq_off (rr_cumulative_ack s) fin < 2 ^ 31"
  shows "(\<exists>s'. rr_insert s start fin = (s', range_result range_accepted (rr_cumulative_ack s) 0) \<and>
            rr_cumulative_ack s' = rr_cumulative_ack s \<and> rr_capacity s' = rr_capacity s \<and>
            rr_size s' \<le> rr_capacity s \<and>
            rr_ivs s' = ins (seq_off (rr_cumulative_ack s) start)
                          (seq_off (rr_cumulative_ack s) fin) (rr_ivs s)) \<or>
         rr_insert s start fin = (s, range_result range_full (rr_cumulative_ack s) 0) \<and>
           rr_size s = rr_capacity s"
proof -
  let ?c = "rr_cumulative_ack s" and ?a = "rr_ranges s" and ?n = "rr_size s"
  define f where "f = skip_before ?a ?n start 0"
  obtain l ms me where mo: "merge_overlap ?a ?n f start fin = (l, ms, me)"
    by (metis prod_cases3)
  note code = rr_insert_code_ahead [OF lo hi f_def mo]
  note merged = rr_merged_ivs [OF inv lo(2) hi f_def mo]
  have spec: "f \<le> l" "l \<le> ?n" and fn: "f \<le> ?n" and ivs: "ins (seq_off ?c start) (seq_off ?c fin) (rr_ivs s) =
      map (blk_iv ?c) (take f (live ?a ?n) @ \<lparr>sb_start = ms, sb_end = me\<rparr> # drop l (live ?a ?n))"
    using merged by (blast, blast, linarith, blast)
  consider "f = l" "?n = rr_capacity s" | "f < l" | "f = l" "?n \<noteq> rr_capacity s"
    using spec by linarith
  then show ?thesis
  proof cases
    case 1
    then show ?thesis by (simp add: code)
  next
    case 2
    then show ?thesis
      using ivs spec inv live_replace_block [of f l ?n ?a "\<lparr>sb_start = ms, sb_end = me\<rparr>"]
      by (auto simp: code rr_ivs_def rr_live_def rr_inv_def)
  next
    case 3
    then show ?thesis
      using ivs spec inv live_insert_at [OF fn, of ?a "\<lparr>sb_start = ms, sb_end = me\<rparr>"]
      by (auto simp: code rr_ivs_def rr_live_def rr_inv_def)
  qed
qed


section \<open>The contiguous prefix\<close>

lemma advance_contiguous_adv:
  assumes "in_window (map (blk_iv c) (rr_live s))" "seq_off c (rr_cumulative_ack s) < 2 ^ 31"
  shows "adv (seq_off c (rr_cumulative_ack s)) (map (blk_iv c) (rr_live s))
           = (seq_off c (rr_cumulative_ack (advance_contiguous s)),
              map (blk_iv c) (rr_live (advance_contiguous s))) \<and>
         rr_capacity (advance_contiguous s) = rr_capacity s \<and>
         rr_size (advance_contiguous s) \<le> rr_size s"
  using assms
proof (induction s rule: advance_contiguous.induct)
  case (1 s)
  let ?k = "rr_cumulative_ack s" and ?b = "rr_ranges s 0"
  show ?case
  proof (cases "rr_size s = 0")
    case True
    then show ?thesis by (simp add: advance_contiguous.simps [of s] rr_live_def)
  next
    case False
    then obtain n where n: "rr_size s = Suc n" by (cases "rr_size s") auto
    define s1 where "s1 = (if sequence_less ?k (sb_end ?b) then s\<lparr>rr_cumulative_ack := sb_end ?b\<rparr>
                           else s)"
    have l: "rr_live s = ?b # rr_live (rr_remove s1 0)"
      using live_shift_down [of 1 1 "Suc n" "rr_ranges s"]
      by (simp add: rr_live_def s1_def rr_remove_def n live_Cons drop_Suc)
    have w: "seq_off c (sb_start ?b) < 2 ^ 31" "seq_off c (sb_end ?b) < 2 ^ 31"
        "in_window (map (blk_iv c) (rr_live (rr_remove s1 0)))"
      using "1.prems"(1) unfolding l by (auto simp: in_window_def blk_iv_def)
    note le = sequence_less_equal_iff [OF w(1) "1.prems"(2)]
      and lt = sequence_less_iff [OF "1.prems"(2) w(2)]
    show ?thesis
    proof (cases "seq_off c (sb_start ?b) \<le> seq_off c ?k")
      case True
      have a: "advance_contiguous s = advance_contiguous (rr_remove s1 0)"
        using True n by (simp add: advance_contiguous.simps [of s] le s1_def Let_def)
      have k: "seq_off c (rr_cumulative_ack (rr_remove s1 0))
                 = max (seq_off c ?k) (seq_off c (sb_end ?b))"
        by (auto simp: rr_remove_def s1_def lt)
      have r: "rr_capacity (rr_remove s1 0) = rr_capacity s" "rr_size (rr_remove s1 0) = n"
        using n by (auto simp: rr_remove_def s1_def)
      show ?thesis
        using "1.IH" [OF _ s1_def w(3)] True n w(2) "1.prems"(2)
        unfolding a l by (simp add: le k r blk_iv_def)
    next
      case stop: False
      then have "advance_contiguous s = s" by (simp add: advance_contiguous.simps [of s] le)
      then show ?thesis using stop unfolding l by (simp add: l blk_iv_def)
    qed
  qed
qed

lemma map_blk_iv_rebase:
  assumes "gapped (seq_off c d) (map (blk_iv c) bs)"
  shows "map (blk_iv d) bs = rebase (seq_off c d) (map (blk_iv c) bs)"
proof -
  have "blk_iv d b = (case blk_iv c b of (x, y) \<Rightarrow> (x - seq_off c d, y - seq_off c d))"
    if "b \<in> set bs" for b
  proof -
    have "seq_off c d < seq_off c (sb_start b)" "seq_off c (sb_start b) < seq_off c (sb_end b)"
      using that gapped_mem [OF assms, of "seq_off c (sb_start b)" "seq_off c (sb_end b)"]
      by (auto simp: blk_iv_def image_iff)
    then show ?thesis
      using seq_off_triangle [of c d "sb_start b"] seq_off_triangle [of c d "sb_end b"]
      by (simp add: blk_iv_def)
  qed
  then show ?thesis by (simp add: rebase_def)
qed


lemma in_window_of_adv:
  assumes "in_window ivs" "set ivs' \<subseteq> set ivs"
  shows "in_window (rebase k ivs')"
  unfolding in_window_def
proof (intro ballI, clarify)
  fix a b assume "(a, b) \<in> set (rebase k ivs')"
  then obtain x y where xy: "(x, y) \<in> set ivs'" "a = x - k" "b = y - k" by (auto simp: rebase_def)
  then have "(x, y) \<in> set ivs" using assms(2) by blast
  then have "x < 2 ^ 31" "y < 2 ^ 31" using assms(1) unfolding in_window_def by blast+
  then show "a < 2 ^ 31 \<and> b < 2 ^ 31" unfolding xy by (blast intro: less_imp_diff_less)
qed

text \<open>
  What an accepted range does to the received bytes: \<open>U\<close> is everything received above the cumulative
  acknowledgement, the acknowledgement moves to the first missing byte, and the rest stays buffered.
\<close>

definition absorbs :: "ReceiveRangeSet \<Rightarrow> nat set \<Rightarrow> ReceiveRangeSet \<Rightarrow> bool" where
  "absorbs s U s' \<longleftrightarrow> (let k = (LEAST n. n \<notin> U) in
     rr_cumulative_ack s' = rr_cumulative_ack s + of_nat k \<and>
     rr_bytes s' = (\<lambda>x. x - k) ` (U - {..<k}))"

lemma rr_insert_contiguous:
  assumes inv: "rr_inv s" and hi: "seq_off (rr_cumulative_ack s) fin < 2 ^ 31"
    and s': "s' = advance_contiguous (s\<lparr>rr_cumulative_ack := fin\<rparr>)"
  shows "rr_inv s' \<and> absorbs s (rr_bytes s \<union> {0..<seq_off (rr_cumulative_ack s) fin}) s'"
proof -
  let ?c = "rr_cumulative_ack s" and ?ivs = "rr_ivs s"
  let ?U = "rr_bytes s \<union> {0..<seq_off ?c fin}"
  define k where "k = seq_off ?c (rr_cumulative_ack s')"
  define ivs' where "ivs' = map (blk_iv ?c) (rr_live s')"
  have a: "adv (seq_off ?c fin) ?ivs = (k, ivs')" "rr_capacity s' = rr_capacity s"
      "rr_size s' \<le> rr_size s"
    using advance_contiguous_adv [of ?c "s\<lparr>rr_cumulative_ack := fin\<rparr>"] inv hi
    unfolding k_def ivs'_def s' by (auto simp: rr_inv_def rr_ivs_def rr_live_def)
  have g: "gapped 0 ?ivs" and w: "in_window ?ivs" using inv by (auto simp: rr_inv_def)
  have U: "{..<k} \<union> covered ivs' = ?U"
    using adv_covered [OF a(1) g] unfolding rr_bytes_def atLeast0LessThan by blast
  have g': "gapped k ivs'" using adv_gapped [OF a(1) g] by simp
  have ivs: "rr_ivs s' = rebase k ivs'"
    using map_blk_iv_rebase g' unfolding rr_ivs_def k_def ivs'_def by blast
  have "gapped 0 (rr_ivs s')" using gapped_rebase [OF g', of k] by (simp add: ivs)
  moreover have "in_window (rr_ivs s')"
    unfolding ivs using adv_subset [OF a(1)] w by (intro in_window_of_adv) auto
  ultimately have "rr_inv s'" using inv a by (simp add: rr_inv_def)
  moreover have "?U - {..<k} = covered ivs'"
    unfolding U [symmetric] using gapped_covered_above [OF g'] by fastforce
  then have "absorbs s ?U s'"
    using least_missing [OF U g'] covered_rebase [OF g', of k] seq_off_recover [of ?c]
    by (simp add: absorbs_def rr_bytes_def ivs k_def)
  ultimately show ?thesis by simp
qed

lemma rr_insert_buffered:
  assumes inv: "rr_inv s" and lo: "0 < lo" "lo < hi" "hi < 2 ^ 31"
    and s': "rr_cumulative_ack s' = rr_cumulative_ack s" "rr_capacity s' = rr_capacity s"
      "rr_size s' \<le> rr_capacity s" "rr_ivs s' = ins lo hi (rr_ivs s)"
  shows "rr_inv s' \<and> absorbs s (rr_bytes s \<union> {lo..<hi}) s'"
proof -
  have g: "gapped 0 (rr_ivs s)" and w: "in_window (rr_ivs s)" using inv by (auto simp: rr_inv_def)
  have g': "gapped 0 (rr_ivs s')" unfolding s' using lo g by (intro ins_gapped)
  have "\<forall>(a, b) \<in> set (rr_ivs s'). b \<le> 2 ^ 31 - 1"
    unfolding s' using w lo by (intro ins_bound) (auto simp: in_window_def)
  then have "in_window (rr_ivs s')"
    using gapped_mem [OF g'] by (fastforce simp: in_window_def)
  then have "rr_inv s'" using g' inv s' by (simp add: rr_inv_def)
  moreover have c: "rr_bytes s' = rr_bytes s \<union> {lo..<hi}"
    unfolding rr_bytes_def s' using lo g by (intro ins_covered)
  moreover have "(LEAST n. n \<notin> rr_bytes s') = 0"
    using gapped_covered_above [OF g', of 0] by (intro Least_eq_0) (auto simp: rr_bytes_def)
  then have "absorbs s (rr_bytes s \<union> {lo..<hi}) s'"
    using s' by (simp add: absorbs_def flip: c)
  ultimately show ?thesis by simp
qed

section \<open>Properties\<close>

text \<open>
  Claim C10. Inserting a received range. Every outcome keeps the invariant (sorted, disjoint,
  non-adjacent, non-empty ranges within half the sequence space and within the capacity) and reports
  the cumulative acknowledgement in force. A range is accepted only when it reaches above the
  cumulative acknowledgement and is shorter than 2^31; then the bytes received are exactly the old
  ones and the new ones above the acknowledgement, the acknowledgement moves up to the first byte
  that is still missing, and the result counts the bytes that became contiguous. Every refusal leaves
  the set unchanged and has its reason.
\<close>

theorem receive_ranges_insert:
  assumes "rr_inv s" "rr_insert s start fin = (s', r)"
  shows "rr_inv s' \<and> rres_cumulative_ack r = rr_cumulative_ack s' \<and>
    rres_newly_contiguous_bytes r = rr_cumulative_ack s' - rr_cumulative_ack s \<and>
    (case rres_status r of
       range_accepted \<Rightarrow>
         let lo = (if sequence_less start (rr_cumulative_ack s) then 0
                   else seq_off (rr_cumulative_ack s) start);
             hi = seq_off (rr_cumulative_ack s) fin
         in lo < hi \<and> hi < 2 ^ 31 \<and> absorbs s (rr_bytes s \<union> {lo..<hi}) s'
     | range_duplicate \<Rightarrow> s' = s \<and> sequence_less_equal fin (rr_cumulative_ack s)
     | range_full \<Rightarrow> s' = s \<and> rr_size s = rr_capacity s \<and> start \<noteq> rr_cumulative_ack s \<and>
                    \<not> sequence_less start (rr_cumulative_ack s)
     | invalid_range \<Rightarrow> s' = s \<and> start = fin
     | outside_window \<Rightarrow> s' = s \<and> 2 ^ 31 \<le> seq_off start fin)"
proof -
  let ?c = "rr_cumulative_ack s"
  have len: "end' - start \<ge> 0x80000000 \<longleftrightarrow> 2 ^ 31 \<le> seq_off start end'" for start end'
    by (simp add: word_le_nat_alt seq_off_def)
  consider "start = fin" | "start \<noteq> fin" "2 ^ 31 \<le> seq_off start fin"
    | "start \<noteq> fin" "seq_off start fin < 2 ^ 31" "sequence_less_equal fin ?c"
    | "start \<noteq> fin" "seq_off start fin < 2 ^ 31" "\<not> sequence_less_equal fin ?c"
    by linarith
  then show ?thesis
  proof cases
    case 4
    then have hi: "0 < seq_off ?c fin" "seq_off ?c fin < 2 ^ 31"
      by (auto simp: sequence_less_equal_def sequence_less_base)
    show ?thesis
    proof (cases "sequence_less start ?c \<or> start = ?c")
      case True
      define s1 where "s1 = advance_contiguous (s\<lparr>rr_cumulative_ack := fin\<rparr>)"
      have "rr_insert s start fin = (s1, range_result range_accepted (rr_cumulative_ack s1)
              (rr_cumulative_ack s1 - ?c))"
        using 4 True by (auto simp: rr_insert_def len s1_def Let_def)
      then show ?thesis
        using assms(2) True rr_insert_contiguous [OF assms(1) hi(2) s1_def] hi
        by (auto simp: range_result_def)
    next
      case False
      then have lo: "0 < seq_off ?c start" "seq_off ?c start < 2 ^ 31"
        by (auto simp: sequence_less_base)
      then have "seq_off ?c start < seq_off ?c fin"
        using 4 hi seq_off_below [of ?c fin start] seq_off_inject [of ?c start fin]
        by (cases "seq_off ?c start" "seq_off ?c fin" rule: linorder_cases) auto
      then show ?thesis
        using rr_insert_ahead [OF assms(1) lo(1) _ hi(2)] assms False hi
          rr_insert_buffered [OF assms(1) lo(1) _ hi(2)]
        by (auto simp: range_result_def)
    qed
  qed (use assms in \<open>auto simp: rr_insert_def len range_result_def\<close>)
qed


theorem receive_ranges_insert_witness:
  "let s = new_ReceiveRangeSet 0xFFFFFFF0 8; s1 = fst (rr_insert s 0x10 0x20);
       s2 = fst (rr_insert s1 0xFFFFFFE0 0x18)
   in rr_inv s \<and> rr_inv s1 \<and> rr_inv s2 \<and> rr_cumulative_ack s2 = 0x20"
proof -
  define s s1 s2 where "s = new_ReceiveRangeSet 0xFFFFFFF0 8" and "s1 = fst (rr_insert s 0x10 0x20)"
    and "s2 = fst (rr_insert s1 0xFFFFFFE0 0x18)"
  have i: "rr_inv s" unfolding s_def by (rule rr_inv_new)
  have i1: "rr_inv s1"
    using receive_ranges_insert [OF i, of "0x10" "0x20" s1 "snd (rr_insert s 0x10 0x20)"]
    by (simp add: s1_def)
  have i2: "rr_inv s2"
    using receive_ranges_insert [OF i1, of "0xFFFFFFE0" "0x18" s2 "snd (rr_insert s1 0xFFFFFFE0 0x18)"]
    by (simp add: s2_def)
  have "rr_cumulative_ack s2 = 0x20"
    unfolding s2_def s1_def s_def by code_simp
  then show ?thesis using i i1 i2 unfolding s_def s1_def s2_def by (simp add: Let_def)
qed

text \<open>
  Claim C22. Selective acknowledgements are truthful and nearest-first: the receiver reports as many ranges as fit
  (at most four), in ascending order, each non-empty and made of bytes it has received, with a missing byte right
  before and right after it; a byte it holds and does not report lies above every reported range, so the ranges
  nearest to the cumulative acknowledgement are the reported ones. It never touches the rest
  of the output, and when fewer than the maximum are reported they are all the out-of-order bytes.
\<close>

theorem generate_sacks_truthful:
  assumes "rr_inv s" "generate_sacks s out = (out', n)"
  shows "n = min (min (rr_size s) (length out)) 4 \<and> length out' = length out \<and>
    drop n out' = drop n out \<and> gapped 0 (map (blk_iv (rr_cumulative_ack s)) (take n out')) \<and>
    covered (map (blk_iv (rr_cumulative_ack s)) (take n out')) \<subseteq> rr_bytes s \<and>
    (\<forall>(lo, hi) \<in> set (map (blk_iv (rr_cumulative_ack s)) (take n out')). lo - 1 \<notin> rr_bytes s \<and> hi \<notin> rr_bytes s) \<and>
    (\<forall>b \<in> rr_bytes s - covered (map (blk_iv (rr_cumulative_ack s)) (take n out')).
      \<forall>(lo, hi) \<in> set (map (blk_iv (rr_cumulative_ack s)) (take n out')). hi < b) \<and>
    (rr_size s \<le> n \<longrightarrow> covered (map (blk_iv (rr_cumulative_ack s)) (take n out')) = rr_bytes s)"
proof -
  let ?c = "rr_cumulative_ack s"
  have n: "n = min (min (rr_size s) (length out)) 4"
    using assms(2) by (auto simp: generate_sacks_def kMaximumSackBlocks_def Let_def)
  have out': "out' = take n (rr_live s) @ drop n out"
    using assms(2) n by (auto simp: generate_sacks_def kMaximumSackBlocks_def Let_def
        fold_update_prefix take_live rr_live_def)
  have tk: "take n out' = take n (rr_live s)" "length (take n (rr_live s)) = n"
    using n by (auto simp: out' rr_live_def)
  have split: "rr_ivs s = map (blk_iv ?c) (take n (rr_live s)) @ map (blk_iv ?c) (drop n (rr_live s))"
    by (simp add: rr_ivs_def flip: map_append)
  have "gapped 0 (map (blk_iv ?c) (take n (rr_live s)))"
    using assms(1) unfolding rr_inv_def split
    by (cases "map (blk_iv ?c) (drop n (rr_live s))") (auto simp: gapped_append)
  moreover have "covered (map (blk_iv ?c) (take n (rr_live s))) \<subseteq> rr_bytes s"
    unfolding rr_bytes_def split by simp
  moreover have "\<forall>(lo, hi) \<in> set (map (blk_iv ?c) (take n (rr_live s))). lo - 1 \<notin> rr_bytes s \<and> hi \<notin> rr_bytes s"
  proof (intro ballI, unfold case_prod_unfold)
    fix iv assume "iv \<in> set (map (blk_iv ?c) (take n (rr_live s)))"
    then have "(fst iv, snd iv) \<in> set (rr_ivs s)" unfolding split by simp
    then show "fst iv - 1 \<notin> rr_bytes s \<and> snd iv \<notin> rr_bytes s"
      using gapped_ends [of 0 "rr_ivs s"] assms(1) unfolding rr_bytes_def rr_inv_def by blast
  qed
  moreover have "\<forall>b \<in> rr_bytes s - covered (map (blk_iv ?c) (take n (rr_live s))).
      \<forall>(lo, hi) \<in> set (map (blk_iv ?c) (take n (rr_live s))). hi < b"
  proof (intro ballI, unfold case_prod_unfold)
    fix b iv assume b: "b \<in> rr_bytes s - covered (map (blk_iv ?c) (take n (rr_live s)))"
      and iv: "iv \<in> set (map (blk_iv ?c) (take n (rr_live s)))"
    have "(fst iv, snd iv) \<in> set (map (blk_iv ?c) (take n (rr_live s)))" using iv by simp
    moreover have "b \<in> covered (map (blk_iv ?c) (drop n (rr_live s)))" using b unfolding rr_bytes_def split by auto
    ultimately show "snd iv < b"
      using gapped_append_above assms(1) unfolding rr_inv_def split by blast
  qed
  moreover have "rr_size s \<le> n \<longrightarrow> covered (map (blk_iv ?c) (take n (rr_live s))) = rr_bytes s"
    unfolding rr_bytes_def split by (simp add: rr_live_def)
  moreover have "length out' = length out" "drop n out' = drop n out"
    using n tk by (auto simp: out')
  ultimately show ?thesis unfolding tk(1) using n by blast
qed

theorem generate_sacks_truthful_witness:
  "let s = fst (rr_insert (new_ReceiveRangeSet 100 8) 200 300)
   in rr_inv s \<and> snd (generate_sacks s [default_SackBlock, default_SackBlock]) = 1 \<and>
      covered (map (blk_iv 100) (take 1 (fst (generate_sacks s [default_SackBlock, default_SackBlock])))) = rr_bytes s"
proof -
  define s where "s = fst (rr_insert (new_ReceiveRangeSet 100 8) 200 300)"
  have sz: "rr_size s = 1" unfolding s_def by code_simp
  have st: "rr_ivs s = [(100, 200)]" unfolding s_def by code_simp
  have cap: "rr_capacity s = 8" unfolding s_def by code_simp
  have i: "rr_inv s" by (simp add: rr_inv_def sz st cap in_window_def kReceiveRangeCapacity_def)
  have ack: "rr_cumulative_ack s = 100" unfolding s_def by code_simp
  obtain out n where g: "generate_sacks s [default_SackBlock, default_SackBlock] = (out, n)" by fastforce
  from generate_sacks_truthful [OF i g] have "n = 1"
    "rr_size s \<le> n \<longrightarrow> covered (map (blk_iv 100) (take n out)) = rr_bytes s" by (auto simp: sz ack)
  then show ?thesis using i sz by (simp add: s_def [symmetric] g)
qed

end
