(* ===== verification/Packet_Pool.thy ===== *)
theory Packet_Pool
  imports Prelude
begin

text \<open>
  The packet pool (\<^verbatim>\<open>include/vectornet/alloc/packet_pool.hpp\<close>, \<^verbatim>\<open>src/alloc/packet_pool.cpp\<close>).

  A \<open>PacketBuffer*\<close> is its address, a natural number below 2^64 with 0 for \<open>nullptr\<close>; the storage
  array of a pool starts at \<open>pool_base\<close>, which the allocation in the constructor chooses and the
  model takes as an argument. \<open>index_of\<close> is the address arithmetic of the source. The free list and
  the in-use flags are arrays indexed like the storage.

  The locale \<open>buffer_pool\<close> is the contract the transport relies on (a pool hands out buffers it does
  not hold out already and takes back exactly those it handed out); \<open>packet_pool\<close> interprets it.
\<close>

definition kPacketBufferBytes :: nat where "kPacketBufferBytes = 2048"
definition kDefaultPacketBufferCount :: nat where "kDefaultPacketBufferCount = 4096"

text \<open>\<open>sizeof(PacketBuffer)\<close>: 2048 data bytes and a 16-bit length, rounded up to 64-byte lines.\<close>

definition sizeof_PacketBuffer :: nat where "sizeof_PacketBuffer = 2112"

record PacketBuffer =
  pb_data :: "byte list"
  pb_length :: u16

record PacketPoolStatistics =
  st_acquired :: u64
  st_released :: u64
  st_exhausted :: u64
  st_invalid_release :: u64

record PacketPool =
  pool_base :: nat
  pool_storage :: "PacketBuffer arr"
  pool_freelist :: "nat arr"
  pool_in_use :: "u8 arr"
  pool_capacity :: nat
  pool_available :: nat
  pool_statistics :: PacketPoolStatistics

definition new_PacketPool :: "nat \<Rightarrow> nat \<Rightarrow> PacketPool" where
  "new_PacketPool base capacity =
     \<lparr>pool_base = (if capacity = 0 then 0 else base),
      pool_storage = (\<lambda>_. \<lparr>pb_data = replicate kPacketBufferBytes 0, pb_length = 0\<rparr>),
      pool_freelist = (\<lambda>index. if index < capacity then capacity - index - 1 else 0),
      pool_in_use = (\<lambda>_. 0),
      pool_capacity = capacity, pool_available = capacity,
      pool_statistics = \<lparr>st_acquired = 0, st_released = 0, st_exhausted = 0,
                          st_invalid_release = 0\<rparr>\<rparr>"

definition buffer_address :: "PacketPool \<Rightarrow> nat \<Rightarrow> nat" where
  "buffer_address p index = pool_base p + index * sizeof_PacketBuffer"

definition acquire :: "PacketPool \<Rightarrow> PacketPool \<times> nat" where
  "acquire p =
     (if pool_available p = 0
      then (p\<lparr>pool_statistics := (pool_statistics p)
                \<lparr>st_exhausted := st_exhausted (pool_statistics p) + 1\<rparr>\<rparr>, 0)
      else
        let available = pool_available p - 1;
            index = pool_freelist p available
        in (p\<lparr>pool_available := available,
               pool_in_use := (pool_in_use p)(index := 1),
               pool_storage := (pool_storage p)(index := (pool_storage p index)\<lparr>pb_length := 0\<rparr>),
               pool_statistics := (pool_statistics p)
                 \<lparr>st_acquired := st_acquired (pool_statistics p) + 1\<rparr>\<rparr>,
            buffer_address p index))"

definition index_of :: "PacketPool \<Rightarrow> nat \<Rightarrow> nat option" where
  "index_of p buffer =
     (if buffer = 0 \<or> pool_capacity p = 0 then None
      else if pool_capacity p > (2 ^ 64 - 1) div sizeof_PacketBuffer then None
      else
        let storage_bytes = pool_capacity p * sizeof_PacketBuffer in
        if buffer < pool_base p \<or> buffer - pool_base p \<ge> storage_bytes then None
        else
          let offset = buffer - pool_base p in
          if offset mod sizeof_PacketBuffer \<noteq> 0 then None
          else Some (offset div sizeof_PacketBuffer))"

definition release_rejected :: "PacketPool \<Rightarrow> PacketPool" where
  "release_rejected p = p\<lparr>pool_statistics := (pool_statistics p)
     \<lparr>st_invalid_release := st_invalid_release (pool_statistics p) + 1\<rparr>\<rparr>"

definition release :: "PacketPool \<Rightarrow> nat \<Rightarrow> PacketPool \<times> bool" where
  "release p buffer =
     (case index_of p buffer of
        None \<Rightarrow> (release_rejected p, False)
      | Some index \<Rightarrow>
          if pool_in_use p index = 0 then (release_rejected p, False)
          else
            (p\<lparr>pool_storage := (pool_storage p)(index := (pool_storage p index)\<lparr>pb_length := 0\<rparr>),
               pool_in_use := (pool_in_use p)(index := 0),
               pool_freelist := (pool_freelist p)(pool_available p := index),
               pool_available := pool_available p + 1,
               pool_statistics := (pool_statistics p)
                 \<lparr>st_released := st_released (pool_statistics p) + 1\<rparr>\<rparr>, True))"

text \<open>Reading and writing the buffer a pointer into the storage designates.\<close>

definition deref :: "PacketPool \<Rightarrow> nat \<Rightarrow> PacketBuffer" where
  "deref p buffer = pool_storage p ((buffer - pool_base p) div sizeof_PacketBuffer)"

definition store :: "PacketPool \<Rightarrow> nat \<Rightarrow> PacketBuffer \<Rightarrow> PacketPool" where
  "store p buffer b = p\<lparr>pool_storage :=
     (pool_storage p)((buffer - pool_base p) div sizeof_PacketBuffer := b)\<rparr>"

section \<open>Invariant\<close>

text \<open>
  The storage lies in the 64-bit address space away from the null page; the live part of the free
  list holds, once each, exactly the indices whose flag is clear.
\<close>

definition pool_placed :: "nat \<Rightarrow> nat \<Rightarrow> bool" where
  "pool_placed base capacity \<longleftrightarrow>
     (capacity = 0 \<or> 0 < base \<and> base + capacity * sizeof_PacketBuffer \<le> 2 ^ 64)"

definition pool_inv :: "PacketPool \<Rightarrow> bool" where
  "pool_inv p \<longleftrightarrow>
     pool_placed (pool_base p) (pool_capacity p) \<and>
     pool_available p \<le> pool_capacity p \<and>
     distinct (live (pool_freelist p) (pool_available p)) \<and>
     set (live (pool_freelist p) (pool_available p))
       = {i. i < pool_capacity p \<and> pool_in_use p i = 0} \<and>
     (\<forall>i < pool_capacity p. length (pb_data (pool_storage p i)) = kPacketBufferBytes)"

definition held :: "PacketPool \<Rightarrow> nat set" where
  "held p = buffer_address p ` {i. i < pool_capacity p \<and> pool_in_use p i \<noteq> 0}"

section \<open>The contract of a buffer pool\<close>

locale buffer_pool =
  fixes inv :: "'p \<Rightarrow> bool"
    and held :: "'p \<Rightarrow> nat set"
    and free :: "'p \<Rightarrow> nat"
    and acq :: "'p \<Rightarrow> 'p \<times> nat"
    and rel :: "'p \<Rightarrow> nat \<Rightarrow> 'p \<times> bool"
  assumes acq_fresh: "inv p \<Longrightarrow> acq p = (p', b) \<Longrightarrow> 0 < free p \<Longrightarrow>
      b \<noteq> 0 \<and> b \<notin> held p \<and> inv p' \<and> held p' = insert b (held p) \<and> free p' = free p - 1"
    and acq_exhausted: "inv p \<Longrightarrow> acq p = (p', b) \<Longrightarrow> free p = 0 \<Longrightarrow>
      b = 0 \<and> inv p' \<and> held p' = held p \<and> free p' = 0"
    and rel_held: "inv p \<Longrightarrow> b \<in> held p \<Longrightarrow> rel p b = (p', r) \<Longrightarrow>
      r \<and> inv p' \<and> held p' = held p - {b} \<and> free p' = free p + 1"
    and rel_foreign: "inv p \<Longrightarrow> b \<notin> held p \<Longrightarrow> rel p b = (p', r) \<Longrightarrow>
      \<not> r \<and> inv p' \<and> held p' = held p \<and> free p' = free p"
    and held_finite: "inv p \<Longrightarrow> finite (held p)"
begin

text \<open>Releasing a list of buffers one after the other, stopping at the first rejection.\<close>

fun rel_all :: "'p \<Rightarrow> nat list \<Rightarrow> 'p \<times> bool" where
  "rel_all p [] = (p, True)"
| "rel_all p (b # bs) = (case rel p b of (p', r) \<Rightarrow> if r then rel_all p' bs else (p', False))"

lemma acq_null_iff: "inv p \<Longrightarrow> snd (acq p) = 0 \<longleftrightarrow> free p = 0"
  by (cases "acq p") (metis acq_exhausted acq_fresh bot_nat_0.not_eq_extremum snd_conv)

lemma acq_inv: "inv p \<Longrightarrow> inv (fst (acq p))"
  by (cases "acq p") (metis acq_exhausted acq_fresh bot_nat_0.not_eq_extremum fst_conv)

lemma rel_inv: "inv p \<Longrightarrow> inv (fst (rel p b))"
  by (cases "rel p b") (metis fst_conv rel_foreign rel_held)

lemma rel_result: "inv p \<Longrightarrow> snd (rel p b) \<longleftrightarrow> b \<in> held p"
  by (cases "rel p b") (metis rel_foreign rel_held snd_conv)

lemma double_release_rejected:
  assumes "inv p" "rel p b = (p', r)"
  shows "\<not> snd (rel p' b)"
proof (cases "b \<in> held p")
  case True
  then have "inv p'" "b \<notin> held p'" using rel_held [OF assms(1) True assms(2)] by auto
  then show ?thesis by (simp add: rel_result)
next
  case False
  then have "inv p'" "b \<notin> held p'" using rel_foreign [OF assms(1) False assms(2)] by auto
  then show ?thesis by (simp add: rel_result)
qed

lemma acquire_then_release:
  assumes "inv p" "0 < free p" "acq p = (p', b)" "rel p' b = (p'', r)"
  shows "r \<and> inv p'' \<and> held p'' = held p \<and> free p'' = free p"
proof -
  have a: "b \<notin> held p" "inv p'" "held p' = insert b (held p)" "free p' = free p - 1"
    using acq_fresh [OF assms(1,3,2)] by auto
  then have "b \<in> held p'" by simp
  then show ?thesis using rel_held [OF a(2) _ assms(4)] a assms(2) by auto
qed

lemma rel_all_held:
  assumes "inv p" "distinct bs" "set bs \<subseteq> held p"
  shows "\<exists>p'. rel_all p bs = (p', True) \<and> inv p' \<and> held p' = held p - set bs \<and>
           free p' = free p + length bs"
  using assms
proof (induction bs arbitrary: p)
  case Nil
  then show ?case by simp
next
  case (Cons b bs)
  obtain p1 r where r: "rel p b = (p1, r)" by fastforce
  have "b \<in> held p" using Cons.prems by simp
  then have p1: "r" "inv p1" "held p1 = held p - {b}" "free p1 = free p + 1"
    using rel_held [OF Cons.prems(1) _ r] by auto
  have "set bs \<subseteq> held p1" using Cons.prems p1(3) by auto
  then obtain p' where "rel_all p1 bs = (p', True)" "inv p'" "held p' = held p1 - set bs"
      "free p' = free p1 + length bs"
    using Cons.IH [OF p1(2)] Cons.prems(2) by auto
  then show ?case using r p1 by auto
qed

end

section \<open>The pool satisfies the contract\<close>

lemma sizeof_pos [simp]: "0 < sizeof_PacketBuffer" "sizeof_PacketBuffer \<noteq> 0"
  by (simp_all add: sizeof_PacketBuffer_def)

lemma pool_inv_fits:
  "pool_inv p \<Longrightarrow> pool_capacity p \<le> (2 ^ 64 - 1) div sizeof_PacketBuffer"
  by (auto simp: pool_inv_def pool_placed_def sizeof_PacketBuffer_def)

lemma index_of_address:
  assumes "pool_inv p" "i < pool_capacity p"
  shows "index_of p (buffer_address p i) = Some i"
proof -
  have "0 < pool_base p" using assms by (auto simp: pool_inv_def pool_placed_def)
  moreover have "i * sizeof_PacketBuffer < pool_capacity p * sizeof_PacketBuffer"
    using assms(2) by simp
  ultimately show ?thesis
    using assms pool_inv_fits [OF assms(1)] by (simp add: index_of_def buffer_address_def Let_def)
qed

lemma index_of_SomeD:
  assumes "index_of p b = Some i"
  shows "i < pool_capacity p" "b = buffer_address p i"
proof -
  from assms have off: "pool_base p \<le> b" "b - pool_base p < pool_capacity p * sizeof_PacketBuffer"
      "(b - pool_base p) mod sizeof_PacketBuffer = 0" "i = (b - pool_base p) div sizeof_PacketBuffer"
    by (auto simp: index_of_def Let_def split: if_splits)
  show "i < pool_capacity p" using off(2,4) by (simp add: less_mult_imp_div_less)
  have "b - pool_base p = i * sizeof_PacketBuffer" using off(3,4) by auto
  then show "b = buffer_address p i" using off(1) by (simp add: buffer_address_def)
qed

lemma held_iff:
  "pool_inv p \<Longrightarrow> b \<in> held p \<longleftrightarrow> (\<exists>i. index_of p b = Some i \<and> pool_in_use p i \<noteq> 0)"
  by (auto simp: held_def index_of_address dest: index_of_SomeD)

lemma buffer_address_inject:
  "pool_inv p \<Longrightarrow> i < pool_capacity p \<Longrightarrow> j < pool_capacity p \<Longrightarrow>
   buffer_address p i = buffer_address p j \<longleftrightarrow> i = j"
  by (auto simp: buffer_address_def)

lemma live_freelist_top:
  assumes "pool_inv p" "0 < pool_available p"
  shows "live (pool_freelist p) (pool_available p)
           = live (pool_freelist p) (pool_available p - 1) @ [pool_freelist p (pool_available p - 1)]"
  using assms live_Suc [of "pool_freelist p" "pool_available p - 1"] by simp

lemma acquire_correct:
  assumes inv: "pool_inv p" and acq: "acquire p = (p', b)" and av: "0 < pool_available p"
  shows "b \<noteq> 0 \<and> b \<notin> held p \<and> pool_inv p' \<and> held p' = insert b (held p) \<and>
           pool_available p' = pool_available p - 1"
proof -
  let ?n = "pool_available p - 1"
  let ?i = "pool_freelist p ?n"
  note top = live_freelist_top [OF inv av]
  have i: "?i < pool_capacity p" "pool_in_use p ?i = 0"
      "?i \<notin> set (live (pool_freelist p) ?n)"
      "set (live (pool_freelist p) ?n) = {j. j < pool_capacity p \<and> pool_in_use p j = 0} - {?i}"
    using inv unfolding pool_inv_def top by auto
  have b: "b = buffer_address p ?i" and p': "p' = fst (acquire p)"
    using acq av by (auto simp: acquire_def Let_def)
  have base: "0 < pool_base p" using inv i(1) by (auto simp: pool_inv_def pool_placed_def)
  have "held p' = insert b (held p)"
    using i(1) av unfolding b p' by (auto simp: held_def acquire_def Let_def buffer_address_def)
  moreover have "b \<notin> held p"
    using i(1,2) by (auto simp: b held_def buffer_address_inject [OF inv])
  moreover have "pool_inv p'"
    using inv av i unfolding pool_inv_def p' top
    by (auto simp: acquire_def Let_def)
  ultimately show ?thesis
    using base av by (simp add: b p' acquire_def Let_def buffer_address_def)
qed

lemma release_correct:
  assumes inv: "pool_inv p" and b: "b \<in> held p" and rel: "release p b = (p', r)"
  shows "r \<and> pool_inv p' \<and> held p' = held p - {b} \<and> pool_available p' = pool_available p + 1"
proof -
  obtain i where i: "index_of p b = Some i" "pool_in_use p i \<noteq> 0"
    using b inv by (auto simp: held_iff)
  note ic = index_of_SomeD [OF i(1)]
  let ?L = "live (pool_freelist p) (pool_available p)"
  have L: "distinct ?L" "set ?L = {j. j < pool_capacity p \<and> pool_in_use p j = 0}"
    using inv by (auto simp: pool_inv_def)
  have iL: "i \<notin> set ?L" using i(2) L(2) by simp
  have "insert i (set ?L) \<subseteq> {..<pool_capacity p}" using L(2) ic(1) by auto
  then have "card (insert i (set ?L)) \<le> pool_capacity p"
    using card_mono [of "{..<pool_capacity p}"] by fastforce
  then have room: "pool_available p + 1 \<le> pool_capacity p"
    using iL L(1) by (simp add: distinct_card)
  have p': "p' = fst (release p b)" "r" using rel i by (auto simp: release_def)
  have "held p' = held p - {b}"
    using i ic unfolding p'(1)
    by (auto simp: release_def held_def buffer_address_def)
  moreover have "pool_inv p'"
    using inv i ic(1) iL L room unfolding pool_inv_def p'(1)
    by (auto simp: release_def live_push)
  ultimately show ?thesis using p' i by (simp add: release_def)
qed

lemma pool_inv_statistics [simp]: "pool_inv (p\<lparr>pool_statistics := s\<rparr>) = pool_inv p"
  by (simp add: pool_inv_def)

lemma held_statistics [simp]: "held (p\<lparr>pool_statistics := s\<rparr>) = held p"
  by (simp add: held_def buffer_address_def)

interpretation packet_pool: buffer_pool pool_inv held pool_available acquire release
proof unfold_locales
  show "b \<noteq> 0 \<and> b \<notin> held p \<and> pool_inv p' \<and> held p' = insert b (held p) \<and>
      pool_available p' = pool_available p - 1"
    if "pool_inv p" "acquire p = (p', b)" "0 < pool_available p" for p p' b
    using that by (rule acquire_correct)
  show "b = 0 \<and> pool_inv p' \<and> held p' = held p \<and> pool_available p' = 0"
    if "pool_inv p" "acquire p = (p', b)" "pool_available p = 0" for p p' b
    using that by (auto simp: acquire_def)
  show "r \<and> pool_inv p' \<and> held p' = held p - {b} \<and> pool_available p' = pool_available p + 1"
    if "pool_inv p" "b \<in> held p" "release p b = (p', r)" for p p' b r
    using that by (rule release_correct)
  show "\<not> r \<and> pool_inv p' \<and> held p' = held p \<and> pool_available p' = pool_available p"
    if "pool_inv p" "b \<notin> held p" "release p b = (p', r)" for p p' b r
    using that by (auto simp: held_iff release_def release_rejected_def split: option.splits if_splits)
  show "finite (held p)" if "pool_inv p" for p
    by (simp add: held_def)
qed

section \<open>Contents of the buffers\<close>

lemma deref_address: "deref p (buffer_address p i) = pool_storage p i"
  by (simp add: deref_def buffer_address_def)

lemma heldE:
  assumes "b \<in> held p"
  obtains i where "i < pool_capacity p" "pool_in_use p i \<noteq> 0" "b = buffer_address p i"
  using assms by (auto simp: held_def)

lemma store_simps [simp]:
  "pool_base (store p b x) = pool_base p" "pool_capacity (store p b x) = pool_capacity p"
  "pool_available (store p b x) = pool_available p" "pool_in_use (store p b x) = pool_in_use p"
  "held (store p b x) = held p"
  by (simp_all add: store_def held_def buffer_address_def)

lemma deref_store_same [simp]: "deref (store p b x) b = x"
  by (simp add: deref_def store_def)

lemma deref_store_other:
  assumes "b \<in> held p" "c \<in> held p" "b \<noteq> c"
  shows "deref (store p b x) c = deref p c"
proof -
  obtain i j where "b = buffer_address p i" "c = buffer_address p j" using assms by (auto simp: held_def)
  then show ?thesis using assms(3) by (auto simp: store_def deref_def buffer_address_def)
qed

lemma pool_inv_store:
  "pool_inv p \<Longrightarrow> length (pb_data x) = kPacketBufferBytes \<Longrightarrow> pool_inv (store p b x)"
  by (auto simp: pool_inv_def store_def)

lemma held_data_length:
  assumes "pool_inv p" "b \<in> held p"
  shows "length (pb_data (deref p b)) = kPacketBufferBytes"
proof -
  obtain i where "i < pool_capacity p" "b = buffer_address p i" using assms by (auto simp: held_def)
  then show ?thesis using assms(1) by (simp add: deref_address pool_inv_def)
qed

text \<open>Acquiring and releasing a buffer leaves the contents of the other buffers alone.\<close>

lemma deref_acquire_other:
  assumes "pool_inv p" "acquire p = (p', b)" "c \<in> held p"
  shows "deref p' c = deref p c"
proof (cases "pool_available p = 0")
  case True
  then show ?thesis using assms(2) by (auto simp: acquire_def deref_def)
next
  case False
  then have "b \<notin> held p" using acquire_correct [OF assms(1,2)] by simp
  then have "b \<noteq> c" using assms(3) by auto
  moreover obtain j where "c = buffer_address p j" using assms(3) by (auto simp: held_def)
  ultimately show ?thesis
    using assms(2) False by (auto simp: acquire_def Let_def deref_def buffer_address_def)
qed

lemma deref_release_other:
  assumes "pool_inv p" "release p b = (p', r)" "c \<in> held p" "c \<noteq> b"
  shows "deref p' c = deref p c"
proof -
  obtain j where "c = buffer_address p j" using assms(3) by (auto simp: held_def)
  then show ?thesis
    using assms(2,4) index_of_SomeD [of p b]
    by (auto simp: release_def release_rejected_def deref_def buffer_address_def
        split: option.splits if_splits)
qed

section \<open>Initial pool\<close>

lemma new_PacketPool_inv: "pool_placed base capacity \<Longrightarrow> pool_inv (new_PacketPool base capacity)"
proof -
  assume placed: "pool_placed base capacity"
  let ?f = "\<lambda>index. if index < capacity then capacity - index - 1 else 0"
  have "inj_on ?f {0..<capacity}" by (auto simp: inj_on_def)
  moreover have "?f ` {0..<capacity} = {i. i < capacity}"
  proof (intro set_eqI iffI)
    fix i assume "i \<in> {i. i < capacity}"
    then have "i = ?f (capacity - i - 1)" "capacity - i - 1 \<in> {0..<capacity}" by auto
    then show "i \<in> ?f ` {0..<capacity}" by blast
  qed auto
  ultimately show ?thesis
    using placed
    by (auto simp: pool_inv_def new_PacketPool_def pool_placed_def live_def distinct_map)
qed

lemma new_PacketPool_simps [simp]:
  "pool_capacity (new_PacketPool base n) = n" "pool_available (new_PacketPool base n) = n"
  "held (new_PacketPool base n) = {}"
  by (simp_all add: new_PacketPool_def held_def)

section \<open>Runs of the pool\<close>

text \<open>
  The states a pool reaches when its owner acquires, writes buffers it holds, and releases any
  pointer at all.
\<close>

inductive pool_reachable :: "nat \<Rightarrow> nat \<Rightarrow> PacketPool \<Rightarrow> bool" for base capacity where
  pool_start: "pool_reachable base capacity (new_PacketPool base capacity)"
| pool_acquire: "pool_reachable base capacity p \<Longrightarrow> pool_reachable base capacity (fst (acquire p))"
| pool_release: "pool_reachable base capacity p \<Longrightarrow>
    pool_reachable base capacity (fst (release p b))"
| pool_write: "pool_reachable base capacity p \<Longrightarrow> b \<in> held p \<Longrightarrow>
    length (pb_data x) = kPacketBufferBytes \<Longrightarrow> pool_reachable base capacity (store p b x)"

lemma acquire_capacity [simp]: "pool_capacity (fst (acquire p)) = pool_capacity p"
  by (simp add: acquire_def Let_def)

lemma release_capacity [simp]: "pool_capacity (fst (release p b)) = pool_capacity p"
  by (simp add: release_def release_rejected_def split: option.split)

lemma pool_reachable_inv:
  assumes "pool_reachable base capacity p" "pool_placed base capacity"
  shows "pool_inv p \<and> pool_capacity p = capacity"
  using assms
  by (induction rule: pool_reachable.induct)
     (simp_all add: new_PacketPool_inv packet_pool.acq_inv packet_pool.rel_inv pool_inv_store)

lemma card_held: "pool_inv p \<Longrightarrow> pool_available p + card (held p) = pool_capacity p"
proof -
  assume inv: "pool_inv p"
  let ?F = "{i. i < pool_capacity p \<and> pool_in_use p i = 0}"
  let ?U = "{i. i < pool_capacity p \<and> pool_in_use p i \<noteq> 0}"
  have "inj_on (buffer_address p) ?U" by (auto simp: inj_on_def buffer_address_def)
  then have "card (held p) = card ?U" by (simp add: held_def card_image)
  moreover have "pool_available p = card ?F"
    using inv distinct_card [of "live (pool_freelist p) (pool_available p)"]
    by (simp add: pool_inv_def)
  moreover have "card ?F + card ?U = card {..<pool_capacity p}"
  proof -
    have "?F \<union> ?U = {..<pool_capacity p}" "?F \<inter> ?U = {}" by auto
    then show ?thesis using card_Un_disjoint [of ?F ?U] by simp
  qed
  ultimately show ?thesis by simp
qed

section \<open>Properties\<close>

text \<open>
  Claim C7. In every run of a pool, the free buffers and the ones handed out add up to the
  capacity; \<open>acquire\<close> returns null exactly when everything is handed out and otherwise a buffer that
  is not in use; \<open>release\<close> succeeds exactly on a pointer that is in use, so double releases, null and
  foreign pointers are rejected with no effect on the buffers handed out.
\<close>

theorem pool_no_leak_no_double_use:
  assumes run: "pool_reachable base capacity p" and placed: "pool_placed base capacity"
    and acq: "acquire p = (p1, b)" and rel: "release p c = (p2, r)"
  shows "pool_available p + card (held p) = capacity \<and>
         (b = 0 \<longleftrightarrow> card (held p) = capacity) \<and>
         (if b = 0 then held p1 = held p else b \<notin> held p \<and> held p1 = insert b (held p)) \<and>
         (r \<longleftrightarrow> c \<in> held p) \<and> held p2 = held p - {c}"
proof -
  have inv: "pool_inv p" and cap: "pool_capacity p = capacity"
    using pool_reachable_inv [OF run placed] by auto
  have sum: "pool_available p + card (held p) = capacity" using card_held [OF inv] cap by simp
  have null: "b = 0 \<longleftrightarrow> pool_available p = 0" using packet_pool.acq_null_iff [OF inv] acq by simp
  have "if b = 0 then held p1 = held p else b \<notin> held p \<and> held p1 = insert b (held p)"
    using packet_pool.acq_fresh [OF inv acq] packet_pool.acq_exhausted [OF inv acq] null
    by (cases "pool_available p = 0") auto
  moreover have "(r \<longleftrightarrow> c \<in> held p) \<and> held p2 = held p - {c}"
    using packet_pool.rel_held [OF inv _ rel] packet_pool.rel_foreign [OF inv _ rel]
    by (cases "c \<in> held p") auto
  ultimately show ?thesis using sum null by auto
qed

theorem pool_no_leak_no_double_use_witness:
  "pool_placed 4096 2 \<and>
   (let p = fst (acquire (new_PacketPool 4096 2)) in
      pool_reachable 4096 2 p \<and> pool_available p + card (held p) = 2 \<and>
      snd (release p 4096) \<and> held (fst (release p 4096)) = {})"
proof -
  let ?p = "fst (acquire (new_PacketPool 4096 2))"
  have placed: "pool_placed 4096 2" by (simp add: pool_placed_def sizeof_PacketBuffer_def)
  have run: "pool_reachable 4096 2 ?p" by (intro pool_start pool_acquire)
  have h: "held ?p = {4096}"
    by (auto simp: held_def acquire_def new_PacketPool_def buffer_address_def split: if_splits)
  obtain p1 b p2 r where ar: "acquire ?p = (p1, b)" "release ?p 4096 = (p2, r)"
    by (meson prod.exhaust)
  show ?thesis
    using pool_no_leak_no_double_use [OF run placed ar] placed run ar h by (simp add: Let_def)
qed

end
