(* ===== verification/Retransmission_Queue.thy ===== *)
theory Retransmission_Queue
  imports Wire Packet_Pool
begin

text \<open>
  The sender's queue of unacknowledged segments
  (\<^verbatim>\<open>include/vectornet/transport/retransmission_queue.hpp\<close>,
  \<^verbatim>\<open>src/transport/retransmission_queue.cpp\<close>).

  A pointer into the array of segments is its index; a buffer pointer is an address of the packet
  pool. \<open>release_while\<close> is the loop that \<open>acknowledge\<close> and \<open>clear\<close> share in form: it hands the
  buffers of a prefix of the queue back to the pool and stops at the first one the pool refuses.
  The ownership invariant \<open>rq_owns\<close> rests on the contract of the pool (interpretation
  \<open>packet_pool\<close>); under it the pool never refuses.
\<close>

definition kRetransmissionCapacity :: nat where "kRetransmissionCapacity = 1024"

record PendingSegment =
  ps_sequence_start :: u32
  ps_sequence_end :: u32
  ps_buffer :: nat
  ps_sent_at_ns :: u64
  ps_retransmit_count :: u16
  ps_sacked :: bool

definition default_PendingSegment :: PendingSegment where
  "default_PendingSegment = \<lparr>ps_sequence_start = 0, ps_sequence_end = 0, ps_buffer = 0,
     ps_sent_at_ns = 0, ps_retransmit_count = 0, ps_sacked = False\<rparr>"

datatype EnqueueStatus = enq_accepted | enq_full | enq_invalid_segment | enq_out_of_order

record AcknowledgeResult =
  ar_released :: nat
  ar_pool_error :: bool

record SackProcessingResult =
  sp_newly_sacked :: nat
  sp_invalid_blocks :: nat

record RetransmissionQueue =
  rq_segments :: "PendingSegment arr"
  rq_capacity :: nat
  rq_size :: nat

definition new_RetransmissionQueue :: "nat \<Rightarrow> RetransmissionQueue" where
  "new_RetransmissionQueue capacity =
     \<lparr>rq_segments = (\<lambda>_. default_PendingSegment), rq_capacity = min capacity kRetransmissionCapacity,
      rq_size = 0\<rparr>"

definition rq_enqueue ::
  "RetransmissionQueue \<Rightarrow> PendingSegment \<Rightarrow> RetransmissionQueue \<times> EnqueueStatus" where
  "rq_enqueue q segment =
     (if ps_buffer segment = 0 \<or> ps_sequence_start segment = ps_sequence_end segment
      then (q, enq_invalid_segment)
      else if rq_size q = rq_capacity q then (q, enq_full)
      else if rq_size q \<noteq> 0 \<and>
              \<not> sequence_less (ps_sequence_start (rq_segments q (rq_size q - 1)))
                  (ps_sequence_start segment)
      then (q, enq_out_of_order)
      else (q\<lparr>rq_segments := (rq_segments q)(rq_size q := segment), rq_size := rq_size q + 1\<rparr>,
            enq_accepted))"

text \<open>The loop's result: the pool, the number of buffers released, whether the pool refused one.\<close>

function release_while ::
  "(PendingSegment \<Rightarrow> bool) \<Rightarrow> PendingSegment arr \<Rightarrow> nat \<Rightarrow> PacketPool \<Rightarrow> nat \<Rightarrow> PacketPool \<times> nat \<times> bool"
  where
  "release_while P segments n pool released =
     (if released < n \<and> P (segments released)
      then
        let (pool', ok) = release pool (ps_buffer (segments released)) in
        if \<not> ok then (pool', released, True)
        else release_while P segments n pool' (released + 1)
      else (pool, released, False))"
  by pat_completeness auto
termination
  by (relation "measure (\<lambda>(P, segments, n, pool, released). n - released)") auto

declare release_while.simps [simp del]

definition rq_acknowledge ::
  "RetransmissionQueue \<Rightarrow> u32 \<Rightarrow> PacketPool \<Rightarrow> RetransmissionQueue \<times> PacketPool \<times> AcknowledgeResult"
  where
  "rq_acknowledge q cumulative_ack owner_pool =
     (let (pool, released, pool_error) =
            release_while (\<lambda>s. sequence_less_equal (ps_sequence_end s) cumulative_ack)
              (rq_segments q) (rq_size q) owner_pool 0;
          result = \<lparr>ar_released = released, ar_pool_error = pool_error\<rparr>
      in if \<not> pool_error \<and> released = 0 then (q, pool, result)
         else (q\<lparr>rq_segments := shift_down (rq_segments q) released released (rq_size q),
                 rq_size := rq_size q - released\<rparr>, pool, result))"

definition rq_clear ::
  "RetransmissionQueue \<Rightarrow> PacketPool \<Rightarrow> RetransmissionQueue \<times> PacketPool \<times> AcknowledgeResult" where
  "rq_clear q owner_pool =
     (let (pool, released, pool_error) =
            release_while (\<lambda>_. True) (rq_segments q) (rq_size q) owner_pool 0;
          result = \<lparr>ar_released = released, ar_pool_error = pool_error\<rparr>
      in if pool_error
         then (q\<lparr>rq_segments := shift_down (rq_segments q) released released (rq_size q),
                 rq_size := rq_size q - released\<rparr>, pool, result)
         else (q\<lparr>rq_size := 0\<rparr>, pool, result))"

definition fully_covered :: "SackBlock \<Rightarrow> PendingSegment \<Rightarrow> bool" where
  "fully_covered block segment \<longleftrightarrow>
     sequence_less_equal (sb_start block) (ps_sequence_start segment) \<and>
     sequence_less_equal (ps_sequence_end segment) (sb_end block)"

definition sack_segment ::
  "SackBlock \<Rightarrow> nat \<Rightarrow> PendingSegment arr \<times> SackProcessingResult
     \<Rightarrow> PendingSegment arr \<times> SackProcessingResult" where
  "sack_segment block index st =
     (case st of (segments, result) \<Rightarrow>
        if fully_covered block (segments index) \<and> \<not> ps_sacked (segments index)
        then (segments(index := (segments index)\<lparr>ps_sacked := True\<rparr>),
              result\<lparr>sp_newly_sacked := sp_newly_sacked result + 1\<rparr>)
        else (segments, result))"

definition sack_block ::
  "nat \<Rightarrow> SackBlock \<Rightarrow> PendingSegment arr \<times> SackProcessingResult
     \<Rightarrow> PendingSegment arr \<times> SackProcessingResult" where
  "sack_block n block st =
     (if sb_start block = sb_end block
      then (case st of (segments, result) \<Rightarrow>
              (segments, result\<lparr>sp_invalid_blocks := sp_invalid_blocks result + 1\<rparr>))
      else fold (sack_segment block) [0..<n] st)"

definition apply_sacks ::
  "RetransmissionQueue \<Rightarrow> SackBlock list \<Rightarrow> RetransmissionQueue \<times> SackProcessingResult" where
  "apply_sacks q sacks =
     (case fold (sack_block (rq_size q)) sacks
             (rq_segments q, \<lparr>sp_newly_sacked = 0, sp_invalid_blocks = 0\<rparr>) of
        (segments, result) \<Rightarrow> (q\<lparr>rq_segments := segments\<rparr>, result))"

text \<open>The pointers written to the output, as indices, for an output span of \<open>room\<close> entries.\<close>

function collect_from :: "PendingSegment arr \<Rightarrow> nat \<Rightarrow> nat \<Rightarrow> nat \<Rightarrow> nat list \<Rightarrow> nat list" where
  "collect_from segments n room index written =
     (if index < n \<and> length written < room
      then collect_from segments n room (index + 1)
             (if \<not> ps_sacked (segments index) then written @ [index] else written)
      else written)"
  by pat_completeness auto
termination
  by (relation "measure (\<lambda>(segments, n, room, index, written). n - index)") auto

declare collect_from.simps [simp del]

definition collect_unsacked :: "RetransmissionQueue \<Rightarrow> nat \<Rightarrow> nat list" where
  "collect_unsacked q room = collect_from (rq_segments q) (rq_size q) room 0 []"

definition lowest_unsacked :: "RetransmissionQueue \<Rightarrow> nat option" where
  "lowest_unsacked q = find (\<lambda>index. \<not> ps_sacked (rq_segments q index)) [0..<rq_size q]"

definition rq_at :: "RetransmissionQueue \<Rightarrow> nat \<Rightarrow> PendingSegment option" where
  "rq_at q index = (if index < rq_size q then Some (rq_segments q index) else None)"

section \<open>Invariants\<close>

definition rq_live :: "RetransmissionQueue \<Rightarrow> PendingSegment list" where
  "rq_live q = live (rq_segments q) (rq_size q)"

definition rq_inv :: "RetransmissionQueue \<Rightarrow> bool" where
  "rq_inv q \<longleftrightarrow> rq_capacity q \<le> kRetransmissionCapacity \<and> rq_size q \<le> rq_capacity q \<and>
     (\<forall>s \<in> set (rq_live q). ps_buffer s \<noteq> 0 \<and> ps_sequence_start s \<noteq> ps_sequence_end s) \<and>
     successively (\<lambda>s t. sequence_less (ps_sequence_start s) (ps_sequence_start t)) (rq_live q)"

definition rq_buffers :: "RetransmissionQueue \<Rightarrow> nat list" where
  "rq_buffers q = map ps_buffer (rq_live q)"

definition rq_owns :: "RetransmissionQueue \<Rightarrow> PacketPool \<Rightarrow> bool" where
  "rq_owns q p \<longleftrightarrow> pool_inv p \<and> distinct (rq_buffers q) \<and> set (rq_buffers q) \<subseteq> held p"

text \<open>
  The segments lie in order above a base, as those of a sender do whose oldest unacknowledged
  sequence number is the base.
\<close>

fun laid_out :: "u32 \<Rightarrow> nat \<Rightarrow> PendingSegment list \<Rightarrow> bool" where
  "laid_out c lo [] = True"
| "laid_out c lo (s # ss) = (lo \<le> seq_off c (ps_sequence_start s) \<and>
     seq_off c (ps_sequence_start s) < seq_off c (ps_sequence_end s) \<and>
     seq_off c (ps_sequence_end s) < 2 ^ 31 \<and> laid_out c (seq_off c (ps_sequence_end s)) ss)"

section \<open>Lemmas: the releasing loop\<close>

lemma drop_live_Cons: "i < n \<Longrightarrow> drop i (live a n) = a i # drop (Suc i) (live a n)"
  by (simp add: Cons_nth_drop_Suc [symmetric])

lemma release_while_owned:
  assumes "r \<le> n" "pool_inv p" "distinct (map ps_buffer (drop r (live a n)))"
    "ps_buffer ` set (drop r (live a n)) \<subseteq> held p"
  shows "\<exists>p'. release_while P a n p r = (p', r + length (takeWhile P (drop r (live a n))), False) \<and>
    pool_inv p' \<and> held p' = held p - ps_buffer ` set (takeWhile P (drop r (live a n))) \<and>
    pool_available p' = pool_available p + length (takeWhile P (drop r (live a n))) \<and>
    (\<forall>b \<in> held p'. deref p' b = deref p b)"
  using assms
proof (induction P a n p r rule: release_while.induct)
  case (1 P a n p r)
  show ?case
  proof (cases "r < n \<and> P (a r)")
    case True
    let ?b = "ps_buffer (a r)"
    note d = drop_live_Cons [of r n a]
    obtain p1 ok where rel: "release p ?b = (p1, ok)" by fastforce
    have "?b \<in> held p" using "1.prems"(4) True by (simp add: d)
    then have p1: "ok" "pool_inv p1" "held p1 = held p - {?b}" "pool_available p1 = pool_available p + 1"
      using packet_pool.rel_held [OF "1.prems"(2) _ rel] by auto
    have "ps_buffer ` set (drop (Suc r) (live a n)) \<subseteq> held p1"
      using "1.prems"(3,4) True unfolding p1(3) by (simp add: d) blast
    then obtain p' where IH: "release_while P a n p1 (Suc r)
          = (p', Suc r + length (takeWhile P (drop (Suc r) (live a n))), False)"
        "pool_inv p'" "held p' = held p1 - ps_buffer ` set (takeWhile P (drop (Suc r) (live a n)))"
        "pool_available p' = pool_available p1 + length (takeWhile P (drop (Suc r) (live a n)))"
        "\<forall>b \<in> held p'. deref p' b = deref p1 b"
      using "1.IH" [OF True refl rel [symmetric]] p1 "1.prems" True by (auto simp: d)
    have "deref p' b = deref p b" if "b \<in> held p'" for b
      using that IH(3,5) p1(3) deref_release_other [OF "1.prems"(2) rel, of b] by auto
    then show ?thesis
      using IH(1-4) p1 True rel by (auto simp: release_while.simps [of P a n p r] d)
  next
    case False
    then have "takeWhile P (drop r (live a n)) = []"
      using "1.prems"(1) by (cases "r < n") (auto simp: drop_live_Cons)
    then show ?thesis using False "1.prems" by (auto simp: release_while.simps [of P a n p r])
  qed
qed

lemma live_drop_prefix: "r \<le> n \<Longrightarrow> live (shift_down a r r n) (n - r) = drop r (live a n)"
  using live_shift_down [of r r n a] by simp

lemma rq_acknowledge_owned:
  assumes "rq_owns q p"
  shows "\<exists>q' p'. rq_acknowledge q ack p = (q', p',
      \<lparr>ar_released = length (takeWhile (\<lambda>s. sequence_less_equal (ps_sequence_end s) ack) (rq_live q)),
       ar_pool_error = False\<rparr>) \<and>
    rq_live q' = dropWhile (\<lambda>s. sequence_less_equal (ps_sequence_end s) ack) (rq_live q) \<and>
    rq_capacity q' = rq_capacity q \<and> rq_size q' \<le> rq_size q \<and> rq_owns q' p' \<and>
    held p' = held p -
      ps_buffer ` set (takeWhile (\<lambda>s. sequence_less_equal (ps_sequence_end s) ack) (rq_live q)) \<and>
    pool_available p' = pool_available p +
      length (takeWhile (\<lambda>s. sequence_less_equal (ps_sequence_end s) ack) (rq_live q)) \<and>
    (\<forall>b \<in> held p'. deref p' b = deref p b)"
proof -
  let ?P = "\<lambda>s. sequence_less_equal (ps_sequence_end s) ack"
  let ?k = "length (takeWhile ?P (rq_live q))"
  have own: "pool_inv p" "distinct (map ps_buffer (rq_live q))" "ps_buffer ` set (rq_live q) \<subseteq> held p"
    using assms by (auto simp: rq_owns_def rq_buffers_def)
  obtain p' where rw: "release_while ?P (rq_segments q) (rq_size q) p 0 = (p', ?k, False)"
      "pool_inv p'" "held p' = held p - ps_buffer ` set (takeWhile ?P (rq_live q))"
      "pool_available p' = pool_available p + ?k" "\<forall>b \<in> held p'. deref p' b = deref p b"
    using release_while_owned [of 0 "rq_size q" p "rq_segments q" ?P] own
    by (auto simp: rq_live_def)
  define q' where "q' = (if ?k = 0 then q else
      q\<lparr>rq_segments := shift_down (rq_segments q) ?k ?k (rq_size q), rq_size := rq_size q - ?k\<rparr>)"
  have code: "rq_acknowledge q ack p = (q', p', \<lparr>ar_released = ?k, ar_pool_error = False\<rparr>)"
    by (simp add: rq_acknowledge_def rw(1) q'_def)
  have k: "?k \<le> rq_size q" using length_takeWhile_le [of ?P "rq_live q"] by (simp add: rq_live_def)
  have "rq_live q' = drop ?k (rq_live q)"
    using live_drop_prefix [OF k, of "rq_segments q"] by (simp add: q'_def rq_live_def)
  then have lv: "rq_live q' = dropWhile ?P (rq_live q)" by (simp only: dropWhile_eq_drop)
  have sp: "rq_live q = takeWhile ?P (rq_live q) @ rq_live q'" by (simp add: lv)
  have "distinct (map ps_buffer (takeWhile ?P (rq_live q) @ rq_live q'))" using own(2) sp by simp
  then have d: "distinct (map ps_buffer (rq_live q'))"
      "ps_buffer ` set (takeWhile ?P (rq_live q)) \<inter> ps_buffer ` set (rq_live q') = {}" by auto
  have "ps_buffer ` set (rq_live q') \<subseteq> held p"
    using own(3) sp by (metis (no_types, lifting) Un_iff image_Un order_trans set_append sup_ge2)
  then have "rq_owns q' p'" using d rw by (auto simp: rq_owns_def rq_buffers_def)
  moreover have "rq_capacity q' = rq_capacity q" "rq_size q' \<le> rq_size q" by (auto simp: q'_def)
  ultimately show ?thesis using code lv rw by blast
qed

lemma rq_inv_dropWhile:
  assumes "rq_inv q" "rq_live q' = dropWhile P (rq_live q)" "rq_capacity q' = rq_capacity q"
    "rq_size q' \<le> rq_size q"
  shows "rq_inv q'"
proof -
  have "successively (\<lambda>s t. sequence_less (ps_sequence_start s) (ps_sequence_start t))
          (takeWhile P (rq_live q) @ rq_live q')"
    using assms by (simp add: rq_inv_def)
  then have "successively (\<lambda>s t. sequence_less (ps_sequence_start s) (ps_sequence_start t))
               (rq_live q')"
    by (simp only: successively_append_iff)
  then show ?thesis using assms by (auto simp: rq_inv_def dest: set_dropWhileD)
qed

lemma rq_clear_owned:
  assumes "rq_owns q p"
  shows "\<exists>p'. rq_clear q p = (q\<lparr>rq_size := 0\<rparr>, p',
      \<lparr>ar_released = rq_size q, ar_pool_error = False\<rparr>) \<and> pool_inv p' \<and>
    held p' = held p - set (rq_buffers q) \<and> (\<forall>b \<in> held p'. deref p' b = deref p b)"
proof -
  have tw: "takeWhile (\<lambda>_. True) xs = xs" for xs :: "PendingSegment list"
    by (simp add: takeWhile_eq_all_conv)
  show ?thesis
    using release_while_owned [of 0 "rq_size q" p "rq_segments q" "\<lambda>_. True"] assms
    by (auto simp: tw rq_clear_def rq_owns_def rq_buffers_def rq_live_def)
qed

section \<open>Lemmas: selective acknowledgements\<close>

definition sack_mark :: "bool \<Rightarrow> PendingSegment \<Rightarrow> PendingSegment" where
  "sack_mark c s = (if c then s\<lparr>ps_sacked := True\<rparr> else s)"

lemma sack_block_loop:
  "fold (sack_segment block) [0..<n] (a, r) =
     (\<lambda>i. sack_mark (i < n \<and> fully_covered block (a i)) (a i),
      r\<lparr>sp_newly_sacked := sp_newly_sacked r +
          card {i. i < n \<and> fully_covered block (a i) \<and> \<not> ps_sacked (a i)}\<rparr>)"
proof (induction n)
  case 0
  show ?case by (simp add: sack_mark_def)
next
  case (Suc n)
  let ?S = "\<lambda>n. {i. i < n \<and> fully_covered block (a i) \<and> \<not> ps_sacked (a i)}"
  have S: "?S (Suc n) = (if fully_covered block (a n) \<and> \<not> ps_sacked (a n) then insert n (?S n) else ?S n)"
    by (auto simp: less_Suc_eq)
  have "card (?S (Suc n)) = card (?S n) + (if fully_covered block (a n) \<and> \<not> ps_sacked (a n) then 1 else 0)"
    unfolding S by simp
  then show ?case
    by (auto simp: Suc.IH sack_segment_def [of block n] sack_mark_def fun_eq_iff less_Suc_eq)
qed

text \<open>Whether some block of the list that is not empty covers the segment.\<close>

definition sacked_by :: "SackBlock list \<Rightarrow> PendingSegment \<Rightarrow> bool" where
  "sacked_by sacks s \<longleftrightarrow> (\<exists>b \<in> set sacks. sb_start b \<noteq> sb_end b \<and> fully_covered b s)"

lemma fully_covered_mark [simp]: "fully_covered b (sack_mark c s) = fully_covered b s"
  by (simp add: fully_covered_def sack_mark_def)

lemma sack_mark_mark [simp]: "sack_mark c (sack_mark d s) = sack_mark (c \<or> d) s"
  by (simp add: sack_mark_def)

lemma sacked_mark [simp]: "ps_sacked (sack_mark c s) \<longleftrightarrow> c \<or> ps_sacked s"
  by (simp add: sack_mark_def)

lemma sack_blocks_loop:
  "fold (sack_block n) sacks (a, r) =
     (\<lambda>i. sack_mark (i < n \<and> sacked_by sacks (a i)) (a i),
      \<lparr>sp_newly_sacked = sp_newly_sacked r +
          card {i. i < n \<and> sacked_by sacks (a i) \<and> \<not> ps_sacked (a i)},
       sp_invalid_blocks = sp_invalid_blocks r +
          length (filter (\<lambda>b. sb_start b = sb_end b) sacks)\<rparr>)"
proof (induction sacks arbitrary: a r)
  case Nil
  show ?case by (simp add: sacked_by_def sack_mark_def)
next
  case (Cons b sacks)
  show ?case
  proof (cases "sb_start b = sb_end b")
    case True
    then show ?thesis by (simp add: sack_block_def [of n b] Cons.IH sacked_by_def)
  next
    case False
    let ?a = "\<lambda>i. sack_mark (i < n \<and> fully_covered b (a i)) (a i)"
    have sb: "sacked_by sacks (?a i) = sacked_by sacks (a i)" for i
      by (simp add: sacked_by_def)
    have cov: "sacked_by (b # sacks) s \<longleftrightarrow> fully_covered b s \<or> sacked_by sacks s" for s
      using False by (auto simp: sacked_by_def)
    have "{i. i < n \<and> sacked_by (b # sacks) (a i) \<and> \<not> ps_sacked (a i)} =
        {i. i < n \<and> fully_covered b (a i) \<and> \<not> ps_sacked (a i)} \<union>
        {i. i < n \<and> sacked_by sacks (a i) \<and> \<not> ps_sacked (?a i)}"
      by (auto simp: cov)
    moreover have "card \<dots> = card {i. i < n \<and> fully_covered b (a i) \<and> \<not> ps_sacked (a i)} +
        card {i. i < n \<and> sacked_by sacks (a i) \<and> \<not> ps_sacked (?a i)}"
      by (rule card_Un_disjoint) auto
    ultimately show ?thesis
      using False
      by (simp add: sack_block_def [of n b] sack_block_loop Cons.IH sb cov fun_eq_iff) (auto simp: sack_mark_def)
  qed
qed

lemma collect_from_spec:
  "index \<le> n \<Longrightarrow> length written \<le> room \<Longrightarrow> collect_from a n room index written =
     written @ take (room - length written) (filter (\<lambda>i. \<not> ps_sacked (a i)) [index..<n])"
proof (induction a n room index written rule: collect_from.induct)
  case (1 a n room index written)
  show ?case
  proof (cases "index < n \<and> length written < room")
    case True
    then have "[index..<n] = index # [Suc index..<n]" by (simp add: upt_conv_Cons)
    moreover have "take (room - length written) (index # ys)
        = index # take (room - length (written @ [index])) ys" for ys
      using True by (simp add: take_Cons' )
    ultimately show ?thesis
      using 1 True by (auto simp: collect_from.simps [of a n room index written])
  next
    case False
    then show ?thesis
      using "1.prems" by (auto simp: collect_from.simps [of a n room index written])
  qed
qed

lemma find_filter: "find P xs = (case filter P xs of [] \<Rightarrow> None | x # _ \<Rightarrow> Some x)"
  by (induction xs) auto

lemma rq_enqueue_accepted:
  assumes "rq_inv q" "rq_owns q p" "rq_enqueue q s = (q', enq_accepted)"
    "ps_buffer s \<in> held p" "ps_buffer s \<notin> set (rq_buffers q)"
  shows "rq_inv q' \<and> rq_owns q' p \<and> rq_live q' = rq_live q @ [s]"
proof -
  have q': "q' = q\<lparr>rq_segments := (rq_segments q)(rq_size q := s), rq_size := rq_size q + 1\<rparr>"
      "ps_buffer s \<noteq> 0" "ps_sequence_start s \<noteq> ps_sequence_end s" "rq_size q \<noteq> rq_capacity q"
      "rq_size q = 0 \<or> sequence_less (ps_sequence_start (rq_segments q (rq_size q - 1))) (ps_sequence_start s)"
    using assms(3) by (auto simp: rq_enqueue_def split: if_splits)
  have lv: "rq_live q' = rq_live q @ [s]" by (simp add: rq_live_def q' live_push)
  have "last (rq_live q) = rq_segments q (rq_size q - 1)" if "rq_size q \<noteq> 0"
    using that by (simp add: last_conv_nth rq_live_def)
  then have "rq_inv q'"
    using assms(1) q' unfolding rq_inv_def lv
    by (cases "rq_size q = 0") (auto simp: successively_append_iff rq_live_def)
  then show ?thesis using assms lv by (simp add: rq_owns_def rq_buffers_def)
qed

lemma laid_out_prefix:
  assumes "laid_out c lo ss" "seq_off c ack < 2 ^ 31"
  shows "takeWhile (\<lambda>s. sequence_less_equal (ps_sequence_end s) ack) ss
           = filter (\<lambda>s. seq_off c (ps_sequence_end s) \<le> seq_off c ack) ss \<and>
         dropWhile (\<lambda>s. sequence_less_equal (ps_sequence_end s) ack) ss
           = filter (\<lambda>s. seq_off c ack < seq_off c (ps_sequence_end s)) ss"
  using assms
proof (induction c lo ss rule: laid_out.induct)
  case (2 c lo s ss)
  have above: "\<forall>t \<in> set ts. k < seq_off c (ps_sequence_end t)" if "laid_out c k ts" for k ts
    using that by (induction c k ts rule: laid_out.induct) fastforce+
  have le: "sequence_less_equal (ps_sequence_end s) ack
              \<longleftrightarrow> seq_off c (ps_sequence_end s) \<le> seq_off c ack"
    using 2 by (intro sequence_less_equal_iff) auto
  show ?case
  proof (cases "seq_off c (ps_sequence_end s) \<le> seq_off c ack")
    case False
    then have "\<forall>t \<in> set ss. seq_off c ack < seq_off c (ps_sequence_end t)"
      using above [of "seq_off c (ps_sequence_end s)" ss] 2 by fastforce
    then show ?thesis using False by (auto simp: le filter_empty_conv empty_filter_conv)
  qed (use 2 in \<open>simp add: le\<close>)
qed simp

section \<open>Properties\<close>

text \<open>
  Claim C11. A cumulative acknowledgement removes exactly the segments it covers: for a queue whose
  segments lie in order in the half window above a base and whose buffers belong to the pool, the
  segments that end at or below the acknowledgement are dropped and their buffers go back to the
  pool, no other buffer does, the pool never refuses one, the other segments stay in order, and the
  contents of their buffers are untouched.
\<close>

theorem acknowledge_releases_exactly:
  assumes "rq_inv q" "rq_owns q p" "laid_out c 0 (rq_live q)" "seq_off c ack < 2 ^ 31"
    "rq_acknowledge q ack p = (q', p', r)"
  shows "rq_inv q' \<and> rq_owns q' p' \<and>
    rq_live q' = filter (\<lambda>s. seq_off c ack < seq_off c (ps_sequence_end s)) (rq_live q) \<and>
    ar_released r = length (filter (\<lambda>s. seq_off c (ps_sequence_end s) \<le> seq_off c ack) (rq_live q)) \<and>
    \<not> ar_pool_error r \<and>
    held p' = held p - {ps_buffer s |s. s \<in> set (rq_live q) \<and>
                          seq_off c (ps_sequence_end s) \<le> seq_off c ack} \<and>
    pool_available p' = pool_available p + ar_released r \<and>
    (\<forall>b \<in> set (rq_buffers q'). deref p' b = deref p b)"
proof -
  note tw = laid_out_prefix [OF assms(3,4), THEN conjunct1]
    and dw = laid_out_prefix [OF assms(3,4), THEN conjunct2]
  have r: "r = \<lparr>ar_released = length (filter (\<lambda>s. seq_off c (ps_sequence_end s) \<le> seq_off c ack)
                                    (rq_live q)), ar_pool_error = False\<rparr>"
    and q': "rq_live q' = filter (\<lambda>s. seq_off c ack < seq_off c (ps_sequence_end s)) (rq_live q)"
      "rq_capacity q' = rq_capacity q" "rq_size q' \<le> rq_size q" "rq_owns q' p'"
    and p': "held p' = held p - ps_buffer `
               set (filter (\<lambda>s. seq_off c (ps_sequence_end s) \<le> seq_off c ack) (rq_live q))"
      "pool_available p' = pool_available p + ar_released r" "\<forall>b \<in> held p'. deref p' b = deref p b"
    using rq_acknowledge_owned [OF assms(2), of ack] assms(5) unfolding tw dw by auto
  have "rq_inv q'" using rq_inv_dropWhile [OF assms(1) _ q'(2,3)] q'(1) dw by metis
  moreover have "set (rq_buffers q') \<subseteq> held p'" using q'(4) by (simp add: rq_owns_def)
  ultimately show ?thesis using r q' p' by (auto simp: setcompr_eq_image)
qed

theorem acknowledge_releases_exactly_witness:
  "let p = fst (acquire (fst (acquire (new_PacketPool 4096 4))));
       b1 = snd (acquire (new_PacketPool 4096 4)); b2 = snd (acquire (fst (acquire (new_PacketPool 4096 4))));
       s1 = default_PendingSegment\<lparr>ps_sequence_start := 0xFFFFFFFE, ps_sequence_end := 2, ps_buffer := b1\<rparr>;
       s2 = default_PendingSegment\<lparr>ps_sequence_start := 2, ps_sequence_end := 9, ps_buffer := b2\<rparr>;
       q = \<lparr>rq_segments = ((\<lambda>_. default_PendingSegment)(0 := s1, 1 := s2)), rq_capacity = 8, rq_size = 2\<rparr>
   in rq_live (fst (rq_acknowledge q 5 p)) = [s2]"
proof -
  define p0 p1 b1 p b2 where p0: "p0 = new_PacketPool 4096 4" and p1: "p1 = fst (acquire p0)"
    and b1: "b1 = snd (acquire p0)" and p: "p = fst (acquire p1)" and b2: "b2 = snd (acquire p1)"
  define s1 where s1: "s1 = default_PendingSegment
    \<lparr>ps_sequence_start := 0xFFFFFFFE, ps_sequence_end := 2, ps_buffer := b1\<rparr>"
  define s2 where s2: "s2 = default_PendingSegment
    \<lparr>ps_sequence_start := 2, ps_sequence_end := 9, ps_buffer := b2\<rparr>"
  define q where q: "q = \<lparr>rq_segments = ((\<lambda>_. default_PendingSegment)(0 := s1, 1 := s2)),
    rq_capacity = 8, rq_size = 2\<rparr>"
  have i0: "pool_inv p0" "pool_available p0 = 4"
    unfolding p0 by (simp_all add: new_PacketPool_inv pool_placed_def sizeof_PacketBuffer_def)
  have h1: "b1 \<noteq> 0" "pool_inv p1" "held p1 = insert b1 (held p0)" "pool_available p1 = 3"
    using packet_pool.acq_fresh [of p0 p1 b1] i0 by (auto simp: p1 b1)
  have h2: "b2 \<noteq> 0" "b2 \<notin> held p1" "pool_inv p" "held p = insert b2 (held p1)"
    using packet_pool.acq_fresh [of p1 p b2] h1 by (auto simp: p b2)
  have lv: "rq_live q = [s1, s2]" by (simp add: rq_live_def q live_def upt_rec)
  have "rq_inv q"
    unfolding rq_inv_def lv using h1 h2
    by (simp add: q s1 s2 kRetransmissionCapacity_def sequence_less_def)
  moreover have "rq_owns q p"
    unfolding rq_owns_def rq_buffers_def lv using h1 h2 by (auto simp: s1 s2)
  moreover have "laid_out 0xFFFFFFFE 0 (rq_live q)"
    unfolding lv by (simp add: s1 s2 seq_off_def default_PendingSegment_def)
  moreover have "seq_off 0xFFFFFFFE 5 < 2 ^ 31" by (simp add: seq_off_def)
  ultimately have "rq_live (fst (rq_acknowledge q 5 p)) = [s2]"
    using acknowledge_releases_exactly [of q p "0xFFFFFFFE" 5]
    by (cases "rq_acknowledge q 5 p") (simp add: lv s1 s2 seq_off_def)
  then show ?thesis unfolding p0 p1 p b1 b2 s1 s2 q by (simp add: Let_def)
qed

text \<open>
  Selective acknowledgements mark exactly the segments that lie inside some non-empty
  block, nothing else changes in the queue, and the two counters are the number of segments newly
  marked (a segment covered by several blocks counts once) and the number of empty blocks.
\<close>

theorem apply_sacks_exact:
  "apply_sacks q sacks =
     (q\<lparr>rq_segments := (\<lambda>i. if i < rq_size q \<and> sacked_by sacks (rq_segments q i)
                            then (rq_segments q i)\<lparr>ps_sacked := True\<rparr> else rq_segments q i)\<rparr>,
      \<lparr>sp_newly_sacked = card {i. i < rq_size q \<and> sacked_by sacks (rq_segments q i) \<and>
                                 \<not> ps_sacked (rq_segments q i)},
       sp_invalid_blocks = length (filter (\<lambda>b. sb_start b = sb_end b) sacks)\<rparr>)"
  by (simp add: apply_sacks_def sack_blocks_loop sack_mark_def)

text \<open>
  The segments offered for retransmission are the unmarked ones in sequence order, as many
  as the caller has room for, and the lowest one is the first of them.
\<close>

theorem unsacked_selection:
  "collect_unsacked q room
     = take room (filter (\<lambda>i. \<not> ps_sacked (rq_segments q i)) [0..<rq_size q]) \<and>
   lowest_unsacked q
     = (case collect_unsacked q (Suc room) of [] \<Rightarrow> None | i # _ \<Rightarrow> Some i)"
proof -
  let ?U = "filter (\<lambda>i. \<not> ps_sacked (rq_segments q i)) [0..<rq_size q]"
  have c: "collect_unsacked q k = take k ?U" for k
    by (simp add: collect_unsacked_def collect_from_spec)
  then show ?thesis by (cases ?U) (simp_all add: c lowest_unsacked_def find_filter)
qed

end
