(* ===== verification/Fast_Retransmit.thy ===== *)
theory Fast_Retransmit
  imports Retransmission_Queue
begin

text \<open>
  Duplicate-ACK detection and fast retransmit (\<^verbatim>\<open>include/vectornet/transport/fast_retransmit.hpp\<close>,
  \<^verbatim>\<open>src/transport/fast_retransmit.cpp\<close>). The decision's pointer to the segment to retransmit is
  an index into the retransmission queue, which \<open>fr_on_ack\<close> returns updated.
\<close>

definition kDuplicateAckThreshold :: u32 where "kDuplicateAckThreshold = 3"

record FastRetransmitDecision =
  fd_segment :: "nat option"
  fd_duplicate_ack_count :: u32
  fd_triggered :: bool
  fd_recovery_complete :: bool

record FastRetransmitController =
  fr_last_ack :: u32
  fr_recovery_point :: u32
  fr_duplicate_ack_count :: u32
  fr_in_recovery :: bool

definition new_FastRetransmitController :: "u32 \<Rightarrow> FastRetransmitController" where
  "new_FastRetransmitController initial_ack = \<lparr>fr_last_ack = initial_ack, fr_recovery_point = 0,
     fr_duplicate_ack_count = 0, fr_in_recovery = False\<rparr>"

definition no_decision :: FastRetransmitDecision where
  "no_decision = \<lparr>fd_segment = None, fd_duplicate_ack_count = 0, fd_triggered = False,
     fd_recovery_complete = False\<rparr>"

definition mark_retransmitted :: "u64 \<Rightarrow> PendingSegment \<Rightarrow> PendingSegment" where
  "mark_retransmitted now_ns segment =
     (let segment = (if ps_retransmit_count segment \<noteq> - 1
                     then segment\<lparr>ps_retransmit_count := ps_retransmit_count segment + 1\<rparr>
                     else segment)
      in segment\<lparr>ps_sent_at_ns := now_ns\<rparr>)"

definition fr_on_ack ::
  "FastRetransmitController \<Rightarrow> u32 \<Rightarrow> u64 \<Rightarrow> RetransmissionQueue
     \<Rightarrow> FastRetransmitController \<times> RetransmissionQueue \<times> FastRetransmitDecision" where
  "fr_on_ack f cumulative_ack now_ns queue =
     (let decision = no_decision in
      if sequence_greater cumulative_ack (fr_last_ack f)
      then
        let f = f\<lparr>fr_last_ack := cumulative_ack, fr_duplicate_ack_count := 0\<rparr> in
        if fr_in_recovery f \<and> sequence_less_equal (fr_recovery_point f) cumulative_ack
        then (f\<lparr>fr_in_recovery := False\<rparr>, queue, decision\<lparr>fd_recovery_complete := True\<rparr>)
        else (f, queue, decision)
      else if cumulative_ack \<noteq> fr_last_ack f then (f, queue, decision)
      else
        let f = (if fr_duplicate_ack_count f \<noteq> - 1
                 then f\<lparr>fr_duplicate_ack_count := fr_duplicate_ack_count f + 1\<rparr> else f);
            decision = decision\<lparr>fd_duplicate_ack_count := fr_duplicate_ack_count f\<rparr>
        in if fr_duplicate_ack_count f \<noteq> kDuplicateAckThreshold \<or> fr_in_recovery f
           then (f, queue, decision)
           else
             (case (lowest_unsacked queue,
                    if rq_size queue = 0 then None else rq_at queue (rq_size queue - 1)) of
                (Some index, Some tail) \<Rightarrow>
                  (f\<lparr>fr_recovery_point := ps_sequence_end tail, fr_in_recovery := True\<rparr>,
                   queue\<lparr>rq_segments := (rq_segments queue)
                     (index := mark_retransmitted now_ns (rq_segments queue index))\<rparr>,
                   decision\<lparr>fd_segment := Some index, fd_triggered := True\<rparr>)
              | _ \<Rightarrow> (f, queue, decision)))"

text \<open>The decisions on a series of acknowledgements, each with the time and the queue it finds.\<close>

fun fr_decisions ::
  "FastRetransmitController \<Rightarrow> (u32 \<times> u64 \<times> RetransmissionQueue) list \<Rightarrow> FastRetransmitDecision list"
  where
  "fr_decisions f [] = []"
| "fr_decisions f ((ack, now, q) # es) =
     (case fr_on_ack f ack now q of (f', q', d) \<Rightarrow> d # fr_decisions f' es)"

fun fr_after :: "FastRetransmitController \<Rightarrow> (u32 \<times> u64 \<times> RetransmissionQueue) list \<Rightarrow> FastRetransmitController" where
  "fr_after f [] = f"
| "fr_after f ((ack, now, q) # es) = fr_after (fst (fr_on_ack f ack now q)) es"

section \<open>Histories\<close>

text \<open>How often the last value of a list was repeated before it changed.\<close>

definition repeats :: "'a list \<Rightarrow> nat" where
  "repeats xs = length (takeWhile (\<lambda>x. x = last xs) (rev xs)) - 1"

text \<open>The end of the last queued segment.\<close>

definition tail_end :: "RetransmissionQueue \<Rightarrow> u32" where
  "tail_end q = ps_sequence_end (rq_segments q (rq_size q - 1))"

text \<open>
  A series of acknowledgements none of which is older than the one before it, and each of which finds in the queue only
  data that it does not acknowledge.
\<close>

definition orderly :: "u32 \<Rightarrow> (u32 \<times> u64 \<times> RetransmissionQueue) list \<Rightarrow> bool" where
  "orderly init es \<longleftrightarrow> successively (\<lambda>a b. b = a \<or> sequence_greater b a) (init # map fst es) \<and>
     (\<forall>(ack, now, q) \<in> set es. rq_size q = 0 \<or> \<not> sequence_less_equal (tail_end q) ack)"

text \<open>
  Retransmission \<open>i\<close> of a series is unfinished: no later acknowledgement has reached the end of what was queued then. A
  series ends in recovery when it has an unfinished retransmission.
\<close>

definition unfinished ::
  "FastRetransmitController \<Rightarrow> (u32 \<times> u64 \<times> RetransmissionQueue) list \<Rightarrow> nat \<Rightarrow> bool" where
  "unfinished f es i \<longleftrightarrow> i < length es \<and> fd_triggered (fr_decisions f es ! i) \<and>
     (\<forall>k. i < k \<and> k < length es \<longrightarrow> \<not> sequence_less_equal (tail_end (snd (snd (es ! i)))) (fst (es ! k)))"

definition recovering :: "u32 \<Rightarrow> (u32 \<times> u64 \<times> RetransmissionQueue) list \<Rightarrow> bool" where
  "recovering init es \<longleftrightarrow> (\<exists>i. unfinished (new_FastRetransmitController init) es i)"

section \<open>Lemmas\<close>

lemma length_fr_decisions [simp]: "length (fr_decisions f es) = length es"
  by (induction f es rule: fr_decisions.induct) (auto split: prod.splits)

lemma fr_decisions_snoc:
  "fr_decisions f (es @ [(ack, now, q)]) = fr_decisions f es @ [snd (snd (fr_on_ack (fr_after f es) ack now q))]"
  by (induction f es rule: fr_decisions.induct) (auto split: prod.splits)

lemma fr_after_snoc: "fr_after f (es @ [(ack, now, q)]) = fst (fr_on_ack (fr_after f es) ack now q)"
  by (induction f es rule: fr_after.induct) auto

lemma repeats_snoc:
  assumes "xs \<noteq> []"
  shows "repeats (xs @ [a]) = (if a = last xs then repeats xs + 1 else 0)"
proof -
  obtain ys l where xs: "xs = ys @ [l]" using assms by (metis append_butlast_last_id)
  show ?thesis unfolding xs by (simp add: repeats_def)
qed

lemma unfinished_snoc:
  "unfinished f (es @ [(ack, now, q)]) i \<longleftrightarrow>
     (if i = length es then fd_triggered (snd (snd (fr_on_ack (fr_after f es) ack now q)))
      else unfinished f es i \<and> \<not> sequence_less_equal (tail_end (snd (snd (es ! i)))) ack)"
proof (cases "i < length es")
  case True
  then have "(\<forall>k. i < k \<and> k < Suc (length es) \<longrightarrow> P (fst ((es @ [(ack, now, q)]) ! k))) \<longleftrightarrow>
      (\<forall>k. i < k \<and> k < length es \<longrightarrow> P (fst (es ! k))) \<and> P ack" for P
    by (auto simp: less_Suc_eq nth_append)
  from this [of "\<lambda>a. \<not> sequence_less_equal (tail_end (snd (snd (es ! i)))) a"] show ?thesis
    using True by (simp only: unfinished_def fr_decisions_snoc length_append length_Cons list.size nth_append
        length_fr_decisions if_True) auto
qed (auto simp: unfinished_def fr_decisions_snoc nth_append)

lemma lowest_unsacked_SomeD:
  assumes "lowest_unsacked q = Some i"
  shows "i < rq_size q \<and> \<not> ps_sacked (rq_segments q i) \<and> (\<forall>j < i. ps_sacked (rq_segments q j))"
proof -
  from assms obtain k where "k < rq_size q" "\<not> ps_sacked (rq_segments q k)" "i = k"
      "\<forall>j<k. ps_sacked (rq_segments q j)"
    by (auto simp: lowest_unsacked_def find_Some_iff)
  then show ?thesis by simp
qed

lemma lowest_unsacked_None: "lowest_unsacked q = None \<longleftrightarrow> (\<forall>i < rq_size q. ps_sacked (rq_segments q i))"
  by (auto simp: lowest_unsacked_def find_None_iff)

lemma seq_greater_irrefl [simp]: "\<not> sequence_greater a a"
  by (simp add: sequence_greater_def)

lemma saturating_count:
  fixes c :: u32
  assumes "unat c = min n (2 ^ 32 - 1)"
  shows "unat (if c \<noteq> - 1 then c + 1 else c) = min (n + 1) (2 ^ 32 - 1)" and "c = 2 \<longleftrightarrow> n = 2"
proof -
  have max: "unat (- 1 :: u32) = 2 ^ 32 - 1" by (simp add: unsigned_minus_1_eq_mask mask_eq_exp_minus_1)
  show "unat (if c \<noteq> - 1 then c + 1 else c) = min (n + 1) (2 ^ 32 - 1)"
  proof (cases "c = - 1")
    case True
    then show ?thesis using assms max by simp
  next
    case False
    then have "unat c \<noteq> 2 ^ 32 - 1" using max word_unat_eq_iff by metis
    moreover have "unat c < 2 ^ 32" using unsigned_less [of c] by simp
    ultimately have "unat (c + 1) = unat c + 1" by (subst unat_add_nowrap) simp_all
    then show ?thesis using assms False \<open>unat c \<noteq> 2 ^ 32 - 1\<close> by auto
  qed
  have "unat (2 :: u32) = 2" by simp
  then show "c = 2 \<longleftrightarrow> n = 2" using assms by (auto simp: word_unat_eq_iff min_def split: if_splits)
qed

text \<open>One acknowledgement, case by case.\<close>

definition fires :: "FastRetransmitController \<Rightarrow> RetransmissionQueue \<Rightarrow> bool" where
  "fires f q \<longleftrightarrow> fr_duplicate_ack_count f = 2 \<and> \<not> fr_in_recovery f \<and> (\<exists>i < rq_size q. \<not> ps_sacked (rq_segments q i))"

lemma fr_on_ack_advances:
  assumes "fr_on_ack f ack now q = (f', q', d)" "sequence_greater ack (fr_last_ack f)"
  shows "q' = q \<and> \<not> fd_triggered d \<and> fd_segment d = None \<and> fr_last_ack f' = ack \<and> fr_duplicate_ack_count f' = 0 \<and>
    fd_duplicate_ack_count d = 0 \<and> fr_recovery_point f' = fr_recovery_point f \<and>
    (fr_in_recovery f' \<longleftrightarrow> fr_in_recovery f \<and> \<not> sequence_less_equal (fr_recovery_point f) ack) \<and>
    (fd_recovery_complete d \<longleftrightarrow> fr_in_recovery f \<and> sequence_less_equal (fr_recovery_point f) ack)"
  using assms by (auto simp: fr_on_ack_def Let_def no_decision_def split: if_splits)

lemma fr_on_ack_stale:
  assumes "fr_on_ack f ack now q = (f', q', d)" "\<not> sequence_greater ack (fr_last_ack f)" "ack \<noteq> fr_last_ack f"
  shows "f' = f \<and> q' = q \<and> d = no_decision"
  using assms by (simp add: fr_on_ack_def)

lemma mark_retransmitted_counts:
  "\<exists>c. mark_retransmitted now s = s\<lparr>ps_sent_at_ns := now, ps_retransmit_count := c\<rparr> \<and>
     unat c = min (unat (ps_retransmit_count s) + 1) (2 ^ 16 - 1)"
proof (cases "ps_retransmit_count s = - 1")
  case True
  then have "mark_retransmitted now s = s\<lparr>ps_sent_at_ns := now, ps_retransmit_count := - 1\<rparr>"
    by (cases s) (simp add: mark_retransmitted_def)
  moreover have "unat (- 1 :: u16) = 2 ^ 16 - 1" by (simp add: unsigned_minus_1_eq_mask mask_eq_exp_minus_1)
  ultimately show ?thesis using True by (intro exI [of _ "- 1"]) simp
next
  case False
  let ?c = "ps_retransmit_count s + 1"
  have "unat (- 1 :: u16) = 2 ^ 16 - 1" by (simp add: unsigned_minus_1_eq_mask mask_eq_exp_minus_1)
  then have "unat (ps_retransmit_count s) \<noteq> 2 ^ 16 - 1" using False word_unat_eq_iff by metis
  moreover have "unat (ps_retransmit_count s) < 2 ^ 16" using unsigned_less [of "ps_retransmit_count s"] by simp
  ultimately have "unat ?c = unat (ps_retransmit_count s) + 1" by (subst unat_add_nowrap) simp_all
  moreover have "unat ?c < 2 ^ 16" using unsigned_less [of ?c] by simp
  ultimately show ?thesis using False
    by (intro exI [of _ ?c]) (cases s; simp add: mark_retransmitted_def Let_def)
qed

lemma fr_on_ack_duplicate:
  assumes r: "fr_on_ack f ack now q = (f', q', d)" and ack: "ack = fr_last_ack f"
  shows "fr_last_ack f' = ack \<and> \<not> fd_recovery_complete d \<and>
    fr_duplicate_ack_count f' = (if fr_duplicate_ack_count f \<noteq> - 1 then fr_duplicate_ack_count f + 1
      else fr_duplicate_ack_count f) \<and> fd_duplicate_ack_count d = fr_duplicate_ack_count f' \<and>
    (fd_triggered d \<longleftrightarrow> fires f q) \<and>
    (if fires f q
     then fr_in_recovery f' \<and> fr_recovery_point f' = tail_end q \<and>
       (\<exists>i < rq_size q. fd_segment d = Some i \<and> \<not> ps_sacked (rq_segments q i) \<and> (\<forall>j < i. ps_sacked (rq_segments q j)) \<and>
         q' = q\<lparr>rq_segments := (rq_segments q)(i := mark_retransmitted now (rq_segments q i))\<rparr>)
     else q' = q \<and> fd_segment d = None \<and> fr_in_recovery f' = fr_in_recovery f \<and>
       fr_recovery_point f' = fr_recovery_point f)"
proof -
  have three: "(if c \<noteq> - 1 then c + 1 else c) = kDuplicateAckThreshold \<longleftrightarrow> c = 2" for c :: u32
    by (auto simp: kDuplicateAckThreshold_def eq_diff_eq [symmetric])
  let ?c = "if fr_duplicate_ack_count f \<noteq> - 1 then fr_duplicate_ack_count f + 1 else fr_duplicate_ack_count f"
  let ?f = "f\<lparr>fr_duplicate_ack_count := ?c\<rparr>" and ?d = "no_decision\<lparr>fd_duplicate_ack_count := ?c\<rparr>"
  have self: "f\<lparr>fr_duplicate_ack_count := fr_duplicate_ack_count f\<rparr> = f" by (cases f) simp
  have code: "(f', q', d) = (if ?c \<noteq> kDuplicateAckThreshold \<or> fr_in_recovery f then (?f, q, ?d)
      else case (lowest_unsacked q, if rq_size q = 0 then None else rq_at q (rq_size q - 1)) of
        (Some i, Some tail) \<Rightarrow> (?f\<lparr>fr_recovery_point := ps_sequence_end tail, fr_in_recovery := True\<rparr>,
           q\<lparr>rq_segments := (rq_segments q)(i := mark_retransmitted now (rq_segments q i))\<rparr>,
           ?d\<lparr>fd_segment := Some i, fd_triggered := True\<rparr>)
      | _ \<Rightarrow> (?f, q, ?d))"
    unfolding r [symmetric] fr_on_ack_def ack
    by (cases "fr_duplicate_ack_count f = - 1") (simp_all add: self Let_def cong: if_cong split: option.split)
  show ?thesis
  proof (cases "fr_duplicate_ack_count f = 2 \<and> \<not> fr_in_recovery f")
    case False
    then have "(f', q', d) = (?f, q, ?d)" "\<not> fires f q" using code three by (auto simp: fires_def)
    then show ?thesis using ack by (auto simp: no_decision_def)
  next
    case True
    show ?thesis
    proof (cases "lowest_unsacked q")
      case None
      then have "(f', q', d) = (?f, q, ?d)" "\<not> fires f q"
        using code lowest_unsacked_None [of q] by (auto simp: fires_def)
      then show ?thesis using ack by (auto simp: no_decision_def)
    next
      case (Some i)
      note low = lowest_unsacked_SomeD [OF Some]
      then have "fires f q" using True by (auto simp: fires_def)
      moreover have "(f', q', d) = (?f\<lparr>fr_recovery_point := tail_end q, fr_in_recovery := True\<rparr>,
           q\<lparr>rq_segments := (rq_segments q)(i := mark_retransmitted now (rq_segments q i))\<rparr>,
           ?d\<lparr>fd_segment := Some i, fd_triggered := True\<rparr>)"
        using code True Some low by (auto simp: kDuplicateAckThreshold_def rq_at_def tail_end_def)
      ultimately show ?thesis using low ack by (auto simp: no_decision_def)
    qed
  qed
qed

section \<open>The controller after a history\<close>

definition fr_reflects :: "u32 \<Rightarrow> (u32 \<times> u64 \<times> RetransmissionQueue) list \<Rightarrow> FastRetransmitController \<Rightarrow> bool" where
  "fr_reflects init es f \<longleftrightarrow> fr_last_ack f = last (init # map fst es) \<and>
     unat (fr_duplicate_ack_count f) = min (repeats (init # map fst es)) (2 ^ 32 - 1) \<and>
     (fr_in_recovery f \<longleftrightarrow> recovering init es) \<and>
     (fr_in_recovery f \<longrightarrow> \<not> sequence_less_equal (fr_recovery_point f) (fr_last_ack f)) \<and>
     (\<forall>i. unfinished (new_FastRetransmitController init) es i \<longrightarrow> tail_end (snd (snd (es ! i))) = fr_recovery_point f)"

lemma orderly_snoc:
  "orderly init (es @ [(ack, now, q)]) \<longleftrightarrow> orderly init es \<and>
     (ack = last (init # map fst es) \<or> sequence_greater ack (last (init # map fst es))) \<and>
     (rq_size q = 0 \<or> \<not> sequence_less_equal (tail_end q) ack)"
  by (auto simp: orderly_def successively_append_iff successively_Cons)

lemma unfinished_length: "unfinished f es i \<Longrightarrow> i < length es"
  by (simp add: unfinished_def)

lemma fr_reflects_step:
  assumes inv: "fr_reflects init es f" and f: "f = fr_after (new_FastRetransmitController init) es"
    and ok: "orderly init (es @ [(ack, now, q)])" and r: "fr_on_ack f ack now q = (f', q', d)"
  shows "fr_reflects init (es @ [(ack, now, q)]) f'"
proof -
  let ?es = "es @ [(ack, now, q)]" and ?U = "unfinished (new_FastRetransmitController init)"
  have U: "?U ?es i \<longleftrightarrow> (if i = length es then fd_triggered d
      else ?U es i \<and> \<not> sequence_less_equal (fr_recovery_point f) ack)" for i
    using inv by (auto simp: unfinished_snoc f [symmetric] r fr_reflects_def)
  have pt: "tail_end (snd (snd (?es ! i))) = (if i = length es then tail_end q else fr_recovery_point f)" if "?U ?es i" for i
    using that inv U [of i] unfinished_length [of _ es i] by (auto simp: fr_reflects_def nth_append split: if_splits)
  have rec: "fr_in_recovery f \<longleftrightarrow> (\<exists>i. ?U es i)" using inv by (simp add: fr_reflects_def recovering_def)
  have len: "\<not> ?U es (length es)" using unfinished_length by blast
  have recU: "recovering init ?es \<longleftrightarrow> fd_triggered d \<or> fr_in_recovery f \<and> \<not> sequence_less_equal (fr_recovery_point f) ack"
    unfolding recovering_def rec U using len by metis
  have last: "last (init # map fst es) = fr_last_ack f" using inv by (simp add: fr_reflects_def)
  have rep: "repeats (init # map fst ?es) = (if ack = fr_last_ack f then repeats (init # map fst es) + 1 else 0)"
    using repeats_snoc [of "init # map fst es" ack] last by simp
  have cnt: "unat (fr_duplicate_ack_count f) = min (repeats (init # map fst es)) (2 ^ 32 - 1)"
    using inv by (simp add: fr_reflects_def)
  show ?thesis
  proof (cases "sequence_greater ack (fr_last_ack f)")
    case True
    then have "ack \<noteq> fr_last_ack f" by auto
    note A = fr_on_ack_advances [OF r True]
    have "recovering init ?es \<longleftrightarrow> fr_in_recovery f \<and> \<not> sequence_less_equal (fr_recovery_point f) ack"
      using recU A by simp
    moreover have "tail_end (snd (snd (?es ! i))) = fr_recovery_point f" if "?U ?es i" for i
      using pt [OF that] that U [of i] A by (auto split: if_splits)
    ultimately show ?thesis
      using A rep \<open>ack \<noteq> fr_last_ack f\<close> unfolding fr_reflects_def by simp
  next
    case False
    then have ack: "ack = fr_last_ack f" using ok last by (simp add: orderly_snoc)
    note D = fr_on_ack_duplicate [OF r ack]
    have keep: "\<not> sequence_less_equal (fr_recovery_point f) ack" if "fr_in_recovery f"
      using that inv unfolding ack fr_reflects_def by blast
    have ne: "rq_size q \<noteq> 0" if "fires f q" using that by (auto simp: fires_def)
    have count: "unat (fr_duplicate_ack_count f') = min (repeats (init # map fst ?es)) (2 ^ 32 - 1)"
      using D saturating_count(1) [OF cnt] rep ack by simp
    have "recovering init ?es \<longleftrightarrow> fr_in_recovery f'"
      using recU D keep by (auto split: if_splits)
    moreover have "tail_end (snd (snd (?es ! i))) = fr_recovery_point f'" if u: "?U ?es i" for i
    proof (cases "fires f q")
      case True
      then have "\<not> ?U es i" using rec by (auto simp: fires_def)
      then show ?thesis using pt [OF u] u U [of i] True D by (auto split: if_splits)
    next
      case False
      then show ?thesis using pt [OF u] u U [of i] D by (auto split: if_splits)
    qed
    moreover have "fr_in_recovery f' \<longrightarrow> \<not> sequence_less_equal (fr_recovery_point f') (fr_last_ack f')"
      using D keep ok ne by (auto simp: orderly_snoc split: if_splits)
    ultimately show ?thesis unfolding fr_reflects_def using D count by simp
  qed
qed

lemma fr_after_reflects: "orderly init es \<Longrightarrow> fr_reflects init es (fr_after (new_FastRetransmitController init) es)"
proof (induction es rule: rev_induct)
  case Nil
  show ?case by (simp add: fr_reflects_def new_FastRetransmitController_def recovering_def unfinished_def repeats_def)
next
  case (snoc e es)
  obtain ack now q where e: "e = (ack, now, q)" by (cases e)
  let ?f = "fr_after (new_FastRetransmitController init) es"
  obtain f' q' d where r: "fr_on_ack ?f ack now q = (f', q', d)" by (metis prod_cases3)
  have "fr_reflects init es ?f" using snoc by (simp add: e orderly_snoc)
  from fr_reflects_step [OF this refl snoc.prems [unfolded e] r] show ?case by (simp add: e fr_after_snoc r)
qed

text \<open>Recovery in a series of acknowledgements from any state.\<close>

lemma fr_on_ack_recovery:
  assumes "fr_on_ack f ack now q = (f', q', d)"
  shows "(fd_triggered d \<longrightarrow> \<not> fr_in_recovery f \<and> fr_in_recovery f' \<and> fr_recovery_point f' = tail_end q) \<and>
    (fr_in_recovery f \<longrightarrow> fr_in_recovery f' \<and> fr_recovery_point f' = fr_recovery_point f \<or>
       fd_recovery_complete d \<and> sequence_greater ack (fr_last_ack f) \<and> sequence_less_equal (fr_recovery_point f) ack)"
proof -
  consider "sequence_greater ack (fr_last_ack f)" | "ack = fr_last_ack f"
    | "\<not> sequence_greater ack (fr_last_ack f)" "ack \<noteq> fr_last_ack f" by blast
  then show ?thesis
  proof cases
    case 1
    then show ?thesis using fr_on_ack_advances [OF assms] by auto
  next
    case 2
    then show ?thesis using fr_on_ack_duplicate [OF assms] by (auto simp: fires_def split: if_splits)
  next
    case 3
    then show ?thesis using fr_on_ack_stale [OF assms] by (auto simp: no_decision_def)
  qed
qed

lemma fr_decisions_in_recovery:
  assumes "fr_in_recovery f" "j < length es" "fd_triggered (fr_decisions f es ! j)"
  shows "\<exists>k<j. sequence_less_equal (fr_recovery_point f) (fst (es ! k)) \<and> fd_recovery_complete (fr_decisions f es ! k)"
  using assms
proof (induction es arbitrary: f j)
  case (Cons e es)
  obtain ack now q where e: "e = (ack, now, q)" by (cases e)
  obtain f' q' d where r: "fr_on_ack f ack now q = (f', q', d)" by (cases "fr_on_ack f ack now q")
  note rec = fr_on_ack_recovery [OF r]
  obtain j' where j: "j = Suc j'" using Cons.prems rec by (cases j) (auto simp: e r)
  show ?case
  proof (cases "fd_recovery_complete d \<and> sequence_less_equal (fr_recovery_point f) ack")
    case True
    then show ?thesis using j by (intro exI [of _ 0]) (auto simp: e r)
  next
    case False
    then have "fr_in_recovery f'" "fr_recovery_point f' = fr_recovery_point f" using rec Cons.prems(1) by auto
    then obtain k where "k < j'" "sequence_less_equal (fr_recovery_point f) (fst (es ! k))"
        "fd_recovery_complete (fr_decisions f' es ! k)"
      using Cons.IH [of f' j'] Cons.prems j by (auto simp: e r)
    then show ?thesis using j by (intro exI [of _ "Suc k"]) (auto simp: e r)
  qed
qed simp

section \<open>Properties\<close>

text \<open>
  Claim C27. When fast retransmit fires, told on the history of a controller. On a series of acknowledgements none of
  which is older than its predecessor, the last one makes it fire exactly when it is the third repetition of its
  value, no earlier retransmission is still short of its recovery point, and some queued segment is not
  selectively acknowledged. Then the lowest such segment is returned; in the queue nothing changes but its send time,
  now, and its retransmission count, one more unless it is at its maximum. Otherwise the queue stays as it is.
  The reported count is the number of repetitions, and the controller is in recovery exactly while a retransmission
  is short of its recovery point, the end of the last segment queued when it fired.
\<close>

theorem fast_retransmit_fires:
  assumes ok: "orderly init (es @ [(ack, now, q)])"
    and r: "fr_on_ack (fr_after (new_FastRetransmitController init) es) ack now q = (f', q', d)"
  shows "(fd_triggered d \<longleftrightarrow> repeats (init # map fst es @ [ack]) = 3 \<and> \<not> recovering init es \<and>
            (\<exists>i < rq_size q. \<not> ps_sacked (rq_segments q i))) \<and>
    (if fd_triggered d
     then \<exists>i c. i < rq_size q \<and> fd_segment d = Some i \<and> \<not> ps_sacked (rq_segments q i) \<and>
       (\<forall>j < i. ps_sacked (rq_segments q j)) \<and> unat c = min (unat (ps_retransmit_count (rq_segments q i)) + 1) (2 ^ 16 - 1) \<and>
       q' = q\<lparr>rq_segments := (rq_segments q)(i := (rq_segments q i)\<lparr>ps_sent_at_ns := now, ps_retransmit_count := c\<rparr>)\<rparr>
     else q' = q \<and> fd_segment d = None) \<and>
    unat (fd_duplicate_ack_count d) = min (repeats (init # map fst es @ [ack])) (2 ^ 32 - 1) \<and>
    (fr_in_recovery f' \<longleftrightarrow> recovering init (es @ [(ack, now, q)]))"
proof -
  let ?f = "fr_after (new_FastRetransmitController init) es"
  have inv: "fr_reflects init es ?f" using fr_after_reflects ok by (simp add: orderly_snoc)
  have inv': "fr_reflects init (es @ [(ack, now, q)]) f'" by (rule fr_reflects_step [OF inv refl ok r])
  have last: "last (init # map fst es) = fr_last_ack ?f" using inv by (simp add: fr_reflects_def)
  have rep: "repeats (init # map fst es @ [ack]) = (if ack = fr_last_ack ?f then repeats (init # map fst es) + 1 else 0)"
    using repeats_snoc [of "init # map fst es" ack] last by simp
  have two: "fr_duplicate_ack_count ?f = 2 \<longleftrightarrow> repeats (init # map fst es) = 2"
    by (rule saturating_count(2)) (use inv in \<open>simp add: fr_reflects_def\<close>)
  have cnt: "unat (fr_duplicate_ack_count f') = min (repeats (init # map fst es @ [ack])) (2 ^ 32 - 1)"
    using inv' by (simp add: fr_reflects_def)
  have rec: "fr_in_recovery ?f \<longleftrightarrow> recovering init es" "fr_in_recovery f' \<longleftrightarrow> recovering init (es @ [(ack, now, q)])"
    using inv inv' by (simp_all add: fr_reflects_def)
  show ?thesis
  proof (cases "sequence_greater ack (fr_last_ack ?f)")
    case True
    then have "ack \<noteq> fr_last_ack ?f" by auto
    then show ?thesis using fr_on_ack_advances [OF r True] rec(2) rep by simp
  next
    case False
    then have ack: "ack = fr_last_ack ?f" using ok last by (simp add: orderly_snoc)
    note D = fr_on_ack_duplicate [OF r ack]
    have "fires ?f q \<longleftrightarrow> repeats (init # map fst es @ [ack]) = 3 \<and> \<not> recovering init es \<and>
        (\<exists>i < rq_size q. \<not> ps_sacked (rq_segments q i))"
      using rep ack two rec(1) by (auto simp: fires_def)
    moreover have "\<exists>i c. i < rq_size q \<and> fd_segment d = Some i \<and> \<not> ps_sacked (rq_segments q i) \<and>
       (\<forall>j < i. ps_sacked (rq_segments q j)) \<and> unat c = min (unat (ps_retransmit_count (rq_segments q i)) + 1) (2 ^ 16 - 1) \<and>
       q' = q\<lparr>rq_segments := (rq_segments q)(i := (rq_segments q i)\<lparr>ps_sent_at_ns := now, ps_retransmit_count := c\<rparr>)\<rparr>"
      if "fires ?f q" using that D mark_retransmitted_counts [of now] by metis
    ultimately show ?thesis using D cnt rec(2) by simp
  qed
qed

definition one_segment_queue :: "u32 \<Rightarrow> u32 \<Rightarrow> RetransmissionQueue" where
  "one_segment_queue start fin = fst (rq_enqueue (new_RetransmissionQueue 4)
     (default_PendingSegment\<lparr>ps_sequence_start := start, ps_sequence_end := fin, ps_buffer := 64\<rparr>))"

lemma one_segment_queue_simps [simp]:
  "rq_size (one_segment_queue a b) = 1" "\<not> ps_sacked (rq_segments (one_segment_queue a b) 0)"
  "ps_retransmit_count (rq_segments (one_segment_queue a b) 0) = 0" "tail_end (one_segment_queue a b) = b"
  if "a \<noteq> b"
  using that by (simp_all add: one_segment_queue_def rq_enqueue_def new_RetransmissionQueue_def
      default_PendingSegment_def kRetransmissionCapacity_def tail_end_def)

theorem fast_retransmit_fires_witness:
  "let q = one_segment_queue 7 20; es = [(7, 1, q), (7, 2, q)]; r = fr_on_ack (fr_after (new_FastRetransmitController 7) es) 7 99 q
   in fd_triggered (snd (snd r)) \<and> ps_sent_at_ns (rq_segments (fst (snd r)) 0) = 99 \<and>
      ps_retransmit_count (rq_segments (fst (snd r)) 0) = 1"
proof -
  let ?q = "one_segment_queue 7 20"
  let ?es = "[(7, 1, ?q), (7, 2, ?q)] :: (u32 \<times> u64 \<times> RetransmissionQueue) list"
  obtain f' q' d where r: "fr_on_ack (fr_after (new_FastRetransmitController 7) ?es) 7 99 ?q = (f', q', d)"
    by (metis prod_cases3)
  have ok: "orderly 7 (?es @ [(7, 99, ?q)])"
    by (simp add: orderly_def successively_Cons) (code_simp)
  have "\<not> recovering 7 ?es"
  proof -
    have "\<not> fd_triggered (fr_decisions (new_FastRetransmitController 7) ?es ! 0)"
      "\<not> fd_triggered (fr_decisions (new_FastRetransmitController 7) ?es ! 1)" by code_simp+
    then show ?thesis by (auto simp: recovering_def unfinished_def less_Suc_eq numeral_2_eq_2)
  qed
  moreover have "repeats [7, 7, 7, 7 :: u32] = 3" by (simp add: repeats_def)
  ultimately have t: "fd_triggered d" using fast_retransmit_fires [OF ok r] by auto
  then obtain c :: u16 where "q' = ?q\<lparr>rq_segments := (rq_segments ?q)(0 := (rq_segments ?q 0)\<lparr>ps_sent_at_ns := 99,
      ps_retransmit_count := c\<rparr>)\<rparr>" "unat c = 1"
    using fast_retransmit_fires [OF ok r] by auto
  moreover from this(2) have "c = 1" by (metis unat_1 word_unat_eq_iff)
  ultimately show ?thesis using t unfolding Let_def r by simp
qed

text \<open>
  Claim C28. At most one fast retransmit per recovery: in any series of acknowledgements from any state, whatever
  else happens to the queue meanwhile, between two retransmissions some acknowledgement has reached
  the end of the last segment that was queued at the first of them, and was reported as completing the recovery.
\<close>

theorem one_fast_retransmit_per_recovery:
  assumes "i < j" "j < length es"
    "fd_triggered (fr_decisions f es ! i)" "fd_triggered (fr_decisions f es ! j)"
  shows "\<exists>k. i < k \<and> k < j \<and> sequence_less_equal (tail_end (snd (snd (es ! i)))) (fst (es ! k)) \<and>
    fd_recovery_complete (fr_decisions f es ! k)"
  using assms
proof (induction es arbitrary: f i j)
  case (Cons e es)
  obtain ack now q where e: "e = (ack, now, q)" by (cases e)
  obtain f' q' d where r: "fr_on_ack f ack now q = (f', q', d)" by (cases "fr_on_ack f ack now q")
  obtain j' where j: "j = Suc j'" using Cons.prems(1) by (cases j) auto
  show ?case
  proof (cases i)
    case 0
    then have "fr_in_recovery f'" "fr_recovery_point f' = tail_end q"
      using Cons.prems(3) fr_on_ack_recovery [OF r] by (simp_all add: e r)
    then obtain k where "k < j'" "sequence_less_equal (tail_end q) (fst (es ! k))" "fd_recovery_complete (fr_decisions f' es ! k)"
      using fr_decisions_in_recovery [of f' j' es] Cons.prems j by (auto simp: e r)
    then show ?thesis using 0 j by (intro exI [of _ "Suc k"]) (auto simp: e r)
  next
    case (Suc i')
    then obtain k where "i' < k" "k < j'" "sequence_less_equal (tail_end (snd (snd (es ! i')))) (fst (es ! k))"
        "fd_recovery_complete (fr_decisions f' es ! k)"
      using Cons.IH [of i' j' f'] Cons.prems j by (auto simp: e r)
    then show ?thesis using Suc j by (intro exI [of _ "Suc k"]) (auto simp: e r)
  qed
qed simp

theorem one_fast_retransmit_per_recovery_witness:
  "let q = one_segment_queue 0 10; q' = one_segment_queue 10 20;
       es = [(0, 1, q), (0, 2, q), (0, 3, q), (10, 4, q), (10, 5, q'), (10, 6, q'), (10, 7, q')]
   in \<exists>k. 2 < k \<and> k < 6 \<and> sequence_less_equal 10 (fst (es ! k)) \<and>
        fd_recovery_complete (fr_decisions (new_FastRetransmitController 0) es ! k)"
proof -
  define es :: "(u32 \<times> u64 \<times> RetransmissionQueue) list" where
    "es = (let q = one_segment_queue 0 10; q' = one_segment_queue 10 20
           in [(0, 1, q), (0, 2, q), (0, 3, q), (10, 4, q), (10, 5, q'), (10, 6, q'), (10, 7, q')])"
  have "length es = 7" "tail_end (snd (snd (es ! 2))) = 10" unfolding es_def by (simp_all add: Let_def)
  moreover have "fd_triggered (fr_decisions (new_FastRetransmitController 0) es ! 2)"
    unfolding es_def by code_simp
  moreover have "fd_triggered (fr_decisions (new_FastRetransmitController 0) es ! 6)"
    unfolding es_def by code_simp
  ultimately show ?thesis
    using one_fast_retransmit_per_recovery [of 2 6 es "new_FastRetransmitController 0"]
    by (simp add: es_def Let_def)
qed

end
