(* ===== verification/Rto.thy ===== *)
theory Rto
  imports Prelude
begin

text \<open>
  The retransmission timeout estimator (\<^verbatim>\<open>include/vectornet/transport/rto.hpp\<close>,
  \<^verbatim>\<open>src/transport/rto.cpp\<close>), on 64-bit words as in the source; \<open>monotonic_now_ns\<close> reads the
  clock and is not modelled. \<open>ref_observe\<close> is the estimator of RFC 6298 on natural numbers.
\<close>

definition kRtoGranularityNs :: u64 where "kRtoGranularityNs = 1000000"
definition kInitialRtoNs :: u64 where "kInitialRtoNs = 1000000000"
definition kMinimumRtoNs :: u64 where "kMinimumRtoNs = 1000000000"
definition kMaximumRtoNs :: u64 where "kMaximumRtoNs = 60000000000"

datatype RttSampleStatus = sample_accepted | karn_excluded | invalid_timestamp

record RtoEstimator =
  rto_srtt_ns :: u64
  rto_rttvar_ns :: u64
  rto_computed_rto_ns :: u64
  rto_current_rto_ns :: u64
  rto_initialized :: bool

definition new_RtoEstimator :: RtoEstimator where
  "new_RtoEstimator = \<lparr>rto_srtt_ns = 0, rto_rttvar_ns = 0, rto_computed_rto_ns = kInitialRtoNs,
     rto_current_rto_ns = kInitialRtoNs, rto_initialized = False\<rparr>"

definition update_computed_rto :: "RtoEstimator \<Rightarrow> RtoEstimator" where
  "update_computed_rto e =
     (let variation = max kRtoGranularityNs (4 * rto_rttvar_ns e);
          raw = (if rto_srtt_ns e > kMaximumRtoNs - variation then kMaximumRtoNs
                 else rto_srtt_ns e + variation)
      in e\<lparr>rto_computed_rto_ns := min (max raw kMinimumRtoNs) kMaximumRtoNs\<rparr>)"

definition observe :: "RtoEstimator \<Rightarrow> u64 \<Rightarrow> u64 \<Rightarrow> bool \<Rightarrow> RtoEstimator \<times> RttSampleStatus" where
  "observe e sent_at_ns acknowledged_at_ns was_retransmitted =
     (if acknowledged_at_ns < sent_at_ns then (e, invalid_timestamp)
      else if was_retransmitted then (e, karn_excluded)
      else
        let sample = min (acknowledged_at_ns - sent_at_ns) kMaximumRtoNs;
            e = (if \<not> rto_initialized e
                 then e\<lparr>rto_srtt_ns := sample, rto_rttvar_ns := sample div 2,
                        rto_initialized := True\<rparr>
                 else
                   let difference = (if rto_srtt_ns e > sample then rto_srtt_ns e - sample
                                     else sample - rto_srtt_ns e)
                   in e\<lparr>rto_rttvar_ns := (3 * rto_rttvar_ns e + difference) div 4,
                        rto_srtt_ns := (7 * rto_srtt_ns e + sample) div 8\<rparr>);
            e = update_computed_rto e
        in (e\<lparr>rto_current_rto_ns := rto_computed_rto_ns e\<rparr>, sample_accepted))"

definition on_timeout :: "RtoEstimator \<Rightarrow> RtoEstimator \<times> u64" where
  "on_timeout e =
     (let r = (if rto_current_rto_ns e > kMaximumRtoNs div 2 then kMaximumRtoNs
               else rto_current_rto_ns e * 2)
      in (e\<lparr>rto_current_rto_ns := r\<rparr>, r))"

definition on_forward_progress :: "RtoEstimator \<Rightarrow> RtoEstimator" where
  "on_forward_progress e = e\<lparr>rto_current_rto_ns := rto_computed_rto_ns e\<rparr>"

section \<open>Reference estimator and invariant\<close>

text \<open>Smoothed round-trip time and variation on natural numbers, \<open>None\<close> before the first sample.\<close>

fun ref_observe :: "(nat \<times> nat) option \<Rightarrow> nat \<Rightarrow> nat \<times> nat" where
  "ref_observe None r = (r, r div 2)"
| "ref_observe (Some (srtt, rttvar)) r =
     ((7 * srtt + r) div 8, (3 * rttvar + (if srtt > r then srtt - r else r - srtt)) div 4)"

fun ref_rto :: "nat \<times> nat \<Rightarrow> nat" where
  "ref_rto (srtt, rttvar) = min (max (srtt + max 1000000 (4 * rttvar)) 1000000000) 60000000000"

definition rto_abs :: "RtoEstimator \<Rightarrow> (nat \<times> nat) option" where
  "rto_abs e = (if rto_initialized e then Some (unat (rto_srtt_ns e), unat (rto_rttvar_ns e)) else None)"

definition rto_inv :: "RtoEstimator \<Rightarrow> bool" where
  "rto_inv e \<longleftrightarrow> unat (rto_srtt_ns e) \<le> 60000000000 \<and> unat (rto_rttvar_ns e) \<le> 60000000000 \<and>
     1000000000 \<le> unat (rto_computed_rto_ns e) \<and> unat (rto_computed_rto_ns e) \<le> 60000000000 \<and>
     unat (rto_computed_rto_ns e) \<le> unat (rto_current_rto_ns e) \<and>
     unat (rto_current_rto_ns e) \<le> 60000000000"

lemmas rto_consts = kRtoGranularityNs_def kInitialRtoNs_def kMinimumRtoNs_def kMaximumRtoNs_def

lemma rto_inv_new: "rto_inv new_RtoEstimator"
  by (simp add: rto_inv_def new_RtoEstimator_def rto_consts)

text \<open>
  The subtraction \<open>kMaximumRtoNs - variation\<close> wraps when the variation exceeds a minute; the clamp
  makes the result right all the same.
\<close>

lemma update_computed_rto_ref:
  assumes "unat (rto_srtt_ns e) \<le> 60000000000" "unat (rto_rttvar_ns e) \<le> 60000000000"
  shows "unat (rto_computed_rto_ns (update_computed_rto e))
           = ref_rto (unat (rto_srtt_ns e), unat (rto_rttvar_ns e))"
proof -
  let ?v = "max kRtoGranularityNs (4 * rto_rttvar_ns e)" and ?s = "rto_srtt_ns e"
  have v: "unat ?v = max 1000000 (4 * unat (rto_rttvar_ns e))"
    using assms by (simp add: nowrap_simps rto_consts)
  have sum: "unat (?s + ?v) = unat ?s + unat ?v"
    using assms v by (intro unat_add_nowrap) simp
  show ?thesis
  proof (cases "unat ?v \<le> 60000000000")
    case True
    then have "unat (kMaximumRtoNs - ?v) = 60000000000 - unat ?v"
      by (simp add: unat_sub_nowrap kMaximumRtoNs_def)
    then have "?s > kMaximumRtoNs - ?v \<longleftrightarrow> 60000000000 < unat ?s + unat ?v"
      using True by (auto simp: word_less_nat_alt)
    then show ?thesis
      using sum v by (auto simp: update_computed_rto_def Let_def unat_min unat_max rto_consts)
  next
    case False
    then have "60000000000 < unat ?s + unat ?v" by simp
    then show ?thesis
      using sum v
      by (auto simp: update_computed_rto_def Let_def unat_min unat_max rto_consts)
  qed
qed

lemma update_computed_rto_simps [simp]:
  "rto_srtt_ns (update_computed_rto e) = rto_srtt_ns e"
  "rto_rttvar_ns (update_computed_rto e) = rto_rttvar_ns e"
  "rto_initialized (update_computed_rto e) = rto_initialized e"
  by (simp_all add: update_computed_rto_def Let_def)

lemma ref_rto_bounds: "1000000000 \<le> ref_rto v \<and> ref_rto v \<le> 60000000000"
  by (cases v) simp

lemma ref_observe_bound:
  "(\<And>s v. st = Some (s, v) \<Longrightarrow> s \<le> M \<and> v \<le> M) \<Longrightarrow> r \<le> M \<Longrightarrow>
   fst (ref_observe st r) \<le> M \<and> snd (ref_observe st r) \<le> M"
  by (cases "(st, r)" rule: ref_observe.cases) auto

lemma observe_sample:
  assumes "rto_inv e" "\<not> a < s"
  shows "\<exists>e'. observe e s a False = (e', sample_accepted) \<and> rto_inv e' \<and>
    rto_abs e' = Some (ref_observe (rto_abs e) (min (unat a - unat s) 60000000000)) \<and>
    unat (rto_current_rto_ns e') = ref_rto (ref_observe (rto_abs e) (min (unat a - unat s) 60000000000))"
proof -
  define r where "r = min (a - s) kMaximumRtoNs"
  have r: "unat r = min (unat a - unat s) 60000000000" "unat r \<le> 60000000000"
    using assms(2) by (simp_all add: r_def nowrap_simps rto_consts not_less)
  define d where "d = (if rto_srtt_ns e > r then rto_srtt_ns e - r else r - rto_srtt_ns e)"
  have sv: "unat (rto_srtt_ns e) \<le> 60000000000" "unat (rto_rttvar_ns e) \<le> 60000000000"
    using assms(1) by (auto simp: rto_inv_def)
  have d: "unat d = (if unat (rto_srtt_ns e) > unat r then unat (rto_srtt_ns e) - unat r
                     else unat r - unat (rto_srtt_ns e))" "unat d \<le> 60000000000"
    using r(2) sv by (auto simp: d_def nowrap_simps)
  define e1 where "e1 = (if \<not> rto_initialized e
     then e\<lparr>rto_srtt_ns := r, rto_rttvar_ns := r div 2, rto_initialized := True\<rparr>
     else e\<lparr>rto_rttvar_ns := (3 * rto_rttvar_ns e + d) div 4,
            rto_srtt_ns := (7 * rto_srtt_ns e + r) div 8\<rparr>)"
  have ref: "(unat (rto_srtt_ns e1), unat (rto_rttvar_ns e1)) = ref_observe (rto_abs e) (unat r)"
    using sv d r(2) by (auto simp: e1_def rto_abs_def nowrap_simps)
  have b: "unat (rto_srtt_ns e1) \<le> 60000000000" "unat (rto_rttvar_ns e1) \<le> 60000000000"
    using ref_observe_bound [of "rto_abs e" 60000000000 "unat r"] sv r(2) ref
    by (metis fst_conv snd_conv option.inject prod.inject rto_abs_def option.distinct(1))+
  define e2 where "e2 = update_computed_rto e1"
  have c: "unat (rto_computed_rto_ns e2) = ref_rto (ref_observe (rto_abs e) (unat r))"
    unfolding e2_def update_computed_rto_ref [OF b] ref ..
  have i: "rto_initialized e1" by (simp add: e1_def)
  have code: "observe e s a False = (e2\<lparr>rto_current_rto_ns := rto_computed_rto_ns e2\<rparr>, sample_accepted)"
    using assms(2) by (simp add: observe_def Let_def e2_def e1_def d_def r_def)
  have inv: "rto_inv (e2\<lparr>rto_current_rto_ns := rto_computed_rto_ns e2\<rparr>)"
    using b ref_rto_bounds by (simp add: rto_inv_def c) (simp add: e2_def)
  have abs: "rto_abs (e2\<lparr>rto_current_rto_ns := rto_computed_rto_ns e2\<rparr>)
               = Some (ref_observe (rto_abs e) (unat r))"
    using i ref by (simp add: rto_abs_def e2_def)
  show ?thesis using code inv abs c by (simp add: r(1))
qed

lemma on_timeout_doubles:
  assumes "rto_inv e" "on_timeout e = (e', r)"
  shows "rto_inv e' \<and> unat r = min (2 * unat (rto_current_rto_ns e)) 60000000000 \<and>
         rto_current_rto_ns e' = r \<and> rto_computed_rto_ns e' = rto_computed_rto_ns e"
  using assms by (auto simp: on_timeout_def Let_def rto_inv_def nowrap_simps rto_consts)

inductive rto_reachable :: "RtoEstimator \<Rightarrow> bool" where
  rto_start: "rto_reachable new_RtoEstimator"
| rto_sample: "rto_reachable e \<Longrightarrow> rto_reachable (fst (observe e s a retransmitted))"
| rto_timeout: "rto_reachable e \<Longrightarrow> rto_reachable (fst (on_timeout e))"
| rto_progress: "rto_reachable e \<Longrightarrow> rto_reachable (on_forward_progress e)"

lemma rto_reachable_inv: "rto_reachable e \<Longrightarrow> rto_inv e"
proof (induction rule: rto_reachable.induct)
  case rto_start
  show ?case by (rule rto_inv_new)
next
  case (rto_sample e s a retransmitted)
  then show ?case
    using observe_sample [of e a s] by (cases "a < s"; cases retransmitted) (auto simp: observe_def)
next
  case (rto_timeout e)
  then show ?case using on_timeout_doubles [of e] by (cases "on_timeout e") auto
next
  case (rto_progress e)
  then show ?case by (simp add: on_forward_progress_def rto_inv_def)
qed

section \<open>Properties\<close>

text \<open>
  Claim C29. On 64-bit words with their wrap-around, the estimator computes the RFC 6298 estimator of
  the natural numbers: a sample (capped at a minute) of a segment sent once updates the smoothed time
  and the variation as the reference does, and the timeout is their clamped sum; a sample of a
  retransmitted segment or with a clock that went backwards changes nothing.
\<close>

theorem rto_observe_refines:
  assumes "rto_inv e"
  shows "(let v = ref_observe (rto_abs e) (min (unat a - unat s) 60000000000)
          in case observe e s a retransmitted of (e', st) \<Rightarrow>
            if a < s then e' = e \<and> st = invalid_timestamp
            else if retransmitted then e' = e \<and> st = karn_excluded
            else st = sample_accepted \<and> rto_inv e' \<and> rto_abs e' = Some v \<and>
                 unat (rto_current_rto_ns e') = ref_rto v)"
  using observe_sample [OF assms, of a s]
  by (cases "a < s"; cases retransmitted) (auto simp: observe_def Let_def)

theorem rto_observe_refines_witness:
  "unat (rto_current_rto_ns (fst (observe new_RtoEstimator 5 1000000005 False))) = 3000000000"
  using rto_observe_refines [OF rto_inv_new, of 1000000005 5 False]
  by (simp add: rto_abs_def new_RtoEstimator_def Let_def split: prod.splits)

text \<open>
  Claim C30. In every run of the estimator the timeout stays between one second and one minute, \<open>n\<close>
  timeouts in a row double it \<open>n\<close> times up to the minute, and forward progress takes the
  backed-off timeout back to the computed one.
\<close>

theorem rto_backoff:
  assumes "rto_reachable e"
  shows "let e' = ((\<lambda>e. fst (on_timeout e)) ^^ n) e in
    1000000000 \<le> unat (rto_current_rto_ns e) \<and> unat (rto_current_rto_ns e) \<le> 60000000000 \<and>
    unat (rto_current_rto_ns e') = min (2 ^ n * unat (rto_current_rto_ns e)) 60000000000 \<and>
    rto_current_rto_ns (on_forward_progress e') = rto_computed_rto_ns e"
proof -
  let ?e = "\<lambda>n. ((\<lambda>e. fst (on_timeout e)) ^^ n) e"
  have inv: "rto_inv e" by (rule rto_reachable_inv [OF assms])
  have "rto_inv (?e n) \<and> rto_computed_rto_ns (?e n) = rto_computed_rto_ns e \<and>
    unat (rto_current_rto_ns (?e n)) = min (2 ^ n * unat (rto_current_rto_ns e)) 60000000000"
  proof (induction n)
    case 0
    then show ?case using inv by (simp add: rto_inv_def)
  next
    case (Suc n)
    then show ?case
      using on_timeout_doubles [of "?e n"] by (cases "on_timeout (?e n)") (auto simp: min_def mult.commute)
  qed
  then show ?thesis using inv by (auto simp: Let_def rto_inv_def on_forward_progress_def)
qed

theorem rto_backoff_witness:
  "unat (rto_current_rto_ns (((\<lambda>e. fst (on_timeout e)) ^^ 3) new_RtoEstimator)) = 8000000000"
  using rto_backoff [OF rto_start, of 3] by (simp add: Let_def new_RtoEstimator_def rto_consts)

end
