(* ===== verification/Congestion.thy ===== *)
theory Congestion
  imports Sequence
begin

text \<open>
  The congestion controller (\<^verbatim>\<open>include/vectornet/transport/congestion.hpp\<close>,
  \<^verbatim>\<open>src/transport/congestion.cpp\<close>). The window arithmetic is on 32- and 64-bit words as in the
  source. The loop of \<open>on_ack\<close> in congestion avoidance would not end for an empty window; it is a
  partial function whose value \<open>None\<close> is "does not return", and the properties prove it returns.
\<close>

definition kInitialCongestionWindowSegments :: u32 where "kInitialCongestionWindowSegments = 10"

datatype CongestionState = slow_start | congestion_avoidance

datatype LossSignal = rto_timeout_signal | sack_fast_recovery

record LossResponse =
  lr_congestion_window_bytes :: u32
  lr_slow_start_threshold_bytes :: u32
  lr_state :: CongestionState
  lr_applied :: bool

record CongestionController =
  cc_mss_bytes :: u32
  cc_cwnd_bytes :: u32
  cc_ssthresh_bytes :: u32
  cc_avoidance_acked_bytes :: u64
  cc_recovery_point :: u32
  cc_state :: CongestionState
  cc_in_recovery :: bool

definition u32_max64 :: u64 where "u32_max64 = 0xFFFFFFFF"

definition new_CongestionController :: "u32 \<Rightarrow> u32 \<Rightarrow> CongestionController" where
  "new_CongestionController mss_bytes initial_ssthresh_bytes =
     (let mss = (if mss_bytes = 0 then 1 else mss_bytes);
          initial = (ucast mss :: u64) * ucast kInitialCongestionWindowSegments;
          cwnd = ucast (min initial u32_max64)
      in \<lparr>cc_mss_bytes = mss, cc_cwnd_bytes = cwnd, cc_ssthresh_bytes = initial_ssthresh_bytes,
          cc_avoidance_acked_bytes = 0, cc_recovery_point = 0,
          cc_state = (if cwnd \<ge> initial_ssthresh_bytes then congestion_avoidance else slow_start),
          cc_in_recovery = False\<rparr>)"

definition add_to_cwnd :: "CongestionController \<Rightarrow> u64 \<Rightarrow> CongestionController" where
  "add_to_cwnd c bytes =
     (let expanded = (ucast (cc_cwnd_bytes c) :: u64) + bytes
      in c\<lparr>cc_cwnd_bytes := ucast (min expanded u32_max64)\<rparr>)"

partial_function (option) avoidance_loop :: "CongestionController \<Rightarrow> CongestionController option" where
  "avoidance_loop c =
     (if cc_avoidance_acked_bytes c \<ge> ucast (cc_cwnd_bytes c)
      then avoidance_loop
             (add_to_cwnd (c\<lparr>cc_avoidance_acked_bytes := cc_avoidance_acked_bytes c - ucast (cc_cwnd_bytes c)\<rparr>)
                (ucast (cc_mss_bytes c)))
      else Some c)"

definition cc_on_ack :: "CongestionController \<Rightarrow> u32 \<Rightarrow> CongestionController option" where
  "cc_on_ack c acknowledged_bytes =
     (if acknowledged_bytes = 0 then Some c
      else if cc_state c = slow_start
      then
        let c = add_to_cwnd c (ucast acknowledged_bytes) in
        Some (if cc_cwnd_bytes c \<ge> cc_ssthresh_bytes c
              then c\<lparr>cc_state := congestion_avoidance, cc_avoidance_acked_bytes := 0\<rparr> else c)
      else avoidance_loop (c\<lparr>cc_avoidance_acked_bytes :=
                               cc_avoidance_acked_bytes c + ucast acknowledged_bytes\<rparr>))"

definition loss_response :: "CongestionController \<Rightarrow> bool \<Rightarrow> LossResponse" where
  "loss_response c applied = \<lparr>lr_congestion_window_bytes = cc_cwnd_bytes c,
     lr_slow_start_threshold_bytes = cc_ssthresh_bytes c, lr_state = cc_state c, lr_applied = applied\<rparr>"

definition on_loss ::
  "CongestionController \<Rightarrow> LossSignal \<Rightarrow> u32 \<Rightarrow> u32 \<Rightarrow> CongestionController \<times> LossResponse" where
  "on_loss c signal flight_bytes recovery_point =
     (if cc_in_recovery c then (c, loss_response c False)
      else
        let minimum_threshold = (ucast (cc_mss_bytes c) :: u64) * 2;
            halved_flight = ucast (flight_bytes div 2);
            c = c\<lparr>cc_ssthresh_bytes := ucast (min (max minimum_threshold halved_flight) u32_max64)\<rparr>;
            c = (if signal = rto_timeout_signal
                 then c\<lparr>cc_cwnd_bytes := cc_mss_bytes c, cc_state := slow_start\<rparr>
                 else c\<lparr>cc_cwnd_bytes := cc_ssthresh_bytes c, cc_state := congestion_avoidance\<rparr>);
            c = c\<lparr>cc_avoidance_acked_bytes := 0, cc_recovery_point := recovery_point,
                  cc_in_recovery := True\<rparr>
        in (c, loss_response c True))"

definition on_recovery_ack :: "CongestionController \<Rightarrow> u32 \<Rightarrow> CongestionController \<times> bool" where
  "on_recovery_ack c cumulative_ack =
     (if \<not> cc_in_recovery c \<or> \<not> sequence_less_equal (cc_recovery_point c) cumulative_ack
      then (c, False)
      else (c\<lparr>cc_in_recovery := False\<rparr>, True))"

definition effective_window_bytes :: "CongestionController \<Rightarrow> u16 \<Rightarrow> u32" where
  "effective_window_bytes c advertised_window_bytes =
     min (cc_cwnd_bytes c) (ucast advertised_window_bytes)"

definition send_allowance_bytes :: "CongestionController \<Rightarrow> u32 \<Rightarrow> u16 \<Rightarrow> u32" where
  "send_allowance_bytes c flight_bytes advertised_window_bytes =
     (let limit = effective_window_bytes c advertised_window_bytes
      in if flight_bytes \<ge> limit then 0 else limit - flight_bytes)"

section \<open>Invariant\<close>

text \<open>The window as a natural number, and its saturating growth.\<close>

abbreviation cwnd :: "CongestionController \<Rightarrow> nat" where "cwnd c \<equiv> unat (cc_cwnd_bytes c)"
abbreviation mss :: "CongestionController \<Rightarrow> nat" where "mss c \<equiv> unat (cc_mss_bytes c)"
abbreviation ssthresh :: "CongestionController \<Rightarrow> nat" where "ssthresh c \<equiv> unat (cc_ssthresh_bytes c)"
abbreviation acked :: "CongestionController \<Rightarrow> nat" where "acked c \<equiv> unat (cc_avoidance_acked_bytes c)"

definition sat32 :: "nat \<Rightarrow> nat" where "sat32 n = min n (2 ^ 32 - 1)"

definition cc_inv :: "CongestionController \<Rightarrow> bool" where
  "cc_inv c \<longleftrightarrow> 1 \<le> mss c \<and> mss c \<le> cwnd c \<and> acked c < cwnd c \<and>
     (cc_state c = slow_start \<longrightarrow> cwnd c < ssthresh c \<or> mss c = 2 ^ 32 - 1)"

lemma sat32_bounds: "sat32 n < 2 ^ 32" "sat32 n \<le> n"
  by (simp_all add: sat32_def)

lemma sat32_mono: "m \<le> n \<Longrightarrow> sat32 m \<le> sat32 n"
  by (auto simp: sat32_def min_def)

lemma sat32_id: "sat32 (unat (w :: u32)) = unat w"
  using unat_u32_bound [of w] by (simp add: sat32_def)

lemma unat_sat_ucast: "unat (ucast (min w u32_max64) :: u32) = sat32 (unat w)"
proof -
  have "unat (min w u32_max64) = sat32 (unat w)"
    by (simp add: unat_min u32_max64_def sat32_def)
  then show ?thesis using sat32_bounds(1) [of "unat w"] by (simp add: unat_u32_ucast_u64)
qed

lemma add_to_cwnd_simps [simp]:
  "cc_mss_bytes (add_to_cwnd c b) = cc_mss_bytes c"
  "cc_ssthresh_bytes (add_to_cwnd c b) = cc_ssthresh_bytes c"
  "cc_avoidance_acked_bytes (add_to_cwnd c b) = cc_avoidance_acked_bytes c"
  "cc_recovery_point (add_to_cwnd c b) = cc_recovery_point c"
  "cc_state (add_to_cwnd c b) = cc_state c" "cc_in_recovery (add_to_cwnd c b) = cc_in_recovery c"
  by (simp_all add: add_to_cwnd_def Let_def)

lemma cwnd_add_to_cwnd: "cwnd (add_to_cwnd c (ucast (b :: u32))) = sat32 (cwnd c + unat b)"
proof -
  have "unat ((ucast (cc_cwnd_bytes c) :: u64) + ucast b) = cwnd c + unat b"
    using unat_u32_bound [of "cc_cwnd_bytes c"] unat_u32_bound [of b]
    by (subst unat_add_nowrap) (simp_all add: unat_u64_ucast_u32)
  then show ?thesis by (simp add: add_to_cwnd_def Let_def unat_sat_ucast)
qed

lemma sat32_add: "sat32 (sat32 a + b) = sat32 (a + b)"
  by (simp add: sat32_def)

text \<open>
  The bytes that \<open>k\<close> window increments use up, when each costs the window in force.
\<close>

definition growth_cost :: "nat \<Rightarrow> nat \<Rightarrow> nat \<Rightarrow> nat" where
  "growth_cost w m k = (\<Sum>i<k. sat32 (w + i * m))"

lemma growth_cost_Suc: "growth_cost w m (Suc k) = sat32 w + growth_cost (sat32 (w + m)) m k"
  unfolding growth_cost_def sum.lessThan_Suc_shift by (simp add: sat32_add add.assoc)

lemma avoidance_loop_returns:
  assumes "0 < cwnd c"
  shows "\<exists>c' k. avoidance_loop c = Some c' \<and>
    c' = c\<lparr>cc_cwnd_bytes := cc_cwnd_bytes c', cc_avoidance_acked_bytes := cc_avoidance_acked_bytes c'\<rparr> \<and>
    acked c = growth_cost (cwnd c) (mss c) k + acked c' \<and> acked c' < cwnd c' \<and>
    cwnd c' = sat32 (cwnd c + k * mss c)"
  using assms
proof (induction "acked c" arbitrary: c rule: less_induct)
  case less
  let ?w = "ucast (cc_cwnd_bytes c) :: u64"
  show ?case
  proof (cases "cwnd c \<le> acked c")
    case False
    then have "avoidance_loop c = Some c"
      by (simp add: avoidance_loop.simps [of c] word_le_nat_alt unat_u64_ucast_u32)
    then show ?thesis
      using False by (intro exI [of _ c] exI [of _ 0]) (simp add: growth_cost_def sat32_id)
  next
    case True
    define c1 where "c1 = add_to_cwnd
      (c\<lparr>cc_avoidance_acked_bytes := cc_avoidance_acked_bytes c - ?w\<rparr>) (ucast (cc_mss_bytes c))"
    have a1: "acked c1 = acked c - cwnd c" "mss c1 = mss c"
      using True by (simp_all add: c1_def unat_sub_nowrap unat_u64_ucast_u32)
    have w1: "cwnd c1 = sat32 (cwnd c + mss c)"
      using cwnd_add_to_cwnd [of "c\<lparr>cc_avoidance_acked_bytes := cc_avoidance_acked_bytes c - ?w\<rparr>"]
      by (simp add: c1_def)
    have "avoidance_loop c = avoidance_loop c1"
      using True by (simp add: avoidance_loop.simps [of c] c1_def word_le_nat_alt unat_u64_ucast_u32)
    moreover have "acked c1 < acked c" using a1 True less.prems by simp
    moreover have "0 < cwnd c1" using less.prems w1 by (auto simp: sat32_def)
    ultimately obtain c' k where k: "avoidance_loop c = Some c'"
        "c' = c1\<lparr>cc_cwnd_bytes := cc_cwnd_bytes c', cc_avoidance_acked_bytes := cc_avoidance_acked_bytes c'\<rparr>"
        "acked c1 = growth_cost (cwnd c1) (mss c1) k + acked c'" "acked c' < cwnd c'"
        "cwnd c' = sat32 (cwnd c1 + k * mss c1)"
      using less.hyps by metis
    have "c' = c\<lparr>cc_cwnd_bytes := cc_cwnd_bytes c', cc_avoidance_acked_bytes := cc_avoidance_acked_bytes c'\<rparr>"
      by (subst k(2)) (simp add: c1_def add_to_cwnd_def Let_def)
    moreover have "acked c = growth_cost (cwnd c) (mss c) (Suc k) + acked c'"
      using k(3) a1 w1 True by (simp add: growth_cost_Suc sat32_id)
    moreover have "cwnd c' = sat32 (cwnd c + Suc k * mss c)"
      using k(5) a1 w1 by (simp add: sat32_add add.assoc)
    ultimately show ?thesis using k(1,4) by blast
  qed
qed

lemma cc_on_ack_avoidance:
  assumes "cc_inv c" "cc_state c = congestion_avoidance" "n \<noteq> 0"
  shows "\<exists>c' k. cc_on_ack c n = Some c' \<and> cc_inv c' \<and>
    c' = c\<lparr>cc_cwnd_bytes := cc_cwnd_bytes c', cc_avoidance_acked_bytes := cc_avoidance_acked_bytes c'\<rparr> \<and>
    acked c + unat n = growth_cost (cwnd c) (mss c) k + acked c' \<and> acked c' < cwnd c' \<and>
    cwnd c' = sat32 (cwnd c + k * mss c)"
proof -
  define c1 where "c1 = c\<lparr>cc_avoidance_acked_bytes := cc_avoidance_acked_bytes c + ucast n\<rparr>"
  have "acked c < 2 ^ 32" using assms(1) unat_u32_bound [of "cc_cwnd_bytes c"] by (simp add: cc_inv_def)
  then have a1: "acked c1 = acked c + unat n" "cwnd c1 = cwnd c" "mss c1 = mss c"
    using unat_u32_bound [of n] by (simp_all add: c1_def unat_add_nowrap unat_u64_ucast_u32)
  have "0 < cwnd c1" using assms(1) a1 by (simp add: cc_inv_def)
  then obtain c' k where k: "avoidance_loop c1 = Some c'"
      "c' = c1\<lparr>cc_cwnd_bytes := cc_cwnd_bytes c', cc_avoidance_acked_bytes := cc_avoidance_acked_bytes c'\<rparr>"
      "acked c1 = growth_cost (cwnd c1) (mss c1) k + acked c'" "acked c' < cwnd c'"
      "cwnd c' = sat32 (cwnd c1 + k * mss c1)"
    using avoidance_loop_returns by blast
  have c': "c' = c\<lparr>cc_cwnd_bytes := cc_cwnd_bytes c', cc_avoidance_acked_bytes := cc_avoidance_acked_bytes c'\<rparr>"
    by (subst k(2)) (simp add: c1_def)
  have st: "cc_state c' = cc_state c" "mss c' = mss c" by (subst c', simp)+
  have "sat32 (cwnd c) \<le> cwnd c'" using k(5) a1 by (simp add: sat32_mono)
  then have "cc_inv c'" using assms(1,2) st k(4) by (simp add: cc_inv_def sat32_id)
  moreover have "cc_on_ack c n = Some c'" using assms k(1) by (simp add: cc_on_ack_def c1_def)
  ultimately show ?thesis using c' k(3-5) a1 by metis
qed

lemma cc_on_ack_slow_start:
  assumes "cc_inv c" "cc_state c = slow_start" "n \<noteq> 0"
  shows "\<exists>c'. cc_on_ack c n = Some c' \<and> cc_inv c' \<and> cwnd c' = sat32 (cwnd c + unat n) \<and>
    mss c' = mss c \<and> ssthresh c' = ssthresh c \<and> cc_in_recovery c' = cc_in_recovery c \<and>
    (cc_state c' = slow_start \<longleftrightarrow> cwnd c' < ssthresh c)"
proof -
  let ?c = "add_to_cwnd c (ucast n)"
  have w: "cwnd ?c = sat32 (cwnd c + unat n)" by (rule cwnd_add_to_cwnd)
  then have "cwnd c \<le> cwnd ?c" using sat32_mono [of "cwnd c" "cwnd c + unat n"] by (simp add: sat32_id)
  then show ?thesis
    using assms w by (auto simp: cc_on_ack_def Let_def cc_inv_def word_le_nat_alt)
qed

lemma on_loss_applied:
  assumes "cc_inv c" "\<not> cc_in_recovery c" "on_loss c signal flight rp = (c', r)"
  shows "cc_inv c' \<and> lr_applied r \<and> cc_in_recovery c' \<and> cc_recovery_point c' = rp \<and>
    ssthresh c' = sat32 (max (2 * mss c) (unat flight div 2)) \<and> mss c' = mss c \<and>
    cwnd c' = (if signal = rto_timeout_signal then mss c else ssthresh c') \<and>
    cc_state c' = (if signal = rto_timeout_signal then slow_start else congestion_avoidance)"
proof -
  define t :: u32 where
    "t = ucast (min (max ((ucast (cc_mss_bytes c) :: u64) * 2) (ucast (flight div 2))) u32_max64)"
  have m: "mss c < 2 ^ 32" by (rule unat_u32_bound)
  then have "unat ((ucast (cc_mss_bytes c) :: u64) * 2) = mss c * 2"
    by (subst unat_mult_nowrap) (simp_all add: unat_u64_ucast_u32)
  then have t: "unat t = sat32 (max (2 * mss c) (unat flight div 2))"
    by (simp add: t_def unat_sat_ucast unat_max unat_u64_ucast_u32 unat_div_word mult.commute)
  have b: "mss c \<le> unat t" "0 < unat t" "mss c < unat t \<or> mss c = 2 ^ 32 - 1" "0 < mss c"
    using assms(1) m unfolding t by (auto simp: sat32_def cc_inv_def)
  have c': "c' = c\<lparr>cc_ssthresh_bytes := t,
      cc_cwnd_bytes := (if signal = rto_timeout_signal then cc_mss_bytes c else t),
      cc_state := (if signal = rto_timeout_signal then slow_start else congestion_avoidance),
      cc_avoidance_acked_bytes := 0, cc_recovery_point := rp, cc_in_recovery := True\<rparr>"
      "lr_applied r"
    using assms(2,3) by (auto simp: on_loss_def Let_def loss_response_def t_def)
  have "cc_inv c'" unfolding c'(1) cc_inv_def using b by (cases signal) simp_all
  then show ?thesis unfolding c'(1) using t c'(2) by (cases signal) simp_all
qed

lemma new_CongestionController_inv: "cc_inv (new_CongestionController m th)"
proof -
  let ?m = "if m = 0 then 1 else m"
  let ?w = "ucast (min ((ucast ?m :: u64) * ucast kInitialCongestionWindowSegments) u32_max64) :: u32"
  have "unat ((ucast ?m :: u64) * ucast kInitialCongestionWindowSegments) = unat ?m * 10"
    using unat_u32_bound [of ?m]
    by (subst unat_mult_nowrap) (simp_all only: unat_u64_ucast_u32, simp_all add: kInitialCongestionWindowSegments_def)
  then have w: "unat ?w = sat32 (unat ?m * 10)" by (simp add: unat_sat_ucast)
  have "0 < unat ?m" by (simp add: unat_gt_0)
  then have "unat ?m \<le> unat ?w" "0 < unat ?w"
    using unat_u32_bound [of ?m] unfolding w by (auto simp: sat32_def)
  then show ?thesis
    using \<open>0 < unat ?m\<close>
    by (auto simp: cc_inv_def new_CongestionController_def Let_def word_le_nat_alt simp del: unat_gt_0)
qed

inductive cc_reachable :: "CongestionController \<Rightarrow> bool" where
  cc_start: "cc_reachable (new_CongestionController m th)"
| cc_ack: "cc_reachable c \<Longrightarrow> cc_on_ack c n = Some c' \<Longrightarrow> cc_reachable c'"
| cc_loss: "cc_reachable c \<Longrightarrow> cc_reachable (fst (on_loss c signal flight rp))"
| cc_recovery: "cc_reachable c \<Longrightarrow> cc_reachable (fst (on_recovery_ack c ack))"

lemma cc_on_ack_inv: "cc_inv c \<Longrightarrow> \<exists>c'. cc_on_ack c n = Some c' \<and> cc_inv c'"
proof -
  assume inv: "cc_inv c"
  consider "n = 0" | "n \<noteq> 0" "cc_state c = slow_start" | "n \<noteq> 0" "cc_state c = congestion_avoidance"
    using CongestionState.exhaust by blast
  then show ?thesis
  proof cases
    case 1
    then show ?thesis using inv by (simp add: cc_on_ack_def)
  next
    case 2
    then show ?thesis using cc_on_ack_slow_start [OF inv] by blast
  next
    case 3
    then show ?thesis using cc_on_ack_avoidance [OF inv] by blast
  qed
qed

lemma cc_reachable_inv: "cc_reachable c \<Longrightarrow> cc_inv c"
proof (induction rule: cc_reachable.induct)
  case (cc_start m th)
  show ?case by (rule new_CongestionController_inv)
next
  case (cc_ack c n c')
  then show ?case using cc_on_ack_inv [of c n] by auto
next
  case (cc_loss c signal flight rp)
  obtain c' r where l: "on_loss c signal flight rp = (c', r)" by fastforce
  show ?case
  proof (cases "cc_in_recovery c")
    case True
    then have "c' = c" using l by (simp add: on_loss_def)
    then show ?thesis using cc_loss.IH l by simp
  next
    case False
    then show ?thesis using on_loss_applied [OF cc_loss.IH False l] l by simp
  qed
next
  case (cc_recovery c ack)
  then show ?case by (simp add: on_recovery_ack_def cc_inv_def)
qed

section \<open>Properties\<close>

text \<open>
  Claim C31. An acknowledgement of \<open>n > 0\<close> bytes is always processed to the end. In slow start the
  window grows by the bytes acknowledged, saturating at 2^32 - 1, and the phase ends when it reaches
  the threshold. In congestion avoidance the window grows by whole segments, each paid for with one
  window of acknowledged bytes and the remainder carried over, so that acknowledging at most a window
  of data adds at most one segment.
\<close>

theorem window_growth:
  assumes "cc_reachable c" "n \<noteq> 0"
  shows "\<exists>c'. cc_on_ack c n = Some c' \<and>
    (cc_state c = slow_start \<longrightarrow> cwnd c' = sat32 (cwnd c + unat n) \<and>
       (cc_state c' = slow_start \<longleftrightarrow> cwnd c' < ssthresh c)) \<and>
    (cc_state c = congestion_avoidance \<longrightarrow> cc_state c' = congestion_avoidance \<and>
       (\<exists>k. cwnd c' = sat32 (cwnd c + k * mss c) \<and>
            acked c + unat n = growth_cost (cwnd c) (mss c) k + acked c' \<and> acked c' < cwnd c' \<and>
            (unat n \<le> cwnd c \<longrightarrow> k \<le> 1)))"
proof (cases "cc_state c")
  case slow_start
  then show ?thesis
    using cc_on_ack_slow_start [OF cc_reachable_inv [OF assms(1)] _ assms(2)] by auto
next
  case congestion_avoidance
  have inv: "cc_inv c" by (rule cc_reachable_inv [OF assms(1)])
  obtain c' k where k: "cc_on_ack c n = Some c'"
      "c' = c\<lparr>cc_cwnd_bytes := cc_cwnd_bytes c', cc_avoidance_acked_bytes := cc_avoidance_acked_bytes c'\<rparr>"
      "acked c + unat n = growth_cost (cwnd c) (mss c) k + acked c'" "acked c' < cwnd c'"
      "cwnd c' = sat32 (cwnd c + k * mss c)"
    using cc_on_ack_avoidance [OF inv congestion_avoidance assms(2)] by blast
  have "k \<le> 1" if "unat n \<le> cwnd c"
  proof (rule ccontr)
    assume "\<not> k \<le> 1"
    then obtain j where "k = Suc (Suc j)" by (cases k; cases "k - 1") auto
    then have "sat32 (cwnd c) + sat32 (sat32 (cwnd c + mss c)) \<le> growth_cost (cwnd c) (mss c) k"
      by (simp add: growth_cost_Suc)
    moreover have "sat32 (cwnd c) \<le> sat32 (cwnd c + mss c)" by (rule sat32_mono) simp
    ultimately have "2 * cwnd c \<le> acked c + unat n"
      using k(3) sat32_add [of "cwnd c + mss c" 0] by (simp add: sat32_id)
    then show False using that inv by (simp add: cc_inv_def)
  qed
  moreover have "cc_state c' = congestion_avoidance" using congestion_avoidance by (subst k(2)) simp
  ultimately show ?thesis using k congestion_avoidance by auto
qed

theorem window_growth_witness:
  "\<exists>c'. cc_on_ack (new_CongestionController 1000 4000) 10000 = Some c' \<and> cwnd c' = 11000"
proof -
  let ?c = "new_CongestionController 1000 4000"
  have c: "cc_state ?c = congestion_avoidance" "cwnd ?c = 10000" "mss ?c = 1000" "acked ?c = 0"
    by (simp_all add: new_CongestionController_def kInitialCongestionWindowSegments_def u32_max64_def
        Let_def min_def)
  obtain c' k where k: "cc_on_ack ?c 10000 = Some c'" "cwnd c' = sat32 (10000 + k * 1000)"
      "10000 = growth_cost 10000 1000 k + acked c'" "acked c' < cwnd c'" "k \<le> 1"
    using window_growth [OF cc_start, of 10000 1000 4000] c by auto
  then have "k = 1" by (cases k) (auto simp: growth_cost_def sat32_def)
  then show ?thesis using k by (simp add: sat32_def)
qed

text \<open>
  Claim C32. One multiplicative decrease per loss episode: outside recovery a loss sets the threshold
  to half the flight, but at least two segments, and the window to one segment (timeout, back to slow
  start) or to the threshold (fast recovery, congestion avoidance); during recovery further losses
  change nothing until an acknowledgement reaches the recovery point. The window never falls below one
  segment.
\<close>

theorem loss_response_once:
  assumes "cc_reachable c"
  shows "case on_loss c signal flight rp of (c', r) \<Rightarrow>
    mss c \<le> cwnd c \<and> mss c \<le> cwnd c' \<and> lr_applied r = (\<not> cc_in_recovery c) \<and>
    (cc_in_recovery c \<longrightarrow> c' = c) \<and>
    (\<not> cc_in_recovery c \<longrightarrow>
       ssthresh c' = sat32 (max (2 * mss c) (unat flight div 2)) \<and>
       cwnd c' = (if signal = rto_timeout_signal then mss c else ssthresh c') \<and>
       cc_state c' = (if signal = rto_timeout_signal then slow_start else congestion_avoidance) \<and>
       fst (on_loss c' signal' flight' rp') = c' \<and>
       (snd (on_recovery_ack c' ack) \<longleftrightarrow> sequence_less_equal rp ack))"
proof -
  have inv: "cc_inv c" by (rule cc_reachable_inv [OF assms])
  obtain c' r where l: "on_loss c signal flight rp = (c', r)" by fastforce
  show ?thesis
  proof (cases "cc_in_recovery c")
    case True
    then show ?thesis using inv by (simp add: on_loss_def cc_inv_def loss_response_def)
  next
    case False
    then show ?thesis
      using on_loss_applied [OF inv False l] inv l
      by (simp add: cc_inv_def on_loss_def [of c'] on_recovery_ack_def)
  qed
qed

theorem loss_response_once_witness:
  "cwnd (fst (on_loss (new_CongestionController 1000 (- 1)) sack_fast_recovery 9000 77)) = 4500"
proof -
  let ?c = "new_CongestionController 1000 (- 1)"
  have c: "mss ?c = 1000" "\<not> cc_in_recovery ?c" by (simp_all add: new_CongestionController_def Let_def)
  obtain c' r where l: "on_loss ?c sack_fast_recovery 9000 77 = (c', r)" by fastforce
  have "cwnd c' = 4500"
    using loss_response_once [OF cc_start [of 1000 "- 1"], where signal = sack_fast_recovery
        and flight = 9000 and rp = 77 and signal' = sack_fast_recovery and flight' = 0 and rp' = 0
        and ack = 0] c
    unfolding l by (simp add: sat32_def)
  then show ?thesis by (simp add: l)
qed

text \<open>
  The sender stays within the window: sending what the controller allows never takes the
  bytes in flight above the congestion window nor above the window the peer advertised, and all of
  the window can be used.
\<close>

theorem send_allowance_within_window:
  "let limit = min (cwnd c) (unat advertised) in
   unat (send_allowance_bytes c flight advertised) = limit - unat flight"
proof -
  have "unat (advertised :: u16) < 2 ^ LENGTH(16)" by (rule unsigned_less)
  then have "unat (ucast advertised :: u32) = unat advertised"
    by (simp add: unsigned_ucast_eq take_bit_nat_eq_self)
  then have w: "unat (effective_window_bytes c advertised) = min (cwnd c) (unat advertised)"
    by (simp add: effective_window_bytes_def unat_min)
  show ?thesis
  proof (cases "min (cwnd c) (unat advertised) \<le> unat flight")
    case False
    then have "unat (effective_window_bytes c advertised - flight)
                 = min (cwnd c) (unat advertised) - unat flight"
      using w by (subst unat_sub_nowrap) auto
    then show ?thesis using False w by (auto simp: send_allowance_bytes_def Let_def word_le_nat_alt)
  qed (use w in \<open>simp add: send_allowance_bytes_def Let_def word_le_nat_alt\<close>)
qed

end
