(* ===== verification/Ipv4.thy ===== *)
theory Ipv4
  imports Codec
begin

text \<open>
  IPv4 headers (\<^verbatim>\<open>include/vectornet/net/ipv4.hpp\<close>, \<^verbatim>\<open>src/net/ipv4.cpp\<close>): the Internet
  checksum, the parser and the builder. The checksum's running sum is a 32-bit word as in the source;
  the lemmas show it never wraps and computes the ones' complement sum. A packet view is a header with
  the payload bytes; \<open>ipv4_codec\<close> interprets the contract of a wire format on views and packets.
\<close>

type_synonym Ipv4Address = u32

definition kIpv4HeaderBytes :: nat where "kIpv4HeaderBytes = 20"
definition kIpv4Version :: u8 where "kIpv4Version = 4"
definition kIpv4HeaderWords :: u8 where "kIpv4HeaderWords = 5"
definition kVectorNetProtocol :: u8 where "kVectorNetProtocol = 253"
definition kVectorNetTtl :: u8 where "kVectorNetTtl = 64"
definition kIpv4FlagMoreFragments :: u16 where "kIpv4FlagMoreFragments = 0x2000"
definition kIpv4FragmentOffsetMask :: u16 where "kIpv4FragmentOffsetMask = 0x1FFF"

record Ipv4Header =
  ip_dscp_ecn :: u8
  ip_total_length :: u16
  ip_identification :: u16
  ip_flags_fragment_offset :: u16
  ip_ttl :: u8
  ip_protocol :: u8
  ip_checksum :: u16
  ip_source :: Ipv4Address
  ip_destination :: Ipv4Address

definition default_Ipv4Header :: Ipv4Header where
  "default_Ipv4Header = \<lparr>ip_dscp_ecn = 0, ip_total_length = 0, ip_identification = 0,
     ip_flags_fragment_offset = 0, ip_ttl = kVectorNetTtl, ip_protocol = kVectorNetProtocol,
     ip_checksum = 0, ip_source = 0, ip_destination = 0\<rparr>"

record Ipv4PacketView =
  pv_header :: Ipv4Header
  pv_payload :: "byte list"

definition default_Ipv4PacketView :: Ipv4PacketView where
  "default_Ipv4PacketView = \<lparr>pv_header = default_Ipv4Header, pv_payload = []\<rparr>"

datatype Ipv4Status = ip_ok | ip_truncated | unsupported_version | unsupported_options
  | invalid_total_length | invalid_checksum | payload_too_large | output_too_small | invalid_mtu
  | ip_callback_rejected

text \<open>\<open>sum = (sum & 0xFFFF) + (sum >> 16);\<close>\<close>

definition fold_carry :: "u32 \<Rightarrow> u32" where
  "fold_carry acc = (acc AND 0xFFFF) + drop_bit 16 acc"

fun sum_words :: "u32 \<Rightarrow> byte list \<Rightarrow> u32" where
  "sum_words acc (b0 # b1 # bytes) = sum_words (fold_carry (acc + ucast (read_be16 [b0, b1] 0))) bytes"
| "sum_words acc [b] = acc + push_bit 8 (ucast b)"
| "sum_words acc [] = acc"

lemma unat_drop16: "unat (drop_bit 16 (w :: u32)) = unat w div 65536"
  by (simp add: drop_bit_eq_div unat_div_word)

lemma unat_mask16: "unat ((w :: u32) AND 0xFFFF) = unat w mod 65536"
proof -
  have "(0xFFFF :: u32) = mask 16" by (simp add: mask_eq_exp_minus_1)
  then show ?thesis by (simp only: unsigned_take_bit_eq flip: take_bit_eq_mask) (simp add: take_bit_eq_mod)
qed

lemma unat_fold_carry: "unat (fold_carry w) = unat w mod 65536 + unat w div 65536"
proof -
  have "unat w div 65536 < 65536" using unat_u32_bound [of w] by (simp add: div_less_iff_less_mult)
  moreover have "unat w mod 65536 < 65536" by simp
  ultimately show ?thesis
    unfolding fold_carry_def by (subst unat_add_nowrap) (simp_all add: unat_drop16 unat_mask16)
qed

function reduce_sum :: "u32 \<Rightarrow> u32" where
  "reduce_sum acc = (if drop_bit 16 acc \<noteq> 0 then reduce_sum (fold_carry acc) else acc)"
  by pat_completeness auto
termination
proof (relation "measure unat")
  fix acc :: u32 assume "drop_bit 16 acc \<noteq> 0"
  then have "0 < unat acc div 65536" by (metis gr0I unat_drop16 unat_eq_zero)
  moreover have "unat acc = 65536 * (unat acc div 65536) + unat acc mod 65536" by simp
  ultimately have "unat (fold_carry acc) < unat acc" unfolding unat_fold_carry by linarith
  then show "(fold_carry acc, acc) \<in> measure unat" by simp
qed simp

declare reduce_sum.simps [simp del]

definition internet_checksum :: "byte list \<Rightarrow> u16" where
  "internet_checksum bytes = ucast (NOT (reduce_sum (sum_words 0 bytes)) AND 0xFFFF)"

definition parse_ipv4_packet :: "byte list \<Rightarrow> Ipv4Status \<times> Ipv4PacketView" where
  "parse_ipv4_packet packet =
     (if length packet < kIpv4HeaderBytes then (ip_truncated, default_Ipv4PacketView)
      else
        let version_ihl = packet ! 0 in
        if drop_bit 4 version_ihl \<noteq> kIpv4Version then (unsupported_version, default_Ipv4PacketView)
        else if version_ihl AND 0x0F \<noteq> kIpv4HeaderWords
        then (unsupported_options, default_Ipv4PacketView)
        else
          let total_length = read_be16 packet 2 in
          if unat total_length < kIpv4HeaderBytes \<or> unat total_length > length packet
          then (invalid_total_length, default_Ipv4PacketView)
          else if internet_checksum (take kIpv4HeaderBytes packet) \<noteq> 0
          then (invalid_checksum, default_Ipv4PacketView)
          else (ip_ok,
            \<lparr>pv_header = \<lparr>ip_dscp_ecn = packet ! 1, ip_total_length = total_length,
               ip_identification = read_be16 packet 4,
               ip_flags_fragment_offset = read_be16 packet 6, ip_ttl = packet ! 8,
               ip_protocol = packet ! 9, ip_checksum = read_be16 packet 10,
               ip_source = read_be32 packet 12, ip_destination = read_be32 packet 16\<rparr>,
             pv_payload = take (unat total_length - kIpv4HeaderBytes) (drop kIpv4HeaderBytes packet)\<rparr>))"

definition build_ipv4_packet ::
  "Ipv4Header \<Rightarrow> byte list \<Rightarrow> byte list \<Rightarrow> Ipv4Status \<times> byte list \<times> nat" where
  "build_ipv4_packet header payload output =
     (if length payload > 65535 - kIpv4HeaderBytes then (payload_too_large, output, 0)
      else
        let required = kIpv4HeaderBytes + length payload in
        if length output < required then (output_too_small, output, 0)
        else
          let output = output[0 := push_bit 4 kIpv4Version OR kIpv4HeaderWords];
              output = output[1 := ip_dscp_ecn header];
              output = write_be16 output 2 (of_nat required);
              output = write_be16 output 4 (ip_identification header);
              output = write_be16 output 6 (ip_flags_fragment_offset header);
              output = output[8 := ip_ttl header];
              output = output[9 := ip_protocol header];
              output = output[10 := 0];
              output = output[11 := 0];
              output = write_be32 output 12 (ip_source header);
              output = write_be32 output 16 (ip_destination header);
              checksum = internet_checksum (take kIpv4HeaderBytes output);
              output = write_be16 output 10 checksum;
              output = (if payload \<noteq> [] then memcpy_at output kIpv4HeaderBytes payload else output)
          in (ip_ok, output, required))"

section \<open>Lemmas: the ones' complement sum\<close>

fun word_sum :: "byte list \<Rightarrow> nat" where
  "word_sum (b0 # b1 # bytes) = unat (read_be16 [b0, b1] 0) + word_sum bytes"
| "word_sum [b] = 256 * unat b"
| "word_sum [] = 0"


lemma mod_65535_fold: "(n mod 65536 + n div 65536) mod 65535 = n mod (65535 :: nat)"
proof -
  have "n = (n mod 65536 + n div 65536) + 65535 * (n div 65536)" by simp
  then show ?thesis by (metis mod_mult_self2)
qed

lemma unat_fold_carry_mod: "unat (fold_carry w) mod 65535 = unat w mod 65535"
  by (simp only: unat_fold_carry mod_65535_fold)

lemma fold_carry_eq_0: "unat (fold_carry w) = 0 \<longleftrightarrow> unat w = 0"
  unfolding unat_fold_carry by (metis add_eq_0_iff_both_eq_0 div_0 mod_0 mod_less div_eq_0_iff
      zero_neq_numeral)

lemma unat_u16_bound: "unat (w :: u16) < 65536"
proof -
  have "unat w < 2 ^ LENGTH(16)" by (rule unsigned_less)
  then show ?thesis by simp
qed

lemma unat_u8_bound: "unat (w :: u8) < 256"
proof -
  have "unat w < 2 ^ LENGTH(8)" by (rule unsigned_less)
  then show ?thesis by simp
qed

text \<open>The running sum stays below 2^18, is congruent to the sum of the words and is 0 only with it.\<close>

lemma sum_words_spec:
  "unat acc \<le> 65536 \<Longrightarrow> unat (sum_words acc bytes) < 262144 \<and>
   unat (sum_words acc bytes) mod 65535 = (unat acc + word_sum bytes) mod 65535 \<and>
   (unat (sum_words acc bytes) = 0 \<longleftrightarrow> unat acc + word_sum bytes = 0)"
proof (induction acc bytes rule: sum_words.induct)
  case (1 acc b0 b1 bytes)
  let ?w = "ucast (read_be16 [b0, b1] 0) :: u32" and ?n = "unat (read_be16 [b0, b1] 0)"
  have w: "unat ?w = ?n" "?n < 65536"
    using unat_u16_bound [of "read_be16 [b0, b1] 0"]
    by (simp_all add: unsigned_ucast_eq take_bit_nat_eq_self)
  then have s: "unat (acc + ?w) = unat acc + ?n" using "1.prems" by (subst unat_add_nowrap) simp_all
  have "(unat acc + ?n) div 65536 \<le> 1" using "1.prems" w by (simp add: div_le_mono less_Suc_eq_le
      flip: less_Suc_eq_le add: div_less_iff_less_mult)
  then have le: "unat (fold_carry (acc + ?w)) \<le> 65536"
    unfolding unat_fold_carry s using mod_less_divisor [of 65536 "unat acc + ?n"] by linarith
  have m: "unat (fold_carry (acc + ?w)) mod 65535 = (unat acc + ?n) mod 65535"
    using unat_fold_carry_mod [of "acc + ?w"] s by simp
  have z: "unat (fold_carry (acc + ?w)) = 0 \<longleftrightarrow> unat acc + ?n = 0"
    using fold_carry_eq_0 [of "acc + ?w"] s by simp
  show ?case
    using "1.IH" [OF le] m z mod_add_cong [OF m, of "word_sum bytes" "word_sum bytes"]
    by (simp add: add.assoc)
next
  case (2 acc b)
  have "unat (push_bit 8 (ucast b) :: u32) = 256 * unat b"
    using unat_u8_bound [of b]
    by (simp add: push_bit_eq_mult unat_mult_nowrap unsigned_ucast_eq take_bit_nat_eq_self)
  then have "unat (acc + push_bit 8 (ucast b)) = unat acc + 256 * unat b"
    using 2 unat_u8_bound [of b] by (subst unat_add_nowrap) simp_all
  then show ?case using 2 unat_u8_bound [of b] by simp
next
  case (3 acc)
  then show ?case by simp
qed

lemma reduce_sum_spec:
  "unat (reduce_sum w) < 65536 \<and> unat (reduce_sum w) mod 65535 = unat w mod 65535 \<and>
   (unat (reduce_sum w) = 0 \<longleftrightarrow> unat w = 0)"
proof (induction w rule: reduce_sum.induct)
  case (1 w)
  show ?case
  proof (cases "drop_bit 16 w = 0")
    case True
    then have "unat w div 65536 = 0" by (metis unat_0 unat_drop16)
    then show ?thesis using True by (simp add: reduce_sum.simps [of w] div_eq_0_iff)
  next
    case False
    then show ?thesis
      using 1 unat_fold_carry_mod [of w] fold_carry_eq_0 [of w]
      by (simp add: reduce_sum.simps [of w])
  qed
qed

text \<open>The complement of a 16-bit value.\<close>

lemma unat_checksum_not:
  assumes "unat w < 65536"
  shows "unat (ucast (NOT w AND 0xFFFF :: u32) :: u16) = 65535 - unat w"
proof -
  have "NOT w = - 1 - w" by (simp add: not_eq_complement)
  then have "unat (NOT w) = 2 ^ 32 - 1 - unat w"
    using unat_u32_bound [of w] by (simp add: unat_sub_nowrap unat_u32_max)
  also have "\<dots> = 65536 * 65535 + (65535 - unat w)" using assms by simp
  finally have "unat (NOT w AND 0xFFFF) = (65536 * 65535 + (65535 - unat w)) mod 65536"
    by (simp only: unat_mask16)
  also have "\<dots> = 65535 - unat w" by (simp only: mod_mult_self4) simp
  finally have "unat (NOT w AND 0xFFFF) = 65535 - unat w" .
  then show ?thesis by (simp add: unsigned_ucast_eq take_bit_nat_eq_self)
qed

lemma internet_checksum_spec:
  "\<exists>f. unat (internet_checksum bytes) = 65535 - f \<and> f \<le> 65535 \<and>
       f mod 65535 = word_sum bytes mod 65535 \<and> (f = 0 \<longleftrightarrow> word_sum bytes = 0)"
proof -
  let ?f = "unat (reduce_sum (sum_words 0 bytes))"
  have "unat (internet_checksum bytes) = 65535 - ?f"
    unfolding internet_checksum_def using reduce_sum_spec [of "sum_words 0 bytes"]
    by (intro unat_checksum_not) simp
  moreover have "?f < 65536" "?f mod 65535 = unat (sum_words 0 bytes) mod 65535"
      "?f = 0 \<longleftrightarrow> unat (sum_words 0 bytes) = 0"
    using reduce_sum_spec by blast+
  moreover have "unat (sum_words 0 bytes) mod 65535 = word_sum bytes mod 65535"
      "unat (sum_words 0 bytes) = 0 \<longleftrightarrow> word_sum bytes = 0"
    using sum_words_spec [of 0 bytes] by simp_all
  ultimately show ?thesis by (intro exI [of _ ?f]) linarith
qed

lemma checksum_zero_iff:
  "internet_checksum bytes = 0 \<longleftrightarrow> 0 < word_sum bytes \<and> word_sum bytes mod 65535 = 0"
proof -
  obtain f where f: "unat (internet_checksum bytes) = 65535 - f" "f \<le> 65535"
      "f mod 65535 = word_sum bytes mod 65535" "f = 0 \<longleftrightarrow> word_sum bytes = 0"
    using internet_checksum_spec by blast
  have "internet_checksum bytes = 0 \<longleftrightarrow> f = 65535" using f by (auto simp: unat_eq_zero [symmetric])
  also have "\<dots> \<longleftrightarrow> 0 < f \<and> f mod 65535 = 0"
    using f(2) by (cases "f = 65535") auto
  finally show ?thesis using f(3,4) by auto
qed

lemma word_sum_append: "even (length xs) \<Longrightarrow> word_sum (xs @ ys) = word_sum xs + word_sum ys"
  by (induction xs rule: word_sum.induct) auto

lemma word_sum_be16 [simp]: "word_sum (be16 v) = unat v"
  using read_be16_be16 [of v] by (simp add: be16_def)

text \<open>
  Storing the checksum of a block of words with an empty checksum field in that field gives a block
  whose checksum is zero.
\<close>

lemma checksum_stored:
  assumes "even (length a)" "0 < word_sum a"
  shows "internet_checksum (a @ be16 (internet_checksum (a @ [0, 0] @ b)) @ b) = 0"
proof -
  let ?c = "internet_checksum (a @ [0, 0] @ b)"
  have z: "word_sum [0, 0] = 0" by (simp add: read_be16_def)
  have s: "word_sum (a @ [0, 0] @ b) = word_sum a + word_sum b"
    using assms(1) by (simp add: word_sum_append) (simp add: read_be16_def)
  obtain f where f: "unat ?c = 65535 - f" "f \<le> 65535"
      "f mod 65535 = (word_sum a + word_sum b) mod 65535"
    using internet_checksum_spec [of "a @ [0, 0] @ b"] unfolding s by blast
  have "word_sum (a @ be16 ?c @ b) = word_sum a + (unat ?c + word_sum b)"
    using assms(1) by (simp add: word_sum_append)
  also have "\<dots> = (word_sum a + word_sum b) + (65535 - f)" using f(1) by simp
  finally have t: "word_sum (a @ be16 ?c @ b) = (word_sum a + word_sum b) + (65535 - f)" .
  have "((word_sum a + word_sum b) + (65535 - f)) mod 65535 = (f + (65535 - f)) mod 65535"
    using f(3) by (metis mod_add_left_eq)
  then have "word_sum (a @ be16 ?c @ b) mod 65535 = 0" unfolding t using f(2) by simp
  then show ?thesis using assms(2) t by (simp add: checksum_zero_iff)
qed

section \<open>Lemmas: encoding of a packet\<close>

definition ip_prefix :: "Ipv4Header \<Rightarrow> byte list" where
  "ip_prefix h = [0x45, ip_dscp_ecn h] @ be16 (ip_total_length h) @ be16 (ip_identification h) @
     be16 (ip_flags_fragment_offset h) @ [ip_ttl h, ip_protocol h]"

definition ip_suffix :: "Ipv4Header \<Rightarrow> byte list" where
  "ip_suffix h = be32 (ip_source h) @ be32 (ip_destination h)"

definition ip_encode :: "Ipv4PacketView \<Rightarrow> byte list" where
  "ip_encode v = ip_prefix (pv_header v) @ be16 (ip_checksum (pv_header v)) @
     ip_suffix (pv_header v) @ pv_payload v"

definition ip_valid :: "Ipv4PacketView \<Rightarrow> bool" where
  "ip_valid v \<longleftrightarrow> unat (ip_total_length (pv_header v)) = 20 + length (pv_payload v) \<and>
     internet_checksum (ip_prefix (pv_header v) @ be16 (ip_checksum (pv_header v)) @
       ip_suffix (pv_header v)) = 0"

definition ip_decode :: "byte list \<Rightarrow> (Ipv4PacketView \<times> nat) option" where
  "ip_decode packet = (case parse_ipv4_packet packet of (st, v) \<Rightarrow>
     if st = ip_ok then Some (v, unat (ip_total_length (pv_header v))) else None)"

lemma length_ip_parts [simp]: "length (ip_prefix h) = 10" "length (ip_suffix h) = 8"
  by (simp_all add: ip_prefix_def ip_suffix_def)

lemma version_byte: "drop_bit 4 (b :: u8) = 4 \<and> b AND 0x0F = 5 \<longleftrightarrow> b = 0x45"
proof
  assume b: "drop_bit 4 b = 4 \<and> b AND 0x0F = 5"
  have "(0x0F :: u8) = mask 4" by (simp add: mask_eq_exp_minus_1)
  then have "take_bit 4 b = 5" using b by (simp add: take_bit_eq_mask)
  moreover have "b = push_bit 4 (drop_bit 4 b) OR take_bit 4 b"
    by (rule bit_word_eqI) (auto simp: bit_simps)
  ultimately show "b = 0x45" using b by simp
qed simp

lemma parse_ip_encode:
  assumes "ip_valid v"
  shows "parse_ipv4_packet (ip_encode v @ rest) = (ip_ok, v)"
proof -
  let ?h = "pv_header v" and ?p = "ip_encode v @ rest"
  have t: "take 20 (ip_encode v) = ip_prefix ?h @ be16 (ip_checksum ?h) @ ip_suffix ?h"
    "drop 20 (ip_encode v) = pv_payload v"
    by (simp_all add: ip_encode_def)
  have f: "?p ! 0 = 0x45" "?p ! Suc 0 = ip_dscp_ecn ?h" "read_be16 ?p 2 = ip_total_length ?h"
      "read_be16 ?p 4 = ip_identification ?h" "read_be16 ?p 6 = ip_flags_fragment_offset ?h"
      "?p ! 8 = ip_ttl ?h" "?p ! 9 = ip_protocol ?h" "read_be16 ?p 10 = ip_checksum ?h"
      "read_be32 ?p 12 = ip_source ?h" "read_be32 ?p 16 = ip_destination ?h"
    by (simp_all add: ip_encode_def ip_prefix_def ip_suffix_def endian_simps nth_append nth_Cons')
  have "length ?p = 20 + length (pv_payload v) + length rest" by (simp add: ip_encode_def)
  then show ?thesis
    using assms
    by (simp add: parse_ipv4_packet_def ip_valid_def kIpv4HeaderBytes_def Let_def f t
        kIpv4Version_def kIpv4HeaderWords_def)
qed


lemma take_chunks:
  "length xs = 20 \<Longrightarrow> xs = [xs ! 0, xs ! 1] @ take 2 (drop 2 xs) @ take 2 (drop 4 xs) @
     take 2 (drop 6 xs) @ [xs ! 8, xs ! 9] @ take 2 (drop 10 xs) @ take 4 (drop 12 xs) @ take 4 (drop 16 xs)"
  by (rule nth_equalityI) (auto simp: nth_append nth_Cons' less_Suc_eq numeral_eq_Suc)

lemma ip_decode_sound:
  assumes "parse_ipv4_packet bs = (ip_ok, v)"
  shows "ip_valid v \<and> unat (ip_total_length (pv_header v)) \<le> length bs \<and>
         take (unat (ip_total_length (pv_header v))) bs = ip_encode v"
proof -
  let ?t = "unat (read_be16 bs 2)" and ?b = "take 20 bs"
  have g: "20 \<le> length bs" "drop_bit 4 (bs ! 0) = 4" "bs ! 0 AND 0x0F = 5"
      "20 \<le> ?t" "?t \<le> length bs" "internet_checksum ?b = 0"
    and v: "v = \<lparr>pv_header = \<lparr>ip_dscp_ecn = bs ! 1, ip_total_length = read_be16 bs 2,
               ip_identification = read_be16 bs 4, ip_flags_fragment_offset = read_be16 bs 6,
               ip_ttl = bs ! 8, ip_protocol = bs ! 9, ip_checksum = read_be16 bs 10,
               ip_source = read_be32 bs 12, ip_destination = read_be32 bs 16\<rparr>,
             pv_payload = take (?t - 20) (drop 20 bs)\<rparr>"
    using assms
    by (auto simp: parse_ipv4_packet_def Let_def kIpv4HeaderBytes_def kIpv4Version_def
        kIpv4HeaderWords_def split: if_splits)
  have b0: "bs ! 0 = 0x45" using g(2,3) version_byte by blast
  have "?b = [?b ! 0, ?b ! 1] @ take 2 (drop 2 ?b) @ take 2 (drop 4 ?b) @
     take 2 (drop 6 ?b) @ [?b ! 8, ?b ! 9] @ take 2 (drop 10 ?b) @ take 4 (drop 12 ?b) @ take 4 (drop 16 ?b)"
    using g(1) by (intro take_chunks) simp
  also have "\<dots> = ip_prefix (pv_header v) @ be16 (ip_checksum (pv_header v)) @ ip_suffix (pv_header v)"
    using g(1) b0 by (simp add: v ip_prefix_def ip_suffix_def be16_read_be16 be32_read_be32 drop_take)
  finally have h: "?b = ip_prefix (pv_header v) @ be16 (ip_checksum (pv_header v)) @ ip_suffix (pv_header v)" .
  have "take ?t bs = ?b @ take (?t - 20) (drop 20 bs)"
    using g(4) by (metis le_add_diff_inverse take_add)
  then have "take ?t bs = ip_encode v" unfolding h by (simp add: ip_encode_def v)
  moreover have "ip_valid v" using g h unfolding ip_valid_def by (simp add: v)
  ultimately show ?thesis using g(5) by (simp add: v)
qed

interpretation ipv4_codec: codec ip_encode ip_decode ip_valid
proof unfold_locales
  show "ip_decode (ip_encode m @ rest) = Some (m, length (ip_encode m))" if "ip_valid m" for m rest
    using that by (simp add: ip_decode_def parse_ip_encode ip_valid_def) (simp add: ip_encode_def)
  show "ip_valid m \<and> n \<le> length bs \<and> take n bs = ip_encode m" if "ip_decode bs = Some (m, n)" for bs m n
    using that ip_decode_sound [of bs m] by (auto simp: ip_decode_def split: prod.splits if_splits)
qed

section \<open>Lemmas: the builder\<close>

text \<open>The header the builder writes: the caller's, with the computed length and checksum.\<close>

definition built_header :: "Ipv4Header \<Rightarrow> byte list \<Rightarrow> Ipv4Header" where
  "built_header h payload =
     (let h = h\<lparr>ip_total_length := of_nat (20 + length payload)\<rparr>
      in h\<lparr>ip_checksum := internet_checksum (ip_prefix h @ [0, 0] @ ip_suffix h)\<rparr>)"

lemma ip_parts_checksum [simp]:
  "ip_prefix (h\<lparr>ip_checksum := c\<rparr>) = ip_prefix h" "ip_suffix (h\<lparr>ip_checksum := c\<rparr>) = ip_suffix h"
  by (simp_all add: ip_prefix_def ip_suffix_def)

lemma word_sum_prefix_pos: "0 < word_sum (ip_prefix h)"
proof -
  have "read_be16 [0x45, ip_dscp_ecn h] 0 \<noteq> 0"
  proof
    assume z: "read_be16 [0x45, ip_dscp_ecn h] 0 = 0"
    have "bit (read_be16 [0x45, ip_dscp_ecn h] 0) 14" by (simp add: read_be16_def bit_simps)
    then show False unfolding z by simp
  qed
  then show ?thesis by (simp add: ip_prefix_def unat_gt_0)
qed

lemma built_header_valid:
  assumes "length payload \<le> 65515"
  shows "ip_valid \<lparr>pv_header = built_header h payload, pv_payload = payload\<rparr>"
proof -
  let ?h = "h\<lparr>ip_total_length := of_nat (20 + length payload)\<rparr>"
  have "unat (of_nat (20 + length payload) :: u16) = 20 + length payload"
    using assms by (simp only: unat_of_nat) (simp add: take_bit_nat_eq_self)
  moreover have "internet_checksum (ip_prefix ?h @ be16 (internet_checksum
      (ip_prefix ?h @ [0, 0] @ ip_suffix ?h)) @ ip_suffix ?h) = 0"
    by (rule checksum_stored) (simp_all add: word_sum_prefix_pos)
  ultimately show ?thesis by (simp add: ip_valid_def built_header_def Let_def)
qed

lemma build_writes:
  assumes "20 \<le> length out"
  shows "write_be32 (write_be32 ((write_be16 (write_be16 (write_be16
      (out[0 := push_bit 4 kIpv4Version OR kIpv4HeaderWords, 1 := ip_dscp_ecn h]) 2 (ip_total_length h))
      4 (ip_identification h)) 6 (ip_flags_fragment_offset h))
      [8 := ip_ttl h, 9 := ip_protocol h, 10 := 0, 11 := 0]) 12 (ip_source h)) 16 (ip_destination h)
    = memcpy_at out 0 (ip_prefix h @ [0, 0] @ ip_suffix h)"
proof -
  have "out \<noteq> []" using assms by auto
  then show ?thesis
    using assms
    by (simp add: endian_simps list_update_memcpy ip_prefix_def ip_suffix_def memcpy_at_append_eq
        kIpv4Version_def kIpv4HeaderWords_def)
qed

lemma build_ok:
  assumes "length payload \<le> 65515" "20 + length payload \<le> length out"
  shows "build_ipv4_packet h payload out =
    (ip_ok, ip_encode \<lparr>pv_header = built_header h payload, pv_payload = payload\<rparr> @
              drop (20 + length payload) out, 20 + length payload)"
proof -
  let ?h = "h\<lparr>ip_total_length := of_nat (20 + length payload)\<rparr>"
  let ?c = "internet_checksum (ip_prefix ?h @ [0, 0] @ ip_suffix ?h)"
  let ?o = "memcpy_at out 0 (ip_prefix ?h @ [0, 0] @ ip_suffix ?h)"
  have w: "write_be32 (write_be32 ((write_be16 (write_be16 (write_be16
      (out[0 := push_bit 4 kIpv4Version OR kIpv4HeaderWords, 1 := ip_dscp_ecn h]) 2
         (of_nat (20 + length payload)))
      4 (ip_identification h)) 6 (ip_flags_fragment_offset h))
      [8 := ip_ttl h, 9 := ip_protocol h, 10 := 0, 11 := 0]) 12 (ip_source h)) 16 (ip_destination h) = ?o"
    using build_writes [of out ?h] assms by simp
  have t: "take 20 ?o = ip_prefix ?h @ [0, 0] @ ip_suffix ?h"
    using take_memcpy_at [of 0 out "ip_prefix ?h @ [0, 0] @ ip_suffix ?h"] by simp
  have c: "write_be16 ?o 10 ?c = memcpy_at out 0 (ip_prefix ?h @ be16 ?c @ ip_suffix ?h)"
    using assms memcpy_at_inside [of "ip_prefix ?h" 10 "[0, 0]" "be16 ?c" "ip_suffix ?h" out]
    by (subst write_be16_memcpy) simp_all
  have p: "(if payload \<noteq> [] then memcpy_at (write_be16 ?o 10 ?c) 20 payload else write_be16 ?o 10 ?c)
      = memcpy_at out 0 (ip_prefix ?h @ be16 ?c @ ip_suffix ?h @ payload)"
    unfolding c using assms
      memcpy_at_append_eq [of 20 0 "ip_prefix ?h @ be16 ?c @ ip_suffix ?h" payload out] by simp
  show ?thesis
    unfolding build_ipv4_packet_def Let_def kIpv4HeaderBytes_def w t p
    using assms by (simp add: memcpy_at_def ip_encode_def built_header_def Let_def)
qed


lemma build_status:
  "fst (build_ipv4_packet h payload out) =
     (if 65515 < length payload then payload_too_large
      else if length out < 20 + length payload then output_too_small else ip_ok)"
  by (simp add: build_ipv4_packet_def kIpv4HeaderBytes_def Let_def)

section \<open>Properties\<close>

text \<open>
  Claim C25. Building and parsing an IPv4 packet. Building fails only for a payload above 65515 bytes
  or an output that is too small, and then writes nothing. Otherwise the packet has the reported size,
  the rest of the output is untouched, and the parser accepts it, whatever bytes follow: it returns the
  same payload and every header field of the caller, with the true total length and a checksum
  that verifies.
\<close>

theorem ipv4_build_parse_roundtrip:
  "case build_ipv4_packet h payload out of (st, out', n) \<Rightarrow>
     (if st = ip_ok
      then n = 20 + length payload \<and> length out' = length out \<and> drop n out' = drop n out \<and>
        (\<exists>c. parse_ipv4_packet (take n out' @ rest) =
           (ip_ok, \<lparr>pv_header = h\<lparr>ip_total_length := of_nat n, ip_checksum := c\<rparr>, pv_payload = payload\<rparr>)) \<and>
        internet_checksum (take 20 out') = 0
      else out' = out \<and> n = 0 \<and> (65515 < length payload \<or> length out < 20 + length payload))"
proof (cases "length payload \<le> 65515 \<and> 20 + length payload \<le> length out")
  case True
  let ?v = "\<lparr>pv_header = built_header h payload, pv_payload = payload\<rparr>"
  have v: "ip_valid ?v" using built_header_valid True by blast
  have len: "length (ip_encode ?v) = 20 + length payload" by (simp add: ip_encode_def)
  have "internet_checksum (take 20 (ip_encode ?v)) = 0"
    using v by (simp add: ip_valid_def ip_encode_def)
  moreover have "parse_ipv4_packet (ip_encode ?v @ rest) = (ip_ok, ?v)" by (rule parse_ip_encode [OF v])
  ultimately show ?thesis
    using True len by (auto simp: build_ok built_header_def Let_def)
next
  case False
  then show ?thesis by (auto simp: build_ipv4_packet_def kIpv4HeaderBytes_def Let_def)
qed

text \<open>
  Claim C26. The parser accepts a packet exactly when it starts with a 20-byte version 4 header
  whose total length fits the packet and whose checksum verifies, and it then returns the fields and
  payload that were encoded: every accepted view re-encodes to the bytes it was read from. A refused
  packet leaves the default view.
\<close>

theorem ipv4_parser_exact:
  "(fst (parse_ipv4_packet bs) = ip_ok \<longleftrightarrow> (\<exists>v rest. ip_valid v \<and> bs = ip_encode v @ rest)) \<and>
   (case parse_ipv4_packet bs of (st, v) \<Rightarrow>
      if st = ip_ok then ip_valid v \<and> take (unat (ip_total_length (pv_header v))) bs = ip_encode v
      else v = default_Ipv4PacketView)"
proof -
  have "fst (parse_ipv4_packet bs) = ip_ok \<longleftrightarrow> ip_decode bs \<noteq> None"
    by (simp add: ip_decode_def split: prod.splits)
  moreover have "v = default_Ipv4PacketView" if "parse_ipv4_packet bs = (st, v)" "st \<noteq> ip_ok" for st v
    using that by (auto simp: parse_ipv4_packet_def Let_def split: if_splits)
  ultimately show ?thesis
    using ip_decode_sound [of bs] ipv4_codec.accepts_exactly [of bs] by (auto split: prod.splits)
qed

end
