(* ===== verification/Fragmentation.thy ===== *)
theory Fragmentation
  imports Ipv4
begin

text \<open>
  IPv4 fragmentation (\<^verbatim>\<open>src/net/fragmentation.cpp\<close>). The callback is a function on a state of its
  own (\<open>void* callback_context\<close>) that may refuse a packet; \<open>None\<close> is \<open>nullptr\<close>.
  \<open>frag_packets\<close> is the reference: the list of packets for a payload, and \<open>feed\<close> hands a list of
  packets to the callback until it refuses one.
\<close>

type_synonym 's packet_callback = "'s \<Rightarrow> byte list \<Rightarrow> 's \<times> bool"

definition id_next :: "u16 \<Rightarrow> u16 \<times> u16" where
  "id_next nxt = (let id_value = nxt in (nxt + 1, id_value))"

text \<open>
  The loop over the payload; \<open>fragment_payload\<close> is positive wherever it is entered, and the guard
  that says so makes the recursion total.
\<close>

function fragment_loop ::
  "Ipv4Header \<Rightarrow> byte list \<Rightarrow> nat \<Rightarrow> 's packet_callback \<Rightarrow> nat \<Rightarrow> byte list \<Rightarrow> 's
     \<Rightarrow> Ipv4Status \<times> byte list \<times> 's" where
  "fragment_loop header payload fragment_payload callback offset scratch ctx =
     (if offset < length payload \<and> 0 < fragment_payload
      then
        let bytes = min fragment_payload (length payload - offset);
            more = (offset + bytes < length payload);
            offset_units = offset div 8
        in if offset_units > unat kIpv4FragmentOffsetMask then (payload_too_large, scratch, ctx)
        else
          let fragment_header = header\<lparr>ip_flags_fragment_offset :=
                (if more then kIpv4FlagMoreFragments else 0) OR of_nat offset_units\<rparr>;
              (status, scratch, packet_bytes) =
                build_ipv4_packet fragment_header (take bytes (drop offset payload)) scratch
          in if status \<noteq> ip_ok then (status, scratch, ctx)
             else
               let (ctx, accepted) = callback ctx (take packet_bytes scratch) in
               if \<not> accepted then (ip_callback_rejected, scratch, ctx)
               else fragment_loop header payload fragment_payload callback (offset + bytes) scratch ctx
      else (ip_ok, scratch, ctx))"
  by pat_completeness auto
termination
  by (relation "measure (\<lambda>(header, payload, fragment_payload, callback, offset, scratch, ctx).
        length payload - offset)") auto

declare fragment_loop.simps [simp del]

definition fragment_ipv4_payload ::
  "Ipv4Header \<Rightarrow> byte list \<Rightarrow> nat \<Rightarrow> byte list \<Rightarrow> 's packet_callback option \<Rightarrow> 's
     \<Rightarrow> Ipv4Status \<times> byte list \<times> 's" where
  "fragment_ipv4_payload header payload mtu scratch callback ctx =
     (case callback of
        None \<Rightarrow> (invalid_mtu, scratch, ctx)
      | Some cb \<Rightarrow>
          if mtu < kIpv4HeaderBytes \<or> length scratch < mtu then (invalid_mtu, scratch, ctx)
          else if length payload > 65535 - kIpv4HeaderBytes then (payload_too_large, scratch, ctx)
          else
            let mtu_payload = mtu - kIpv4HeaderBytes in
            if length payload \<le> mtu_payload
            then
              let packet_header = header\<lparr>ip_flags_fragment_offset := 0\<rparr>;
                  (status, scratch, packet_bytes) = build_ipv4_packet packet_header payload scratch
              in if status \<noteq> ip_ok then (status, scratch, ctx)
                 else
                   let (ctx, accepted) = cb ctx (take packet_bytes scratch) in
                   (if accepted then ip_ok else ip_callback_rejected, scratch, ctx)
            else
              let fragment_payload = mtu_payload div 8 * 8 in
              if fragment_payload = 0 then (invalid_mtu, scratch, ctx)
              else fragment_loop header payload fragment_payload cb 0 scratch ctx)"

section \<open>Reference: the list of fragments\<close>

text \<open>Offset, bytes and "more fragments" of each fragment, for fragments of \<open>fp\<close> bytes.\<close>

record fragment =
  fg_offset :: nat
  fg_bytes :: "byte list"
  fg_more :: bool

function slices :: "nat \<Rightarrow> byte list \<Rightarrow> nat \<Rightarrow> fragment list" where
  "slices fp payload offset =
     (if offset < length payload \<and> 0 < fp
      then \<lparr>fg_offset = offset, fg_bytes = take fp (drop offset payload),
            fg_more = (offset + fp < length payload)\<rparr> # slices fp payload (offset + fp)
      else [])"
  by pat_completeness auto
termination
  by (relation "measure (\<lambda>(fp, payload, offset). length payload - offset)") auto

declare slices.simps [simp del]

definition fragments :: "byte list \<Rightarrow> nat \<Rightarrow> fragment list" where
  "fragments payload mtu =
     (if length payload \<le> mtu - 20 then [\<lparr>fg_offset = 0, fg_bytes = payload, fg_more = False\<rparr>]
      else slices ((mtu - 20) div 8 * 8) payload 0)"

text \<open>The header of a fragment before the builder fills in length and checksum.\<close>

definition fragment_header :: "Ipv4Header \<Rightarrow> fragment \<Rightarrow> Ipv4Header" where
  "fragment_header h f = h\<lparr>ip_flags_fragment_offset :=
     (if fg_more f then kIpv4FlagMoreFragments else 0) OR of_nat (fg_offset f div 8)\<rparr>"

definition fragment_packet :: "Ipv4Header \<Rightarrow> fragment \<Rightarrow> byte list" where
  "fragment_packet h f = ip_encode
     \<lparr>pv_header = built_header (fragment_header h f) (fg_bytes f), pv_payload = fg_bytes f\<rparr>"

definition frag_packets :: "Ipv4Header \<Rightarrow> byte list \<Rightarrow> nat \<Rightarrow> byte list list" where
  "frag_packets h payload mtu = map (fragment_packet h) (fragments payload mtu)"

fun feed :: "'s packet_callback \<Rightarrow> 's \<Rightarrow> byte list list \<Rightarrow> Ipv4Status \<times> 's" where
  "feed cb s [] = (ip_ok, s)"
| "feed cb s (p # ps) =
     (case cb s p of (s', accepted) \<Rightarrow> if accepted then feed cb s' ps else (ip_callback_rejected, s'))"

section \<open>Lemmas\<close>

lemma build_fragment:
  assumes "20 + length bytes \<le> length out" "length bytes \<le> 65515"
  shows "\<exists>out'. build_ipv4_packet h bytes out = (ip_ok, out', 20 + length bytes) \<and>
    length out' = length out \<and>
    take (20 + length bytes) out' = ip_encode \<lparr>pv_header = built_header h bytes, pv_payload = bytes\<rparr>"
  using assms by (simp add: build_ok) (simp add: ip_encode_def)

lemma slices_step:
  assumes "offset < length payload" "0 < fp" and n: "n = min fp (length payload - offset)"
  shows "slices fp payload offset = \<lparr>fg_offset = offset, fg_bytes = take n (drop offset payload),
      fg_more = (offset + n < length payload)\<rparr> # slices fp payload (offset + n)"
proof -
  have more: "offset + n < length payload \<longleftrightarrow> offset + fp < length payload" using assms by auto
  have cut: "take n (drop offset payload) = take fp (drop offset payload)"
    by (cases "fp \<le> length payload - offset") (simp_all add: n min_def)
  have rest: "slices fp payload (offset + n) = slices fp payload (offset + fp)"
    by (cases "offset + fp < length payload") (auto simp: n slices.simps [of fp payload "offset + _"])
  show ?thesis using assms(1,2) by (simp add: slices.simps [of fp payload offset] more cut rest)
qed

text \<open>The packet built in one iteration of the loop is the fragment's, and it fits the scratch buffer.\<close>

lemma fragment_step_builds:
  assumes len: "length payload \<le> 65515" "20 + fp \<le> length scratch" and n: "n = min fp (length payload - offset)"
    and f: "f = \<lparr>fg_offset = offset, fg_bytes = take n (drop offset payload), fg_more = (offset + n < length payload)\<rparr>"
  obtains out' where "build_ipv4_packet (h\<lparr>ip_flags_fragment_offset :=
        (if offset + n < length payload then kIpv4FlagMoreFragments else 0) OR of_nat (offset div 8)\<rparr>)
      (take n (drop offset payload)) scratch = (ip_ok, out', 20 + n)"
    "length out' = length scratch" "take (20 + n) out' = fragment_packet h f"
proof -
  have lb: "length (fg_bytes f) = n" by (simp add: f n)
  have "20 + n \<le> length scratch" "n \<le> 65515" using len by (auto simp: n)
  then obtain out' where b: "build_ipv4_packet (fragment_header h f) (fg_bytes f) scratch = (ip_ok, out', 20 + n)"
      "length out' = length scratch" "take (20 + n) out' = fragment_packet h f"
    using build_fragment [of "fg_bytes f" scratch "fragment_header h f"] lb
    by (auto simp: fragment_packet_def)
  moreover have "fragment_header h f = h\<lparr>ip_flags_fragment_offset :=
      (if offset + n < length payload then kIpv4FlagMoreFragments else 0) OR of_nat (offset div 8)\<rparr>"
    by (simp add: fragment_header_def f)
  ultimately show ?thesis using that by (simp add: f)
qed

lemma fragment_loop_feed:
  assumes "length payload \<le> 65515" "20 + fp \<le> length scratch" "0 < fp"
  shows "\<exists>scratch'. fragment_loop h payload fp cb offset scratch ctx =
    (fst (feed cb ctx (map (fragment_packet h) (slices fp payload offset))), scratch',
     snd (feed cb ctx (map (fragment_packet h) (slices fp payload offset))))"
  using assms
proof (induction h payload fp cb offset scratch ctx rule: fragment_loop.induct)
  case (1 h payload fp cb offset scratch ctx)
  show ?case
  proof (cases "offset < length payload")
    case False
    then show ?thesis
      by (simp add: fragment_loop.simps [of h payload fp cb offset] slices.simps [of fp payload offset])
  next
    case True
    define bytes where "bytes = min fp (length payload - offset)"
    define f where "f = \<lparr>fg_offset = offset, fg_bytes = take bytes (drop offset payload),
      fg_more = (offset + bytes < length payload)\<rparr>"
    note sl = slices_step [OF True "1.prems"(3) bytes_def, folded f_def]
    have units: "\<not> offset div 8 > unat kIpv4FragmentOffsetMask"
      using True "1.prems"(1) by (simp add: kIpv4FragmentOffsetMask_def not_less div_le_mono)
    obtain out' where bld: "build_ipv4_packet (h\<lparr>ip_flags_fragment_offset :=
          (if offset + bytes < length payload then kIpv4FlagMoreFragments else 0) OR of_nat (offset div 8)\<rparr>)
        (take bytes (drop offset payload)) scratch = (ip_ok, out', 20 + bytes)"
      and out: "length out' = length scratch" "take (20 + bytes) out' = fragment_packet h f"
      by (rule fragment_step_builds [OF "1.prems"(1,2) bytes_def f_def])
    obtain ctx' acc where cb: "cb ctx (fragment_packet h f) = (ctx', acc)" by fastforce
    have cb': "(ctx', acc) = cb ctx (take (20 + bytes) out')" by (simp add: out cb)
    have step: "fragment_loop h payload fp cb offset scratch ctx =
        (if \<not> acc then (ip_callback_rejected, out', ctx')
         else fragment_loop h payload fp cb (offset + bytes) out' ctx')"
      unfolding fragment_loop.simps [of h payload fp cb offset scratch ctx] Let_def
        bytes_def [symmetric] bld
      using True "1.prems"(3) units out(2) cb by simp
    have IH: "\<exists>scratch'. fragment_loop h payload fp cb (offset + bytes) out' ctx' =
       (fst (feed cb ctx' (map (fragment_packet h) (slices fp payload (offset + bytes)))), scratch',
        snd (feed cb ctx' (map (fragment_packet h) (slices fp payload (offset + bytes)))))"
      if "acc"
      using True "1.prems" units out cb that
      by (intro "1.IH" [OF _ bytes_def refl refl _ refl bld [symmetric] refl refl _ cb'])
         (auto simp del: split_paired_All)
    show ?thesis using step IH cb sl by (cases acc) auto
  qed
qed


section \<open>Lemmas: the fragments are a partition of the payload\<close>

definition slice_of :: "byte list \<Rightarrow> fragment \<Rightarrow> bool" where
  "slice_of payload f \<longleftrightarrow> fg_offset f + length (fg_bytes f) \<le> length payload \<and>
     fg_bytes f = take (length (fg_bytes f)) (drop (fg_offset f) payload) \<and> fg_offset f mod 8 = 0 \<and>
     (fg_more f \<longleftrightarrow> fg_offset f + length (fg_bytes f) < length payload) \<and>
     (fg_more f \<longrightarrow> fg_bytes f \<noteq> [] \<and> length (fg_bytes f) mod 8 = 0)"

fun contiguous :: "nat \<Rightarrow> fragment list \<Rightarrow> bool" where
  "contiguous lo [] = True"
| "contiguous lo (f # fs) = (fg_offset f = lo \<and> contiguous (lo + length (fg_bytes f)) fs)"

lemma slices_partition:
  "0 < fp \<Longrightarrow> fp mod 8 = 0 \<Longrightarrow> offset mod 8 = 0 \<Longrightarrow>
   concat (map fg_bytes (slices fp payload offset)) = drop offset payload \<and>
   contiguous offset (slices fp payload offset) \<and>
   (\<forall>f \<in> set (slices fp payload offset). slice_of payload f \<and> fg_bytes f \<noteq> [] \<and> length (fg_bytes f) \<le> fp)"
proof (induction fp payload offset rule: slices.induct)
  case (1 fp payload offset)
  show ?case
  proof (cases "offset < length payload")
    case False
    then show ?thesis by (simp add: slices.simps [of fp payload offset])
  next
    case True
    let ?f = "\<lparr>fg_offset = offset, fg_bytes = take fp (drop offset payload),
               fg_more = (offset + fp < length payload)\<rparr>"
    have sl: "slices fp payload offset = ?f # slices fp payload (offset + fp)"
      using True "1.prems" by (simp add: slices.simps [of fp payload offset])
    have m: "(offset + fp) mod 8 = 0" using "1.prems" by (metis add.right_neutral mod_add_eq mod_0)
    note IH = "1.IH" [OF conjI [OF True "1.prems"(1)] "1.prems"(1,2) m]
    have "slices fp payload (offset + fp) = [] \<or> offset + length (fg_bytes ?f) = offset + fp"
      using slices.simps [of fp payload "offset + fp"] by auto
    then have "contiguous (offset + length (fg_bytes ?f)) (slices fp payload (offset + fp))"
      using IH by auto
    moreover have "take fp (drop offset payload) @ drop (offset + fp) payload = drop offset payload"
      by (metis add.commute append_take_drop_id drop_drop)
    moreover have "slice_of payload ?f"
      using True "1.prems" by (auto simp: slice_of_def min_def)
    ultimately show ?thesis using IH True "1.prems" by (simp add: sl)
  qed
qed

lemma fragments_partition:
  assumes "28 \<le> mtu"
  shows "concat (map fg_bytes (fragments payload mtu)) = payload \<and>
    contiguous 0 (fragments payload mtu) \<and>
    (\<forall>f \<in> set (fragments payload mtu). slice_of payload f \<and> 20 + length (fg_bytes f) \<le> mtu \<and>
       (payload \<noteq> [] \<longrightarrow> fg_bytes f \<noteq> []))"
proof (cases "length payload \<le> mtu - 20")
  case True
  then show ?thesis using assms by (auto simp: fragments_def slice_of_def)
next
  case False
  let ?fp = "(mtu - 20) div 8 * 8"
  have fp: "0 < ?fp" "?fp mod 8 = 0" "?fp \<le> mtu - 20"
    using assms div_greater_zero_iff [of "mtu - 20" 8] by auto
  show ?thesis
    using slices_partition [OF fp(1,2), of 0 payload] False fp(3) assms
    by (fastforce simp: fragments_def)
qed

text \<open>The flag and offset bits of a fragment header and how they read back.\<close>

lemma offset_units_bits:
  assumes "k \<le> 0x1FFF" and that: "c = 0 \<or> c = kIpv4FlagMoreFragments"
  shows "(c OR of_nat k) AND kIpv4FragmentOffsetMask = (of_nat k :: u16)"
    "(c OR of_nat k) AND kIpv4FlagMoreFragments = c"
proof -
  let ?k = "of_nat k :: u16"
  have t: "take_bit 13 ?k = ?k"
    using assms(1) by (intro take_bit_of_nat [THEN trans]) (simp add: take_bit_nat_eq_self)
  have m: "w AND 0x1FFF = take_bit 13 w" for w :: u16
    by (simp add: take_bit_eq_mask mask_eq_exp_minus_1)
  have "take_bit 13 c = 0" using that by (auto simp: kIpv4FlagMoreFragments_def)
  then show "(c OR ?k) AND kIpv4FragmentOffsetMask = ?k"
    unfolding kIpv4FragmentOffsetMask_def m by (simp add: t)
  have "?k AND 0x2000 = (?k AND 0x1FFF) AND 0x2000" unfolding m t ..
  also have "\<dots> = 0" by (simp add: and.assoc)
  finally show "(c OR ?k) AND kIpv4FlagMoreFragments = c"
    using that by (auto simp: kIpv4FlagMoreFragments_def bit.conj_disj_distrib2)
qed

lemma fragment_packet_parsed:
  assumes "slice_of payload f" "length payload \<le> 65515"
  shows "\<exists>v. parse_ipv4_packet (fragment_packet h f) = (ip_ok, v) \<and> pv_payload v = fg_bytes f \<and>
    ip_identification (pv_header v) = ip_identification h \<and> ip_source (pv_header v) = ip_source h \<and>
    ip_destination (pv_header v) = ip_destination h \<and> ip_protocol (pv_header v) = ip_protocol h \<and>
    8 * unat (ip_flags_fragment_offset (pv_header v) AND kIpv4FragmentOffsetMask) = fg_offset f \<and>
    (ip_flags_fragment_offset (pv_header v) AND kIpv4FlagMoreFragments \<noteq> 0 \<longleftrightarrow> fg_more f)"
proof -
  let ?v = "\<lparr>pv_header = built_header (fragment_header h f) (fg_bytes f), pv_payload = fg_bytes f\<rparr>"
  have "ip_valid ?v" using assms by (intro built_header_valid) (simp add: slice_of_def)
  then have p: "parse_ipv4_packet (fragment_packet h f) = (ip_ok, ?v)"
    using parse_ip_encode [of ?v "[]"] by (simp add: fragment_packet_def)
  have u: "fg_offset f div 8 \<le> 0x1FFF" "8 * (fg_offset f div 8) = fg_offset f"
    using assms by (auto simp: slice_of_def)
  then have "unat (of_nat (fg_offset f div 8) :: u16) = fg_offset f div 8"
    by (simp add: unat_of_nat take_bit_nat_eq_self)
  then show ?thesis
    using p u
    by (auto simp: built_header_def Let_def fragment_header_def offset_units_bits)
       (auto simp: kIpv4FlagMoreFragments_def)
qed

lemma fragmentation_feeds:
  "case fragment_ipv4_payload h payload mtu scratch callback ctx of (st, scratch', ctx') \<Rightarrow>
     (case callback of
        None \<Rightarrow> st = invalid_mtu \<and> ctx' = ctx
      | Some cb \<Rightarrow>
          if mtu < 20 \<or> length scratch < mtu then st = invalid_mtu \<and> ctx' = ctx
          else if 65515 < length payload then st = payload_too_large \<and> ctx' = ctx
          else if mtu < 28 \<and> mtu - 20 < length payload then st = invalid_mtu \<and> ctx' = ctx
          else (st, ctx') = feed cb ctx (frag_packets h payload mtu))"
proof (cases callback)
  case None
  then show ?thesis by (simp add: fragment_ipv4_payload_def)
next
  case (Some cb)
  consider "mtu < 20 \<or> length scratch < mtu \<or> 65515 < length payload \<or>
             mtu < 28 \<and> mtu - 20 < length payload"
    | "20 \<le> mtu" "mtu \<le> length scratch" "length payload \<le> 65515" "length payload \<le> mtu - 20"
    | "28 \<le> mtu" "mtu \<le> length scratch" "length payload \<le> 65515" "mtu - 20 < length payload"
    by linarith
  then show ?thesis
  proof cases
    case 1
    then show ?thesis
      by (auto simp: Some fragment_ipv4_payload_def kIpv4HeaderBytes_def Let_def)
  next
    case 2
    then obtain out' where "build_ipv4_packet (h\<lparr>ip_flags_fragment_offset := 0\<rparr>) payload scratch
          = (ip_ok, out', 20 + length payload)"
        "take (20 + length payload) out' = ip_encode
           \<lparr>pv_header = built_header (h\<lparr>ip_flags_fragment_offset := 0\<rparr>) payload, pv_payload = payload\<rparr>"
      using build_fragment [of payload scratch] by fastforce
    moreover have "frag_packets h payload mtu = [ip_encode
       \<lparr>pv_header = built_header (h\<lparr>ip_flags_fragment_offset := 0\<rparr>) payload, pv_payload = payload\<rparr>]"
      using 2 by (simp add: frag_packets_def fragments_def fragment_packet_def fragment_header_def)
    ultimately show ?thesis
      using 2 by (auto simp: Some fragment_ipv4_payload_def kIpv4HeaderBytes_def split: prod.splits)
  next
    case 3
    let ?fp = "(mtu - 20) div 8 * 8"
    have fp: "0 < ?fp" "20 + ?fp \<le> length scratch"
      using 3 div_greater_zero_iff [of "mtu - 20" 8] times_div_less_eq_dividend [of 8 "mtu - 20"]
      by (simp_all add: mult.commute)
    obtain scratch' where "fragment_loop h payload ?fp cb 0 scratch ctx =
        (fst (feed cb ctx (map (fragment_packet h) (slices ?fp payload 0))), scratch',
         snd (feed cb ctx (map (fragment_packet h) (slices ?fp payload 0))))"
      using fragment_loop_feed [OF 3(3) fp(2,1), of h cb 0 ctx] by blast
    then show ?thesis
      using 3 fp(1)
      by (simp add: Some fragment_ipv4_payload_def kIpv4HeaderBytes_def frag_packets_def fragments_def Let_def)
  qed
qed

section \<open>Properties\<close>

text \<open>
  Claim C24. Fragmentation hands the callback exactly the packets of the reference list, in order, and
  stops at the first one it refuses; the only other outcomes are the refusals of a missing callback, of
  an MTU below the header size, above the scratch buffer or too small for eight bytes of payload
  when the payload needs to be split, and of a payload above 65515 bytes, and then nothing is sent.
\<close>

theorem fragmentation_feeds_reference:
  "case fragment_ipv4_payload h payload mtu scratch callback ctx of (st, scratch', ctx') \<Rightarrow>
     (case callback of
        None \<Rightarrow> st = invalid_mtu \<and> ctx' = ctx
      | Some cb \<Rightarrow>
          if mtu < 20 \<or> length scratch < mtu then st = invalid_mtu \<and> ctx' = ctx
          else if 65515 < length payload then st = payload_too_large \<and> ctx' = ctx
          else if mtu < 28 \<and> mtu - 20 < length payload then st = invalid_mtu \<and> ctx' = ctx
          else (st, ctx') = feed cb ctx (frag_packets h payload mtu))"
  by (rule fragmentation_feeds)

text \<open>
  The fragments of a payload: they concatenate to the payload, lie one after the other
  from offset 0, are no longer than the MTU, and the packet of each parses to the sender's header with
  the fragment's own bytes, its offset in units of eight bytes exactly and the "more fragments" flag set
  on all fragments that do not reach the end of the payload.
\<close>

theorem fragments_well_formed:
  assumes "28 \<le> mtu" "length payload \<le> 65515"
  shows "concat (map fg_bytes (fragments payload mtu)) = payload \<and>
    contiguous 0 (fragments payload mtu) \<and>
    (\<forall>f \<in> set (fragments payload mtu). length (fragment_packet h f) \<le> mtu \<and>
       (\<exists>v. parse_ipv4_packet (fragment_packet h f) = (ip_ok, v) \<and> pv_payload v = fg_bytes f \<and>
          ip_identification (pv_header v) = ip_identification h \<and>
          ip_source (pv_header v) = ip_source h \<and> ip_destination (pv_header v) = ip_destination h \<and>
          ip_protocol (pv_header v) = ip_protocol h \<and>
          8 * unat (ip_flags_fragment_offset (pv_header v) AND kIpv4FragmentOffsetMask) = fg_offset f \<and>
          (ip_flags_fragment_offset (pv_header v) AND kIpv4FlagMoreFragments \<noteq> 0
             \<longleftrightarrow> fg_offset f + length (fg_bytes f) < length payload)))"
proof -
  have "length (fragment_packet h f) \<le> mtu \<and>
       (\<exists>v. parse_ipv4_packet (fragment_packet h f) = (ip_ok, v) \<and> pv_payload v = fg_bytes f \<and>
          ip_identification (pv_header v) = ip_identification h \<and>
          ip_source (pv_header v) = ip_source h \<and> ip_destination (pv_header v) = ip_destination h \<and>
          ip_protocol (pv_header v) = ip_protocol h \<and>
          8 * unat (ip_flags_fragment_offset (pv_header v) AND kIpv4FragmentOffsetMask) = fg_offset f \<and>
          (ip_flags_fragment_offset (pv_header v) AND kIpv4FlagMoreFragments \<noteq> 0
             \<longleftrightarrow> fg_offset f + length (fg_bytes f) < length payload))"
    if "f \<in> set (fragments payload mtu)" for f
  proof -
    have sl: "slice_of payload f" "20 + length (fg_bytes f) \<le> mtu"
      using fragments_partition [OF assms(1), of payload] that by auto
    then show ?thesis
      using fragment_packet_parsed [OF sl(1) assms(2), of h]
      by (auto simp: slice_of_def fragment_packet_def ip_encode_def)
  qed
  then show ?thesis using fragments_partition [OF assms(1), of payload] by blast
qed

theorem fragments_well_formed_witness:
  "map fg_offset (fragments (replicate 100 7) 60) = [0, 40, 80] \<and>
   concat (map fg_bytes (fragments (replicate 100 7) 60)) = replicate 100 7"
proof
  show "concat (map fg_bytes (fragments (replicate 100 7) 60)) = replicate 100 7"
    using fragments_well_formed [of 60 "replicate 100 7" default_Ipv4Header] by simp
  show "map fg_offset (fragments (replicate 100 (7 :: byte)) 60) = [0, 40, 80]"
    by (simp add: fragments_def slices.simps)
qed

end
