(* ===== verification/Reassembly.thy ===== *)
theory Reassembly
  imports Ipv4 Intervals
begin

text \<open>
  IPv4 reassembly (\<^verbatim>\<open>include/vectornet/net/reassembly.hpp\<close>, \<^verbatim>\<open>src/net/reassembly.cpp\<close>): a table
  of slots, each with a buffer for the datagram and a sorted list of the holes that are still missing.

  The loops over the hole list are \<open>trim_holes\<close> (compaction when the length becomes known),
  \<open>subtract_loop\<close> and \<open>copy_holes\<close>. A slot stands for a partial map from offsets to bytes
  (\<open>slot_map\<close>); the lemmas show that inserting a fragment extends that map by the bytes not yet
  received, first arrival winning, and that the hole array never overflows.
\<close>

definition kIpv4MaximumPayloadBytes :: nat where "kIpv4MaximumPayloadBytes = 65535 - kIpv4HeaderBytes"
definition kDefaultReassemblySlots :: nat where "kDefaultReassemblySlots = 64"
definition kMaximumReassemblyHoles :: nat where "kMaximumReassemblyHoles = 8192"
definition kDefaultReassemblyTimeoutNs :: u64 where "kDefaultReassemblyTimeoutNs = 5000000000"

record ReassemblyKey =
  rk_source :: Ipv4Address
  rk_destination :: Ipv4Address
  rk_identification :: u16
  rk_protocol :: u8

definition default_ReassemblyKey :: ReassemblyKey where
  "default_ReassemblyKey = \<lparr>rk_source = 0, rk_destination = 0, rk_identification = 0, rk_protocol = 0\<rparr>"

datatype ReassemblyStatus = rs_pending | rs_complete | rs_malformed | rs_table_full
  | rs_hole_capacity_exhausted | rs_callback_rejected

record ReassemblyStatistics =
  rst_completed :: u64
  rst_malformed :: u64
  rst_table_full :: u64
  rst_timed_out :: u64
  rst_duplicate_fragments :: u64
  rst_overlap_bytes_ignored :: u64

record Hole =
  hole_begin :: u32
  hole_end :: u32

record Slot =
  sl_key :: ReassemblyKey
  sl_data :: "byte list"
  sl_holes :: "Hole arr"
  sl_hole_count :: nat
  sl_highest_received_end :: nat
  sl_total_length :: nat
  sl_created_at_ns :: u64
  sl_total_length_known :: bool
  sl_active :: bool

record ReassemblyTable =
  rt_slots :: "Slot arr"
  rt_capacity :: nat
  rt_timeout_ns :: u64
  rt_statistics :: ReassemblyStatistics

type_synonym 's reassembly_callback = "'s \<Rightarrow> ReassemblyKey \<Rightarrow> byte list \<Rightarrow> 's \<times> bool"

definition default_Slot :: Slot where
  "default_Slot = \<lparr>sl_key = default_ReassemblyKey, sl_data = replicate kIpv4MaximumPayloadBytes 0,
     sl_holes = (\<lambda>_. \<lparr>hole_begin = 0, hole_end = 0\<rparr>), sl_hole_count = 0, sl_highest_received_end = 0,
     sl_total_length = 0, sl_created_at_ns = 0, sl_total_length_known = False, sl_active = False\<rparr>"

definition new_ReassemblyTable :: "nat \<Rightarrow> u64 \<Rightarrow> ReassemblyTable" where
  "new_ReassemblyTable capacity timeout_ns =
     \<lparr>rt_slots = (\<lambda>_. default_Slot), rt_capacity = capacity, rt_timeout_ns = timeout_ns,
      rt_statistics = \<lparr>rst_completed = 0, rst_malformed = 0, rst_table_full = 0, rst_timed_out = 0,
        rst_duplicate_fragments = 0, rst_overlap_bytes_ignored = 0\<rparr>\<rparr>"

text \<open>The loop of \<open>find_or_create\<close>: a match, or the first slot that is free.\<close>

fun find_loop :: "Slot arr \<Rightarrow> ReassemblyKey \<Rightarrow> nat list \<Rightarrow> nat option \<Rightarrow> nat + nat option" where
  "find_loop slots key [] available = Inr available"
| "find_loop slots key (index # rest) available =
     (if sl_active (slots index) \<and> sl_key (slots index) = key then Inl index
      else find_loop slots key rest
             (if \<not> sl_active (slots index) \<and> available = None then Some index else available))"

definition fresh_slot :: "Slot \<Rightarrow> ReassemblyKey \<Rightarrow> u64 \<Rightarrow> Slot" where
  "fresh_slot slot key now_ns =
     slot\<lparr>sl_key := key, sl_hole_count := 1,
          sl_holes := (sl_holes slot)(0 := \<lparr>hole_begin = 0, hole_end = of_nat kIpv4MaximumPayloadBytes\<rparr>),
          sl_highest_received_end := 0, sl_total_length := 0, sl_created_at_ns := now_ns,
          sl_total_length_known := False, sl_active := True\<rparr>"

definition find_or_create ::
  "ReassemblyTable \<Rightarrow> ReassemblyKey \<Rightarrow> u64 \<Rightarrow> ReassemblyTable \<times> nat option" where
  "find_or_create t key now_ns =
     (case find_loop (rt_slots t) key [0..<rt_capacity t] None of
        Inl index \<Rightarrow> (t, Some index)
      | Inr None \<Rightarrow> (t, None)
      | Inr (Some index) \<Rightarrow>
          (t\<lparr>rt_slots := (rt_slots t)(index := fresh_slot (rt_slots t index) key now_ns)\<rparr>, Some index))"

text \<open>The compaction loop of \<open>establish_total_length\<close>.\<close>

definition trim_holes :: "nat \<Rightarrow> Hole arr \<Rightarrow> nat \<Rightarrow> Hole arr \<times> nat" where
  "trim_holes total_length holes n =
     fold (\<lambda>read (holes, write).
         let hole = holes read in
         if unat (hole_begin hole) \<ge> total_length then (holes, write)
         else
           let hole = hole\<lparr>hole_end := of_nat (min (unat (hole_end hole)) total_length)\<rparr> in
           if hole_begin hole < hole_end hole then (holes(write := hole), write + 1)
           else (holes, write))
       [0..<n] (holes, 0)"

definition establish_total_length :: "Slot \<Rightarrow> nat \<Rightarrow> Slot \<times> bool" where
  "establish_total_length slot total_length =
     (if (sl_total_length_known slot \<and> sl_total_length slot \<noteq> total_length) \<or>
         sl_highest_received_end slot > total_length
      then (slot, False)
      else
        let (holes, write) = trim_holes total_length (sl_holes slot) (sl_hole_count slot)
        in (slot\<lparr>sl_total_length := total_length, sl_total_length_known := True,
                 sl_holes := holes, sl_hole_count := write\<rparr>, True))"

function subtract_loop :: "Hole arr \<Rightarrow> nat \<Rightarrow> nat \<Rightarrow> nat \<Rightarrow> nat \<Rightarrow> Hole arr \<times> nat \<times> bool" where
  "subtract_loop holes count begin' end' index =
     (if index < count
      then
        let hole = holes index in
        if end' \<le> unat (hole_begin hole) \<or> begin' \<ge> unat (hole_end hole)
        then subtract_loop holes count begin' end' (index + 1)
        else if begin' \<le> unat (hole_begin hole) \<and> end' \<ge> unat (hole_end hole)
        then subtract_loop (shift_down holes 1 (index + 1) count) (count - 1) begin' end' index
        else if begin' \<le> unat (hole_begin hole)
        then subtract_loop (holes(index := hole\<lparr>hole_begin := of_nat end'\<rparr>)) count begin' end' (index + 1)
        else if end' \<ge> unat (hole_end hole)
        then subtract_loop (holes(index := hole\<lparr>hole_end := of_nat begin'\<rparr>)) count begin' end' (index + 1)
        else if count \<ge> kMaximumReassemblyHoles then (holes, count, False)
        else
          let holes = shift_up holes count (index + 1);
              original_end = hole_end (holes index);
              holes = holes(index := (holes index)\<lparr>hole_end := of_nat begin'\<rparr>);
              holes = holes(index + 1 := \<lparr>hole_begin = of_nat end', hole_end = original_end\<rparr>)
          in (holes, count + 1, True)
      else (holes, count, True))"
  by pat_completeness auto
termination
  by (relation "measure (\<lambda>(holes, count, begin', end', index). count - index)") auto

declare subtract_loop.simps [simp del]

definition subtract_received_range :: "Slot \<Rightarrow> nat \<Rightarrow> nat \<Rightarrow> Slot \<times> bool" where
  "subtract_received_range slot begin' end' =
     (if begin' = end' then (slot, True)
      else
        let (holes, count, ok) = subtract_loop (sl_holes slot) (sl_hole_count slot) begin' end' 0
        in (slot\<lparr>sl_holes := holes, sl_hole_count := count\<rparr>, ok))"

text \<open>The loop of \<open>copy_unreceived_bytes\<close> over a list of holes: the data and the bytes copied.\<close>

definition copy_hole :: "nat \<Rightarrow> byte list \<Rightarrow> Hole \<Rightarrow> byte list \<times> nat \<Rightarrow> byte list \<times> nat" where
  "copy_hole begin' fragment_payload hole st =
     (case st of (data, copied) \<Rightarrow>
        let end' = begin' + length fragment_payload;
            copy_begin = max begin' (unat (hole_begin hole));
            copy_end = min end' (unat (hole_end hole))
        in if copy_begin \<ge> copy_end then (data, copied)
           else
             let bytes = copy_end - copy_begin
             in (memcpy_at data copy_begin (take bytes (drop (copy_begin - begin') fragment_payload)),
                 copied + bytes))"

definition copy_unreceived_bytes :: "Slot \<Rightarrow> nat \<Rightarrow> byte list \<Rightarrow> Slot \<times> nat" where
  "copy_unreceived_bytes slot begin' fragment_payload =
     (case fold (\<lambda>index. copy_hole begin' fragment_payload (sl_holes slot index))
             [0..<sl_hole_count slot] (sl_data slot, 0) of
        (data, copied) \<Rightarrow> (slot\<lparr>sl_data := data\<rparr>, copied))"

definition is_complete :: "Slot \<Rightarrow> bool" where
  "is_complete slot \<longleftrightarrow> sl_total_length_known slot \<and> sl_hole_count slot = 0"

definition release_slot :: "Slot \<Rightarrow> Slot" where
  "release_slot slot = slot\<lparr>sl_active := False, sl_hole_count := 0, sl_highest_received_end := 0,
     sl_total_length := 0, sl_total_length_known := False\<rparr>"

definition rt_set :: "ReassemblyTable \<Rightarrow> nat \<Rightarrow> Slot \<Rightarrow> ReassemblyTable" where
  "rt_set t index slot = t\<lparr>rt_slots := (rt_slots t)(index := slot)\<rparr>"

definition rt_count :: "(ReassemblyStatistics \<Rightarrow> ReassemblyStatistics) \<Rightarrow> ReassemblyTable \<Rightarrow> ReassemblyTable"
  where "rt_count f t = t\<lparr>rt_statistics := f (rt_statistics t)\<rparr>"

definition count_malformed :: "ReassemblyStatistics \<Rightarrow> ReassemblyStatistics" where
  "count_malformed s = s\<lparr>rst_malformed := rst_malformed s + 1\<rparr>"

definition count_completed :: "ReassemblyStatistics \<Rightarrow> ReassemblyStatistics" where
  "count_completed s = s\<lparr>rst_completed := rst_completed s + 1\<rparr>"

definition key_of :: "Ipv4Header \<Rightarrow> ReassemblyKey" where
  "key_of header = \<lparr>rk_source = ip_source header, rk_destination = ip_destination header,
     rk_identification = ip_identification header, rk_protocol = ip_protocol header\<rparr>"

definition rt_insert ::
  "ReassemblyTable \<Rightarrow> Ipv4Header \<Rightarrow> byte list \<Rightarrow> u64 \<Rightarrow> 's reassembly_callback option \<Rightarrow> 's
     \<Rightarrow> ReassemblyTable \<times> ReassemblyStatus \<times> 's" where
  "rt_insert t header fragment_payload now_ns callback ctx =
     (case callback of
        None \<Rightarrow> (rt_count count_malformed t, rs_malformed, ctx)
      | Some cb \<Rightarrow>
        let offset_units = unat (ip_flags_fragment_offset header AND kIpv4FragmentOffsetMask);
            offset = offset_units * 8;
            more_fragments = (ip_flags_fragment_offset header AND kIpv4FlagMoreFragments \<noteq> 0)
        in if (more_fragments \<and> (fragment_payload = [] \<or> length fragment_payload mod 8 \<noteq> 0)) \<or>
              (offset \<noteq> 0 \<and> fragment_payload = []) \<or>
              offset > kIpv4MaximumPayloadBytes \<or>
              length fragment_payload > kIpv4MaximumPayloadBytes - offset
        then (rt_count count_malformed t, rs_malformed, ctx)
        else
          let end' = offset + length fragment_payload;
              key = key_of header
          in if offset = 0 \<and> \<not> more_fragments
          then
            let (ctx, accepted) = cb ctx key fragment_payload in
            if accepted then (rt_count count_completed t, rs_complete, ctx)
            else (t, rs_callback_rejected, ctx)
          else
            (case find_or_create t key now_ns of
               (t, None) \<Rightarrow>
                 (rt_count (\<lambda>s. s\<lparr>rst_table_full := rst_table_full s + 1\<rparr>) t, rs_table_full, ctx)
             | (t, Some index) \<Rightarrow>
                 let slot = rt_slots t index in
                 if sl_total_length_known slot \<and> end' > sl_total_length slot
                 then (rt_set (rt_count count_malformed t) index (release_slot slot), rs_malformed, ctx)
                 else
                   let (slot, established) =
                         (if \<not> more_fragments then establish_total_length slot end' else (slot, True)) in
                   if \<not> established
                   then (rt_set (rt_count count_malformed t) index (release_slot slot), rs_malformed, ctx)
                   else
                     let (slot, copied) = copy_unreceived_bytes slot offset fragment_payload;
                         t = (if fragment_payload \<noteq> [] \<and> copied = 0
                              then rt_count (\<lambda>s. s\<lparr>rst_duplicate_fragments :=
                                               rst_duplicate_fragments s + 1\<rparr>) t
                              else t);
                         t = rt_count (\<lambda>s. s\<lparr>rst_overlap_bytes_ignored := rst_overlap_bytes_ignored s +
                                        of_nat (length fragment_payload - copied)\<rparr>) t;
                         slot = slot\<lparr>sl_highest_received_end := max (sl_highest_received_end slot) end'\<rparr>;
                         (slot, ok) = subtract_received_range slot offset end'
                     in if \<not> ok then (rt_set t index (release_slot slot), rs_hole_capacity_exhausted, ctx)
                        else if \<not> is_complete slot then (rt_set t index slot, rs_pending, ctx)
                        else
                          let (ctx, accepted) =
                                cb ctx (sl_key slot) (take (sl_total_length slot) (sl_data slot));
                              t = rt_set t index (release_slot slot)
                          in if \<not> accepted then (t, rs_callback_rejected, ctx)
                             else (rt_count count_completed t, rs_complete, ctx)))"

definition sweep_slot :: "u64 \<Rightarrow> nat \<Rightarrow> ReassemblyTable \<times> nat \<Rightarrow> ReassemblyTable \<times> nat" where
  "sweep_slot now_ns index st =
     (case st of (t, expired) \<Rightarrow>
        let slot = rt_slots t index in
        if \<not> sl_active slot then (t, expired)
        else
          let timed_out = (now_ns \<ge> sl_created_at_ns slot \<and>
                           now_ns - sl_created_at_ns slot \<ge> rt_timeout_ns t) in
          if timed_out
          then (rt_count (\<lambda>s. s\<lparr>rst_timed_out := rst_timed_out s + 1\<rparr>) (rt_set t index (release_slot slot)),
                expired + 1)
          else (t, expired))"

definition rt_sweep :: "ReassemblyTable \<Rightarrow> u64 \<Rightarrow> ReassemblyTable \<times> nat" where
  "rt_sweep t now_ns = fold (sweep_slot now_ns) [0..<rt_capacity t] (t, 0)"

definition active_slots :: "ReassemblyTable \<Rightarrow> nat" where
  "active_slots t = length (filter (\<lambda>index. sl_active (rt_slots t index)) [0..<rt_capacity t])"

section \<open>Abstraction and invariant of a slot\<close>

definition hole_iv :: "Hole \<Rightarrow> interval" where
  "hole_iv h = (unat (hole_begin h), unat (hole_end h))"

definition slot_holes :: "Slot \<Rightarrow> interval list" where
  "slot_holes s = map hole_iv (live (sl_holes s) (sl_hole_count s))"

text \<open>The extent of the datagram as far as it is known.\<close>

definition slot_bound :: "Slot \<Rightarrow> nat" where
  "slot_bound s = (if sl_total_length_known s then sl_total_length s else kIpv4MaximumPayloadBytes)"

definition slot_missing :: "Slot \<Rightarrow> nat set" where
  "slot_missing s = covered (slot_holes s)"

definition slot_map :: "Slot \<Rightarrow> nat \<Rightarrow> byte option" where
  "slot_map s n = (if n < slot_bound s \<and> n \<notin> slot_missing s then Some (sl_data s ! n) else None)"

definition slot_inv :: "Slot \<Rightarrow> bool" where
  "slot_inv s \<longleftrightarrow> length (sl_data s) = 65515 \<and> spaced 0 (slot_holes s) \<and> slot_bound s \<le> 65515 \<and>
     (\<forall>(a, b) \<in> set (slot_holes s). a mod 8 = 0 \<and> b \<le> slot_bound s) \<and>
     sl_highest_received_end s \<le> slot_bound s \<and>
     {sl_highest_received_end s..<slot_bound s} \<subseteq> slot_missing s"

definition frag_map :: "nat \<Rightarrow> byte list \<Rightarrow> nat \<Rightarrow> byte option" where
  "frag_map offset bs n = (if offset \<le> n \<and> n < offset + length bs then Some (bs ! (n - offset)) else None)"

lemma kMax_eq [simp]: "kIpv4MaximumPayloadBytes = 65515"
  by (simp add: kIpv4MaximumPayloadBytes_def kIpv4HeaderBytes_def)


section \<open>Lemmas: the loops over the hole list\<close>

lemma unat_of_nat_u32: "n < 2 ^ 32 \<Longrightarrow> unat (of_nat n :: u32) = n"
  by (simp add: unat_of_nat take_bit_nat_eq_self)

definition trim :: "nat \<Rightarrow> interval list \<Rightarrow> interval list" where
  "trim T ivs = map (\<lambda>(a, b). (a, min b T)) (filter (\<lambda>(a, b). a < min b T) ivs)"

lemma trim_holes_spec:
  assumes "T < 2 ^ 32" "trim_holes T holes n = (holes', w)"
  shows "w \<le> n \<and> (\<forall>i \<ge> n. holes' i = holes i) \<and>
         map hole_iv (live holes' w) = trim T (map hole_iv (live holes n))"
  using assms(2)
proof (induction n arbitrary: holes' w)
  case 0
  then show ?case by (simp add: trim_holes_def trim_def)
next
  case (Suc n)
  obtain h1 w1 where h1: "trim_holes T holes n = (h1, w1)" by fastforce
  have IH: "w1 \<le> n" "\<forall>i \<ge> n. h1 i = holes i"
      "map hole_iv (live h1 w1) = trim T (map hole_iv (live holes n))"
    using Suc.IH [OF h1] by auto
  let ?h = "holes n"
  let ?h' = "?h\<lparr>hole_end := of_nat (min (unat (hole_end ?h)) T)\<rparr>"
  have u: "unat (hole_end ?h') = min (unat (hole_end ?h)) T"
    using assms(1) by (simp add: unat_of_nat_u32 min_less_iff_disj)
  have step: "(holes', w) = (if unat (hole_begin ?h) < min (unat (hole_end ?h)) T
                             then (h1(w1 := ?h'), Suc w1) else (h1, w1))"
    using Suc.prems h1 IH(2) u
    by (auto simp: trim_holes_def Let_def word_less_nat_alt split: if_splits)
  show ?case
  proof (cases "unat (hole_begin ?h) < min (unat (hole_end ?h)) T")
    case True
    then have h': "holes' = h1(w1 := ?h')" "w = Suc w1" using step by auto
    have lv:  "map hole_iv (live (h1(w1 := ?h')) (Suc w1))
        = trim T (map hole_iv (live holes n)) @ [(unat (hole_begin ?h), min (unat (hole_end ?h)) T)]"
      unfolding live_push using IH(3) u by (simp add: hole_iv_def [of ?h'])
    have "trim T (map hole_iv (live holes (Suc n)))
        = trim T (map hole_iv (live holes n)) @ [(unat (hole_begin ?h), min (unat (hole_end ?h)) T)]"
      using True by (simp add: live_Suc [of holes n] trim_def hole_iv_def [of ?h])
    moreover have "\<forall>i \<ge> Suc n. holes' i = holes i" "w \<le> Suc n" using h' IH(1,2) by auto
    moreover have "map hole_iv (live holes' w) = trim T (map hole_iv (live holes n)) @
        [(unat (hole_begin ?h), min (unat (hole_end ?h)) T)]"
      using lv by (simp only: h')
    ultimately show ?thesis by simp
  next
    case False
    then show ?thesis
      using step IH by (auto simp: live_Suc [of holes n] trim_def hole_iv_def [of ?h])
  qed
qed

lemma live_split:
  assumes "i < n"
  shows "live (((shift_up a n (Suc i))(i := u))(Suc i := v)) (Suc n)
           = take i (live a n) @ u # v # drop (Suc i) (live a n)"
proof -
  have "((shift_up a n (Suc i))(i := u))(Suc i := v) = ((shift_up a n (Suc i))(Suc i := v))(i := u)"
    by (simp add: fun_upd_twist)
  then have "live (((shift_up a n (Suc i))(i := u))(Suc i := v)) (Suc n)
      = (take (Suc i) (live a n) @ v # drop (Suc i) (live a n))[i := u]"
    using assms live_insert_at [of "Suc i" n a v] by (simp add: live_update)
  also have "\<dots> = take i (live a n) @ u # v # drop (Suc i) (live a n)"
    using assms by (simp add: take_Suc_conv_app_nth list_update_append)
  finally show ?thesis .
qed

lemma subtract_loop_spec:
  assumes "i \<le> n" "s < e" "e < 2 ^ 32" "n < kMaximumReassemblyHoles"
  shows "\<exists>h' n'. subtract_loop h n s e i = (h', n', True) \<and>
    map hole_iv (live h' n') = take i (map hole_iv (live h n)) @ sub s e (drop i (map hole_iv (live h n)))"
  using assms
proof (induction h n s e i rule: subtract_loop.induct)
  case (1 h n s e i)
  let ?xs = "live h n" and ?a = "unat (hole_begin (h i))" and ?b = "unat (hole_end (h i))"
  show ?case
  proof (cases "i < n")
    case False
    then have "i = n" using "1.prems"(1) by simp
    then show ?thesis by (simp add: subtract_loop.simps [of h n s e n])
  next
    case True
    have d: "drop i ?xs = h i # drop (Suc i) ?xs" using True by (simp add: Cons_nth_drop_Suc [symmetric])
    have tk: "take (Suc i) ?xs = take i ?xs @ [h i]" using True by (simp add: take_Suc_conv_app_nth)
    have su: "unat (of_nat s :: u32) = s" "unat (of_nat e :: u32) = e"
      using "1.prems" by (auto intro!: unat_of_nat_u32)
    have upd: "live (h(i := x)) n = take i ?xs @ x # drop (Suc i) ?xs" for x
      using True by (simp add: live_update upd_conv_take_nth_drop)
    note simps = subtract_loop.simps [of h n s e i] Let_def
    have iv: "hole_iv (h i) = (?a, ?b)" "hole_iv ((h i)\<lparr>hole_begin := of_nat e\<rparr>) = (e, ?b)"
        "hole_iv ((h i)\<lparr>hole_end := of_nat s\<rparr>) = (?a, s)"
        "hole_iv \<lparr>hole_begin = of_nat e, hole_end = hole_end (h i)\<rparr> = (e, ?b)"
      using su by (simp_all add: hole_iv_def)
    note fin = d tk upd take_map drop_map iv
    consider "e \<le> ?a \<or> s \<ge> ?b" | "\<not> (e \<le> ?a \<or> s \<ge> ?b)" "s \<le> ?a" "e \<ge> ?b"
      | "\<not> (e \<le> ?a \<or> s \<ge> ?b)" "s \<le> ?a" "e < ?b" | "\<not> (e \<le> ?a \<or> s \<ge> ?b)" "?a < s" "e \<ge> ?b"
      | "\<not> (e \<le> ?a \<or> s \<ge> ?b)" "?a < s" "e < ?b" by linarith
    then show ?thesis
    proof cases
      case 1
      then show ?thesis using "1.IH"(1) [OF True refl] "1.prems" True by (auto simp: simps fin)
    next
      case 2
      let ?h = "shift_down h 1 (i + 1) n"
      have l: "live ?h (n - 1) = take i ?xs @ drop (Suc i) ?xs"
        using True live_shift_down [of 1 "Suc i" n h] by simp
      have "subtract_loop h n s e i = subtract_loop ?h (n - 1) s e i"
        using 2 True by (simp add: simps)
      moreover have "\<exists>h' n'. subtract_loop ?h (n - 1) s e i = (h', n', True) \<and> map hole_iv (live h' n')
          = take i (map hole_iv (live ?h (n - 1))) @ sub s e (drop i (map hole_iv (live ?h (n - 1))))"
        using 2 "1.prems" True by (intro "1.IH"(2) [OF True refl]) auto
      ultimately show ?thesis using 2 True unfolding l by (simp add: fin)
    next
      case 3
      let ?h = "h(i := (h i)\<lparr>hole_begin := of_nat e\<rparr>)"
      have "subtract_loop h n s e i = subtract_loop ?h n s e (i + 1)"
        using 3 True by (simp add: simps)
      moreover have "\<exists>h' n'. subtract_loop ?h n s e (i + 1) = (h', n', True) \<and> map hole_iv (live h' n')
          = take (i + 1) (map hole_iv (live ?h n)) @ sub s e (drop (i + 1) (map hole_iv (live ?h n)))"
        using 3 "1.prems" True by (intro "1.IH"(3) [OF True refl]) auto
      ultimately show ?thesis using 3 True unfolding upd by (simp add: fin)
    next
      case 4
      let ?h = "h(i := (h i)\<lparr>hole_end := of_nat s\<rparr>)"
      have "subtract_loop h n s e i = subtract_loop ?h n s e (i + 1)"
        using 4 True by (simp add: simps)
      moreover have "\<exists>h' n'. subtract_loop ?h n s e (i + 1) = (h', n', True) \<and> map hole_iv (live h' n')
          = take (i + 1) (map hole_iv (live ?h n)) @ sub s e (drop (i + 1) (map hole_iv (live ?h n)))"
        using 4 "1.prems" True by (intro "1.IH"(4) [OF True refl]) auto
      ultimately show ?thesis using 4 True unfolding upd by (simp add: fin)
    next
      case 5
      then show ?thesis
        using "1.prems" True
        by (simp add: simps live_split [unfolded fun_upd_def] shift_up_apply fun_upd_def) (simp add: fin)
    qed
  qed
qed

lemma copy_hole_nth:
  assumes "length data = 65515" "unat (hole_end h) \<le> 65515" "copy_hole off bs h (data, c) = (data', c')"
  shows "length data' = 65515 \<and> (\<forall>n < 65515. data' ! n =
    (if off \<le> n \<and> n < off + length bs \<and> n \<in> covered [hole_iv h] then bs ! (n - off) else data ! n))"
proof -
  define cb ce where cb: "cb = max off (unat (hole_begin h))"
    and ce: "ce = min (off + length bs) (unat (hole_end h))"
  let ?src = "take (ce - cb) (drop (cb - off) bs)"
  show ?thesis
  proof (cases "ce \<le> cb")
    case True
    then show ?thesis using assms by (auto simp: copy_hole_def Let_def hole_iv_def cb ce)
  next
    case False
    then have len: "length ?src = ce - cb" "cb + length ?src \<le> length data" using assms(1,2) by (auto simp: cb ce)
    have d: "data' = memcpy_at data cb ?src"
      using assms(3) False by (simp add: copy_hole_def Let_def cb ce)
    have "data' ! n = (if off \<le> n \<and> n < off + length bs \<and> n \<in> covered [hole_iv h]
        then bs ! (n - off) else data ! n)" if "n < 65515" for n
    proof -
      have "data' ! n = (if cb \<le> n \<and> n < ce then ?src ! (n - cb) else data ! n)"
        unfolding d using memcpy_at_nth [OF len(2), of n] that assms(1) len(1) False by simp
      also have "\<dots> = (if cb \<le> n \<and> n < ce then bs ! (n - off) else data ! n)"
      proof (cases "cb \<le> n \<and> n < ce")
        case True
        have eq: "cb - off + (n - cb) = n - off" using True by (simp add: cb)
        have "cb - off \<le> length bs" "n - cb < ce - cb" using True by (auto simp: cb ce)
        then have "?src ! (n - cb) = bs ! (cb - off + (n - cb))" by (simp only: nth_take nth_drop)
        then show ?thesis using True by (simp only: eq if_True simp_thms)
      qed auto
      also have "cb \<le> n \<and> n < ce \<longleftrightarrow> off \<le> n \<and> n < off + length bs \<and> n \<in> covered [hole_iv h]"
        by (auto simp: hole_iv_def cb ce)
      finally show ?thesis .
    qed
    then show ?thesis using d len assms(1) by simp
  qed
qed

lemma copy_holes_nth:
  assumes "length data = 65515" "\<forall>h \<in> set hs. unat (hole_end h) \<le> 65515"
    "fold (copy_hole off bs) hs (data, c) = (data', c')"
  shows "length data' = 65515 \<and> (\<forall>n < 65515. data' ! n =
    (if off \<le> n \<and> n < off + length bs \<and> n \<in> covered (map hole_iv hs) then bs ! (n - off) else data ! n))"
  using assms
proof (induction hs arbitrary: data c)
  case (Cons h hs)
  obtain d1 c1 where d1: "copy_hole off bs h (data, c) = (d1, c1)" by fastforce
  note one = copy_hole_nth [OF Cons.prems(1) _ d1]
  have IH: "length data' = 65515 \<and> (\<forall>n < 65515. data' ! n =
      (if off \<le> n \<and> n < off + length bs \<and> n \<in> covered (map hole_iv hs) then bs ! (n - off) else d1 ! n))"
    using Cons.IH [of d1 c1] Cons.prems one d1 by simp
  have "covered (map hole_iv (h # hs)) = covered [hole_iv h] \<union> covered (map hole_iv hs)"
    by (simp add: covered_def)
  then show ?case using IH one Cons.prems(2) by auto
qed simp

lemma copy_unreceived_spec:
  assumes "slot_inv s" "copy_unreceived_bytes s off bs = (s', c)"
  shows "\<exists>data. s' = s\<lparr>sl_data := data\<rparr> \<and> length data = 65515 \<and> (\<forall>n < 65515. data ! n =
    (if off \<le> n \<and> n < off + length bs \<and> n \<in> slot_missing s then bs ! (n - off) else sl_data s ! n))"
proof -
  let ?hs = "live (sl_holes s) (sl_hole_count s)"
  have f: "fold (\<lambda>index. copy_hole off bs (sl_holes s index)) [0..<sl_hole_count s] (sl_data s, 0)
          = fold (copy_hole off bs) ?hs (sl_data s, 0)"
    by (simp add: live_def fold_map comp_def)
  obtain data where s': "s' = s\<lparr>sl_data := data\<rparr>"
      and fd: "fold (copy_hole off bs) ?hs (sl_data s, 0) = (data, c)"
    using assms(2) unfolding copy_unreceived_bytes_def f by (auto split: prod.splits)
  have "\<forall>h \<in> set ?hs. unat (hole_end h) \<le> 65515"
    using assms(1) by (fastforce simp: slot_inv_def slot_holes_def hole_iv_def)
  then show ?thesis
    using copy_holes_nth [OF _ _ fd] assms(1) s'
    by (auto simp: slot_inv_def slot_missing_def slot_holes_def)
qed

lemma trim_id: "spaced lo ivs \<Longrightarrow> \<forall>(a, b) \<in> set ivs. b \<le> T \<Longrightarrow> trim T ivs = ivs"
  by (induction lo ivs rule: spaced.induct) (auto simp: trim_def min_def)

lemma trim_covered: "covered (trim T ivs) = covered ivs \<inter> {..<T}"
proof (induction ivs)
  case (Cons iv ivs)
  obtain a b where iv: "iv = (a, b)" by fastforce
  have "{a..<b} \<inter> {..<T} = {a..<min b T}" by auto
  then show ?case
    using Cons by (cases "a < min b T") (auto simp: trim_def iv Int_Un_distrib2)
qed (simp add: trim_def)

lemma trim_spaced: "spaced lo ivs \<Longrightarrow> spaced lo (trim T ivs)"
proof (induction lo ivs rule: spaced.induct)
  case (2 lo a b r)
  have "spaced (Suc (min b T)) (trim T r)" "spaced lo (trim T r)"
    using 2 by (auto intro: spaced_weaken)
  then show ?case using 2 by (auto simp: trim_def)
qed (simp add: trim_def)

lemma trim_mem: "(a, b) \<in> set (trim T ivs) \<Longrightarrow> (\<exists>b'. (a, b') \<in> set ivs) \<and> b \<le> T"
  by (auto simp: trim_def)

section \<open>Lemmas: a slot refines a partial datagram\<close>

record Datagram =
  dg_map :: "nat \<Rightarrow> byte option"
  dg_total :: "nat option"
  dg_highest :: nat

definition empty_dg :: Datagram where
  "empty_dg = \<lparr>dg_map = Map.empty, dg_total = None, dg_highest = 0\<rparr>"

definition dg_insert :: "Datagram \<Rightarrow> nat \<Rightarrow> byte list \<Rightarrow> bool \<Rightarrow> Datagram option" where
  "dg_insert d off bs mf =
     (let e = off + length bs in
      if (case dg_total d of None \<Rightarrow> False | Some T \<Rightarrow> T < e \<or> \<not> mf \<and> T \<noteq> e) \<or>
         \<not> mf \<and> e < dg_highest d
      then None
      else Some \<lparr>dg_map = frag_map off bs ++ dg_map d,
                 dg_total = (if mf then dg_total d else Some e), dg_highest = max (dg_highest d) e\<rparr>)"

definition dg_complete :: "Datagram \<Rightarrow> bool" where
  "dg_complete d \<longleftrightarrow> (\<exists>T. dg_total d = Some T \<and> dom (dg_map d) = {..<T})"

definition dg_payload :: "Datagram \<Rightarrow> byte list" where
  "dg_payload d = map (\<lambda>n. the (dg_map d n)) [0..<the (dg_total d)]"

definition slot_abs :: "Slot \<Rightarrow> Datagram" where
  "slot_abs s = \<lparr>dg_map = slot_map s,
     dg_total = (if sl_total_length_known s then Some (sl_total_length s) else None),
     dg_highest = sl_highest_received_end s\<rparr>"

lemma slot_inv_fresh:
  assumes "length (sl_data s) = 65515"
  shows "slot_inv (fresh_slot s key now) \<and> slot_abs (fresh_slot s key now) = empty_dg"
proof -
  have h: "slot_holes (fresh_slot s key now) = [(0, 65515)]"
    by (simp add: slot_holes_def fresh_slot_def hole_iv_def live_def)
  have b: "slot_bound (fresh_slot s key now) = 65515" by (simp add: slot_bound_def fresh_slot_def)
  have "slot_map (fresh_slot s key now) = Map.empty"
    by (rule ext) (simp add: slot_map_def slot_missing_def h b)
  then show ?thesis
    using assms
    by (simp add: slot_inv_def slot_missing_def h b slot_abs_def empty_dg_def)
       (simp add: fresh_slot_def)
qed

lemma slot_missing_bound: "slot_inv s \<Longrightarrow> n \<in> slot_missing s \<Longrightarrow> n < slot_bound s"
  by (fastforce simp: slot_inv_def slot_missing_def covered_def)

lemma establish_spec:
  assumes inv: "slot_inv s" and T: "T \<le> 65515"
    and ok: "\<not> (sl_total_length_known s \<and> sl_total_length s \<noteq> T)" "sl_highest_received_end s \<le> T"
    and e: "establish_total_length s T = (s', r)"
  shows "r \<and> slot_inv s' \<and> slot_map s' = slot_map s \<and> sl_total_length_known s' \<and>
    sl_total_length s' = T \<and> sl_highest_received_end s' = sl_highest_received_end s \<and>
    sl_key s' = sl_key s \<and> sl_active s' = sl_active s"
proof -
  obtain holes w where t: "trim_holes T (sl_holes s) (sl_hole_count s) = (holes, w)" by fastforce
  have s': "r" "s' = s\<lparr>sl_total_length := T, sl_total_length_known := True, sl_holes := holes,
      sl_hole_count := w\<rparr>"
    using e ok t by (auto simp: establish_total_length_def)
  have h: "slot_holes s' = trim T (slot_holes s)"
    using trim_holes_spec [OF _ t] T by (simp add: slot_holes_def s'(2))
  have b: "slot_bound s' = T" by (simp add: slot_bound_def s'(2))
  have bs: "T \<le> slot_bound s" using ok(1) T by (auto simp: slot_bound_def)
  have m: "slot_missing s' = slot_missing s \<inter> {..<T}" by (simp add: slot_missing_def h trim_covered)
  have above: "slot_bound s \<le> n" if "T \<le> n" "n \<notin> slot_missing s" for n
  proof (rule ccontr)
    assume "\<not> slot_bound s \<le> n"
    then have "n \<in> {sl_highest_received_end s..<slot_bound s}" using that ok(2) by simp
    then show False using inv that(2) unfolding slot_inv_def by blast
  qed
  have d: "sl_data s' = sl_data s" "sl_highest_received_end s' = sl_highest_received_end s"
    by (simp_all add: s'(2))
  have map: "slot_map s' = slot_map s"
    by (rule ext) (use bs above in \<open>auto simp: slot_map_def b m d not_less\<close>)
  have "{sl_highest_received_end s..<T} \<subseteq> slot_missing s'"
    using inv bs unfolding m by (auto simp: slot_inv_def)
  moreover have "\<forall>(a, b) \<in> set (slot_holes s'). a mod 8 = 0 \<and> b \<le> T"
    using inv unfolding h by (auto simp: slot_inv_def dest!: trim_mem)
  moreover have "spaced 0 (slot_holes s')" using inv unfolding h by (simp add: slot_inv_def trim_spaced)
  ultimately have "slot_inv s'" using inv T ok(2) by (simp add: slot_inv_def b d)
  then show ?thesis using s' map by simp
qed

lemma absorb_spec:
  assumes inv: "slot_inv s" and bs: "bs \<noteq> []" and e: "e = off + length bs" "e \<le> slot_bound s"
    and al: "off mod 8 = 0" "e mod 8 = 0 \<or> e = slot_bound s"
    and c: "copy_unreceived_bytes s off bs = (s1, copied)"
    and s2: "s2 = s1\<lparr>sl_highest_received_end := max (sl_highest_received_end s1) e\<rparr>"
  shows "\<exists>s3. subtract_received_range s2 off e = (s3, True) \<and> slot_inv s3 \<and>
    slot_map s3 = frag_map off bs ++ slot_map s \<and>
    sl_total_length_known s3 = sl_total_length_known s \<and> sl_total_length s3 = sl_total_length s \<and>
    sl_highest_received_end s3 = max (sl_highest_received_end s) e \<and> sl_key s3 = sl_key s \<and>
    sl_active s3 = sl_active s"
proof -
  obtain data where s1: "s1 = s\<lparr>sl_data := data\<rparr>" "length data = 65515" and data: "\<forall>n < 65515. data ! n =
      (if off \<le> n \<and> n < off + length bs \<and> n \<in> slot_missing s then bs ! (n - off) else sl_data s ! n)"
    using copy_unreceived_spec [OF inv c] by blast
  have lt: "off < e" using bs e(1) by simp
  have b65: "slot_bound s \<le> 65515" using inv by (simp add: slot_inv_def)
  have sp: "spaced 0 (slot_holes s)" "\<forall>(a, b) \<in> set (slot_holes s). a mod 8 = 0 \<and> b \<le> slot_bound s"
    using inv by (auto simp: slot_inv_def)
  have "length (slot_holes s) \<le> (slot_bound s + 7) div 8" by (rule spaced_count [OF sp])
  also have "\<dots> < kMaximumReassemblyHoles"
    using b65 by (simp add: kMaximumReassemblyHoles_def div_less_iff_less_mult)
  finally have cnt: "sl_hole_count s < kMaximumReassemblyHoles" by (simp add: slot_holes_def)
  obtain h n where sl: "subtract_loop (sl_holes s) (sl_hole_count s) off e 0 = (h, n, True)"
      "map hole_iv (live h n) = sub off e (slot_holes s)"
    using subtract_loop_spec [OF _ lt _ cnt, of 0 "sl_holes s"] e(2) b65
    by (auto simp: slot_holes_def)
  define s3 where "s3 = s2\<lparr>sl_holes := h, sl_hole_count := n\<rparr>"
  have code: "subtract_received_range s2 off e = (s3, True)"
    using lt sl(1) by (simp add: subtract_received_range_def s2 s1 s3_def)
  have f: "slot_holes s3 = sub off e (slot_holes s)" "slot_bound s3 = slot_bound s" "sl_data s3 = data"
      "sl_highest_received_end s3 = max (sl_highest_received_end s) e"
    using sl(2) by (simp_all add: slot_holes_def slot_bound_def s3_def s2 s1)
  have m: "slot_missing s3 = slot_missing s - {off..<e}"
    unfolding slot_missing_def f by (rule sub_covered [OF lt sp(1)])
  have "\<forall>(a, b) \<in> set (slot_holes s3). a mod 8 = 0"
    unfolding f using sp(2) al(2) by (intro sub_begins) auto
  moreover have "\<forall>(a, b) \<in> set (slot_holes s3). b \<le> slot_bound s"
    unfolding f using sp(2) by (intro sub_ends) auto
  moreover have "{max (sl_highest_received_end s) e..<slot_bound s} \<subseteq> slot_missing s3"
    using inv unfolding m by (auto simp: slot_inv_def)
  ultimately have "slot_inv s3"
    using inv sub_spaced [OF lt sp(1)] e(2) s1(2) unfolding slot_inv_def f by auto
  moreover have "slot_map s3 = frag_map off bs ++ slot_map s"
  proof (rule ext)
    fix n
    show "slot_map s3 n = (frag_map off bs ++ slot_map s) n"
      using data e b65 slot_missing_bound [OF inv, of n]
      by (auto simp: slot_map_def f m map_add_def frag_map_def)
  qed
  ultimately show ?thesis using code f by (auto simp: s3_def s2 s1)
qed

lemma is_complete_abs:
  assumes "slot_inv s"
  shows "is_complete s \<longleftrightarrow> dg_complete (slot_abs s)"
    "is_complete s \<Longrightarrow> take (sl_total_length s) (sl_data s) = dg_payload (slot_abs s)"
proof -
  have ne: "slot_missing s = {} \<longleftrightarrow> sl_hole_count s = 0"
  proof
    assume e: "slot_missing s = {}"
    have "slot_holes s = []"
    proof (rule ccontr)
      assume "slot_holes s \<noteq> []"
      then obtain a b r where "slot_holes s = (a, b) # r" by (cases "slot_holes s") auto
      then show False using assms e by (auto simp: slot_inv_def slot_missing_def)
    qed
    then show "sl_hole_count s = 0" by (simp add: slot_holes_def)
  qed (simp add: slot_missing_def slot_holes_def)
  have dom: "dom (slot_map s) = {..<slot_bound s} - slot_missing s"
    by (auto simp: slot_map_def dom_def)
  have "slot_missing s \<subseteq> {..<slot_bound s}" using slot_missing_bound [OF assms] by auto
  then have sub: "{..<slot_bound s} - slot_missing s = {..<slot_bound s} \<longleftrightarrow> slot_missing s = {}" by auto
  show "is_complete s \<longleftrightarrow> dg_complete (slot_abs s)"
  proof (cases "sl_total_length_known s")
    case True
    then have "slot_bound s = sl_total_length s" by (simp add: slot_bound_def)
    then show ?thesis
      using True ne dom sub by (simp add: is_complete_def dg_complete_def slot_abs_def)
  qed (simp add: is_complete_def dg_complete_def slot_abs_def)
  show "take (sl_total_length s) (sl_data s) = dg_payload (slot_abs s)" if c: "is_complete s"
  proof -
    have "slot_missing s = {}" "sl_total_length_known s" using c ne by (auto simp: is_complete_def)
    then have "\<And>n. n < sl_total_length s \<Longrightarrow> slot_map s n = Some (sl_data s ! n)"
      by (simp add: slot_map_def slot_bound_def)
    moreover have "sl_total_length s \<le> length (sl_data s)"
      using assms \<open>sl_total_length_known s\<close> by (simp add: slot_inv_def slot_bound_def)
    ultimately show ?thesis
      using \<open>sl_total_length_known s\<close>
      by (intro nth_equalityI) (auto simp: dg_payload_def slot_abs_def)
  qed
qed

lemma slot_insert_accepted:
  assumes inv: "slot_inv s" and bs: "bs \<noteq> []" and e: "e = off + length bs" "e \<le> 65515"
    and al: "off mod 8 = 0" "mf \<longrightarrow> length bs mod 8 = 0"
    and d: "dg_insert (slot_abs s) off bs mf = Some d"
  shows "\<not> (sl_total_length_known s \<and> e > sl_total_length s) \<and>
    (\<exists>s1 s2 copied s3.
       (if \<not> mf then establish_total_length s e else (s, True)) = (s1, True) \<and>
       copy_unreceived_bytes s1 off bs = (s2, copied) \<and>
       subtract_received_range (s2\<lparr>sl_highest_received_end := max (sl_highest_received_end s2) e\<rparr>) off e
         = (s3, True) \<and>
       slot_inv s3 \<and> slot_abs s3 = d \<and> sl_key s3 = sl_key s \<and> sl_active s3 = sl_active s)"
proof -
  have g: "\<not> (sl_total_length_known s \<and> e > sl_total_length s)"
      "\<not> mf \<Longrightarrow> \<not> (sl_total_length_known s \<and> sl_total_length s \<noteq> e)"
      "\<not> mf \<Longrightarrow> sl_highest_received_end s \<le> e"
    and d': "d = \<lparr>dg_map = frag_map off bs ++ slot_map s,
         dg_total = (if mf then dg_total (slot_abs s) else Some e),
         dg_highest = max (sl_highest_received_end s) e\<rparr>"
    using d e(1) by (auto simp: dg_insert_def slot_abs_def Let_def split: if_splits)
  define s1 where "s1 = (if \<not> mf then fst (establish_total_length s e) else s)"
  have s1: "(if \<not> mf then establish_total_length s e else (s, True)) = (s1, True) \<and> slot_inv s1 \<and>
      slot_map s1 = slot_map s \<and> dg_total (slot_abs s1) = dg_total d \<and>
      sl_highest_received_end s1 = sl_highest_received_end s \<and> sl_key s1 = sl_key s \<and>
      sl_active s1 = sl_active s \<and> e \<le> slot_bound s1 \<and> (mf \<or> e = slot_bound s1)"
  proof (cases mf)
    case True
    then show ?thesis using inv g(1) e(2) by (auto simp: s1_def d' slot_bound_def)
  next
    case False
    then show ?thesis
      using establish_spec [OF inv e(2) g(2,3)]
      by (cases "establish_total_length s e") (auto simp: s1_def d' slot_abs_def slot_bound_def)
  qed
  have al2: "e mod 8 = 0 \<or> e = slot_bound s1" using al s1 e(1) by (auto simp: mod_add_eq [symmetric])
  obtain s2 copied where c: "copy_unreceived_bytes s1 off bs = (s2, copied)" by fastforce
  obtain s3 where s3: "subtract_received_range
        (s2\<lparr>sl_highest_received_end := max (sl_highest_received_end s2) e\<rparr>) off e = (s3, True)"
      "slot_inv s3" "slot_map s3 = frag_map off bs ++ slot_map s1"
      "sl_total_length_known s3 = sl_total_length_known s1" "sl_total_length s3 = sl_total_length s1"
      "sl_highest_received_end s3 = max (sl_highest_received_end s1) e" "sl_key s3 = sl_key s1"
      "sl_active s3 = sl_active s1"
    using absorb_spec [OF _ bs e(1) _ al(1) al2 c refl] s1 by blast
  have "slot_abs s3 = \<lparr>dg_map = slot_map s3, dg_total = dg_total (slot_abs s1),
      dg_highest = sl_highest_received_end s3\<rparr>"
    using s3(4,5) by (simp add: slot_abs_def)
  then have "slot_abs s3 = d" using s1 s3(3,6) d' by simp
  then show ?thesis using g(1) s1 c s3 by metis
qed

lemma slot_insert_refused:
  assumes "dg_insert (slot_abs s) off bs mf = None" "e = off + length bs"
    "\<not> (sl_total_length_known s \<and> e > sl_total_length s)"
  shows "\<not> mf \<and> establish_total_length s e = (s, False)"
  using assms
  by (auto simp: dg_insert_def slot_abs_def Let_def establish_total_length_def split: if_splits)

section \<open>Lemmas: the table\<close>

definition rt_inv :: "ReassemblyTable \<Rightarrow> bool" where
  "rt_inv t \<longleftrightarrow> (\<forall>i < rt_capacity t. length (sl_data (rt_slots t i)) = 65515 \<and>
       (sl_active (rt_slots t i) \<longrightarrow> slot_inv (rt_slots t i))) \<and>
     (\<forall>i < rt_capacity t. \<forall>j < rt_capacity t. sl_active (rt_slots t i) \<longrightarrow> sl_active (rt_slots t j) \<longrightarrow>
        sl_key (rt_slots t i) = sl_key (rt_slots t j) \<longrightarrow> i = j)"

definition rt_abs :: "ReassemblyTable \<Rightarrow> ReassemblyKey \<Rightarrow> Datagram option" where
  "rt_abs t key = map_option (\<lambda>i. slot_abs (rt_slots t i))
     (find (\<lambda>i. sl_active (rt_slots t i) \<and> sl_key (rt_slots t i) = key) [0..<rt_capacity t])"

text \<open>Slot \<open>i\<close> is the only one that holds, or is about to hold, the datagram \<open>k\<close>.\<close>

definition reserved :: "ReassemblyTable \<Rightarrow> nat \<Rightarrow> ReassemblyKey \<Rightarrow> bool" where
  "reserved t i k \<longleftrightarrow> i < rt_capacity t \<and>
     (\<forall>j < rt_capacity t. sl_active (rt_slots t j) \<and> sl_key (rt_slots t j) = k \<longrightarrow> j = i) \<and>
     (sl_active (rt_slots t i) \<longrightarrow> sl_key (rt_slots t i) = k)"

lemma rt_inv_new: "rt_inv (new_ReassemblyTable cap timeout)"
  by (simp add: rt_inv_def new_ReassemblyTable_def default_Slot_def)

lemma rt_abs_new [simp]: "rt_abs (new_ReassemblyTable cap timeout) k = None"
  by (simp add: rt_abs_def new_ReassemblyTable_def default_Slot_def find_None_iff)

lemma rt_count_simps [simp]:
  "rt_slots (rt_count f t) = rt_slots t" "rt_capacity (rt_count f t) = rt_capacity t"
  "rt_inv (rt_count f t) = rt_inv t" "rt_abs (rt_count f t) = rt_abs t"
  "rt_set (rt_count f t) i s = rt_count f (rt_set t i s)" "reserved (rt_count f t) = reserved t"
  by (simp_all add: rt_count_def rt_inv_def rt_abs_def rt_set_def fun_eq_iff reserved_def)

lemma find_unique:
  assumes "i < n" "P i" "\<And>j. j < n \<Longrightarrow> P j \<Longrightarrow> j = i"
  shows "find P [0..<n] = Some i"
proof -
  have "\<not> P ([0..<n] ! j)" if "j < i" for j
    using assms(1) assms(3) [of j] that by auto
  moreover have "[0..<n] ! i = i" using assms(1) by simp
  ultimately show ?thesis unfolding find_Some_iff using assms(1,2) by (intro exI [of _ i]) simp
qed

lemma rt_abs_reserved:
  assumes "reserved t i k"
  shows "rt_abs t k = (if sl_active (rt_slots t i) then Some (slot_abs (rt_slots t i)) else None)"
proof (cases "sl_active (rt_slots t i)")
  case True
  then have "find (\<lambda>j. sl_active (rt_slots t j) \<and> sl_key (rt_slots t j) = k) [0..<rt_capacity t] = Some i"
    using assms by (intro find_unique) (auto simp: reserved_def)
  then show ?thesis using True by (simp add: rt_abs_def)
next
  case False
  then have "find (\<lambda>j. sl_active (rt_slots t j) \<and> sl_key (rt_slots t j) = k) [0..<rt_capacity t] = None"
    using assms by (auto simp: reserved_def find_None_iff)
  then show ?thesis using False by (simp add: rt_abs_def)
qed

lemma rt_set_reserved:
  assumes "rt_inv t" "reserved t i k" "length (sl_data s) = 65515"
    "sl_active s \<longrightarrow> sl_key s = k \<and> slot_inv s"
  shows "rt_inv (rt_set t i s) \<and> reserved (rt_set t i s) i k \<and>
    rt_abs (rt_set t i s) k = (if sl_active s then Some (slot_abs s) else None) \<and>
    (\<forall>k'. k' \<noteq> k \<longrightarrow> rt_abs (rt_set t i s) k' = rt_abs t k')"
proof -
  let ?t = "rt_set t i s"
  have sl: "rt_slots ?t j = (if j = i then s else rt_slots t j)" "rt_capacity ?t = rt_capacity t" for j
    by (simp_all add: rt_set_def)
  have r: "reserved ?t i k" using assms(2,4) by (auto simp: reserved_def sl)
  have inv: "rt_inv ?t"
    using assms unfolding rt_inv_def reserved_def sl by (smt (verit, best))
  have same: "find (\<lambda>j. sl_active (rt_slots ?t j) \<and> sl_key (rt_slots ?t j) = k') [0..<rt_capacity ?t]
      = find (\<lambda>j. sl_active (rt_slots t j) \<and> sl_key (rt_slots t j) = k') [0..<rt_capacity t]"
    if "k' \<noteq> k" for k'
  proof -
    have "sl_active (rt_slots ?t j) \<and> sl_key (rt_slots ?t j) = k'
        \<longleftrightarrow> sl_active (rt_slots t j) \<and> sl_key (rt_slots t j) = k'" for j
      using that assms(2,4) by (auto simp: sl reserved_def)
    then show ?thesis by (simp only: sl(2))
  qed
  have "rt_abs ?t k' = rt_abs t k'" if k': "k' \<noteq> k" for k'
  proof (cases "find (\<lambda>j. sl_active (rt_slots t j) \<and> sl_key (rt_slots t j) = k') [0..<rt_capacity t]")
    case None
    then show ?thesis using same [OF k'] by (simp add: rt_abs_def)
  next
    case (Some j)
    then have "sl_active (rt_slots t j)" "sl_key (rt_slots t j) = k'" by (auto simp: find_Some_iff)
    then have "j \<noteq> i" using assms(2) k' by (auto simp: reserved_def)
    then show ?thesis using same [OF k'] Some by (simp add: rt_abs_def sl)
  qed
  then show ?thesis using inv r rt_abs_reserved [OF r] by (simp add: sl)
qed

lemma find_loop_Inl:
  "find_loop slots key is av = Inl i \<Longrightarrow> i \<in> set is \<and> sl_active (slots i) \<and> sl_key (slots i) = key"
  by (induction slots key "is" av rule: find_loop.induct) (auto split: if_splits)

lemma find_loop_Inr:
  "find_loop slots key is av = Inr r \<Longrightarrow>
   (\<forall>i \<in> set is. \<not> (sl_active (slots i) \<and> sl_key (slots i) = key)) \<and>
   r = (case av of None \<Rightarrow> find (\<lambda>i. \<not> sl_active (slots i)) is | Some a \<Rightarrow> Some a)"
  by (induction slots key "is" av rule: find_loop.induct) (auto split: if_splits option.splits)

lemma find_or_create_full:
  assumes "find_or_create t k now = (t', None)"
  shows "t' = t \<and> rt_abs t k = None \<and> (\<forall>i < rt_capacity t. sl_active (rt_slots t i))"
proof -
  have "find_loop (rt_slots t) k [0..<rt_capacity t] None = Inr None" "t' = t"
    using assms by (auto simp: find_or_create_def split: sum.splits option.splits)
  then show ?thesis
    using find_loop_Inr [of "rt_slots t" k "[0..<rt_capacity t]" None None]
    by (auto simp: rt_abs_def find_None_iff find_None_iff2)
qed

lemma find_or_create_slot:
  assumes inv: "rt_inv t" and f: "find_or_create t k now = (t', Some i)"
  shows "rt_inv t' \<and> reserved t' i k \<and> sl_active (rt_slots t' i) \<and> sl_key (rt_slots t' i) = k \<and>
    slot_inv (rt_slots t' i) \<and>
    slot_abs (rt_slots t' i) = (case rt_abs t k of None \<Rightarrow> empty_dg | Some d \<Rightarrow> d) \<and>
    (\<forall>k'. k' \<noteq> k \<longrightarrow> rt_abs t' k' = rt_abs t k') \<and>
    (rt_abs t k = None \<longrightarrow> (\<exists>j < rt_capacity t. \<not> sl_active (rt_slots t j)))"
proof (cases "find_loop (rt_slots t) k [0..<rt_capacity t] None")
  case (Inl j)
  then have j: "t' = t" "j = i" using f by (auto simp: find_or_create_def)
  have a: "i < rt_capacity t" "sl_active (rt_slots t i)" "sl_key (rt_slots t i) = k"
    using find_loop_Inl [OF Inl] j by auto
  have r: "reserved t i k" using inv a unfolding reserved_def rt_inv_def by blast
  then show ?thesis using inv a j rt_abs_reserved [OF r] by (auto simp: rt_inv_def)
next
  case (Inr av)
  note none = find_loop_Inr [OF Inr]
  then have av: "find (\<lambda>i. \<not> sl_active (rt_slots t i)) [0..<rt_capacity t] = Some i" and
      t': "t' = rt_set t i (fresh_slot (rt_slots t i) k now)"
    using f Inr by (auto simp: find_or_create_def rt_set_def split: option.splits)
  have i: "i < rt_capacity t" "\<not> sl_active (rt_slots t i)" using av by (auto simp: find_Some_iff)
  have r: "reserved t i k" using none i by (auto simp: reserved_def)
  have len: "length (sl_data (rt_slots t i)) = 65515" using inv i by (simp add: rt_inv_def)
  let ?s = "fresh_slot (rt_slots t i) k now"
  have s: "sl_active ?s" "sl_key ?s = k" "length (sl_data ?s) = 65515"
    using len by (simp_all add: fresh_slot_def)
  have "rt_slots t' i = ?s" by (simp add: t' rt_set_def)
  then show ?thesis
    using rt_set_reserved [OF inv r s(3)] slot_inv_fresh [OF len, of k now] s i rt_abs_reserved [OF r] t'
    by auto
qed

lemma active_slots_full:
  "active_slots t = rt_capacity t \<longleftrightarrow> (\<forall>i < rt_capacity t. sl_active (rt_slots t i))"
proof -
  have "active_slots t = rt_capacity t
      \<longleftrightarrow> length (filter (\<lambda>i. sl_active (rt_slots t i)) [0..<rt_capacity t]) = length [0..<rt_capacity t]"
    by (simp add: active_slots_def)
  also have "\<dots> \<longleftrightarrow> (\<forall>i \<in> set [0..<rt_capacity t]. sl_active (rt_slots t i))"
    by (metis filter_id_conv length_filter_less nat_neq_iff filter_True)
  finally show ?thesis by auto
qed

text \<open>What a fragment header says, and the fragments that are refused before the table is looked at.\<close>

definition frag_offset :: "Ipv4Header \<Rightarrow> nat" where
  "frag_offset h = unat (ip_flags_fragment_offset h AND kIpv4FragmentOffsetMask) * 8"

definition frag_more :: "Ipv4Header \<Rightarrow> bool" where
  "frag_more h \<longleftrightarrow> ip_flags_fragment_offset h AND kIpv4FlagMoreFragments \<noteq> 0"

definition bad_fragment :: "Ipv4Header \<Rightarrow> byte list \<Rightarrow> bool" where
  "bad_fragment h bs \<longleftrightarrow> frag_more h \<and> (bs = [] \<or> length bs mod 8 \<noteq> 0) \<or>
     frag_offset h \<noteq> 0 \<and> bs = [] \<or> 65515 < frag_offset h + length bs"

lemma bad_fragment_code:
  "bad_fragment h bs \<longleftrightarrow> frag_more h \<and> (bs = [] \<or> length bs mod 8 \<noteq> 0) \<or>
     frag_offset h \<noteq> 0 \<and> bs = [] \<or> frag_offset h > kIpv4MaximumPayloadBytes \<or>
     length bs > kIpv4MaximumPayloadBytes - frag_offset h"
  by (auto simp: bad_fragment_def)

text \<open>The part of \<open>rt_insert\<close> that runs once a slot is found.\<close>

definition insert_at ::
  "ReassemblyTable \<Rightarrow> nat \<Rightarrow> nat \<Rightarrow> bool \<Rightarrow> byte list \<Rightarrow> 's reassembly_callback \<Rightarrow> 's
     \<Rightarrow> ReassemblyTable \<times> ReassemblyStatus \<times> 's" where
  "insert_at t index off mf bs cb ctx =
     (let e = off + length bs; slot = rt_slots t index in
      if sl_total_length_known slot \<and> e > sl_total_length slot
      then (rt_set (rt_count count_malformed t) index (release_slot slot), rs_malformed, ctx)
      else
        let (slot, established) = (if \<not> mf then establish_total_length slot e else (slot, True)) in
        if \<not> established
        then (rt_set (rt_count count_malformed t) index (release_slot slot), rs_malformed, ctx)
        else
          let (slot, copied) = copy_unreceived_bytes slot off bs;
              t = (if bs \<noteq> [] \<and> copied = 0
                   then rt_count (\<lambda>s. s\<lparr>rst_duplicate_fragments := rst_duplicate_fragments s + 1\<rparr>) t else t);
              t = rt_count (\<lambda>s. s\<lparr>rst_overlap_bytes_ignored := rst_overlap_bytes_ignored s +
                             of_nat (length bs - copied)\<rparr>) t;
              slot = slot\<lparr>sl_highest_received_end := max (sl_highest_received_end slot) e\<rparr>;
              (slot, ok) = subtract_received_range slot off e
          in if \<not> ok then (rt_set t index (release_slot slot), rs_hole_capacity_exhausted, ctx)
             else if \<not> is_complete slot then (rt_set t index slot, rs_pending, ctx)
             else
               let (ctx, accepted) = cb ctx (sl_key slot) (take (sl_total_length slot) (sl_data slot));
                   t = rt_set t index (release_slot slot)
               in if \<not> accepted then (t, rs_callback_rejected, ctx)
                  else (rt_count count_completed t, rs_complete, ctx))"

lemma rt_insert_unfold:
  "rt_insert t h bs now (Some cb) ctx =
     (if bad_fragment h bs then (rt_count count_malformed t, rs_malformed, ctx)
      else if frag_offset h = 0 \<and> \<not> frag_more h
      then (case cb ctx (key_of h) bs of (ctx, accepted) \<Rightarrow>
              if accepted then (rt_count count_completed t, rs_complete, ctx)
              else (t, rs_callback_rejected, ctx))
      else (case find_or_create t (key_of h) now of
              (t, None) \<Rightarrow> (rt_count (\<lambda>s. s\<lparr>rst_table_full := rst_table_full s + 1\<rparr>) t, rs_table_full, ctx)
            | (t, Some i) \<Rightarrow> insert_at t i (frag_offset h) (frag_more h) bs cb ctx))"
  unfolding rt_insert_def bad_fragment_code insert_at_def frag_offset_def frag_more_def Let_def
  by (simp only: option.case)

lemma release_slot_simps [simp]:
  "\<not> sl_active (release_slot s)" "sl_data (release_slot s) = sl_data s"
  by (simp_all add: release_slot_def)

lemma insert_at_spec:
  assumes inv: "rt_inv t" and r: "reserved t i k" "sl_active (rt_slots t i)" "sl_key (rt_slots t i) = k"
    and b: "bs \<noteq> []" "off + length bs \<le> 65515" "off mod 8 = 0" "mf \<longrightarrow> length bs mod 8 = 0"
    and ins: "insert_at t i off mf bs cb ctx = (t', st, ctx')"
  shows "rt_inv t' \<and> (\<forall>k'. k' \<noteq> k \<longrightarrow> rt_abs t' k' = rt_abs t k') \<and>
    (case dg_insert (slot_abs (rt_slots t i)) off bs mf of
       None \<Rightarrow> st = rs_malformed \<and> rt_abs t' k = None \<and> ctx' = ctx
     | Some d \<Rightarrow>
         if dg_complete d
         then rt_abs t' k = None \<and> fst (cb ctx k (dg_payload d)) = ctx' \<and>
              st = (if snd (cb ctx k (dg_payload d)) then rs_complete else rs_callback_rejected)
         else st = rs_pending \<and> rt_abs t' k = Some d \<and> ctx' = ctx)"
proof -
  let ?s = "rt_slots t i" and ?e = "off + length bs"
  have si: "slot_inv ?s" using inv r by (auto simp: rt_inv_def reserved_def)
  show ?thesis
  proof (cases "dg_insert (slot_abs ?s) off bs mf")
    case None
    have "insert_at t i off mf bs cb ctx
        = (rt_set (rt_count count_malformed t) i (release_slot ?s), rs_malformed, ctx)"
      using slot_insert_refused [OF None refl] by (auto simp: insert_at_def Let_def)
    then show ?thesis
      using ins None rt_set_reserved [OF inv r(1), of "release_slot ?s"] si
      by (auto simp: slot_inv_def)
  next
    case (Some d)
    obtain s1 s2 c s3 where g: "\<not> (sl_total_length_known ?s \<and> ?e > sl_total_length ?s)"
      and s1: "(if \<not> mf then establish_total_length ?s ?e else (?s, True)) = (s1, True)"
      and s2: "copy_unreceived_bytes s1 off bs = (s2, c)"
      and s3: "subtract_received_range (s2\<lparr>sl_highest_received_end := max (sl_highest_received_end s2) ?e\<rparr>)
                 off ?e = (s3, True)"
        "slot_inv s3" "slot_abs s3 = d" "sl_key s3 = k" "sl_active s3"
      using slot_insert_accepted [OF si b(1) refl b(2,3,4) Some] r(2,3) by blast
    note comp = is_complete_abs [OF s3(2), unfolded s3(3)]
    have len: "length (sl_data s3) = 65515" using s3(2) by (simp add: slot_inv_def)
    define t1 where "t1 = rt_count (\<lambda>s. s\<lparr>rst_overlap_bytes_ignored := rst_overlap_bytes_ignored s +
          of_nat (length bs - c)\<rparr>)
        (if bs \<noteq> [] \<and> c = 0
         then rt_count (\<lambda>s. s\<lparr>rst_duplicate_fragments := rst_duplicate_fragments s + 1\<rparr>) t else t)"
    have t1: "rt_inv t1" "reserved t1 i k" "rt_abs t1 = rt_abs t"
      using inv r(1) by (simp_all add: t1_def)
    have code: "insert_at t i off mf bs cb ctx =
       (if \<not> is_complete s3 then (rt_set t1 i s3, rs_pending, ctx)
        else (case cb ctx (sl_key s3) (take (sl_total_length s3) (sl_data s3)) of (ctx, accepted) \<Rightarrow>
          if \<not> accepted then (rt_set t1 i (release_slot s3), rs_callback_rejected, ctx)
          else (rt_count count_completed (rt_set t1 i (release_slot s3)), rs_complete, ctx)))"
      unfolding insert_at_def Let_def s1 using g
      by (simp only: prod.case s2 s3(1) if_False if_True simp_thms t1_def)
    show ?thesis
    proof (cases "dg_complete d")
      case False
      then show ?thesis
        using ins Some rt_set_reserved [OF t1(1,2) len] s3(2-5) t1(3) comp(1) by (auto simp: code)
    next
      case True
      then have "(case cb ctx k (dg_payload d) of (ctx, accepted) \<Rightarrow>
          if \<not> accepted then (rt_set t1 i (release_slot s3), rs_callback_rejected, ctx)
          else (rt_count count_completed (rt_set t1 i (release_slot s3)), rs_complete, ctx)) = (t', st, ctx')"
        using ins comp s3(4) by (simp add: code)
      then show ?thesis
        using Some True rt_set_reserved [OF t1(1,2), of "release_slot s3"] len t1(3)
        by (auto split: prod.splits if_splits)
    qed
  qed
qed

lemma rt_insert_fragment:
  assumes inv: "rt_inv t" and ok: "\<not> bad_fragment h bs" "frag_offset h \<noteq> 0 \<or> frag_more h"
    and room: "rt_abs t (key_of h) \<noteq> None \<or> active_slots t \<noteq> rt_capacity t"
    and ins: "rt_insert t h bs now (Some cb) ctx = (t', st, ctx')"
  shows "rt_inv t' \<and> (\<forall>k. k \<noteq> key_of h \<longrightarrow> rt_abs t' k = rt_abs t k) \<and>
    (case dg_insert (case rt_abs t (key_of h) of None \<Rightarrow> empty_dg | Some d \<Rightarrow> d)
            (frag_offset h) bs (frag_more h) of
       None \<Rightarrow> st = rs_malformed \<and> rt_abs t' (key_of h) = None \<and> ctx' = ctx
     | Some d \<Rightarrow>
         if dg_complete d
         then rt_abs t' (key_of h) = None \<and> fst (cb ctx (key_of h) (dg_payload d)) = ctx' \<and>
              st = (if snd (cb ctx (key_of h) (dg_payload d)) then rs_complete else rs_callback_rejected)
         else st = rs_pending \<and> rt_abs t' (key_of h) = Some d \<and> ctx' = ctx)"
proof -
  let ?k = "key_of h"
  have b: "bs \<noteq> []" "frag_offset h + length bs \<le> 65515" "frag_offset h mod 8 = 0"
      "frag_more h \<longrightarrow> length bs mod 8 = 0"
    using ok by (auto simp: bad_fragment_def frag_offset_def)
  obtain t1 j where f: "find_or_create t ?k now = (t1, j)" by fastforce
  show ?thesis
  proof (cases j)
    case None
    then show ?thesis
      using find_or_create_full [of t ?k now t1] f room active_slots_full [of t] by auto
  next
    case (Some i)
    note slot = find_or_create_slot [OF inv f [unfolded Some]]
    have "insert_at t1 i (frag_offset h) (frag_more h) bs cb ctx = (t', st, ctx')"
      using ins ok f Some by (auto simp: rt_insert_unfold)
    from insert_at_spec [OF _ _ _ _ b this, of ?k] slot
    show ?thesis by (simp split: option.splits if_splits)
  qed
qed

section \<open>Lemmas: expiry\<close>

definition slot_expired :: "ReassemblyTable \<Rightarrow> u64 \<Rightarrow> nat \<Rightarrow> bool" where
  "slot_expired t now i \<longleftrightarrow> sl_active (rt_slots t i) \<and> sl_created_at_ns (rt_slots t i) \<le> now \<and>
     rt_timeout_ns t \<le> now - sl_created_at_ns (rt_slots t i)"

lemma sweep_loop:
  "fold (sweep_slot now) [0..<n] (t, 0) =
     (t\<lparr>rt_slots := (\<lambda>i. if i < n \<and> slot_expired t now i then release_slot (rt_slots t i) else rt_slots t i),
        rt_statistics := (rt_statistics t)\<lparr>rst_timed_out := rst_timed_out (rt_statistics t) +
          of_nat (length (filter (slot_expired t now) [0..<n]))\<rparr>\<rparr>,
      length (filter (slot_expired t now) [0..<n]))"
proof (induction n)
  case (Suc n)
  then show ?case
    by (auto simp: sweep_slot_def [of now n] slot_expired_def rt_set_def rt_count_def Let_def fun_eq_iff
        less_Suc_eq)
qed simp

text \<open>The datagrams whose age has reached the timeout at a given time, in natural numbers.\<close>

definition overdue :: "ReassemblyTable \<Rightarrow> u64 \<Rightarrow> ReassemblyKey \<Rightarrow> bool" where
  "overdue t now k \<longleftrightarrow> (\<exists>i < rt_capacity t. sl_active (rt_slots t i) \<and> sl_key (rt_slots t i) = k \<and>
     unat (sl_created_at_ns (rt_slots t i)) + unat (rt_timeout_ns t) \<le> unat now)"

lemma slot_expired_nat:
  "slot_expired t now i \<longleftrightarrow> sl_active (rt_slots t i) \<and>
     unat (sl_created_at_ns (rt_slots t i)) + unat (rt_timeout_ns t) \<le> unat now"
  by (auto simp: slot_expired_def word_le_nat_alt unat_sub)

lemma overdue_iff: "overdue t now k \<longleftrightarrow> (\<exists>i < rt_capacity t. slot_expired t now i \<and> sl_key (rt_slots t i) = k)"
  by (auto simp: overdue_def slot_expired_nat)

lemma rt_abs_slot:
  assumes "rt_inv t" "i < rt_capacity t" "sl_active (rt_slots t i)" "sl_key (rt_slots t i) = k"
  shows "rt_abs t k = Some (slot_abs (rt_slots t i))"
proof -
  have "reserved t i k" using assms by (auto simp: reserved_def rt_inv_def)
  then show ?thesis using assms(3) by (simp add: rt_abs_reserved)
qed

lemma rt_abs_None:
  "rt_abs t k = None \<longleftrightarrow> (\<forall>i < rt_capacity t. \<not> (sl_active (rt_slots t i) \<and> sl_key (rt_slots t i) = k))"
  by (auto simp: rt_abs_def find_None_iff)

text \<open>A table some of whose slots were released.\<close>

lemma rt_abs_release:
  assumes inv: "rt_inv t" and inv': "rt_inv t'" and cap: "rt_capacity t' = rt_capacity t"
    and act: "\<And>i. i < rt_capacity t \<Longrightarrow> sl_active (rt_slots t' i) \<longleftrightarrow> sl_active (rt_slots t i) \<and> \<not> E i"
    and kept: "\<And>i. \<not> E i \<Longrightarrow> rt_slots t' i = rt_slots t i"
    and E: "\<And>i. E i \<Longrightarrow> sl_active (rt_slots t i)"
  shows "rt_abs t' k = (if \<exists>i < rt_capacity t. E i \<and> sl_key (rt_slots t i) = k then None else rt_abs t k)"
proof (cases "rt_abs t' k")
  case None
  then have none: "\<not> (sl_active (rt_slots t' i) \<and> sl_key (rt_slots t' i) = k)" if "i < rt_capacity t" for i
    using that cap by (simp add: rt_abs_None)
  have "rt_abs t k = None" if "\<not> (\<exists>i < rt_capacity t. E i \<and> sl_key (rt_slots t i) = k)"
    unfolding rt_abs_None using none that kept by metis
  then show ?thesis using None by auto
next
  case (Some d)
  then obtain i where i: "i < rt_capacity t" "sl_active (rt_slots t' i)" "sl_key (rt_slots t' i) = k"
    using rt_abs_None [of t' k] cap by auto
  then have ne: "\<not> E i" "sl_active (rt_slots t i)" using act by auto
  then have k: "sl_key (rt_slots t i) = k" using i(3) kept by metis
  have "rt_abs t' k = rt_abs t k"
    using rt_abs_slot [OF inv' _ i(2,3)] rt_abs_slot [OF inv i(1) ne(2) k] kept [OF ne(1)] i(1) cap by simp
  moreover have "j = i" if "j < rt_capacity t" "E j" "sl_key (rt_slots t j) = k" for j
    using inv that i(1) ne(2) k E by (auto simp: rt_inv_def)
  ultimately show ?thesis using ne(1) by auto
qed

lemma card_expired:
  assumes "rt_inv t"
  shows "length (filter (slot_expired t now) [0..<rt_capacity t]) = card {k. overdue t now k}"
proof -
  let ?I = "{i. i < rt_capacity t \<and> slot_expired t now i}"
  have "inj_on (\<lambda>i. sl_key (rt_slots t i)) ?I"
    using assms by (auto simp: inj_on_def rt_inv_def slot_expired_def)
  moreover have "{k. overdue t now k} = (\<lambda>i. sl_key (rt_slots t i)) ` ?I" by (auto simp: overdue_iff)
  ultimately show ?thesis by (simp add: card_image length_filter_conv_card cong: conj_cong)
qed

section \<open>Properties\<close>

text \<open>
  Claim C8. Reassembly refines a map from keys to partial datagrams. A fragment changes nothing but
  the datagram of its own key (source, destination, identification, protocol). A malformed fragment
  (empty, not a multiple of eight bytes before the last, or beyond 65515 bytes) and a full table leave
  the datagrams as they were. Otherwise the fragment's bytes are added where nothing was received
  before (first arrival wins), a fragment that contradicts the known length discards the datagram, and
  the datagram is handed to the callback exactly when every byte of it has arrived, with its
  bytes in order, and then forgotten. The array of holes never overflows.
\<close>

theorem reassembly_insert_refines:
  assumes "rt_inv t" "rt_insert t h bs now (Some cb) ctx = (t', st, ctx')"
  shows "rt_inv t' \<and> st \<noteq> rs_hole_capacity_exhausted \<and>
    (\<forall>k. k \<noteq> key_of h \<longrightarrow> rt_abs t' k = rt_abs t k) \<and>
    (if bad_fragment h bs then st = rs_malformed \<and> rt_abs t' = rt_abs t \<and> ctx' = ctx
     else if frag_offset h = 0 \<and> \<not> frag_more h
     then rt_abs t' = rt_abs t \<and> ctx' = fst (cb ctx (key_of h) bs) \<and>
          st = (if snd (cb ctx (key_of h) bs) then rs_complete else rs_callback_rejected)
     else if rt_abs t (key_of h) = None \<and> active_slots t = rt_capacity t
     then st = rs_table_full \<and> rt_abs t' = rt_abs t \<and> ctx' = ctx
     else case dg_insert (case rt_abs t (key_of h) of None \<Rightarrow> empty_dg | Some d \<Rightarrow> d)
                 (frag_offset h) bs (frag_more h) of
            None \<Rightarrow> st = rs_malformed \<and> rt_abs t' (key_of h) = None \<and> ctx' = ctx
          | Some d \<Rightarrow>
              if dg_complete d
              then rt_abs t' (key_of h) = None \<and> ctx' = fst (cb ctx (key_of h) (dg_payload d)) \<and>
                   st = (if snd (cb ctx (key_of h) (dg_payload d)) then rs_complete
                         else rs_callback_rejected)
              else st = rs_pending \<and> rt_abs t' (key_of h) = Some d \<and> ctx' = ctx)"
proof -
  let ?k = "key_of h"
  consider "bad_fragment h bs" | "\<not> bad_fragment h bs" "frag_offset h = 0" "\<not> frag_more h"
    | "\<not> bad_fragment h bs" "frag_offset h \<noteq> 0 \<or> frag_more h"
        "rt_abs t ?k = None" "active_slots t = rt_capacity t"
    | "\<not> bad_fragment h bs" "frag_offset h \<noteq> 0 \<or> frag_more h"
        "rt_abs t ?k \<noteq> None \<or> active_slots t \<noteq> rt_capacity t"
    by blast
  then show ?thesis
  proof cases
    case 1
    then show ?thesis using assms by (auto simp: rt_insert_unfold)
  next
    case 2
    then show ?thesis using assms by (auto simp: rt_insert_unfold split: prod.splits if_splits)
  next
    case 3
    obtain t1 j where f: "find_or_create t ?k now = (t1, j)" by fastforce
    have "\<forall>i < rt_capacity t. sl_active (rt_slots t i)" using 3(4) active_slots_full by blast
    then have "j = None"
      using find_or_create_slot [OF assms(1), of ?k now t1] f 3(3) by (cases j) fastforce+
    then show ?thesis
      using assms 3 f find_or_create_full [of t ?k now t1] by (auto simp: rt_insert_unfold)
  next
    case 4
    then show ?thesis
      using rt_insert_fragment [OF assms(1) 4 assms(2)] by (auto split: option.splits if_splits)
  qed
qed

theorem reassembly_insert_refines_witness:
  "let h = default_Ipv4Header\<lparr>ip_flags_fragment_offset := 0x2000, ip_identification := 7\<rparr>
   in fst (snd (rt_insert (new_ReassemblyTable 4 9) h (replicate 8 1) 5
        (Some (\<lambda>log k bs. (log @ [(k, bs)], True))) [])) = rs_pending"
proof -
  define h where "h = default_Ipv4Header\<lparr>ip_flags_fragment_offset := 0x2000, ip_identification := 7\<rparr>"
  let ?cb = "\<lambda>log k bs. (log @ [(k, bs)], True)" and ?t = "new_ReassemblyTable 4 9"
  obtain t' st c where r: "rt_insert ?t h (replicate 8 1) 5 (Some ?cb) [] = (t', st, c)"
    by (cases "rt_insert ?t h (replicate 8 1) 5 (Some ?cb) []")
  have h: "frag_offset h = 0" "frag_more h" "\<not> bad_fragment h (replicate 8 1)"
    by (simp_all add: h_def frag_offset_def frag_more_def bad_fragment_def kIpv4FragmentOffsetMask_def
        kIpv4FlagMoreFragments_def)
  have full: "active_slots ?t \<noteq> rt_capacity ?t"
    by (simp add: active_slots_def new_ReassemblyTable_def default_Slot_def)
  obtain d where d: "dg_insert empty_dg 0 (replicate 8 1) True = Some d" "dg_total d = None"
    by (simp add: dg_insert_def empty_dg_def)
  then have "st = rs_pending"
    using reassembly_insert_refines [OF rt_inv_new r] h full by (auto simp: dg_complete_def)
  then show ?thesis using r by (simp add: Let_def h_def)
qed

text \<open>
  Claim C23. The sweep forgets exactly the datagrams whose age has reached the timeout, so that a later fragment with
  such a key begins a new datagram, and keeps every other datagram byte for byte, also one created after the given
  time. Each forgotten datagram frees one slot and is counted once, in the result and in the statistics.
\<close>

theorem sweep_expires_exactly:
  assumes inv: "rt_inv t" and s: "rt_sweep t now = (t', n)"
  shows "rt_inv t' \<and> rt_capacity t' = rt_capacity t \<and> rt_timeout_ns t' = rt_timeout_ns t \<and>
    rt_abs t' = (\<lambda>k. if overdue t now k then None else rt_abs t k) \<and>
    n = card {k. overdue t now k} \<and> active_slots t' + n = active_slots t \<and>
    rt_statistics t' = (rt_statistics t)\<lparr>rst_timed_out := rst_timed_out (rt_statistics t) + of_nat n\<rparr>"
proof -
  let ?E = "\<lambda>i. i < rt_capacity t \<and> slot_expired t now i"
  have n: "n = length (filter (slot_expired t now) [0..<rt_capacity t])"
    and t': "t' = t\<lparr>rt_slots := (\<lambda>i. if ?E i then release_slot (rt_slots t i) else rt_slots t i),
      rt_statistics := (rt_statistics t)\<lparr>rst_timed_out := rst_timed_out (rt_statistics t) + of_nat n\<rparr>\<rparr>"
    using s sweep_loop [of now "rt_capacity t" t] by (auto simp: rt_sweep_def)
  have act: "sl_active (rt_slots t' i) \<longleftrightarrow> sl_active (rt_slots t i) \<and> \<not> ?E i" for i by (simp add: t')
  have kept: "\<not> ?E i \<Longrightarrow> rt_slots t' i = rt_slots t i" for i by (auto simp: t')
  have cap: "rt_capacity t' = rt_capacity t" by (simp add: t')
  have data: "sl_data (rt_slots t' i) = sl_data (rt_slots t i)" for i by (simp add: t')
  have same: "rt_slots t' i = rt_slots t i" "sl_active (rt_slots t i)" if "sl_active (rt_slots t' i)" for i
    using that act [of i] kept [of i] by simp_all
  have inv': "rt_inv t'"
    unfolding rt_inv_def cap data
  proof (intro conjI allI impI)
    fix i j assume "i < rt_capacity t" "j < rt_capacity t" "sl_active (rt_slots t' i)" "sl_active (rt_slots t' j)"
      "sl_key (rt_slots t' i) = sl_key (rt_slots t' j)"
    then show "i = j" using inv same [of i] same [of j] by (simp add: rt_inv_def)
  next
    fix i assume "i < rt_capacity t" "sl_active (rt_slots t' i)"
    then show "slot_inv (rt_slots t' i)" using inv same [of i] by (simp add: rt_inv_def)
  qed (use inv in \<open>simp add: rt_inv_def\<close>)
  have "rt_abs t' k = (if overdue t now k then None else rt_abs t k)" for k
  proof -
    have "overdue t now k \<longleftrightarrow> (\<exists>i < rt_capacity t. ?E i \<and> sl_key (rt_slots t i) = k)" by (auto simp: overdue_iff)
    moreover have "?E i \<Longrightarrow> sl_active (rt_slots t i)" for i by (simp add: slot_expired_def)
    ultimately show ?thesis using rt_abs_release [where E = ?E, OF inv inv' cap act kept] by simp
  qed
  note abs = this
  have "filter (\<lambda>i. sl_active (rt_slots t' i)) [0..<m] =
      filter (\<lambda>i. \<not> ?E i) (filter (\<lambda>i. sl_active (rt_slots t i)) [0..<m])" for m
    by (simp add: act conj_commute)
  moreover have "filter (slot_expired t now) [0..<rt_capacity t] =
      filter ?E (filter (\<lambda>i. sl_active (rt_slots t i)) [0..<rt_capacity t])"
    by (auto simp: slot_expired_def intro: filter_cong)
  ultimately have "active_slots t' + n = active_slots t"
    using sum_length_filter_compl [of ?E "filter (\<lambda>i. sl_active (rt_slots t i)) [0..<rt_capacity t]"]
    by (simp only: active_slots_def cap n)
  then show ?thesis
    using inv' cap card_expired [OF inv, of now] n abs by (simp add: fun_eq_iff) (simp add: t')
qed

theorem sweep_expires_exactly_witness:
  "let k = \<lparr>rk_source = 1, rk_destination = 2, rk_identification = 3, rk_protocol = 17\<rparr>;
       t = fst (find_or_create (new_ReassemblyTable 2 9) k 5)
   in rt_abs t k = Some empty_dg \<and> snd (rt_sweep t 14) = 1 \<and> rt_abs (fst (rt_sweep t 14)) k = None \<and>
      snd (rt_sweep t 13) = 0 \<and> rt_abs (fst (rt_sweep t 13)) k = Some empty_dg"
proof -
  let ?k = "\<lparr>rk_source = 1, rk_destination = 2, rk_identification = 3, rk_protocol = 17\<rparr>"
  obtain t i where f: "find_or_create (new_ReassemblyTable 2 9) ?k 5 = (t, Some i)"
    by (simp add: find_or_create_def new_ReassemblyTable_def default_Slot_def upt_rec)
  have t: "rt_capacity t = 2" "rt_timeout_ns t = 9" "\<And>j. sl_active (rt_slots t j) \<longleftrightarrow> j = 0"
    "sl_key (rt_slots t 0) = ?k" "sl_created_at_ns (rt_slots t 0) = 5"
    using f by (auto simp: find_or_create_def new_ReassemblyTable_def default_Slot_def fresh_slot_def upt_rec split: if_splits)
  note slot = find_or_create_slot [OF rt_inv_new f]
  have abs: "rt_abs t ?k = Some empty_dg" using slot rt_abs_new rt_abs_slot [of t i ?k] by (auto simp: reserved_def)
  have o: "{k. overdue t 14 k} = {?k}" "{k. overdue t 13 k} = {}" by (auto simp: overdue_def t)
  obtain t1 n1 t2 n2 where s: "rt_sweep t 14 = (t1, n1)" "rt_sweep t 13 = (t2, n2)" by fastforce
  have "overdue t 14 ?k" "\<not> overdue t 13 ?k" using o by auto
  then show ?thesis
    using sweep_expires_exactly [OF _ s(1)] sweep_expires_exactly [OF _ s(2)] slot abs o by (simp add: f s)
qed

end
