(* ===== verification/Fragment_Reassembly.thy ===== *)
theory Fragment_Reassembly
  imports Fragmentation Reassembly
begin

text \<open>
  Fragmentation and reassembly together: whatever the order in which the fragments of a payload
  arrive, and however often each of them arrives, the reassembly table delivers the payload once, when
  the last missing fragment comes in.

  \<open>receive_fragment\<close> is what a receiver does with a packet: parse it and, when it is valid, hand it
  to the reassembly table.
\<close>

definition receive_fragment ::
  "'s reassembly_callback \<Rightarrow> u64 \<times> byte list \<Rightarrow> ReassemblyTable \<times> 's
     \<Rightarrow> (ReassemblyTable \<times> 's) \<times> ReassemblyStatus" where
  "receive_fragment cb p st =
     (case parse_ipv4_packet (snd p) of (status, v) \<Rightarrow>
        if status = ip_ok
        then (case rt_insert (fst st) (pv_header v) (pv_payload v) (fst p) (Some cb) (snd st) of
                (t, r, ctx) \<Rightarrow> ((t, ctx), r))
        else (st, rs_malformed))"

fun receive_all ::
  "'s reassembly_callback \<Rightarrow> (u64 \<times> byte list) list \<Rightarrow> ReassemblyTable \<times> 's
     \<Rightarrow> (ReassemblyTable \<times> 's) \<times> ReassemblyStatus list" where
  "receive_all cb [] st = (st, [])"
| "receive_all cb (p # ps) st =
     (case receive_fragment cb p st of (st', r) \<Rightarrow>
        case receive_all cb ps st' of (st'', rs) \<Rightarrow> (st'', r # rs))"

section \<open>Partial datagrams made of slices of one payload\<close>

definition frag_range :: "fragment \<Rightarrow> nat set" where
  "frag_range f = {fg_offset f..<fg_offset f + length (fg_bytes f)}"

definition dg_of :: "byte list \<Rightarrow> fragment set \<Rightarrow> Datagram" where
  "dg_of payload F =
     \<lparr>dg_map = (\<lambda>n. if n \<in> \<Union>(frag_range ` F) then Some (payload ! n) else None),
      dg_total = (if \<exists>f \<in> F. \<not> fg_more f then Some (length payload) else None),
      dg_highest = Max (insert 0 ((\<lambda>f. fg_offset f + length (fg_bytes f)) ` F))\<rparr>"

lemma dg_of_empty: "dg_of payload {} = empty_dg"
  by (simp add: dg_of_def empty_dg_def)

lemma frag_map_slice:
  assumes "slice_of payload f"
  shows "frag_map (fg_offset f) (fg_bytes f) n = (if n \<in> frag_range f then Some (payload ! n) else None)"
proof (cases "n \<in> frag_range f")
  case True
  let ?k = "length (fg_bytes f)"
  have n: "fg_offset f \<le> n" "n < fg_offset f + ?k" using True by (auto simp: frag_range_def)
  have "fg_bytes f ! (n - fg_offset f) = take ?k (drop (fg_offset f) payload) ! (n - fg_offset f)"
    using assms unfolding slice_of_def by metis
  also have "\<dots> = payload ! (fg_offset f + (n - fg_offset f))"
    using n assms by (subst nth_take, simp, subst nth_drop) (auto simp: slice_of_def)
  also have "\<dots> = payload ! n" using n by simp
  finally show ?thesis using n True by (simp add: frag_map_def)
qed (auto simp: frag_map_def frag_range_def)

lemma dg_insert_slice:
  assumes "finite F" "\<forall>g \<in> F. slice_of payload g" "slice_of payload f"
  shows "dg_insert (dg_of payload F) (fg_offset f) (fg_bytes f) (fg_more f)
           = Some (dg_of payload (insert f F))"
proof -
  let ?e = "fg_offset f + length (fg_bytes f)"
  let ?H = "insert 0 ((\<lambda>f. fg_offset f + length (fg_bytes f)) ` F)"
  have e: "?e \<le> length payload" "fg_more f \<longleftrightarrow> ?e < length payload" using assms(3) by (auto simp: slice_of_def)
  have "Max ?H \<le> length payload" using assms(1,2) by (auto simp: slice_of_def)
  moreover have "max (Max ?H) ?e = Max (insert 0 ((\<lambda>f. fg_offset f + length (fg_bytes f)) ` insert f F))"
    using assms(1) by (simp add: insert_commute [of 0] max.commute)
  moreover have "frag_map (fg_offset f) (fg_bytes f) ++ dg_map (dg_of payload F)
      = dg_map (dg_of payload (insert f F))"
    by (rule ext) (auto simp: map_add_def dg_of_def frag_map_slice [OF assms(3)])
  ultimately show ?thesis
    using e by (auto simp: dg_insert_def Let_def dg_of_def)
qed

lemma contiguous_range:
  "contiguous lo fs \<Longrightarrow> \<Union>(frag_range ` set fs) = {lo..<lo + length (concat (map fg_bytes fs))}"
proof (induction fs arbitrary: lo)
  case (Cons f fs)
  let ?m = "fg_offset f + length (fg_bytes f)"
  have "\<Union>(frag_range ` set fs) = {?m..<?m + length (concat (map fg_bytes fs))}"
    using Cons by simp
  moreover have "{lo..<?m} \<union> {?m..<?m + k} = {lo..<?m + k}" for k using Cons.prems by auto
  ultimately show ?case using Cons.prems by (simp add: frag_range_def add.assoc)
qed simp

lemma contiguous_above: "contiguous lo fs \<Longrightarrow> f \<in> set fs \<Longrightarrow> lo \<le> fg_offset f"
  by (induction fs arbitrary: lo) force+

lemma contiguous_disjoint:
  "contiguous lo fs \<Longrightarrow> f \<in> set fs \<Longrightarrow> g \<in> set fs \<Longrightarrow> x \<in> frag_range f \<Longrightarrow> x \<in> frag_range g \<Longrightarrow> f = g"
proof (induction fs arbitrary: lo)
  case (Cons a fs)
  have above: "h \<in> set fs \<Longrightarrow> fg_offset a + length (fg_bytes a) \<le> fg_offset h" for h
    using contiguous_above Cons.prems(1) by fastforce
  consider "f = a" "g = a" | "f = a" "g \<in> set fs" | "f \<in> set fs" "g = a" | "f \<in> set fs" "g \<in> set fs"
    using Cons.prems by auto
  then show ?case
  proof cases
    case 4
    then show ?thesis using Cons by auto
  qed (use Cons.prems above in \<open>fastforce simp: frag_range_def\<close>)+
qed simp

lemma dg_complete_iff:
  assumes "contiguous 0 fs" "concat (map fg_bytes fs) = payload" "payload \<noteq> []"
    "\<forall>f \<in> set fs. slice_of payload f \<and> fg_bytes f \<noteq> []" "F \<subseteq> set fs"
  shows "dg_complete (dg_of payload F) \<longleftrightarrow> F = set fs"
proof
  have all: "\<Union>(frag_range ` set fs) = {..<length payload}"
    using contiguous_range [OF assms(1)] assms(2) by (simp add: atLeast0LessThan)
  have dom: "dom (dg_map (dg_of payload F)) = \<Union>(frag_range ` F)" by (auto simp: dg_of_def split: if_splits)
  show "F = set fs" if c: "dg_complete (dg_of payload F)"
  proof (rule ccontr)
    assume "F \<noteq> set fs"
    then obtain f where f: "f \<in> set fs" "f \<notin> F" using assms(5) by blast
    then have x: "fg_offset f \<in> frag_range f" using assms(4) by (simp add: frag_range_def)
    then have "fg_offset f \<in> {..<length payload}" using all f(1) by blast
    then have "fg_offset f \<in> \<Union>(frag_range ` F)"
      using c unfolding dg_complete_def dom by (auto simp: dg_of_def split: if_splits)
    then obtain g where "g \<in> F" "fg_offset f \<in> frag_range g" by blast
    then show False using contiguous_disjoint [OF assms(1) f(1) _ x] assms(5) f(2) by blast
  qed
  assume F: "F = set fs"
  have "length payload - 1 \<in> \<Union>(frag_range ` set fs)" using all assms(3) by simp
  then obtain f where "f \<in> set fs" "length payload - 1 \<in> frag_range f" by blast
  then have "\<not> fg_more f" using assms(4) by (auto simp: frag_range_def slice_of_def)
  then show "dg_complete (dg_of payload F)"
    using \<open>f \<in> set fs\<close> F all dom by (auto simp: dg_complete_def dg_of_def)
qed

lemma dg_payload_of:
  assumes "dg_complete (dg_of payload F)"
  shows "dg_payload (dg_of payload F) = payload"
proof -
  have t: "dg_total (dg_of payload F) = Some (length payload)"
      "dom (dg_map (dg_of payload F)) = {..<length payload}"
    using assms by (auto simp: dg_complete_def dg_of_def split: if_splits)
  have "the (dg_map (dg_of payload F) n) = payload ! n" if "n < length payload" for n
  proof -
    have "n \<in> dom (dg_map (dg_of payload F))" using that t(2) by simp
    then show ?thesis by (auto simp: dg_of_def)
  qed
  then show ?thesis using t(1) by (intro nth_equalityI) (auto simp: dg_payload_def)
qed


section \<open>Receiving the fragments\<close>

lemma receive_slice:
  assumes inv: "rt_inv t" and f: "slice_of payload f" "fg_bytes f \<noteq> []"
      "fg_more f \<or> fg_offset f \<noteq> 0"
    and len: "length payload \<le> 65515"
    and F: "finite F" "\<forall>g \<in> F. slice_of payload g"
    and abs: "rt_abs t (key_of h) = (if F = {} then None else Some (dg_of payload F))"
    and room: "F \<noteq> {} \<or> active_slots t \<noteq> rt_capacity t"
    and r: "receive_fragment cb (now, fragment_packet h f) (t, ctx) = ((t', ctx'), st)"
  shows "rt_inv t' \<and> (\<forall>k. k \<noteq> key_of h \<longrightarrow> rt_abs t' k = rt_abs t k) \<and>
    (if dg_complete (dg_of payload (insert f F))
     then rt_abs t' (key_of h) = None \<and> ctx' = fst (cb ctx (key_of h) payload) \<and>
          st = (if snd (cb ctx (key_of h) payload) then rs_complete else rs_callback_rejected)
     else st = rs_pending \<and> rt_abs t' (key_of h) = Some (dg_of payload (insert f F)) \<and> ctx' = ctx)"
proof -
  obtain v where v: "parse_ipv4_packet (fragment_packet h f) = (ip_ok, v)" "pv_payload v = fg_bytes f"
      "key_of (pv_header v) = key_of h" "frag_offset (pv_header v) = fg_offset f"
      "frag_more (pv_header v) = fg_more f"
    using fragment_packet_parsed [OF f(1) len, of h]
    by (auto simp: key_of_def frag_offset_def frag_more_def mult.commute)
  have ins: "rt_insert t (pv_header v) (fg_bytes f) now (Some cb) ctx = (t', st, ctx')"
    using r v(1,2) by (auto simp: receive_fragment_def split: prod.splits)
  have ok: "\<not> bad_fragment (pv_header v) (fg_bytes f)"
    using f len by (auto simp: bad_fragment_def v slice_of_def)
  have d: "(case rt_abs t (key_of h) of None \<Rightarrow> empty_dg | Some d \<Rightarrow> d) = dg_of payload F"
    using abs by (auto simp: dg_of_empty)
  have c1: "frag_offset (pv_header v) \<noteq> 0 \<or> frag_more (pv_header v)" using f(3) by (auto simp: v)
  have c2: "rt_abs t (key_of (pv_header v)) \<noteq> None \<or> active_slots t \<noteq> rt_capacity t"
    using room abs by (auto simp: v)
  note R = rt_insert_fragment [OF inv ok c1 c2 ins, unfolded v(3-5) d dg_insert_slice [OF F f(1)]
      option.case]
  show ?thesis
  proof (cases "dg_complete (dg_of payload (insert f F))")
    case True
    then show ?thesis using R dg_payload_of [OF True] by simp
  next
    case False
    then show ?thesis using R by simp
  qed
qed

lemma receive_until_last:
  assumes fs: "contiguous 0 fs" "concat (map fg_bytes fs) = payload" "payload \<noteq> []"
      "\<forall>f \<in> set fs. slice_of payload f \<and> fg_bytes f \<noteq> [] \<and> (fg_more f \<or> fg_offset f \<noteq> 0)"
    and len: "length payload \<le> 65515"
    and inv: "rt_inv t" and F: "F \<subseteq> set fs" "l \<notin> F" "l \<in> set fs"
    and arr: "\<forall>(now, f) \<in> set arrivals. f \<in> set fs \<and> f \<noteq> l"
    and all: "F \<union> snd ` set arrivals \<union> {l} = set fs"
    and abs: "rt_abs t (key_of h) = (if F = {} then None else Some (dg_of payload F))"
    and room: "F \<noteq> {} \<or> active_slots t \<noteq> rt_capacity t"
  shows "\<exists>t'. receive_all cb (map (\<lambda>(now, f). (now, fragment_packet h f)) (arrivals @ [(now, l)])) (t, ctx)
      = ((t', fst (cb ctx (key_of h) payload)),
         replicate (length arrivals) rs_pending @
           [if snd (cb ctx (key_of h) payload) then rs_complete else rs_callback_rejected]) \<and>
    rt_inv t' \<and> rt_abs t' (key_of h) = None \<and> (\<forall>k. k \<noteq> key_of h \<longrightarrow> rt_abs t' k = rt_abs t k)"
  using inv F arr all abs room
proof (induction arrivals arbitrary: t F)
  case Nil
  note comp = dg_complete_iff [OF fs(1-3)]
  have "finite F" using Nil.prems(2) finite_subset by blast
  obtain t' ctx' st where r: "receive_fragment cb (now, fragment_packet h l) (t, ctx) = ((t', ctx'), st)"
    by (metis prod.exhaust)
  have "insert l F = set fs" using Nil.prems by auto
  then have "dg_complete (dg_of payload (insert l F))" using comp fs(4) by auto
  moreover have sl: "\<forall>g \<in> F. slice_of payload g" using fs(4) Nil.prems(2) by auto
  ultimately show ?case
    using receive_slice [OF Nil.prems(1) _ _ _ len \<open>finite F\<close> sl Nil.prems(7,8) r] fs(4) Nil.prems(4) r
    by auto
next
  case (Cons a arrivals)
  obtain now1 f where a: "a = (now1, f)" by fastforce
  have f: "f \<in> set fs" "f \<noteq> l" using Cons.prems(5) a by auto
  have fin: "finite F" using Cons.prems(2) finite_subset by blast
  obtain t1 ctx1 st where r: "receive_fragment cb (now1, fragment_packet h f) (t, ctx) = ((t1, ctx1), st)"
    by (metis prod.exhaust)
  have "insert f F \<noteq> set fs" using Cons.prems(3,4) f by auto
  then have nc: "\<not> dg_complete (dg_of payload (insert f F))"
    using dg_complete_iff [OF fs(1-3), of "insert f F"] fs(4) f Cons.prems(2) by auto
  have sl: "\<forall>g \<in> F. slice_of payload g" using fs(4) Cons.prems(2) by auto
  have s: "rt_inv t1" "\<forall>k. k \<noteq> key_of h \<longrightarrow> rt_abs t1 k = rt_abs t k" "st = rs_pending"
      "rt_abs t1 (key_of h) = Some (dg_of payload (insert f F))" "ctx1 = ctx"
    using receive_slice [OF Cons.prems(1) _ _ _ len fin sl Cons.prems(7,8) r] fs(4) f nc by auto
  have "\<exists>t'. receive_all cb (map (\<lambda>(now, f). (now, fragment_packet h f)) (arrivals @ [(now, l)])) (t1, ctx)
      = ((t', fst (cb ctx (key_of h) payload)),
         replicate (length arrivals) rs_pending @
           [if snd (cb ctx (key_of h) payload) then rs_complete else rs_callback_rejected]) \<and>
    rt_inv t' \<and> rt_abs t' (key_of h) = None \<and> (\<forall>k. k \<noteq> key_of h \<longrightarrow> rt_abs t' k = rt_abs t1 k)"
    using s f Cons.prems a by (intro Cons.IH [of t1 "insert f F"]) auto
  then show ?case using r s a by auto
qed

section \<open>Property\<close>

text \<open>
  Claim C4. Fragmentation and reassembly are inverse to each other in any order of arrival. A payload
  is split for an MTU it does not fit into; its fragments arrive in any order and with any number of
  duplicates, at a table that has a free slot and no datagram of the same key. Then every arrival
  before the last missing fragment is pending, the last one completes the datagram, the callback
  gets exactly the payload and is called once, and the table holds what it held before.
\<close>

theorem fragments_reassemble_in_any_order:
  assumes "28 \<le> mtu" "mtu - 20 < length payload" "length payload \<le> 65515"
    and "rt_inv t" "rt_abs t (key_of h) = None" "active_slots t \<noteq> rt_capacity t"
    and "\<forall>(now, f) \<in> set arrivals. f \<in> set (fragments payload mtu) \<and> f \<noteq> l"
    and "snd ` set arrivals \<union> {l} = set (fragments payload mtu)"
  shows "\<exists>t'. receive_all (\<lambda>log k bs. (log @ [(k, bs)], True))
      (map (\<lambda>(now, f). (now, fragment_packet h f)) (arrivals @ [(now, l)])) (t, []) =
      ((t', [(key_of h, payload)]), replicate (length arrivals) rs_pending @ [rs_complete]) \<and>
    rt_inv t' \<and> rt_abs t' = rt_abs t"
proof -
  let ?fs = "fragments payload mtu"
  have ne: "payload \<noteq> []" using assms(2) by auto
  note part = fragments_partition [OF assms(1), of payload]
  have "fg_more f \<or> fg_offset f \<noteq> 0" if "f \<in> set ?fs" for f
  proof -
    have "slice_of payload f" "20 + length (fg_bytes f) \<le> mtu" using part that by auto
    then show ?thesis using assms(2) by (auto simp: slice_of_def)
  qed
  then have fs: "contiguous 0 ?fs" "concat (map fg_bytes ?fs) = payload"
      "\<forall>f \<in> set ?fs. slice_of payload f \<and> fg_bytes f \<noteq> [] \<and> (fg_more f \<or> fg_offset f \<noteq> 0)"
    using part ne by auto
  have l: "l \<in> set ?fs" using assms(8) by blast
  obtain t' where r: "receive_all (\<lambda>log k bs. (log @ [(k, bs)], True))
      (map (\<lambda>(now, f). (now, fragment_packet h f)) (arrivals @ [(now, l)])) (t, []) =
      ((t', [(key_of h, payload)]), replicate (length arrivals) rs_pending @ [rs_complete])"
      "rt_inv t'" "rt_abs t' (key_of h) = None" "\<forall>k. k \<noteq> key_of h \<longrightarrow> rt_abs t' k = rt_abs t k"
    using receive_until_last [OF fs(1,2) ne fs(3) assms(3,4), of "{}" l arrivals h
        "\<lambda>log k bs. (log @ [(k, bs)], True)" now "[]"] l assms(5-8) by auto
  have "rt_abs t' = rt_abs t"
  proof (rule ext)
    fix k show "rt_abs t' k = rt_abs t k" using r(3,4) assms(5) by (cases "k = key_of h") auto
  qed
  then show ?thesis using r by blast
qed

theorem fragments_reassemble_in_any_order_witness:
  "let payload = replicate 100 (7 :: byte); fs = fragments payload 60; h = default_Ipv4Header
   in \<exists>t'. receive_all (\<lambda>log k bs. (log @ [(k, bs)], True))
        (map (\<lambda>(now, f). (now, fragment_packet h f))
           ([(1, fs ! 2), (2, fs ! 0), (3, fs ! 2)] @ [(4, fs ! 1)])) (new_ReassemblyTable 2 9, []) =
        ((t', [(key_of h, payload)]), [rs_pending, rs_pending, rs_pending, rs_complete])"
proof -
  let ?p = "replicate 100 (7 :: byte)" and ?h = default_Ipv4Header and ?t = "new_ReassemblyTable 2 9"
  define fs where "fs = fragments ?p 60"
  have len: "length fs = 3" and off: "fg_offset (fs ! 0) = 0" "fg_offset (fs ! 1) = 40"
      "fg_offset (fs ! 2) = 80"
    unfolding fs_def by (simp_all add: fragments_def slices.simps)
  have set: "set fs = {fs ! 0, fs ! 1, fs ! 2}"
    using len by (auto simp: set_conv_nth less_Suc_eq numeral_3_eq_3 numeral_2_eq_2)
  have ne: "fs ! 2 \<noteq> fs ! 1" "fs ! 0 \<noteq> fs ! 1" using off by auto
  have full: "active_slots ?t \<noteq> rt_capacity ?t"
    by (simp add: active_slots_def new_ReassemblyTable_def default_Slot_def)
  have arr: "\<forall>(now, f) \<in> set [(1, fs ! 2), (2, fs ! 0), (3, fs ! 2)]. f \<in> set fs \<and> f \<noteq> fs ! 1"
    using ne len by auto
  have all: "snd ` set [(1 :: u64, fs ! 2), (2, fs ! 0), (3, fs ! 2)] \<union> {fs ! 1} = set fs"
    unfolding set by auto
  show ?thesis
    using fragments_reassemble_in_any_order [OF _ _ _ rt_inv_new rt_abs_new full arr [unfolded fs_def]
        all [unfolded fs_def], of ?h 4]
    by (auto simp: Let_def numeral_3_eq_3)
qed

end
