(* ===== verification/Ethernet.thy ===== *)
theory Ethernet
  imports Prelude
begin

text \<open>
  Ethernet frames (\<^verbatim>\<open>include/vectornet/link/ethernet.hpp\<close>, \<^verbatim>\<open>src/link/ethernet.cpp\<close>) and the
  types of the link layer they use (\<^verbatim>\<open>include/vectornet/link/link_endpoint.hpp\<close>).

  A MAC address is its list of six bytes. The endpoint's link is a parameter of \<open>send_frame\<close>, a
  function on a state of its own.
\<close>

type_synonym MacAddress = "u8 list"

definition kEthernetHeaderBytes :: nat where "kEthernetHeaderBytes = 14"
definition kEthernetMinimumFrameBytes :: nat where "kEthernetMinimumFrameBytes = 60"
definition kEtherTypeIpv4 :: u16 where "kEtherTypeIpv4 = 0x0800"
definition kEtherTypeArp :: u16 where "kEtherTypeArp = 0x0806"
definition kEtherTypeVlan8021Q :: u16 where "kEtherTypeVlan8021Q = 0x8100"
definition kEtherTypeVlan8021Ad :: u16 where "kEtherTypeVlan8021Ad = 0x88A8"

datatype CaptureFilter = cf_none | cf_stack_arp_ipv4_253

record LinkConfig =
  lc_interface_name :: string
  lc_requested_buffer_bytes :: nat
  lc_promiscuous :: bool
  lc_capture_filter :: CaptureFilter

record InterfaceInfo =
  ii_mac :: MacAddress
  ii_mtu :: u32
  ii_bpf_buffer_bytes :: nat

record CaptureMetadata =
  cm_capture_timestamp_ns :: u64
  cm_captured_length :: u32
  cm_wire_length :: u32

record EthernetHeader =
  eh_destination :: MacAddress
  eh_source :: MacAddress
  eh_ether_type :: u16

record EthernetFrameView =
  ev_header :: EthernetHeader
  ev_payload :: "byte list"

datatype EthernetStatus = eth_ok | frame_too_short | unsupported_vlan | eth_output_too_small
  | eth_payload_too_large

record EthernetDropCounters =
  dc_short_frames :: u64
  dc_vlan_frames :: u64

definition zero_mac :: MacAddress where "zero_mac = replicate 6 0"

definition default_EthernetFrameView :: EthernetFrameView where
  "default_EthernetFrameView =
     \<lparr>ev_header = \<lparr>eh_destination = zero_mac, eh_source = zero_mac, eh_ether_type = 0\<rparr>, ev_payload = []\<rparr>"

definition is_vlan :: "u16 \<Rightarrow> bool" where
  "is_vlan ether_type \<longleftrightarrow> ether_type = kEtherTypeVlan8021Q \<or> ether_type = kEtherTypeVlan8021Ad"

definition parse_ethernet_frame :: "byte list \<Rightarrow> EthernetStatus \<times> EthernetFrameView" where
  "parse_ethernet_frame frame =
     (if length frame < kEthernetHeaderBytes then (frame_too_short, default_EthernetFrameView)
      else
        let header = \<lparr>eh_destination = take 6 frame, eh_source = take 6 (drop 6 frame),
                      eh_ether_type = read_be16 frame 12\<rparr> in
        if is_vlan (eh_ether_type header) then (unsupported_vlan, default_EthernetFrameView)
        else (eth_ok, \<lparr>ev_header = header, ev_payload = drop kEthernetHeaderBytes frame\<rparr>))"

text \<open>\<open>std::fill\<close> over the bytes from \<open>first\<close> up to \<open>last\<close>.\<close>

definition fill_zero :: "byte list \<Rightarrow> nat \<Rightarrow> nat \<Rightarrow> byte list" where
  "fill_zero output first last' = memcpy_at output first (replicate (last' - first) 0)"

definition build_ethernet_frame ::
  "MacAddress \<Rightarrow> MacAddress \<Rightarrow> u16 \<Rightarrow> byte list \<Rightarrow> byte list \<Rightarrow> EthernetStatus \<times> byte list \<times> nat" where
  "build_ethernet_frame destination source ether_type payload output =
     (if is_vlan ether_type then (unsupported_vlan, output, 0)
      else if length payload > 2 ^ 64 - 1 - kEthernetHeaderBytes then (eth_payload_too_large, output, 0)
      else
        let unpadded_bytes = kEthernetHeaderBytes + length payload;
            required_bytes = max unpadded_bytes kEthernetMinimumFrameBytes
        in if required_bytes > length output then (eth_output_too_small, output, 0)
           else
             let output = fold (\<lambda>index out.
                     out[index := destination ! index, index + length destination := source ! index])
                   [0..<length destination] output;
                 output = write_be16 output 12 ether_type;
                 output = (if payload \<noteq> [] then memcpy_at output kEthernetHeaderBytes payload else output);
                 output = fill_zero output unpadded_bytes required_bytes
             in (eth_ok, output, required_bytes))"

text \<open>One captured frame: dropped and counted, or handed to the callback.\<close>

type_synonym 's frame_callback = "'s \<Rightarrow> EthernetHeader \<Rightarrow> byte list \<Rightarrow> CaptureMetadata \<Rightarrow> 's"

definition dispatch_frame ::
  "'s frame_callback \<Rightarrow> byte list \<times> CaptureMetadata \<Rightarrow> EthernetDropCounters \<times> 's
     \<Rightarrow> EthernetDropCounters \<times> 's" where
  "dispatch_frame callback captured st =
     (case (captured, st) of ((frame, metadata), (counters, ctx)) \<Rightarrow>
        let (status, parsed) = parse_ethernet_frame frame in
        if status = frame_too_short
        then (counters\<lparr>dc_short_frames := dc_short_frames counters + 1\<rparr>, ctx)
        else if status = unsupported_vlan
        then (counters\<lparr>dc_vlan_frames := dc_vlan_frames counters + 1\<rparr>, ctx)
        else if status \<noteq> eth_ok then (counters, ctx)
        else (counters, callback ctx (ev_header parsed) (ev_payload parsed) metadata))"

record EthernetEndpoint =
  ee_link_open :: bool
  ee_info :: InterfaceInfo
  ee_tx_buffer :: "byte list"
  ee_drop_counters :: EthernetDropCounters

text \<open>The endpoint that \<open>open\<close> builds on a link with the given interface.\<close>

definition new_EthernetEndpoint :: "InterfaceInfo \<Rightarrow> EthernetEndpoint" where
  "new_EthernetEndpoint info =
     (let capacity = max (unat (ii_mtu info) + kEthernetHeaderBytes) kEthernetMinimumFrameBytes
      in \<lparr>ee_link_open = True, ee_info = info, ee_tx_buffer = replicate capacity 0,
          ee_drop_counters = \<lparr>dc_short_frames = 0, dc_vlan_frames = 0\<rparr>\<rparr>)"

text \<open>Polling hands every frame the link captured to \<open>dispatch_frame\<close>, in order.\<close>

definition ee_poll_frames ::
  "EthernetEndpoint \<Rightarrow> 's frame_callback option \<Rightarrow> 's \<Rightarrow> (byte list \<times> CaptureMetadata) list \<times> error_code
     \<Rightarrow> EthernetEndpoint \<times> 's \<times> error_code" where
  "ee_poll_frames e callback ctx captured =
     (if \<not> ee_link_open e then (e, ctx, bad_file_descriptor)
      else case callback of
        None \<Rightarrow> (e, ctx, invalid_argument)
      | Some cb \<Rightarrow>
          (case fold (dispatch_frame cb) (fst captured) (ee_drop_counters e, ctx) of
             (counters, ctx) \<Rightarrow> (e\<lparr>ee_drop_counters := counters\<rparr>, ctx, snd captured)))"

definition ee_send_frame ::
  "('l \<Rightarrow> byte list \<Rightarrow> 'l \<times> error_code) \<Rightarrow> EthernetEndpoint \<Rightarrow> 'l \<Rightarrow> MacAddress \<Rightarrow> u16 \<Rightarrow> byte list
     \<Rightarrow> EthernetEndpoint \<times> 'l \<times> error_code" where
  "ee_send_frame link_send e link destination ether_type payload =
     (if \<not> ee_link_open e then (e, link, bad_file_descriptor)
      else if length payload > unat (ii_mtu (ee_info e)) then (e, link, message_size)
      else
        let (status, tx_buffer, frame_bytes) =
              build_ethernet_frame destination (ii_mac (ee_info e)) ether_type payload (ee_tx_buffer e);
            e = e\<lparr>ee_tx_buffer := tx_buffer\<rparr>
        in if status = unsupported_vlan then (e, link, protocol_not_supported)
           else if status \<noteq> eth_ok then (e, link, message_size)
           else case link_send link (take frame_bytes tx_buffer) of (link, error) \<Rightarrow> (e, link, error))"

section \<open>Lemmas\<close>

definition eth_encode :: "MacAddress \<Rightarrow> MacAddress \<Rightarrow> u16 \<Rightarrow> byte list \<Rightarrow> byte list" where
  "eth_encode d s ty payload = d @ s @ be16 ty @ payload @ replicate (46 - length payload) 0"

lemma write_macs:
  assumes "length d = 6" "length s = 6" "12 \<le> length out"
  shows "fold (\<lambda>i out. out[i := d ! i, i + length d := s ! i]) [0..<length d] out
           = memcpy_at out 0 (d @ s)"
proof -
  obtain d0 d1 d2 d3 d4 d5 where d: "d = [d0, d1, d2, d3, d4, d5]"
    using assms(1) by (auto simp: length_Suc_conv numeral_eq_Suc)
  obtain s0 s1 s2 s3 s4 s5 where s: "s = [s0, s1, s2, s3, s4, s5]"
    using assms(2) by (auto simp: length_Suc_conv numeral_eq_Suc)
  have "[0..<6] = [0, 1, 2, 3, 4, 5 :: nat]" by (simp add: upt_rec)
  moreover obtain o0 o1 o2 o3 o4 o5 o6 o7 o8 o9 o10 o11 r where
    o: "out = [o0, o1, o2, o3, o4, o5, o6, o7, o8, o9, o10, o11] @ r"
  proof -
    define t where "t = take 12 out"
    then have "length t = 12" using assms(3) by simp
    then obtain o0 o1 o2 o3 o4 o5 o6 o7 o8 o9 o10 o11 where
      "t = [o0, o1, o2, o3, o4, o5, o6, o7, o8, o9, o10, o11]"
      by (auto simp: length_Suc_conv numeral_eq_Suc)
    then show thesis using that by (metis append_take_drop_id t_def)
  qed
  ultimately show ?thesis by (simp add: d s memcpy_at_def)
qed

lemma build_ethernet_ok:
  assumes "length d = 6" "length s = 6" "\<not> is_vlan ty" "length payload \<le> 2 ^ 64 - 15"
    "max (14 + length payload) 60 \<le> length out"
  shows "build_ethernet_frame d s ty payload out =
    (eth_ok, eth_encode d s ty payload @ drop (max (14 + length payload) 60) out,
     max (14 + length payload) 60)"
proof -
  let ?h = "d @ s @ be16 ty"
  have room: "14 + length payload \<le> length out" "60 \<le> length out" using assms(5) by auto
  have h: "write_be16 (fold (\<lambda>i out. out[i := d ! i, i + length d := s ! i]) [0..<length d] out) 12 ty
      = memcpy_at out 0 ?h"
    using assms(1,2) room memcpy_at_append_eq [of 12 0 "d @ s" "be16 ty" out]
    by (subst write_macs) (simp_all add: write_be16_memcpy)
  have p: "(if payload \<noteq> [] then memcpy_at (memcpy_at out 0 ?h) 14 payload else memcpy_at out 0 ?h)
      = memcpy_at out 0 (?h @ payload)"
    using assms(1,2) room memcpy_at_append_eq [of 14 0 ?h payload out] by simp
  have "max (14 + length payload) 60 - (14 + length payload) = 46 - length payload" by simp
  then have f: "fill_zero (memcpy_at out 0 (?h @ payload)) (14 + length payload) (max (14 + length payload) 60)
      = memcpy_at out 0 ((?h @ payload) @ replicate (46 - length payload) 0)"
    unfolding fill_zero_def using assms(1,2,5)
    by (subst memcpy_at_append_eq) auto
  have len: "length ((?h @ payload) @ replicate (46 - length payload) 0) = max (14 + length payload) 60"
    using assms(1,2) by simp
  show ?thesis
    unfolding build_ethernet_frame_def Let_def kEthernetHeaderBytes_def kEthernetMinimumFrameBytes_def
      h p f
    using assms len by (simp add: memcpy_at_def eth_encode_def not_less)
qed

lemma parse_eth_encode:
  assumes "length d = 6" "length s = 6" "\<not> is_vlan ty"
  shows "parse_ethernet_frame (eth_encode d s ty payload) =
    (eth_ok, \<lparr>ev_header = \<lparr>eh_destination = d, eh_source = s, eh_ether_type = ty\<rparr>,
              ev_payload = payload @ replicate (46 - length payload) 0\<rparr>)"
proof -
  have "read_be16 (eth_encode d s ty payload) 12 = ty"
    using assms(1,2) by (simp add: eth_encode_def endian_simps)
  then show ?thesis
    using assms by (simp add: parse_ethernet_frame_def kEthernetHeaderBytes_def Let_def eth_encode_def)
qed

section \<open>Properties\<close>

text \<open>
  Claim C34. Sending and parsing a frame: an open endpoint hands the link exactly one frame when the
  payload fits the MTU and the type is no VLAN tag; the frame is at least 60 bytes and no longer than
  the MTU plus the header, and the receiving parser returns the addresses, the type and the payload,
  followed only by the zero padding. Anything else is refused with its error and sends nothing.
\<close>

theorem ethernet_send_parse:
  assumes "length destination = 6" "length (ii_mac info) = 6" "ee_link_open e" "ee_info e = info"
    "length (ee_tx_buffer e) = max (unat (ii_mtu info) + 14) 60"
    "ee_send_frame (\<lambda>sent frame. (sent @ [frame], no_error)) e [] destination ty payload = (e', sent, err)"
  shows "length (ee_tx_buffer e') = length (ee_tx_buffer e) \<and>
    (if unat (ii_mtu info) < length payload then sent = [] \<and> err = message_size
     else if is_vlan ty then sent = [] \<and> err = protocol_not_supported
     else \<exists>frame. sent = [frame] \<and> err = no_error \<and> length frame = max (14 + length payload) 60 \<and>
       parse_ethernet_frame frame =
         (eth_ok, \<lparr>ev_header = \<lparr>eh_destination = destination, eh_source = ii_mac info, eh_ether_type = ty\<rparr>,
                   ev_payload = payload @ replicate (46 - length payload) 0\<rparr>))"
proof -
  have mtu: "unat (ii_mtu info) < 2 ^ 32" by (rule unat_u32_bound)
  consider "unat (ii_mtu info) < length payload" | "length payload \<le> unat (ii_mtu info)" "is_vlan ty"
    | "length payload \<le> unat (ii_mtu info)" "\<not> is_vlan ty" by linarith
  then show ?thesis
  proof cases
    case 3
    let ?f = "eth_encode destination (ii_mac info) ty payload"
    have len: "length ?f = max (14 + length payload) 60" using assms(1,2) by (simp add: eth_encode_def)
    have "build_ethernet_frame destination (ii_mac info) ty payload (ee_tx_buffer e) =
        (eth_ok, ?f @ drop (max (14 + length payload) 60) (ee_tx_buffer e), max (14 + length payload) 60)"
      using assms 3 mtu by (intro build_ethernet_ok) auto
    then have "sent = [?f]" "err = no_error" "length (ee_tx_buffer e') = length (ee_tx_buffer e)"
      using assms 3 len by (auto simp: ee_send_frame_def)
    then show ?thesis using 3 len parse_eth_encode [OF assms(1,2) 3(2)] by auto
  qed (use assms in \<open>auto simp: ee_send_frame_def build_ethernet_frame_def\<close>)
qed

theorem ethernet_send_parse_witness:
  "\<exists>frame. fst (snd (ee_send_frame (\<lambda>sent frame. (sent @ [frame], no_error))
     (new_EthernetEndpoint \<lparr>ii_mac = [1, 2, 3, 4, 5, 6], ii_mtu = 1500, ii_bpf_buffer_bytes = 0\<rparr>) []
     [9, 9, 9, 9, 9, 9] 0x0800 [1, 2, 3])) = [frame] \<and> length frame = 60"
proof -
  define info where "info = \<lparr>ii_mac = [1, 2, 3, 4, 5, 6 :: u8], ii_mtu = (1500 :: u32),
    ii_bpf_buffer_bytes = 0\<rparr>"
  let ?send = "\<lambda>sent frame. (sent @ [frame], no_error)" and ?e = "new_EthernetEndpoint info"
  obtain e' sent err where r: "ee_send_frame ?send ?e [] [9, 9, 9, 9, 9, 9] 0x0800 [1, 2, 3] = (e', sent, err)"
    by (metis prod_cases3)
  have "\<not> is_vlan 0x0800" by (simp add: is_vlan_def kEtherTypeVlan8021Q_def kEtherTypeVlan8021Ad_def)
  then have "\<exists>frame. sent = [frame] \<and> length frame = 60"
    using ethernet_send_parse [of "[9, 9, 9, 9, 9, 9]" info ?e "0x0800" "[1, 2, 3]" e' sent err] r
    by (auto simp: info_def new_EthernetEndpoint_def Let_def kEthernetHeaderBytes_def
        kEthernetMinimumFrameBytes_def)
  then show ?thesis using r by (simp add: info_def)
qed

text \<open>
  Claim C35. Every captured frame is accounted for: polling hands the callback exactly the frames that
  parse, in order and with their own metadata, and counts each of the others once, as too short or as
  VLAN tagged.
\<close>

theorem poll_accounts_for_every_frame:
  "ee_poll_frames e (Some (\<lambda>log h p m. log @ [(h, p, m)])) [] (frames, err) =
     (if \<not> ee_link_open e then (e, [], bad_file_descriptor) else (e\<lparr>ee_drop_counters :=
        \<lparr>dc_short_frames = dc_short_frames (ee_drop_counters e) +
           of_nat (length (filter (\<lambda>(f, m). length f < 14) frames)),
         dc_vlan_frames = dc_vlan_frames (ee_drop_counters e) +
           of_nat (length (filter (\<lambda>(f, m). 14 \<le> length f \<and> is_vlan (read_be16 f 12)) frames))\<rparr>\<rparr>,
      map (\<lambda>(f, m). (ev_header (snd (parse_ethernet_frame f)), drop 14 f, m))
        (filter (\<lambda>(f, m). 14 \<le> length f \<and> \<not> is_vlan (read_be16 f 12)) frames), err))"
proof -
  let ?cb = "\<lambda>log h p m. log @ [(h, p, m)]"
  have "fold (dispatch_frame ?cb) frames (c, log) =
     (\<lparr>dc_short_frames = dc_short_frames c + of_nat (length (filter (\<lambda>(f, m). length f < 14) frames)),
       dc_vlan_frames = dc_vlan_frames c +
         of_nat (length (filter (\<lambda>(f, m). 14 \<le> length f \<and> is_vlan (read_be16 f 12)) frames))\<rparr>,
      log @ map (\<lambda>(f, m). (ev_header (snd (parse_ethernet_frame f)), drop 14 f, m))
        (filter (\<lambda>(f, m). 14 \<le> length f \<and> \<not> is_vlan (read_be16 f 12)) frames))" for c log
  proof (induction frames arbitrary: c log)
    case (Cons fm frames)
    obtain f m where fm: "fm = (f, m)" by fastforce
    consider "length f < 14" | "14 \<le> length f" "is_vlan (read_be16 f 12)"
      | "14 \<le> length f" "\<not> is_vlan (read_be16 f 12)" by linarith
    then show ?case
      by cases (simp_all add: fm Cons.IH dispatch_frame_def [of _ "(f, m)"] parse_ethernet_frame_def
          kEthernetHeaderBytes_def Let_def)
  qed simp
  then show ?thesis by (simp add: ee_poll_frames_def)
qed

end
