(* ===== verification/Arp_Message.thy ===== *)
theory Arp_Message
  imports Ethernet Codec
begin

text \<open>
  ARP messages (\<^verbatim>\<open>include/vectornet/link/arp.hpp\<close> 15-61, \<^verbatim>\<open>src/link/arp.cpp\<close> 10-105).

  \<open>ArpOperation\<close> is an enumeration over \<open>std::uint16_t\<close>, which can hold any 16-bit value; it is a
  16-bit word with two named values, so the builder's check is a real branch.
\<close>

definition kArpPayloadBytes :: nat where "kArpPayloadBytes = 28"
definition kHardwareEthernet :: u16 where "kHardwareEthernet = 1"
definition kProtocolIpv4 :: u16 where "kProtocolIpv4 = kEtherTypeIpv4"
definition kHardwareBytes :: u8 where "kHardwareBytes = 6"
definition kProtocolBytes :: u8 where "kProtocolBytes = 4"
definition kEthernetBroadcast :: MacAddress where "kEthernetBroadcast = [0xFF, 0xFF, 0xFF, 0xFF, 0xFF, 0xFF]"

type_synonym ArpIpv4Address = u32
type_synonym ArpOperation = u16

definition arp_request :: ArpOperation where "arp_request = 1"
definition arp_reply :: ArpOperation where "arp_reply = 2"

record ArpMessage =
  am_operation :: ArpOperation
  am_sender_hardware :: MacAddress
  am_sender_protocol :: ArpIpv4Address
  am_target_hardware :: MacAddress
  am_target_protocol :: ArpIpv4Address

datatype ArpStatus = arp_ok | arp_pending | arp_malformed | arp_unsupported | arp_output_too_small
  | arp_cache_full | arp_queued | arp_queue_full | arp_payload_too_large | arp_unreachable
  | arp_send_failed

definition default_ArpMessage :: ArpMessage where
  "default_ArpMessage = \<lparr>am_operation = arp_request, am_sender_hardware = zero_mac,
     am_sender_protocol = 0, am_target_hardware = zero_mac, am_target_protocol = 0\<rparr>"

definition write_mac :: "byte list \<Rightarrow> nat \<Rightarrow> MacAddress \<Rightarrow> byte list" where
  "write_mac output off hardware =
     fold (\<lambda>index out. out[off + index := hardware ! index]) [0..<length hardware] output"

definition read_mac :: "byte list \<Rightarrow> nat \<Rightarrow> MacAddress \<Rightarrow> MacAddress" where
  "read_mac input off hardware =
     fold (\<lambda>index hw. hw[index := input ! (off + index)]) [0..<length hardware] hardware"

definition parse_arp_message :: "byte list \<Rightarrow> ArpStatus \<times> ArpMessage" where
  "parse_arp_message payload =
     (let message = default_ArpMessage in
      if length payload < kArpPayloadBytes then (arp_malformed, message)
      else if read_be16 payload 0 \<noteq> kHardwareEthernet \<or> read_be16 payload 2 \<noteq> kProtocolIpv4 \<or>
              payload ! 4 \<noteq> kHardwareBytes \<or> payload ! 5 \<noteq> kProtocolBytes
      then (arp_unsupported, message)
      else
        let operation = read_be16 payload 6 in
        if operation \<noteq> arp_request \<and> operation \<noteq> arp_reply then (arp_unsupported, message)
        else (arp_ok, \<lparr>am_operation = operation,
                       am_sender_hardware = read_mac payload 8 (am_sender_hardware message),
                       am_sender_protocol = read_be32 payload 14,
                       am_target_hardware = read_mac payload 18 (am_target_hardware message),
                       am_target_protocol = read_be32 payload 24\<rparr>))"

definition build_arp_message :: "ArpMessage \<Rightarrow> byte list \<Rightarrow> ArpStatus \<times> byte list \<times> nat" where
  "build_arp_message message output =
     (if length output < kArpPayloadBytes then (arp_output_too_small, output, 0)
      else if am_operation message \<noteq> arp_request \<and> am_operation message \<noteq> arp_reply
      then (arp_unsupported, output, 0)
      else
        let output = write_be16 output 0 kHardwareEthernet;
            output = write_be16 output 2 kProtocolIpv4;
            output = output[4 := kHardwareBytes];
            output = output[5 := kProtocolBytes];
            output = write_be16 output 6 (am_operation message);
            output = write_mac output 8 (am_sender_hardware message);
            output = write_be32 output 14 (am_sender_protocol message);
            output = write_mac output 18 (am_target_hardware message);
            output = write_be32 output 24 (am_target_protocol message)
        in (arp_ok, output, kArpPayloadBytes))"

section \<open>Lemmas\<close>

lemmas arp_constants = kArpPayloadBytes_def kHardwareEthernet_def kProtocolIpv4_def kEtherTypeIpv4_def
  kHardwareBytes_def kProtocolBytes_def

definition arp_encode :: "ArpMessage \<Rightarrow> byte list" where
  "arp_encode m = be16 1 @ be16 0x0800 @ [6, 4] @ be16 (am_operation m) @ am_sender_hardware m @
     be32 (am_sender_protocol m) @ am_target_hardware m @ be32 (am_target_protocol m)"

definition arp_valid :: "ArpMessage \<Rightarrow> bool" where
  "arp_valid m \<longleftrightarrow> am_operation m \<in> {1, 2} \<and> length (am_sender_hardware m) = 6 \<and>
     length (am_target_hardware m) = 6"

definition arp_decode :: "byte list \<Rightarrow> (ArpMessage \<times> nat) option" where
  "arp_decode bs = (case parse_arp_message bs of (status, m) \<Rightarrow> if status = arp_ok then Some (m, 28) else None)"

lemma length_arp_encode: "arp_valid m \<Longrightarrow> length (arp_encode m) = 28"
  by (simp add: arp_encode_def arp_valid_def)

lemma write_mac_memcpy:
  assumes "off + length hw \<le> length out"
  shows "write_mac out off hw = memcpy_at out off hw"
proof -
  have "n \<le> length hw \<Longrightarrow>
      fold (\<lambda>i out. out[off + i := hw ! i]) [0..<n] out = memcpy_at out off (take n hw)" for n
  proof (induction n)
    case (Suc n)
    then have "fold (\<lambda>i out. out[off + i := hw ! i]) [0..<Suc n] out
        = (memcpy_at out off (take n hw))[off + n := hw ! n]" by simp
    also have "\<dots> = memcpy_at out off (take n hw @ [hw ! n])"
      using Suc.prems assms memcpy_at_append_eq [of "off + n" off "take n hw" "[hw ! n]" out]
      by (simp add: list_update_memcpy)
    finally show ?case using Suc.prems by (simp add: take_Suc_conv_app_nth)
  qed simp
  then show ?thesis by (simp add: write_mac_def)
qed

lemma read_mac_take:
  assumes "off + 6 \<le> length bs" "length hw = 6"
  shows "read_mac bs off hw = take 6 (drop off bs)"
proof -
  have "read_mac bs off hw = live (\<lambda>i. bs ! (off + i)) 6"
    using fold_update_prefix [of 6 hw "\<lambda>i. bs ! (off + i)"] assms(2) by (simp add: read_mac_def)
  also have "\<dots> = take 6 (drop off bs)"
    by (rule nth_equalityI) (use assms in auto)
  finally show ?thesis .
qed

lemma build_arp_ok:
  assumes "arp_valid m" "28 \<le> length out"
  shows "build_arp_message m out = (arp_ok, arp_encode m @ drop 28 out, 28)"
proof -
  note j = memcpy_at_append_eq [where off = 0]
  have l: "length (am_sender_hardware m) = 6" "length (am_target_hardware m) = 6"
    and op: "am_operation m \<in> {1, 2}"
    using assms(1) by (simp_all add: arp_valid_def)
  have "write_be32 (write_mac (write_be32 (write_mac (write_be16 ((write_be16 (write_be16 out 0 1) 2 0x0800)
      [4 := 6, 5 := 4]) 6 (am_operation m)) 8 (am_sender_hardware m)) 14 (am_sender_protocol m)) 18
      (am_target_hardware m)) 24 (am_target_protocol m) = memcpy_at out 0 (arp_encode m)"
    using assms(2) l
    by (simp add: write_be16_memcpy write_be32_memcpy write_mac_memcpy list_update_memcpy j arp_encode_def)
  then show ?thesis
    using assms op length_arp_encode [OF assms(1)]
    by (auto simp: build_arp_message_def arp_constants arp_request_def arp_reply_def Let_def memcpy_at_def)
qed

lemma parse_arp_encode:
  assumes "arp_valid m"
  shows "parse_arp_message (arp_encode m @ rest) = (arp_ok, m)"
proof -
  have l: "length (am_sender_hardware m) = 6" "length (am_target_hardware m) = 6"
    and op: "am_operation m \<in> {1, 2}"
    using assms by (simp_all add: arp_valid_def)
  let ?bs = "arp_encode m @ rest"
  have "read_be16 ?bs 0 = 1" "read_be16 ?bs 2 = 0x0800" "read_be16 ?bs 6 = am_operation m"
    "read_be32 ?bs 14 = am_sender_protocol m" "read_be32 ?bs 24 = am_target_protocol m"
    "?bs ! 4 = 6" "?bs ! 5 = 4"
    "take 6 (drop 8 ?bs) = am_sender_hardware m" "take 6 (drop 18 ?bs) = am_target_hardware m"
    using l by (simp_all add: arp_encode_def endian_simps nth_append)
  then show ?thesis
    using op l length_arp_encode [OF assms]
    by (auto simp: parse_arp_message_def arp_constants arp_request_def arp_reply_def Let_def
        read_mac_take default_ArpMessage_def zero_mac_def)
qed

text \<open>Cutting the first 28 bytes into the fields of a message.\<close>

lemma parse_arp_okD:
  assumes "parse_arp_message bs = (arp_ok, m)"
  shows "arp_valid m \<and> 28 \<le> length bs \<and> take 28 bs = arp_encode m"
proof -
  have len: "28 \<le> length bs" and f: "read_be16 bs 0 = 1" "read_be16 bs 2 = 0x0800" "bs ! 4 = 6" "bs ! 5 = 4"
    and op: "read_be16 bs 6 \<in> {1, 2}"
    and m: "m = \<lparr>am_operation = read_be16 bs 6, am_sender_hardware = read_mac bs 8 zero_mac,
      am_sender_protocol = read_be32 bs 14, am_target_hardware = read_mac bs 18 zero_mac,
      am_target_protocol = read_be32 bs 24\<rparr>"
    using assms by (auto simp: parse_arp_message_def arp_constants arp_request_def arp_reply_def Let_def
        default_ArpMessage_def split: if_splits)
  have cut: "take (k + n) xs = take k xs @ take n (drop k xs)" for k n and xs :: "byte list"
    by (rule take_add)
  have b: "take 1 (drop 4 bs) = [6]" "take 1 (drop 5 bs) = [4]"
    using len f by (simp_all add: take_Suc_conv_app_nth)
  have "take 28 bs = take 2 (drop 0 bs) @ take 2 (drop 2 bs) @ take 1 (drop 4 bs) @ take 1 (drop 5 bs) @
      take 2 (drop 6 bs) @ take 6 (drop 8 bs) @ take 4 (drop 14 bs) @ take 6 (drop 18 bs) @ take 4 (drop 24 bs)"
    using cut [of 24 4 bs] cut [of 18 6 bs] cut [of 14 4 bs] cut [of 8 6 bs] cut [of 6 2 bs]
      cut [of 5 1 bs] cut [of 4 1 bs] cut [of 2 2 bs] by simp
  also have "\<dots> = arp_encode m"
    using len f b be16_read_be16 [of 0 bs] be16_read_be16 [of 2 bs] be16_read_be16 [of 6 bs]
      be32_read_be32 [of 14 bs] be32_read_be32 [of 24 bs]
    by (simp add: m arp_encode_def read_mac_take zero_mac_def)
  finally show ?thesis
    using len op by (simp add: m arp_valid_def read_mac_take zero_mac_def)
qed

interpretation arp_codec: codec arp_encode arp_decode arp_valid
proof unfold_locales
  show "arp_decode (arp_encode m @ rest) = Some (m, length (arp_encode m))" if "arp_valid m" for m rest
    using that by (simp add: arp_decode_def parse_arp_encode length_arp_encode)
  show "arp_valid m \<and> n \<le> length bs \<and> take n bs = arp_encode m" if "arp_decode bs = Some (m, n)" for bs m n
    using that parse_arp_okD [of bs m] by (auto simp: arp_decode_def split: prod.splits if_splits)
qed

section \<open>Properties\<close>

text \<open>
  ARP messages: a message the builder accepts occupies 28 bytes that parse back to it,
  whatever follows them (the Ethernet padding), with the rest of the output untouched; the parser
  accepts exactly the payloads that begin with the encoding of a valid request or reply, with the
  fields of that message.
\<close>

theorem arp_message_roundtrip:
  "(length (am_sender_hardware m) = 6 \<and> length (am_target_hardware m) = 6 \<longrightarrow>
     (case build_arp_message m out of (status, out', n) \<Rightarrow>
        if length out < 28 then status = arp_output_too_small \<and> out' = out \<and> n = 0
        else if am_operation m \<notin> {1, 2} then status = arp_unsupported \<and> out' = out \<and> n = 0
        else status = arp_ok \<and> n = 28 \<and> length out' = length out \<and> drop 28 out' = drop 28 out \<and>
          (\<forall>rest. parse_arp_message (take 28 out' @ rest) = (arp_ok, m)))) \<and>
   (parse_arp_message bs = (arp_ok, m) \<longleftrightarrow> arp_valid m \<and> (\<exists>rest. bs = arp_encode m @ rest))"
proof (intro conjI impI)
  have parse: "parse_arp_message bs = (arp_ok, m) \<longleftrightarrow> arp_decode bs = Some (m, 28)"
    by (auto simp: arp_decode_def split: prod.splits)
  have "arp_valid m \<Longrightarrow> 28 = length (arp_encode m)" by (simp add: length_arp_encode)
  then show "parse_arp_message bs = (arp_ok, m) \<longleftrightarrow> arp_valid m \<and> (\<exists>rest. bs = arp_encode m @ rest)"
    unfolding parse arp_codec.dec_iff by blast
next
  assume l: "length (am_sender_hardware m) = 6 \<and> length (am_target_hardware m) = 6"
  show "case build_arp_message m out of (status, out', n) \<Rightarrow>
        if length out < 28 then status = arp_output_too_small \<and> out' = out \<and> n = 0
        else if am_operation m \<notin> {1, 2} then status = arp_unsupported \<and> out' = out \<and> n = 0
        else status = arp_ok \<and> n = 28 \<and> length out' = length out \<and> drop 28 out' = drop 28 out \<and>
          (\<forall>rest. parse_arp_message (take 28 out' @ rest) = (arp_ok, m))"
  proof (cases "28 \<le> length out \<and> am_operation m \<in> {1, 2}")
    case True
    then have "arp_valid m" using l by (simp add: arp_valid_def)
    then show ?thesis using True by (simp add: build_arp_ok length_arp_encode parse_arp_encode)
  next
    case False
    then show ?thesis by (auto simp: build_arp_message_def arp_constants arp_request_def arp_reply_def)
  qed
qed

theorem arp_message_roundtrip_witness:
  "parse_arp_message (fst (snd (build_arp_message
     \<lparr>am_operation = 1, am_sender_hardware = [1, 2, 3, 4, 5, 6], am_sender_protocol = 7,
      am_target_hardware = zero_mac, am_target_protocol = 9\<rparr> (replicate 28 0)))) =
   (arp_ok, \<lparr>am_operation = 1, am_sender_hardware = [1, 2, 3, 4, 5, 6], am_sender_protocol = 7,
      am_target_hardware = zero_mac, am_target_protocol = 9\<rparr>)"
proof -
  let ?m = "\<lparr>am_operation = 1, am_sender_hardware = [1, 2, 3, 4, 5, 6], am_sender_protocol = 7,
      am_target_hardware = zero_mac, am_target_protocol = 9\<rparr>"
  obtain status out' n where b: "build_arp_message ?m (replicate 28 0) = (status, out', n)"
    by (metis prod_cases3)
  then have "length out' = 28 \<and> (\<forall>rest. parse_arp_message (take 28 out' @ rest) = (arp_ok, ?m))"
    using arp_message_roundtrip [of ?m "replicate 28 0" "[]"] by (auto simp: zero_mac_def)
  then show ?thesis using b by (metis append_Nil2 fst_conv order_refl snd_conv take_all)
qed

end
