(* ===== verification/Arp_Cache.thy ===== *)
theory Arp_Cache
  imports Arp_Message
begin

text \<open>
  The ARP cache (\<^verbatim>\<open>include/vectornet/link/arp.hpp\<close> 63-97, \<^verbatim>\<open>src/link/arp.cpp\<close> 107-177): a vector of
  entries whose length never changes. \<open>cache_view c now\<close> is the map a client sees at time \<open>now\<close>; the
  locale \<open>expiring_map\<close> is the contract the resolver uses.
\<close>

definition kArpDefaultTtlNs :: u64 where "kArpDefaultTtlNs = 60000000000"

record ArpEntry =
  ce_address :: ArpIpv4Address
  ce_hardware :: MacAddress
  ce_expires_at_ns :: u64
  ce_valid :: bool
  ce_refresh_requested :: bool

record ArpCache =
  ac_entries :: "ArpEntry list"
  ac_ttl_ns :: u64

definition default_ArpEntry :: ArpEntry where
  "default_ArpEntry = \<lparr>ce_address = 0, ce_hardware = zero_mac, ce_expires_at_ns = 0, ce_valid = False,
     ce_refresh_requested = False\<rparr>"

definition new_ArpCache :: "nat \<Rightarrow> u64 \<Rightarrow> ArpCache" where
  "new_ArpCache capacity ttl_ns = \<lparr>ac_entries = replicate capacity default_ArpEntry, ac_ttl_ns = ttl_ns\<rparr>"

fun lookup_loop :: "ArpEntry list \<Rightarrow> ArpIpv4Address \<Rightarrow> u64 \<Rightarrow> ArpEntry list \<times> MacAddress option" where
  "lookup_loop [] address now_ns = ([], None)"
| "lookup_loop (entry # rest) address now_ns =
     (if \<not> ce_valid entry \<or> ce_address entry \<noteq> address
      then (case lookup_loop rest address now_ns of (rest, result) \<Rightarrow> (entry # rest, result))
      else if now_ns \<ge> ce_expires_at_ns entry then (entry\<lparr>ce_valid := False\<rparr> # rest, None)
      else (entry # rest, Some (ce_hardware entry)))"

definition cache_lookup :: "ArpCache \<Rightarrow> ArpIpv4Address \<Rightarrow> u64 \<Rightarrow> ArpCache \<times> MacAddress option" where
  "cache_lookup c address now_ns =
     (case lookup_loop (ac_entries c) address now_ns of (entries, result) \<Rightarrow>
        (c\<lparr>ac_entries := entries\<rparr>, result))"

definition cache_expire :: "ArpCache \<Rightarrow> u64 \<Rightarrow> ArpCache" where
  "cache_expire c now_ns =
     c\<lparr>ac_entries := map (\<lambda>entry.
          if ce_valid entry \<and> now_ns \<ge> ce_expires_at_ns entry then entry\<lparr>ce_valid := False\<rparr> else entry)
        (ac_entries c)\<rparr>"

definition expiration_from :: "ArpCache \<Rightarrow> u64 \<Rightarrow> u64" where
  "expiration_from c now_ns = (if ac_ttl_ns c > - 1 - now_ns then - 1 else now_ns + ac_ttl_ns c)"

text \<open>The scan of \<open>insert\<close>: the index of the entry to overwrite.\<close>

fun find_entry :: "ArpEntry list \<Rightarrow> ArpIpv4Address \<Rightarrow> nat \<Rightarrow> nat option \<Rightarrow> nat option" where
  "find_entry [] address index available = available"
| "find_entry (entry # rest) address index available =
     (if ce_valid entry \<and> ce_address entry = address then Some index
      else find_entry rest address (Suc index)
             (if \<not> ce_valid entry \<and> available = None then Some index else available))"

definition cache_insert :: "ArpCache \<Rightarrow> ArpIpv4Address \<Rightarrow> MacAddress \<Rightarrow> u64 \<Rightarrow> ArpCache \<times> bool" where
  "cache_insert c address hardware now_ns =
     (let c = cache_expire c now_ns in
      case find_entry (ac_entries c) address 0 None of
        None \<Rightarrow> (c, False)
      | Some available \<Rightarrow>
          (c\<lparr>ac_entries := (ac_entries c)[available :=
              \<lparr>ce_address = address, ce_hardware = hardware, ce_expires_at_ns = expiration_from c now_ns,
               ce_valid = True, ce_refresh_requested = False\<rparr>]\<rparr>, True))"

definition cache_capacity :: "ArpCache \<Rightarrow> nat" where
  "cache_capacity c = length (ac_entries c)"

definition active_entries :: "ArpCache \<Rightarrow> u64 \<Rightarrow> ArpCache \<times> nat" where
  "active_entries c now_ns =
     (let c = cache_expire c now_ns in (c, length (filter ce_valid (ac_entries c))))"

section \<open>The contract of an expiring map\<close>

text \<open>
  \<open>view c t\<close> is what the map answers at time \<open>t\<close>, if nothing is inserted before. Time does not go
  back: the laws speak of the times from the operation's own on.
\<close>

locale expiring_map =
  fixes inv :: "'c \<Rightarrow> bool"
    and view :: "'c \<Rightarrow> u64 \<Rightarrow> ArpIpv4Address \<Rightarrow> 'v option"
    and expiry :: "'c \<Rightarrow> u64 \<Rightarrow> u64"
    and capacity :: "'c \<Rightarrow> nat"
    and lookup :: "'c \<Rightarrow> ArpIpv4Address \<Rightarrow> u64 \<Rightarrow> 'c \<times> 'v option"
    and insert :: "'c \<Rightarrow> ArpIpv4Address \<Rightarrow> 'v \<Rightarrow> u64 \<Rightarrow> 'c \<times> bool"
    and expire :: "'c \<Rightarrow> u64 \<Rightarrow> 'c"
  assumes view_later: "inv c \<Longrightarrow> view c t a = Some v \<Longrightarrow> s \<le> t \<Longrightarrow> view c s a = Some v"
    and lookup_law: "inv c \<Longrightarrow> lookup c a now = (c', r) \<Longrightarrow>
      inv c' \<and> r = view c now a \<and> (\<forall>t \<ge> now. view c' t = view c t)
        \<and> expiry c' = expiry c \<and> capacity c' = capacity c"
    and expire_law: "inv c \<Longrightarrow> inv (expire c now) \<and> (\<forall>t \<ge> now. view (expire c now) t = view c t)
        \<and> expiry (expire c now) = expiry c \<and> capacity (expire c now) = capacity c"
    and insert_law: "inv c \<Longrightarrow> insert c a v now = (c', ok) \<Longrightarrow>
      inv c' \<and> expiry c' = expiry c \<and> capacity c' = capacity c
        \<and> (ok \<longleftrightarrow> view c now a \<noteq> None \<or> card (dom (view c now)) < capacity c)
        \<and> (\<forall>t \<ge> now. view c' t =
              (if \<not> ok then view c t
               else (view c t)(a := if t < expiry c now then Some v else None)))"
begin

lemma lookup_insert_same:
  assumes "inv c" "insert c a v now = (c', True)" "now \<le> t"
  shows "snd (lookup c' a t) = (if t < expiry c now then Some v else None)"
proof -
  obtain c'' r where l: "lookup c' a t = (c'', r)" by fastforce
  have "inv c'" using insert_law [OF assms(1,2)] by blast
  then have "r = view c' t a" using lookup_law [OF _ l] by blast
  then show ?thesis using insert_law [OF assms(1,2)] assms(3) l by simp
qed

lemma lookup_insert_other:
  assumes "inv c" "insert c a v now = (c', ok)" "now \<le> t" "b \<noteq> a"
  shows "snd (lookup c' b t) = snd (lookup c b t)"
proof -
  obtain c1 r1 c2 r2 where l: "lookup c' b t = (c1, r1)" "lookup c b t = (c2, r2)" by fastforce
  have "inv c'" using insert_law [OF assms(1,2)] by blast
  then have "r1 = view c' t b" "r2 = view c t b"
    using lookup_law [OF _ l(1)] lookup_law [OF assms(1) l(2)] by blast+
  then show ?thesis using insert_law [OF assms(1,2)] assms(3,4) l by simp
qed

end

section \<open>The cache keeps the contract\<close>

definition entry_live :: "u64 \<Rightarrow> ArpEntry \<Rightarrow> bool" where
  "entry_live t e \<longleftrightarrow> ce_valid e \<and> t < ce_expires_at_ns e"

definition cache_view :: "ArpCache \<Rightarrow> u64 \<Rightarrow> ArpIpv4Address \<Rightarrow> MacAddress option" where
  "cache_view c t a = map_option ce_hardware (find (\<lambda>e. entry_live t e \<and> ce_address e = a) (ac_entries c))"

definition entries_distinct :: "ArpEntry list \<Rightarrow> bool" where
  "entries_distinct es \<longleftrightarrow> (\<forall>i < length es. \<forall>j < length es.
     ce_valid (es ! i) \<longrightarrow> ce_valid (es ! j) \<longrightarrow> ce_address (es ! i) = ce_address (es ! j) \<longrightarrow> i = j)"

definition cache_inv :: "ArpCache \<Rightarrow> bool" where
  "cache_inv c \<longleftrightarrow> entries_distinct (ac_entries c)"

lemma entries_distinctD:
  "entries_distinct es \<Longrightarrow> i < length es \<Longrightarrow> j < length es \<Longrightarrow> ce_valid (es ! i) \<Longrightarrow> ce_valid (es ! j) \<Longrightarrow>
   ce_address (es ! i) = ce_address (es ! j) \<Longrightarrow> i = j"
  by (simp add: entries_distinct_def)

lemma view_Some:
  assumes "cache_inv c"
  shows "cache_view c t a = Some v \<longleftrightarrow>
    (\<exists>i < length (ac_entries c). entry_live t (ac_entries c ! i) \<and> ce_address (ac_entries c ! i) = a \<and>
       ce_hardware (ac_entries c ! i) = v)"
proof
  assume "cache_view c t a = Some v"
  then show "\<exists>i < length (ac_entries c). entry_live t (ac_entries c ! i) \<and>
      ce_address (ac_entries c ! i) = a \<and> ce_hardware (ac_entries c ! i) = v"
    by (auto simp: cache_view_def find_Some_iff)
next
  assume "\<exists>i < length (ac_entries c). entry_live t (ac_entries c ! i) \<and>
      ce_address (ac_entries c ! i) = a \<and> ce_hardware (ac_entries c ! i) = v"
  then obtain i where i: "i < length (ac_entries c)" "entry_live t (ac_entries c ! i)"
    "ce_address (ac_entries c ! i) = a" "ce_hardware (ac_entries c ! i) = v" by blast
  have "find (\<lambda>e. entry_live t e \<and> ce_address e = a) (ac_entries c) = Some (ac_entries c ! i)"
    unfolding find_Some_iff
  proof (intro exI [of _ i] conjI allI impI notI)
    fix j assume j: "j < i" "entry_live t (ac_entries c ! j) \<and> ce_address (ac_entries c ! j) = a"
    then have "j = i"
      using assms i by (intro entries_distinctD [of "ac_entries c"]) (auto simp: cache_inv_def entry_live_def)
    then show False using j by simp
  qed (use i in auto)
  then show "cache_view c t a = Some v" using i by (simp add: cache_view_def)
qed

lemma view_eqI:
  assumes "cache_inv c" "cache_inv c'" "length (ac_entries c') = length (ac_entries c)"
    "\<And>i. i < length (ac_entries c) \<Longrightarrow>
      entry_live t (ac_entries c' ! i) = entry_live t (ac_entries c ! i) \<and>
      ce_address (ac_entries c' ! i) = ce_address (ac_entries c ! i) \<and>
      ce_hardware (ac_entries c' ! i) = ce_hardware (ac_entries c ! i)"
  shows "cache_view c' t = cache_view c t"
proof
  fix a
  have "cache_view c' t a = Some v \<longleftrightarrow> cache_view c t a = Some v" for v
    unfolding view_Some [OF assms(1)] view_Some [OF assms(2)] using assms(3,4) by auto
  then show "cache_view c' t a = cache_view c t a" by (metis not_Some_eq)
qed

lemma lookup_loop_nth:
  assumes "lookup_loop es a now = (es', r)"
  shows "length es' = length es \<and>
    (\<forall>i < length es. es' ! i = es ! i \<or> ce_expires_at_ns (es ! i) \<le> now \<and> es' ! i = (es ! i)\<lparr>ce_valid := False\<rparr>)"
  using assms
proof (induction es a now arbitrary: es' r rule: lookup_loop.induct)
  case (2 e es a now)
  show ?case
  proof (cases "\<not> ce_valid e \<or> ce_address e \<noteq> a")
    case True
    obtain es1 r1 where l: "lookup_loop es a now = (es1, r1)" by fastforce
    then have "es' = e # es1" using 2(2) True by simp
    moreover have "length es1 = length es \<and> (\<forall>i < length es. es1 ! i = es ! i \<or>
        ce_expires_at_ns (es ! i) \<le> now \<and> es1 ! i = (es ! i)\<lparr>ce_valid := False\<rparr>)"
      by (rule "2.IH" [OF True l])
    ultimately show ?thesis by (auto simp: nth_Cons split: nat.split)
  next
    case False
    then show ?thesis using 2(2) by (auto simp: nth_Cons split: if_splits nat.split)
  qed
qed simp

lemma lookup_loop_result:
  assumes "entries_distinct es" "lookup_loop es a now = (es', r)"
  shows "r = map_option ce_hardware (find (\<lambda>e. entry_live now e \<and> ce_address e = a) es)"
  using assms
proof (induction es a now arbitrary: es' r rule: lookup_loop.induct)
  case (2 e es a now)
  have d: "entries_distinct es"
    unfolding entries_distinct_def
  proof (intro allI impI)
    fix i j assume "i < length es" "j < length es" "ce_valid (es ! i)" "ce_valid (es ! j)"
      "ce_address (es ! i) = ce_address (es ! j)"
    then show "i = j" using entries_distinctD [OF 2(2), of "Suc i" "Suc j"] by simp
  qed
  show ?case
  proof (cases "\<not> ce_valid e \<or> ce_address e \<noteq> a")
    case True
    obtain es1 r1 where l: "lookup_loop es a now = (es1, r1)" by fastforce
    then show ?thesis using "2.IH" [OF True d l] 2(3) True by (auto simp: entry_live_def)
  next
    case False
    have "\<not> (entry_live now x \<and> ce_address x = a)" if mem: "x \<in> set es" for x
    proof
      assume x: "entry_live now x \<and> ce_address x = a"
      obtain i where "i < length es" "x = es ! i" using mem unfolding in_set_conv_nth by blast
      then show False
        using False x entries_distinctD [OF 2(2), of "Suc i" 0] by (auto simp: entry_live_def)
    qed
    then have "find (\<lambda>e. entry_live now e \<and> ce_address e = a) es = None" by (simp add: find_None_iff)
    then show ?thesis using False 2(3) by (auto simp: entry_live_def split: if_splits)
  qed
qed simp

text \<open>Invalidating entries that have expired is invisible from then on.\<close>

lemma expired_invisible:
  assumes "cache_inv c" "length es' = length (ac_entries c)"
    "\<And>i. i < length es' \<Longrightarrow> es' ! i = ac_entries c ! i \<or>
       ce_expires_at_ns (ac_entries c ! i) \<le> now \<and> es' ! i = (ac_entries c ! i)\<lparr>ce_valid := False\<rparr>"
  shows "cache_inv (c\<lparr>ac_entries := es'\<rparr>) \<and> (\<forall>t \<ge> now. cache_view (c\<lparr>ac_entries := es'\<rparr>) t = cache_view c t)"
proof -
  have sub: "ce_valid (es' ! i) \<Longrightarrow> es' ! i = ac_entries c ! i" if "i < length es'" for i
    using assms(3) [OF that] by auto
  have "i = j" if "i < length es'" "j < length es'" "ce_valid (es' ! i)" "ce_valid (es' ! j)"
    "ce_address (es' ! i) = ce_address (es' ! j)" for i j
    using that sub [OF that(1,3)] sub [OF that(2,4)] assms(1,2) entries_distinctD [of "ac_entries c" i j]
    by (simp add: cache_inv_def)
  then have inv: "cache_inv (c\<lparr>ac_entries := es'\<rparr>)"
    by (simp add: cache_inv_def entries_distinct_def)
  have "cache_view (c\<lparr>ac_entries := es'\<rparr>) t = cache_view c t" if "now \<le> t" for t
  proof (rule view_eqI [OF assms(1) inv])
    fix i assume "i < length (ac_entries c)"
    then show "entry_live t (ac_entries (c\<lparr>ac_entries := es'\<rparr>) ! i) = entry_live t (ac_entries c ! i) \<and>
      ce_address (ac_entries (c\<lparr>ac_entries := es'\<rparr>) ! i) = ce_address (ac_entries c ! i) \<and>
      ce_hardware (ac_entries (c\<lparr>ac_entries := es'\<rparr>) ! i) = ce_hardware (ac_entries c ! i)"
      using assms(2) assms(3) [of i] that by (auto simp: entry_live_def)
  qed (use assms in simp)
  then show ?thesis using inv by blast
qed

lemma cache_expire_law:
  assumes "cache_inv c"
  shows "cache_inv (cache_expire c now) \<and> (\<forall>t \<ge> now. cache_view (cache_expire c now) t = cache_view c t)"
  unfolding cache_expire_def by (rule expired_invisible [OF assms]) auto

lemma expired_all: "e \<in> set (ac_entries (cache_expire c now)) \<Longrightarrow> ce_valid e \<Longrightarrow> entry_live now e"
  by (auto simp: cache_expire_def entry_live_def split: if_splits)

lemma cache_lookup_law:
  assumes "cache_inv c" "cache_lookup c a now = (c', r)"
  shows "cache_inv c' \<and> r = cache_view c now a \<and> (\<forall>t \<ge> now. cache_view c' t = cache_view c t) \<and>
    ac_ttl_ns c' = ac_ttl_ns c \<and> length (ac_entries c') = length (ac_entries c)"
proof -
  obtain es where l: "lookup_loop (ac_entries c) a now = (es, r)" and c': "c' = c\<lparr>ac_entries := es\<rparr>"
    using assms(2) by (auto simp: cache_lookup_def split: prod.splits)
  have "r = cache_view c now a"
    using lookup_loop_result [OF _ l] assms(1) by (simp add: cache_inv_def cache_view_def)
  moreover have "cache_inv c' \<and> (\<forall>t \<ge> now. cache_view c' t = cache_view c t)"
    unfolding c' by (rule expired_invisible [OF assms(1)]) (use lookup_loop_nth [OF l] in auto)
  ultimately show ?thesis using lookup_loop_nth [OF l] by (simp add: c')
qed

lemma find_entry_None:
  "find_entry es a k av = None \<Longrightarrow>
   av = None \<and> (\<forall>e \<in> set es. ce_valid e \<and> ce_address e \<noteq> a)"
  by (induction es a k av rule: find_entry.induct) (auto split: if_splits)

lemma find_entry_Some:
  "find_entry es a k av = Some j \<Longrightarrow>
   k \<le> j \<and> j < k + length es \<and> ce_valid (es ! (j - k)) \<and> ce_address (es ! (j - k)) = a \<or>
   (\<forall>e \<in> set es. ce_valid e \<longrightarrow> ce_address e \<noteq> a) \<and>
     (av = Some j \<or> av = None \<and> k \<le> j \<and> j < k + length es \<and> \<not> ce_valid (es ! (j - k)))"
proof (induction es a k av rule: find_entry.induct)
  case (2 e es a k av)
  show ?case
  proof (cases "ce_valid e \<and> ce_address e = a")
    case False
    then have f: "find_entry es a (Suc k) (if \<not> ce_valid e \<and> av = None then Some k else av) = Some j"
      using 2(2) unfolding find_entry.simps if_not_P [OF False] by blast
    have n: "Suc k \<le> j \<Longrightarrow> (e # es) ! (j - k) = es ! (j - Suc k)" by (simp add: nth_Cons')
    show ?thesis using "2.IH" [OF False f] False n by (auto split: if_splits)
  qed (use 2(2) in simp)
qed simp

text \<open>Writing a fresh entry for an address that no other valid entry has.\<close>

lemma cache_write:
  assumes inv: "cache_inv c" and j: "j < length (ac_entries c)"
    and e: "ce_valid e" "ce_address e = a"
    and other: "\<And>i. i < length (ac_entries c) \<Longrightarrow> i \<noteq> j \<Longrightarrow> ce_valid (ac_entries c ! i) \<Longrightarrow>
       ce_address (ac_entries c ! i) \<noteq> a"
    and old: "\<not> ce_valid (ac_entries c ! j) \<or> ce_address (ac_entries c ! j) = a"
  shows "cache_inv (c\<lparr>ac_entries := (ac_entries c)[j := e]\<rparr>) \<and>
    cache_view (c\<lparr>ac_entries := (ac_entries c)[j := e]\<rparr>) t =
      (cache_view c t)(a := if t < ce_expires_at_ns e then Some (ce_hardware e) else None)"
proof -
  let ?c = "c\<lparr>ac_entries := (ac_entries c)[j := e]\<rparr>"
  have "k = l" if "k < length (ac_entries c)" "l < length (ac_entries c)"
    "ce_valid ((ac_entries c)[j := e] ! k)" "ce_valid ((ac_entries c)[j := e] ! l)"
    "ce_address ((ac_entries c)[j := e] ! k) = ce_address ((ac_entries c)[j := e] ! l)" for k l
    using that inv e other [of k] other [of l] entries_distinctD [of "ac_entries c" k l]
    by (cases "k = j"; cases "l = j") (auto simp: cache_inv_def)
  then have inv': "cache_inv ?c" by (simp add: cache_inv_def entries_distinct_def)
  have view: "cache_view ?c t b = Some v \<longleftrightarrow>
      ((cache_view c t)(a := if t < ce_expires_at_ns e then Some (ce_hardware e) else None)) b = Some v" for b v
  proof (cases "b = a")
    case True
    have "cache_view ?c t b = Some v \<longleftrightarrow> t < ce_expires_at_ns e \<and> ce_hardware e = v"
      unfolding view_Some [OF inv'] using j e other True
      by (auto simp: nth_list_update entry_live_def split: if_splits)
    then show ?thesis using True by simp
  next
    case False
    have "cache_view ?c t b = Some v \<longleftrightarrow> cache_view c t b = Some v"
      unfolding view_Some [OF inv'] view_Some [OF inv] using j e old False
      by (auto simp: nth_list_update entry_live_def split: if_splits)
    then show ?thesis using False by simp
  qed
  have "cache_view ?c t b =
      ((cache_view c t)(a := if t < ce_expires_at_ns e then Some (ce_hardware e) else None)) b" for b
    using view [of b] by (metis not_Some_eq)
  then show ?thesis using inv' by blast
qed

lemma card_view:
  assumes "cache_inv c"
  shows "card (dom (cache_view c t)) = card {i. i < length (ac_entries c) \<and> entry_live t (ac_entries c ! i)}"
proof -
  let ?I = "{i. i < length (ac_entries c) \<and> entry_live t (ac_entries c ! i)}"
  have "dom (cache_view c t) = (\<lambda>i. ce_address (ac_entries c ! i)) ` ?I"
    unfolding dom_def not_None_eq view_Some [OF assms] by auto
  moreover have "inj_on (\<lambda>i. ce_address (ac_entries c ! i)) ?I"
  proof (rule inj_onI)
    fix i j assume "i \<in> ?I" "j \<in> ?I" "ce_address (ac_entries c ! i) = ce_address (ac_entries c ! j)"
    then show "i = j"
      using entries_distinctD [of "ac_entries c" i j] assms by (simp add: cache_inv_def entry_live_def)
  qed
  ultimately show ?thesis by (simp add: card_image)
qed

lemma card_view_less:
  assumes "cache_inv c"
  shows "card (dom (cache_view c t)) < length (ac_entries c) \<longleftrightarrow>
    (\<exists>i < length (ac_entries c). \<not> entry_live t (ac_entries c ! i))"
proof -
  let ?I = "{i. i < length (ac_entries c) \<and> entry_live t (ac_entries c ! i)}"
  have sub: "?I \<subseteq> {..<length (ac_entries c)}" by auto
  have "card ?I < length (ac_entries c) \<longleftrightarrow> ?I \<noteq> {..<length (ac_entries c)}"
  proof
    assume "?I \<noteq> {..<length (ac_entries c)}"
    then have "card ?I < card {..<length (ac_entries c)}"
      using sub by (intro psubset_card_mono) auto
    then show "card ?I < length (ac_entries c)" by simp
  next
    assume less: "card ?I < length (ac_entries c)"
    show "?I \<noteq> {..<length (ac_entries c)}"
    proof
      assume "?I = {..<length (ac_entries c)}"
      then have "card ?I = length (ac_entries c)" by (simp only: card_lessThan)
      then show False using less by simp
    qed
  qed
  moreover have "?I \<noteq> {..<length (ac_entries c)} \<longleftrightarrow>
      (\<exists>i < length (ac_entries c). \<not> entry_live t (ac_entries c ! i))" by blast
  ultimately show ?thesis unfolding card_view [OF assms] by blast
qed

lemma cache_insert_law:
  assumes inv: "cache_inv c" and ins: "cache_insert c a v now = (c', ok)"
  shows "cache_inv c' \<and> ac_ttl_ns c' = ac_ttl_ns c \<and> length (ac_entries c') = length (ac_entries c) \<and>
    (ok \<longleftrightarrow> cache_view c now a \<noteq> None \<or> card (dom (cache_view c now)) < length (ac_entries c)) \<and>
    (\<forall>t \<ge> now. cache_view c' t = (if \<not> ok then cache_view c t
       else (cache_view c t)(a := if t < expiration_from c now then Some v else None)))"
proof -
  define d where "d = cache_expire c now"
  have d: "cache_inv d" "\<And>t. now \<le> t \<Longrightarrow> cache_view d t = cache_view c t"
    using cache_expire_law [OF inv, of now] by (auto simp: d_def)
  have s: "ac_ttl_ns d = ac_ttl_ns c" "length (ac_entries d) = length (ac_entries c)"
    "expiration_from d now = expiration_from c now"
    by (simp_all add: d_def cache_expire_def expiration_from_def)
  have lv: "entry_live now (ac_entries d ! i) = ce_valid (ac_entries d ! i)" if "i < length (ac_entries d)" for i
    using expired_all [of "ac_entries d ! i" c now] that by (auto simp: d_def [symmetric] entry_live_def)
  have view: "cache_view c now a \<noteq> None \<longleftrightarrow>
      (\<exists>i < length (ac_entries d). ce_valid (ac_entries d ! i) \<and> ce_address (ac_entries d ! i) = a)"
    using view_Some [OF d(1), of now a] d(2) [of now] lv by auto
  have room: "card (dom (cache_view c now)) < length (ac_entries c) \<longleftrightarrow>
      (\<exists>i < length (ac_entries d). \<not> ce_valid (ac_entries d ! i))"
    using card_view_less [OF d(1), of now] d(2) [of now] lv s by auto
  show ?thesis
  proof (cases "find_entry (ac_entries d) a 0 None")
    case None
    then have "c' = d" "\<not> ok" using ins by (auto simp: cache_insert_def d_def [symmetric])
    moreover have "\<forall>e \<in> set (ac_entries d). ce_valid e \<and> ce_address e \<noteq> a"
      using find_entry_None [OF None] by blast
    ultimately show ?thesis using d s view room by auto
  next
    case (Some j)
    let ?e = "\<lparr>ce_address = a, ce_hardware = v, ce_expires_at_ns = expiration_from c now,
      ce_valid = True, ce_refresh_requested = False\<rparr>"
    have c': "c' = d\<lparr>ac_entries := (ac_entries d)[j := ?e]\<rparr>" and ok: "ok"
      using ins Some s by (auto simp: cache_insert_def d_def [symmetric])
    have j: "j < length (ac_entries d)"
      "\<not> ce_valid (ac_entries d ! j) \<or> ce_address (ac_entries d ! j) = a"
      and other: "\<And>i. i < length (ac_entries d) \<Longrightarrow> i \<noteq> j \<Longrightarrow> ce_valid (ac_entries d ! i) \<Longrightarrow>
        ce_address (ac_entries d ! i) \<noteq> a"
      using find_entry_Some [OF Some] d(1) entries_distinctD [of "ac_entries d" _ j]
      by (auto simp: cache_inv_def)
    note w = cache_write [OF d(1) j(1) _ _ other j(2), of ?e]
    have "cache_inv c'" "\<And>t. cache_view c' t =
        (cache_view d t)(a := if t < expiration_from c now then Some v else None)"
      using w by (simp_all add: c')
    moreover have "cache_view c now a \<noteq> None \<or> card (dom (cache_view c now)) < length (ac_entries c)"
      unfolding view room using j by blast
    ultimately show ?thesis using d ok s by (simp add: c')
  qed
qed

interpretation arp_cache: expiring_map cache_inv cache_view expiration_from cache_capacity
  cache_lookup cache_insert cache_expire
proof unfold_locales
  show "cache_view c s a = Some v" if "cache_inv c" "cache_view c t a = Some v" "s \<le> t" for c t a v s
  proof -
    have "entry_live s e" if "entry_live t e" for e
      using that \<open>s \<le> t\<close> by (auto simp: entry_live_def)
    then show ?thesis using that unfolding view_Some [OF that(1)] by blast
  qed
  have exp: "expiration_from d = expiration_from c" if "ac_ttl_ns d = ac_ttl_ns c" for c d
    using that by (simp add: expiration_from_def fun_eq_iff)
  show "cache_inv c' \<and> r = cache_view c now a \<and> (\<forall>t \<ge> now. cache_view c' t = cache_view c t) \<and>
      expiration_from c' = expiration_from c \<and> cache_capacity c' = cache_capacity c"
    if "cache_inv c" "cache_lookup c a now = (c', r)" for c a now c' r
    using cache_lookup_law [OF that] exp [of c' c] by (simp add: cache_capacity_def)
  show "cache_inv (cache_expire c now) \<and> (\<forall>t \<ge> now. cache_view (cache_expire c now) t = cache_view c t) \<and>
      expiration_from (cache_expire c now) = expiration_from c \<and>
      cache_capacity (cache_expire c now) = cache_capacity c" if "cache_inv c" for c now
    using cache_expire_law [OF that] exp [of "cache_expire c now" c]
    by (simp add: cache_capacity_def cache_expire_def)
  show "cache_inv c' \<and> expiration_from c' = expiration_from c \<and> cache_capacity c' = cache_capacity c \<and>
      ok = (cache_view c now a \<noteq> None \<or> card (dom (cache_view c now)) < cache_capacity c) \<and>
      (\<forall>t \<ge> now. cache_view c' t = (if \<not> ok then cache_view c t
         else (cache_view c t)(a := if t < expiration_from c now then Some v else None)))"
    if "cache_inv c" "cache_insert c a v now = (c', ok)" for c a v now c' ok
    using cache_insert_law [OF that] exp [of c' c] by (simp add: cache_capacity_def)
qed

section \<open>Properties\<close>

text \<open>
  A run of the cache is a list of operations, each at its time. The specification is a map from
  addresses to hardware addresses with their expiry: learning binds the address until the time to live
  has passed, unless the address is unknown and as many addresses are known as there are entries.
\<close>

datatype cache_op = Learn ArpIpv4Address MacAddress u64 | Find ArpIpv4Address u64 | Expire u64

fun op_time :: "cache_op \<Rightarrow> u64" where
  "op_time (Learn a v now) = now"
| "op_time (Find a now) = now"
| "op_time (Expire now) = now"

fun cache_step :: "cache_op \<Rightarrow> ArpCache \<Rightarrow> ArpCache" where
  "cache_step (Learn a v now) c = fst (cache_insert c a v now)"
| "cache_step (Find a now) c = fst (cache_lookup c a now)"
| "cache_step (Expire now) c = cache_expire c now"

definition spec_view :: "(ArpIpv4Address \<Rightarrow> (MacAddress \<times> u64) option) \<Rightarrow> u64 \<Rightarrow> ArpIpv4Address \<Rightarrow> MacAddress option" where
  "spec_view s t a = (case s a of None \<Rightarrow> None | Some (v, x) \<Rightarrow> if t < x then Some v else None)"

fun spec_step :: "nat \<Rightarrow> u64 \<Rightarrow> cache_op \<Rightarrow> (ArpIpv4Address \<Rightarrow> (MacAddress \<times> u64) option) \<Rightarrow>
  ArpIpv4Address \<Rightarrow> (MacAddress \<times> u64) option" where
  "spec_step n ttl (Learn a v now) s =
     (if spec_view s now a \<noteq> None \<or> card (dom (spec_view s now)) < n
      then s(a := Some (v, deadline_from now ttl)) else s)"
| "spec_step n ttl (Find a now) s = s"
| "spec_step n ttl (Expire now) s = s"

lemma expiration_deadline: "expiration_from c now = deadline_from now (ac_ttl_ns c)"
  by (simp add: expiration_from_def deadline_from_def)

lemma new_ArpCache_law: "cache_inv (new_ArpCache n ttl)" "cache_view (new_ArpCache n ttl) t = Map.empty"
proof -
  show inv: "cache_inv (new_ArpCache n ttl)"
    by (simp add: cache_inv_def entries_distinct_def new_ArpCache_def default_ArpEntry_def)
  have "cache_view (new_ArpCache n ttl) t a \<noteq> Some v" for a v
    unfolding view_Some [OF inv] by (auto simp: new_ArpCache_def default_ArpEntry_def entry_live_def)
  then show "cache_view (new_ArpCache n ttl) t = Map.empty" by (metis ext not_Some_eq)
qed

lemma cache_step_refines:
  assumes inv: "cache_inv c" and now: "op_time x \<le> t" "\<And>u. op_time x \<le> u \<Longrightarrow> cache_view c u = spec_view s u"
  shows "cache_inv (cache_step x c) \<and> cache_capacity (cache_step x c) = cache_capacity c \<and>
    expiration_from (cache_step x c) = expiration_from c \<and>
    cache_view (cache_step x c) t = spec_view (spec_step (cache_capacity c) (ac_ttl_ns c) x s) t"
proof (cases x)
  case (Learn a v n)
  obtain c' ok where i: "cache_insert c a v n = (c', ok)" by fastforce
  have "spec_view (s(a := Some (v, deadline_from n (ac_ttl_ns c)))) t
      = (spec_view s t)(a := if t < expiration_from c n then Some v else None)"
    by (auto simp: spec_view_def expiration_deadline)
  then show ?thesis
    using arp_cache.insert_law [OF inv i] now Learn i by auto
next
  case (Find a n)
  obtain c' r where "cache_lookup c a n = (c', r)" by fastforce
  then show ?thesis using arp_cache.lookup_law [OF inv] now Find by simp
next
  case (Expire n)
  then show ?thesis using arp_cache.expire_law [OF inv, of n] now by simp
qed

lemma ttl_of_expiration: "expiration_from c = expiration_from d \<Longrightarrow> ac_ttl_ns c = ac_ttl_ns d"
  by (drule fun_cong [of _ _ 0]) (auto simp: expiration_from_def split: if_splits)

lemma cache_run_refines:
  assumes "sorted (map op_time ops)" "\<forall>x \<in> set ops. op_time x \<le> t"
  shows "let c = fold cache_step ops (new_ArpCache n ttl) in
    cache_inv c \<and> cache_capacity c = n \<and> ac_ttl_ns c = ttl \<and>
    cache_view c t = spec_view (fold (spec_step n ttl) ops Map.empty) t"
  using assms
proof (induction ops arbitrary: t rule: rev_induct)
  case Nil
  show ?case
    using new_ArpCache_law [of n ttl]
    by (simp add: spec_view_def fun_eq_iff cache_capacity_def new_ArpCache_def)
next
  case (snoc x ops)
  let ?c = "fold cache_step ops (new_ArpCache n ttl)"
  have le: "\<forall>y \<in> set ops. op_time y \<le> u" if "op_time x \<le> u" for u
    using snoc.prems(1) that by (auto simp: sorted_append)
  have so: "sorted (map op_time ops)" using snoc.prems(1) by (simp add: sorted_append)
  have IH: "cache_inv ?c \<and> cache_capacity ?c = n \<and> ac_ttl_ns ?c = ttl \<and>
      cache_view ?c u = spec_view (fold (spec_step n ttl) ops Map.empty) u" if "op_time x \<le> u" for u
    using snoc.IH [OF so le [OF that]] by (simp add: Let_def)
  have t: "op_time x \<le> t" using snoc.prems(2) by simp
  show ?case
    using cache_step_refines [of ?c x t "fold (spec_step n ttl) ops Map.empty"] IH t
      ttl_of_expiration [of "cache_step x ?c" ?c]
    by (simp add: Let_def)
qed

text \<open>
  Claim C33. The ARP cache refines an expiring map: after any run of learning, lookups and expiry with
  non-decreasing times, a lookup answers the hardware address last learned for the address until its
  time to live has passed, and nothing afterwards; the number of entries never changes, and
  an address is refused exactly when it is unknown and every entry holds another live address.
\<close>

theorem arp_cache_refines_map:
  assumes "sorted (map op_time ops)" "\<forall>x \<in> set ops. op_time x \<le> now"
  shows "let c = fold cache_step ops (new_ArpCache n ttl);
             s = fold (spec_step n ttl) ops Map.empty
         in length (ac_entries c) = n \<and> snd (cache_lookup c a now) = spec_view s now a \<and>
            (snd (cache_insert c a v now) \<longleftrightarrow>
               spec_view s now a \<noteq> None \<or> card (dom (spec_view s now)) < n)"
proof -
  let ?c = "fold cache_step ops (new_ArpCache n ttl)"
  obtain c1 r c2 ok where l: "cache_lookup ?c a now = (c1, r)" "cache_insert ?c a v now = (c2, ok)"
    by fastforce
  have run: "cache_inv ?c" "cache_capacity ?c = n"
    "cache_view ?c now = spec_view (fold (spec_step n ttl) ops Map.empty) now"
    using cache_run_refines [OF assms, of n ttl] by (simp_all add: Let_def)
  then show ?thesis
    using arp_cache.lookup_law [OF run(1) l(1)] arp_cache.insert_law [OF run(1) l(2)] l
    by (simp add: Let_def cache_capacity_def)
qed

theorem arp_cache_refines_map_witness:
  "snd (cache_lookup (fold cache_step [Learn 7 [1, 2, 3, 4, 5, 6] 10] (new_ArpCache 1 100)) 7 109)
     = Some [1, 2, 3, 4, 5, 6]"
  using arp_cache_refines_map [of "[Learn 7 [1, 2, 3, 4, 5, 6] 10]" 109 1 100 7 "[]"]
  by (simp add: Let_def spec_view_def [abs_def] deadline_from_def)

end
