(* ===== verification/Arp_Resolver.thy ===== *)
theory Arp_Resolver
  imports Arp_Cache
begin

text \<open>
  The ARP resolver (\<^verbatim>\<open>include/vectornet/link/arp.hpp\<close> 99-212, \<^verbatim>\<open>src/link/arp.cpp\<close> 179-471): the cache, the
  frames that wait for an address and the resolutions in flight.

  The three callbacks are functions on one context state \<open>'s\<close>, \<open>None\<close> being a null pointer; they do not
  call back into the resolver. The vectors of pending frames and resolutions are lists whose lengths
  never change, and a loop that mutates the element it stands on is a recursion over the list or a fold
  over its indices.
\<close>

definition kArpMaximumPendingPayloadBytes :: nat where "kArpMaximumPendingPayloadBytes = 2048"
definition kArpDefaultRefreshMarginNs :: u64 where "kArpDefaultRefreshMarginNs = 5000000000"
definition kArpDefaultRetryIntervalNs :: u64 where "kArpDefaultRetryIntervalNs = 250000000"
definition kArpDefaultPendingDeadlineNs :: u64 where "kArpDefaultPendingDeadlineNs = 1000000000"
definition kArpDefaultMaximumAttempts :: u8 where "kArpDefaultMaximumAttempts = 3"

type_synonym 's arp_transmit = "'s \<Rightarrow> MacAddress \<Rightarrow> byte list \<Rightarrow> 's \<times> error_code"
type_synonym 's frame_transmit = "'s \<Rightarrow> MacAddress \<Rightarrow> u16 \<Rightarrow> byte list \<Rightarrow> 's \<times> error_code"
type_synonym 's arp_failure = "'s \<Rightarrow> ArpIpv4Address \<Rightarrow> ArpStatus \<Rightarrow> 's"

record 's ArpResolverCallbacks =
  cb_arp_transmit :: "'s arp_transmit option"
  cb_frame_transmit :: "'s frame_transmit option"
  cb_failure :: "'s arp_failure option"

record ArpResolverConfig =
  cfg_cache_capacity :: nat
  cfg_pending_capacity :: nat
  cfg_ttl_ns :: u64
  cfg_refresh_margin_ns :: u64
  cfg_retry_interval_ns :: u64
  cfg_pending_deadline_ns :: u64
  cfg_maximum_attempts :: u8

definition default_ArpResolverConfig :: ArpResolverConfig where
  "default_ArpResolverConfig = \<lparr>cfg_cache_capacity = 64, cfg_pending_capacity = 64,
     cfg_ttl_ns = kArpDefaultTtlNs, cfg_refresh_margin_ns = kArpDefaultRefreshMarginNs,
     cfg_retry_interval_ns = kArpDefaultRetryIntervalNs,
     cfg_pending_deadline_ns = kArpDefaultPendingDeadlineNs,
     cfg_maximum_attempts = kArpDefaultMaximumAttempts\<rparr>"

record PendingFrame =
  pf_target :: ArpIpv4Address
  pf_ether_type :: u16
  pf_payload_bytes :: nat
  pf_deadline_ns :: u64
  pf_payload :: "byte list"
  pf_active :: bool

record Resolution =
  rs_target :: ArpIpv4Address
  rs_next_retry_ns :: u64
  rs_deadline_ns :: u64
  rs_attempts :: u8
  rs_active :: bool

record 's ArpResolver =
  ar_local_protocol :: ArpIpv4Address
  ar_local_hardware :: MacAddress
  ar_cache :: ArpCache
  ar_config :: ArpResolverConfig
  ar_callbacks :: "'s ArpResolverCallbacks"
  ar_pending :: "PendingFrame list"
  ar_resolutions :: "Resolution list"

definition default_PendingFrame :: PendingFrame where
  "default_PendingFrame = \<lparr>pf_target = 0, pf_ether_type = 0, pf_payload_bytes = 0, pf_deadline_ns = 0,
     pf_payload = replicate kArpMaximumPendingPayloadBytes 0, pf_active = False\<rparr>"

definition default_Resolution :: Resolution where
  "default_Resolution = \<lparr>rs_target = 0, rs_next_retry_ns = 0, rs_deadline_ns = 0, rs_attempts = 0,
     rs_active = False\<rparr>"

definition new_ArpResolver ::
  "ArpIpv4Address \<Rightarrow> MacAddress \<Rightarrow> ArpResolverConfig \<Rightarrow> 's ArpResolverCallbacks \<Rightarrow> 's ArpResolver" where
  "new_ArpResolver local_protocol local_hardware config callbacks =
     \<lparr>ar_local_protocol = local_protocol, ar_local_hardware = local_hardware,
      ar_cache = new_ArpCache (cfg_cache_capacity config) (cfg_ttl_ns config),
      ar_config = config, ar_callbacks = callbacks,
      ar_pending = replicate (cfg_pending_capacity config) default_PendingFrame,
      ar_resolutions = replicate (max (cfg_cache_capacity config) (cfg_pending_capacity config))
        default_Resolution\<rparr>"

definition transmit_message :: "'s ArpResolver \<Rightarrow> 's \<Rightarrow> MacAddress \<Rightarrow> ArpMessage \<Rightarrow> 's \<times> ArpStatus" where
  "transmit_message r ctx destination message =
     (case cb_arp_transmit (ar_callbacks r) of
        None \<Rightarrow> (ctx, arp_send_failed)
      | Some arp_transmit \<Rightarrow>
          let (build_status, payload, bytes_written) =
                build_arp_message message (replicate kArpPayloadBytes 0)
          in if build_status \<noteq> arp_ok then (ctx, build_status)
             else case arp_transmit ctx destination (take bytes_written payload) of (ctx, error) \<Rightarrow>
               (ctx, if error \<noteq> no_error then arp_send_failed else arp_ok))"

definition send_request :: "'s ArpResolver \<Rightarrow> 's \<Rightarrow> ArpIpv4Address \<Rightarrow> 's \<times> ArpStatus" where
  "send_request r ctx target =
     transmit_message r ctx kEthernetBroadcast
       \<lparr>am_operation = arp_request, am_sender_hardware = ar_local_hardware r,
        am_sender_protocol = ar_local_protocol r, am_target_hardware = zero_mac,
        am_target_protocol = target\<rparr>"

text \<open>The index of the first element with a property: the scans for a free slot.\<close>

fun index_where :: "('a \<Rightarrow> bool) \<Rightarrow> 'a list \<Rightarrow> nat option" where
  "index_where P [] = None"
| "index_where P (x # xs) = (if P x then Some 0 else map_option Suc (index_where P xs))"

definition ensure_resolution ::
  "'s ArpResolver \<Rightarrow> 's \<Rightarrow> ArpIpv4Address \<Rightarrow> u64 \<Rightarrow> 's ArpResolver \<times> 's \<times> ArpStatus" where
  "ensure_resolution r ctx target now_ns =
     (if cfg_maximum_attempts (ar_config r) = 0 then (r, ctx, arp_send_failed)
      else if list_ex (\<lambda>resolution. rs_active resolution \<and> rs_target resolution = target) (ar_resolutions r)
      then (r, ctx, arp_pending)
      else case index_where (\<lambda>resolution. \<not> rs_active resolution) (ar_resolutions r) of
        None \<Rightarrow> (r, ctx, arp_queue_full)
      | Some available \<Rightarrow>
          let r = r\<lparr>ar_resolutions := (ar_resolutions r)[available :=
                \<lparr>rs_target = target,
                 rs_next_retry_ns = deadline_from now_ns (cfg_retry_interval_ns (ar_config r)),
                 rs_deadline_ns = deadline_from now_ns (cfg_pending_deadline_ns (ar_config r)),
                 rs_attempts = 1, rs_active = True\<rparr>]\<rparr>;
              (ctx, status) = send_request r ctx target
          in if status \<noteq> arp_ok
             then (r\<lparr>ar_resolutions := (ar_resolutions r)[available :=
                     (ar_resolutions r ! available)\<lparr>rs_active := False\<rparr>]\<rparr>, ctx, status)
             else (r, ctx, arp_pending))"

definition failure_call :: "'s ArpResolverCallbacks \<Rightarrow> 's \<Rightarrow> ArpIpv4Address \<Rightarrow> ArpStatus \<Rightarrow> 's" where
  "failure_call callbacks ctx target reason =
     (case cb_failure callbacks of None \<Rightarrow> ctx | Some failure \<Rightarrow> failure ctx target reason)"

fun flush_loop ::
  "'s ArpResolverCallbacks \<Rightarrow> ArpIpv4Address \<Rightarrow> MacAddress \<Rightarrow> PendingFrame list \<Rightarrow> 's \<Rightarrow> ArpStatus \<Rightarrow>
   PendingFrame list \<times> 's \<times> ArpStatus" where
  "flush_loop callbacks target hardware [] ctx result = ([], ctx, result)"
| "flush_loop callbacks target hardware (pending # rest) ctx result =
     (if \<not> pf_active pending \<or> pf_target pending \<noteq> target
      then (case flush_loop callbacks target hardware rest ctx result of
              (rest, ctx, result) \<Rightarrow> (pending # rest, ctx, result))
      else
        let (ctx, error) =
              (case cb_frame_transmit callbacks of
                 None \<Rightarrow> (ctx, operation_not_supported)
               | Some frame_transmit \<Rightarrow>
                   frame_transmit ctx hardware (pf_ether_type pending)
                     (take (pf_payload_bytes pending) (pf_payload pending)));
            (ctx, result) =
              (if error \<noteq> no_error
               then (failure_call callbacks ctx target arp_send_failed, arp_send_failed)
               else (ctx, result))
        in case flush_loop callbacks target hardware rest ctx result of
             (rest, ctx, result) \<Rightarrow> (pending\<lparr>pf_active := False\<rparr> # rest, ctx, result))"

definition flush_pending ::
  "'s ArpResolver \<Rightarrow> 's \<Rightarrow> ArpIpv4Address \<Rightarrow> MacAddress \<Rightarrow> 's ArpResolver \<times> 's \<times> ArpStatus" where
  "flush_pending r ctx target hardware =
     (case flush_loop (ar_callbacks r) target hardware (ar_pending r) ctx arp_ok of
        (pending, ctx, result) \<Rightarrow> (r\<lparr>ar_pending := pending\<rparr>, ctx, result))"

fun fail_loop ::
  "'s ArpResolverCallbacks \<Rightarrow> ArpIpv4Address \<Rightarrow> ArpStatus \<Rightarrow> PendingFrame list \<Rightarrow> 's \<Rightarrow> PendingFrame list \<times> 's" where
  "fail_loop callbacks target reason [] ctx = ([], ctx)"
| "fail_loop callbacks target reason (pending # rest) ctx =
     (if \<not> pf_active pending \<or> pf_target pending \<noteq> target
      then (case fail_loop callbacks target reason rest ctx of (rest, ctx) \<Rightarrow> (pending # rest, ctx))
      else case fail_loop callbacks target reason rest (failure_call callbacks ctx target reason) of
             (rest, ctx) \<Rightarrow> (pending\<lparr>pf_active := False\<rparr> # rest, ctx))"

definition fail_pending :: "'s ArpResolver \<Rightarrow> 's \<Rightarrow> ArpIpv4Address \<Rightarrow> ArpStatus \<Rightarrow> 's ArpResolver \<times> 's" where
  "fail_pending r ctx target reason =
     (case fail_loop (ar_callbacks r) target reason (ar_pending r) ctx of
        (pending, ctx) \<Rightarrow> (r\<lparr>ar_pending := pending\<rparr>, ctx))"

definition clear_resolution :: "'s ArpResolver \<Rightarrow> ArpIpv4Address \<Rightarrow> 's ArpResolver" where
  "clear_resolution r target =
     r\<lparr>ar_resolutions := map (\<lambda>resolution.
          if rs_active resolution \<and> rs_target resolution = target
          then resolution\<lparr>rs_active := False\<rparr> else resolution) (ar_resolutions r)\<rparr>"

record ArpResolveResult =
  arr_hardware :: "MacAddress option"
  arr_status :: ArpStatus

definition resolve ::
  "'s ArpResolver \<Rightarrow> 's \<Rightarrow> ArpIpv4Address \<Rightarrow> u64 \<Rightarrow> 's ArpResolver \<times> 's \<times> ArpResolveResult" where
  "resolve r ctx target now_ns =
     (case cache_lookup (ar_cache r) target now_ns of (cache, hardware) \<Rightarrow>
        let r = r\<lparr>ar_cache := cache\<rparr> in
        if hardware \<noteq> None then (r, ctx, \<lparr>arr_hardware = hardware, arr_status = arp_ok\<rparr>)
        else case ensure_resolution r ctx target now_ns of (r, ctx, status) \<Rightarrow>
          (r, ctx, \<lparr>arr_hardware = None, arr_status = status\<rparr>))"

definition on_arp_payload ::
  "'s ArpResolver \<Rightarrow> 's \<Rightarrow> byte list \<Rightarrow> u64 \<Rightarrow> 's ArpResolver \<times> 's \<times> ArpStatus" where
  "on_arp_payload r ctx payload now_ns =
     (case parse_arp_message payload of (parse_status, message) \<Rightarrow>
        if parse_status \<noteq> arp_ok then (r, ctx, parse_status)
        else
          case cache_insert (ar_cache r) (am_sender_protocol message) (am_sender_hardware message) now_ns of
            (cache, cached) \<Rightarrow>
          let r = r\<lparr>ar_cache := cache\<rparr>;
              r = clear_resolution r (am_sender_protocol message)
          in case flush_pending r ctx (am_sender_protocol message) (am_sender_hardware message) of
            (r, ctx, flush_status) \<Rightarrow>
          let (ctx, reply_status) =
                (if am_operation message = arp_request \<and> am_target_protocol message = ar_local_protocol r
                 then transmit_message r ctx (am_sender_hardware message)
                        \<lparr>am_operation = arp_reply, am_sender_hardware = ar_local_hardware r,
                         am_sender_protocol = ar_local_protocol r,
                         am_target_hardware = am_sender_hardware message,
                         am_target_protocol = am_sender_protocol message\<rparr>
                 else (ctx, arp_ok))
          in (r, ctx,
              if flush_status \<noteq> arp_ok then flush_status
              else if reply_status \<noteq> arp_ok then reply_status
              else if cached then arp_ok else arp_cache_full))"

definition queue_frame ::
  "'s ArpResolver \<Rightarrow> 's \<Rightarrow> ArpIpv4Address \<Rightarrow> u16 \<Rightarrow> byte list \<Rightarrow> u64 \<Rightarrow> 's ArpResolver \<times> 's \<times> ArpStatus" where
  "queue_frame r ctx target ether_type payload now_ns =
     (if length payload > kArpMaximumPendingPayloadBytes then (r, ctx, arp_payload_too_large)
      else case cb_frame_transmit (ar_callbacks r) of
        None \<Rightarrow> (r, ctx, arp_send_failed)
      | Some frame_transmit \<Rightarrow>
      case cache_lookup (ar_cache r) target now_ns of (cache, hardware) \<Rightarrow>
      let r = r\<lparr>ar_cache := cache\<rparr> in
      case hardware of
        Some hw \<Rightarrow>
          (case frame_transmit ctx hw ether_type payload of (ctx, error) \<Rightarrow>
             (r, ctx, if error \<noteq> no_error then arp_send_failed else arp_ok))
      | None \<Rightarrow>
      case index_where (\<lambda>pending. \<not> pf_active pending) (ar_pending r) of
        None \<Rightarrow> (r, ctx, arp_queue_full)
      | Some slot \<Rightarrow>
          let old = ar_pending r ! slot;
              r = r\<lparr>ar_pending := (ar_pending r)[slot :=
                old\<lparr>pf_target := target, pf_ether_type := ether_type, pf_payload_bytes := length payload,
                    pf_deadline_ns := deadline_from now_ns (cfg_pending_deadline_ns (ar_config r)),
                    pf_active := True, pf_payload := memcpy_at (pf_payload old) 0 payload\<rparr>]\<rparr>
          in case ensure_resolution r ctx target now_ns of (r, ctx, resolution_status) \<Rightarrow>
             if resolution_status \<noteq> arp_pending
             then (r\<lparr>ar_pending := (ar_pending r)[slot := (ar_pending r ! slot)\<lparr>pf_active := False\<rparr>]\<rparr>,
                   ctx, resolution_status)
             else (r, ctx, arp_queued))"

text \<open>The three loops of \<open>tick\<close>.\<close>

fun expire_pending ::
  "'s ArpResolverCallbacks \<Rightarrow> u64 \<Rightarrow> PendingFrame list \<Rightarrow> 's \<Rightarrow> PendingFrame list \<times> 's" where
  "expire_pending callbacks now_ns [] ctx = ([], ctx)"
| "expire_pending callbacks now_ns (pending # rest) ctx =
     (if \<not> pf_active pending \<or> now_ns < pf_deadline_ns pending
      then (case expire_pending callbacks now_ns rest ctx of (rest, ctx) \<Rightarrow> (pending # rest, ctx))
      else case expire_pending callbacks now_ns rest
                  (failure_call callbacks ctx (pf_target pending) arp_unreachable) of
             (rest, ctx) \<Rightarrow> (pending\<lparr>pf_active := False\<rparr> # rest, ctx))"

definition tick_resolution :: "u64 \<Rightarrow> nat \<Rightarrow> 's ArpResolver \<times> 's \<Rightarrow> 's ArpResolver \<times> 's" where
  "tick_resolution now_ns index st =
     (case st of (r, ctx) \<Rightarrow>
        let resolution = ar_resolutions r ! index;
            deactivate = (\<lambda>r. r\<lparr>ar_resolutions := (ar_resolutions r)[index := resolution\<lparr>rs_active := False\<rparr>]\<rparr>)
        in if \<not> rs_active resolution then (r, ctx)
           else if now_ns \<ge> rs_deadline_ns resolution
           then (case fail_pending r ctx (rs_target resolution) arp_unreachable of
                   (r, ctx) \<Rightarrow> (deactivate r, ctx))
           else if rs_attempts resolution \<ge> cfg_maximum_attempts (ar_config r) \<or>
                   now_ns < rs_next_retry_ns resolution
           then (r, ctx)
           else case send_request r ctx (rs_target resolution) of (ctx, status) \<Rightarrow>
             if status \<noteq> arp_ok
             then (case fail_pending r ctx (rs_target resolution) status of (r, ctx) \<Rightarrow> (deactivate r, ctx))
             else (r\<lparr>ar_resolutions := (ar_resolutions r)[index := resolution\<lparr>
                       rs_attempts := rs_attempts resolution + 1,
                       rs_next_retry_ns := deadline_from now_ns (cfg_retry_interval_ns (ar_config r))\<rparr>]\<rparr>,
                   ctx))"

definition tick_refresh :: "u64 \<Rightarrow> nat \<Rightarrow> 's ArpResolver \<times> 's \<Rightarrow> 's ArpResolver \<times> 's" where
  "tick_refresh now_ns index st =
     (case st of (r, ctx) \<Rightarrow>
        let entry = ac_entries (ar_cache r) ! index in
        if \<not> ce_valid entry \<or> ce_refresh_requested entry \<or> now_ns \<ge> ce_expires_at_ns entry \<or>
           ce_expires_at_ns entry - now_ns > cfg_refresh_margin_ns (ar_config r)
        then (r, ctx)
        else case ensure_resolution r ctx (ce_address entry) now_ns of (r, ctx, status) \<Rightarrow>
          if status = arp_pending
          then (r\<lparr>ar_cache := (ar_cache r)\<lparr>ac_entries :=
                  (ac_entries (ar_cache r))[index := entry\<lparr>ce_refresh_requested := True\<rparr>]\<rparr>\<rparr>, ctx)
          else (r, ctx))"

definition arp_tick :: "'s ArpResolver \<Rightarrow> 's \<Rightarrow> u64 \<Rightarrow> 's ArpResolver \<times> 's" where
  "arp_tick r ctx now_ns =
     (let r = r\<lparr>ar_cache := cache_expire (ar_cache r) now_ns\<rparr> in
      case expire_pending (ar_callbacks r) now_ns (ar_pending r) ctx of (pending, ctx) \<Rightarrow>
      let st = (r\<lparr>ar_pending := pending\<rparr>, ctx);
          st = fold (tick_resolution now_ns) [0..<length (ar_resolutions r)] st
      in fold (tick_refresh now_ns) [0..<length (ac_entries (ar_cache r))] st)"

definition pending_frames :: "'s ArpResolver \<Rightarrow> nat" where
  "pending_frames r = length (filter pf_active (ar_pending r))"

definition active_resolutions :: "'s ArpResolver \<Rightarrow> nat" where
  "active_resolutions r = length (filter rs_active (ar_resolutions r))"

section \<open>Invariant\<close>

text \<open>
  The addresses with a resolution in flight and the addresses frames wait for. No address has two
  resolutions, a resolution has made at least one request and at most the configured number, and every
  waiting frame has a resolution in flight, so that it will be flushed or failed.
\<close>

definition inflight :: "Resolution list \<Rightarrow> ArpIpv4Address set" where
  "inflight rs = rs_target ` {x \<in> set rs. rs_active x}"

definition waiting :: "PendingFrame list \<Rightarrow> ArpIpv4Address set" where
  "waiting ps = pf_target ` {p \<in> set ps. pf_active p}"

definition resolutions_ok :: "u8 \<Rightarrow> Resolution list \<Rightarrow> bool" where
  "resolutions_ok m rs \<longleftrightarrow>
     (\<forall>i < length rs. \<forall>j < length rs. rs_active (rs ! i) \<longrightarrow> rs_active (rs ! j) \<longrightarrow>
        rs_target (rs ! i) = rs_target (rs ! j) \<longrightarrow> i = j) \<and>
     (\<forall>x \<in> set rs. rs_active x \<longrightarrow> 0 < rs_attempts x \<and> rs_attempts x \<le> m)"

definition pending_ok :: "u64 \<Rightarrow> PendingFrame list \<Rightarrow> bool" where
  "pending_ok due ps \<longleftrightarrow> (\<forall>p \<in> set ps. length (pf_payload p) = 2048 \<and> pf_payload_bytes p \<le> 2048 \<and>
     (pf_active p \<longrightarrow> pf_deadline_ns p \<le> due))"

definition ar_inv :: "'s ArpResolverCallbacks \<Rightarrow> ArpResolverConfig \<Rightarrow> u64 \<Rightarrow> 's ArpResolver \<Rightarrow> bool" where
  "ar_inv cb cfg due r \<longleftrightarrow> ar_callbacks r = cb \<and> ar_config r = cfg \<and> cache_inv (ar_cache r) \<and>
     cache_capacity (ar_cache r) = cfg_cache_capacity cfg \<and>
     length (ar_pending r) = cfg_pending_capacity cfg \<and>
     length (ar_resolutions r) = max (cfg_cache_capacity cfg) (cfg_pending_capacity cfg) \<and>
     resolutions_ok (cfg_maximum_attempts cfg) (ar_resolutions r) \<and> pending_ok due (ar_pending r) \<and>
     waiting (ar_pending r) \<subseteq> inflight (ar_resolutions r)"

lemma ar_inv_new: "ar_inv cb cfg due (new_ArpResolver p h cfg cb)"
proof -
  have "cache_capacity (new_ArpCache n ttl) = n" for n ttl by (simp add: cache_capacity_def new_ArpCache_def)
  moreover have "waiting (replicate n default_PendingFrame) = {}" for n
    by (auto simp: waiting_def default_PendingFrame_def)
  ultimately show ?thesis
    by (simp add: ar_inv_def new_ArpResolver_def new_ArpCache_law resolutions_ok_def default_Resolution_def
        pending_ok_def default_PendingFrame_def kArpMaximumPendingPayloadBytes_def)
qed

lemma ar_inv_due: "ar_inv cb cfg due r \<Longrightarrow> due \<le> due' \<Longrightarrow> ar_inv cb cfg due' r"
  by (force simp: ar_inv_def pending_ok_def)

lemma resolutions_okD:
  "resolutions_ok m rs \<Longrightarrow> i < length rs \<Longrightarrow> j < length rs \<Longrightarrow> rs_active (rs ! i) \<Longrightarrow> rs_active (rs ! j) \<Longrightarrow>
   rs_target (rs ! i) = rs_target (rs ! j) \<Longrightarrow> i = j"
  by (simp add: resolutions_ok_def)

lemma index_where_Some: "index_where P xs = Some i \<Longrightarrow> i < length xs \<and> P (xs ! i)"
  by (induction P xs arbitrary: i rule: index_where.induct) (auto split: if_splits)

lemma index_where_first: "index_where P xs = Some i \<Longrightarrow> \<forall>j < i. \<not> P (xs ! j)"
  by (induction P xs arbitrary: i rule: index_where.induct) (auto simp: nth_Cons split: if_splits nat.splits)

lemma inflight_nth: "a \<in> inflight rs \<longleftrightarrow> (\<exists>i < length rs. rs_active (rs ! i) \<and> rs_target (rs ! i) = a)"
  by (auto simp: inflight_def in_set_conv_nth)

text \<open>Writing one element of the resolution vector.\<close>

lemma resolutions_ok_update:
  assumes ok: "resolutions_ok m rs" and i: "i < length rs"
    and x: "rs_active x \<Longrightarrow> 0 < rs_attempts x \<and> rs_attempts x \<le> m"
      "rs_active x \<Longrightarrow> rs_target x \<notin> inflight rs \<or> rs_active (rs ! i) \<and> rs_target (rs ! i) = rs_target x"
  shows "resolutions_ok m (rs[i := x])"
proof -
  have other: "k = i" if "k < length rs" "rs_active (rs ! k)" "rs_target (rs ! k) = rs_target x" "rs_active x" for k
    using x(2) [OF that(4)] that resolutions_okD [OF ok that(1) i] by (auto simp: inflight_nth)
  have "k = l" if "k < length rs" "l < length rs" "rs_active (rs[i := x] ! k)" "rs_active (rs[i := x] ! l)"
    "rs_target (rs[i := x] ! k) = rs_target (rs[i := x] ! l)" for k l
  proof (cases "k = i \<or> l = i")
    case True
    then show ?thesis using that other [of k] other [of l] i by (auto simp: nth_list_update split: if_splits)
  next
    case False
    then show ?thesis using that by (intro resolutions_okD [OF ok]) simp_all
  qed
  moreover have "0 < rs_attempts y \<and> rs_attempts y \<le> m" if "y \<in> set (rs[i := x])" "rs_active y" for y
    using that x(1) ok set_update_subset_insert [of rs i x] by (auto simp: resolutions_ok_def)
  ultimately show ?thesis by (simp add: resolutions_ok_def)
qed

lemma inflight_update:
  assumes ok: "resolutions_ok m rs" and i: "i < length rs"
  shows "inflight (rs[i := x]) =
    (inflight rs - (if rs_active (rs ! i) then {rs_target (rs ! i)} else {})) \<union>
    (if rs_active x then {rs_target x} else {})"
proof (rule set_eqI)
  fix a
  have "(\<exists>k < length rs. k \<noteq> i \<and> rs_active (rs ! k) \<and> rs_target (rs ! k) = a) \<longleftrightarrow>
      a \<in> inflight rs - (if rs_active (rs ! i) then {rs_target (rs ! i)} else {})"
    using i resolutions_okD [OF ok _ i] by (auto simp: inflight_nth)
  moreover have "a \<in> inflight (rs[i := x]) \<longleftrightarrow> rs_active x \<and> rs_target x = a \<or>
      (\<exists>k < length rs. k \<noteq> i \<and> rs_active (rs ! k) \<and> rs_target (rs ! k) = a)"
    using i by (auto simp: inflight_nth nth_list_update)
  ultimately show "a \<in> inflight (rs[i := x]) \<longleftrightarrow>
      a \<in> (inflight rs - (if rs_active (rs ! i) then {rs_target (rs ! i)} else {})) \<union>
        (if rs_active x then {rs_target x} else {})" by auto
qed

text \<open>The loops that end waiting frames: the frames with a property leave, whatever the callbacks do.\<close>

definition drop_frames :: "(PendingFrame \<Rightarrow> bool) \<Rightarrow> PendingFrame list \<Rightarrow> PendingFrame list" where
  "drop_frames P = map (\<lambda>p. if pf_active p \<and> P p then p\<lparr>pf_active := False\<rparr> else p)"

lemma flush_loop_pending: "fst (flush_loop cb t hw ps ctx res) = drop_frames (\<lambda>p. pf_target p = t) ps"
  by (induction cb t hw ps ctx res rule: flush_loop.induct)
     (auto simp: drop_frames_def Let_def split: prod.splits if_splits)

lemma fail_loop_pending: "fst (fail_loop cb t reason ps ctx) = drop_frames (\<lambda>p. pf_target p = t) ps"
  by (induction cb t reason ps ctx rule: fail_loop.induct)
     (auto simp: drop_frames_def split: prod.splits if_splits)

lemma expire_pending_pending:
  "fst (expire_pending cb now ps ctx) = drop_frames (\<lambda>p. pf_deadline_ns p \<le> now) ps"
  by (induction cb now ps ctx rule: expire_pending.induct)
     (auto simp: drop_frames_def not_less split: prod.splits if_splits)

lemma length_drop_frames [simp]: "length (drop_frames P ps) = length ps"
  by (simp add: drop_frames_def)

lemma active_drop_frames: "{p \<in> set (drop_frames P ps). pf_active p} = {p \<in> set ps. pf_active p \<and> \<not> P p}"
  by (auto simp: drop_frames_def split: if_splits)

lemma pending_ok_drop: "pending_ok due ps \<Longrightarrow> pending_ok due (drop_frames P ps)"
  by (auto simp: pending_ok_def drop_frames_def)

lemma waiting_drop_target: "waiting (drop_frames (\<lambda>p. pf_target p = t) ps) = waiting ps - {t}"
  by (auto simp: waiting_def active_drop_frames)

lemma waiting_drop: "waiting (drop_frames P ps) \<subseteq> waiting ps"
  by (auto simp: waiting_def active_drop_frames)

section \<open>Every operation keeps the invariant\<close>

lemma transmit_message_status: "snd (transmit_message r ctx d m) \<noteq> arp_pending"
  by (auto simp: transmit_message_def build_arp_message_def Let_def split: option.split prod.split)

lemma ensure_resolution_law:
  assumes e: "ensure_resolution r ctx t now = (r', ctx', st)"
    and ok: "resolutions_ok (cfg_maximum_attempts (ar_config r)) (ar_resolutions r)"
  shows "\<exists>rs. r' = r\<lparr>ar_resolutions := rs\<rparr> \<and> length rs = length (ar_resolutions r) \<and>
    resolutions_ok (cfg_maximum_attempts (ar_config r)) rs \<and>
    inflight rs = inflight (ar_resolutions r) \<union> (if st = arp_pending then {t} else {})"
proof -
  let ?m = "cfg_maximum_attempts (ar_config r)" and ?rs = "ar_resolutions r"
  have in_ex: "t \<in> inflight ?rs \<longleftrightarrow> list_ex (\<lambda>x. rs_active x \<and> rs_target x = t) ?rs"
    by (auto simp: inflight_def list_ex_iff)
  have self: "r = r\<lparr>ar_resolutions := ?rs\<rparr>" by simp
  consider (none) "r' = r" "st = arp_send_failed \<or> st = arp_queue_full"
    | (already) "r' = r" "st = arp_pending" "t \<in> inflight ?rs"
    | (fresh) i x where "i < length ?rs" "\<not> rs_active (?rs ! i)" "t \<notin> inflight ?rs" "?m \<noteq> 0"
        "x = \<lparr>rs_target = t, rs_next_retry_ns = deadline_from now (cfg_retry_interval_ns (ar_config r)),
           rs_deadline_ns = deadline_from now (cfg_pending_deadline_ns (ar_config r)), rs_attempts = 1,
           rs_active = True\<rparr>"
        "if st = arp_pending then r' = r\<lparr>ar_resolutions := ?rs[i := x]\<rparr>
         else r' = r\<lparr>ar_resolutions := ?rs[i := x\<lparr>rs_active := False\<rparr>]\<rparr>"
  proof (cases "?m = 0 \<or> t \<in> inflight ?rs \<or> index_where (\<lambda>x. \<not> rs_active x) ?rs = None")
    case True
    then show ?thesis using e none already
      by (auto simp: ensure_resolution_def in_ex split: if_splits)
  next
    case False
    then obtain i where i: "index_where (\<lambda>x. \<not> rs_active x) ?rs = Some i" by auto
    let ?x = "\<lparr>rs_target = t, rs_next_retry_ns = deadline_from now (cfg_retry_interval_ns (ar_config r)),
           rs_deadline_ns = deadline_from now (cfg_pending_deadline_ns (ar_config r)), rs_attempts = 1,
           rs_active = True\<rparr>"
    let ?r = "r\<lparr>ar_resolutions := ?rs[i := ?x]\<rparr>"
    obtain c s where s: "send_request ?r ctx t = (c, s)" by fastforce
    have "s \<noteq> arp_pending"
      using transmit_message_status s unfolding send_request_def by (metis snd_conv)
    then show ?thesis
      using fresh [of i ?x] e False i index_where_Some [OF i] s
      by (auto simp: ensure_resolution_def in_ex Let_def split: if_splits)
  qed
  then show ?thesis
  proof cases
    case none
    then show ?thesis using ok self by (intro exI [of _ ?rs]) auto
  next
    case already
    then show ?thesis using ok self by (intro exI [of _ ?rs]) auto
  next
    case fresh
    let ?y = "if st = arp_pending then x else x\<lparr>rs_active := False\<rparr>"
    have "resolutions_ok ?m (?rs[i := ?y])"
      by (rule resolutions_ok_update [OF ok fresh(1)])
         (use fresh in \<open>auto simp: word_le_nat_alt unat_gt_0 Suc_le_eq\<close>)
    moreover have "inflight (?rs[i := ?y]) = inflight ?rs \<union> (if st = arp_pending then {t} else {})"
      using fresh by (simp add: inflight_update [OF ok fresh(1)])
    moreover have "r' = r\<lparr>ar_resolutions := ?rs[i := ?y]\<rparr>"
      using fresh by (auto split: if_splits)
    ultimately show ?thesis by (intro exI [of _ "?rs[i := ?y]"]) simp
  qed
qed

lemma ensure_resolution_inv:
  assumes "ensure_resolution r ctx t now = (r', ctx', st)" "ar_inv cb cfg due r"
  shows "ar_inv cb cfg due r' \<and> ar_pending r' = ar_pending r \<and> ar_cache r' = ar_cache r \<and>
    (st = arp_pending \<longrightarrow> t \<in> inflight (ar_resolutions r'))"
proof -
  obtain rs where "r' = r\<lparr>ar_resolutions := rs\<rparr>" "length rs = length (ar_resolutions r)"
    "resolutions_ok (cfg_maximum_attempts cfg) rs"
    "inflight rs = inflight (ar_resolutions r) \<union> (if st = arp_pending then {t} else {})"
    using ensure_resolution_law [OF assms(1)] assms(2) unfolding ar_inv_def by auto
  then show ?thesis using assms(2) by (auto simp: ar_inv_def)
qed

lemma lookup_inv:
  assumes "ar_inv cb cfg due r" "cache_lookup (ar_cache r) t now = (c, hw)"
  shows "ar_inv cb cfg due (r\<lparr>ar_cache := c\<rparr>)"
  using assms arp_cache.lookup_law [OF _ assms(2)] by (simp add: ar_inv_def)

lemma resolve_inv:
  assumes "ar_inv cb cfg due r" "resolve r ctx t now = (r', ctx', res)"
  shows "ar_inv cb cfg due r' \<and> ar_pending r' = ar_pending r"
proof -
  obtain c hw where l: "cache_lookup (ar_cache r) t now = (c, hw)" by fastforce
  obtain r1 c1 st where e: "ensure_resolution (r\<lparr>ar_cache := c\<rparr>) ctx t now = (r1, c1, st)" by (metis prod_cases3)
  show ?thesis
    using assms(2) l e lookup_inv [OF assms(1) l] ensure_resolution_inv [OF e lookup_inv [OF assms(1) l]]
    by (auto simp: resolve_def Let_def split: if_splits)
qed

lemma clear_resolution_inv:
  assumes ok: "resolutions_ok m (ar_resolutions r)"
  shows "resolutions_ok m (ar_resolutions (clear_resolution r t)) \<and>
    inflight (ar_resolutions (clear_resolution r t)) = inflight (ar_resolutions r) - {t}"
proof -
  have act: "rs_active (ar_resolutions (clear_resolution r t) ! i) \<longleftrightarrow>
      rs_active (ar_resolutions r ! i) \<and> rs_target (ar_resolutions r ! i) \<noteq> t"
    "rs_target (ar_resolutions (clear_resolution r t) ! i) = rs_target (ar_resolutions r ! i)"
    if "i < length (ar_resolutions r)" for i
    using that by (auto simp: clear_resolution_def)
  have "inflight (ar_resolutions (clear_resolution r t)) = inflight (ar_resolutions r) - {t}"
    unfolding set_eq_iff inflight_nth Diff_iff using act by (auto simp: clear_resolution_def)
  moreover have "resolutions_ok m (ar_resolutions (clear_resolution r t))"
    using ok by (auto simp: resolutions_ok_def clear_resolution_def split: if_splits)
  ultimately show ?thesis by blast
qed

lemma on_arp_payload_inv:
  assumes "ar_inv cb cfg due r" "on_arp_payload r ctx bs now = (r', ctx', st)"
  shows "ar_inv cb cfg due r' \<and>
    ar_pending r' = (case parse_arp_message bs of (s, m) \<Rightarrow>
       if s = arp_ok then drop_frames (\<lambda>p. pf_target p = am_sender_protocol m) (ar_pending r) else ar_pending r)"
proof -
  obtain s m where p: "parse_arp_message bs = (s, m)" by fastforce
  show ?thesis
  proof (cases "s = arp_ok")
    case False
    then show ?thesis using assms p by (simp add: on_arp_payload_def)
  next
    case True
    let ?t = "am_sender_protocol m" and ?hw = "am_sender_hardware m"
    obtain c ok where i: "cache_insert (ar_cache r) ?t ?hw now = (c, ok)" by fastforce
    let ?r = "clear_resolution (r\<lparr>ar_cache := c\<rparr>) ?t"
    obtain ps c1 fs where f: "flush_loop (ar_callbacks ?r) ?t ?hw (ar_pending ?r) ctx arp_ok = (ps, c1, fs)"
      by (metis prod_cases3)
    have ps: "ps = drop_frames (\<lambda>p. pf_target p = ?t) (ar_pending r)"
      using flush_loop_pending [of "ar_callbacks ?r" ?t ?hw "ar_pending ?r" ctx arp_ok] f
      by (simp add: clear_resolution_def)
    have r': "r' = ?r\<lparr>ar_pending := ps\<rparr>"
      using assms(2) p True i f
      by (auto simp: on_arp_payload_def flush_pending_def Let_def split: prod.splits if_splits)
    have "cache_inv c \<and> cache_capacity c = cfg_cache_capacity cfg"
      using arp_cache.insert_law [OF _ i] assms(1) by (simp add: ar_inv_def)
    moreover have "resolutions_ok (cfg_maximum_attempts cfg) (ar_resolutions ?r) \<and>
        inflight (ar_resolutions ?r) = inflight (ar_resolutions r) - {?t}"
      using clear_resolution_inv [of "cfg_maximum_attempts cfg" "r\<lparr>ar_cache := c\<rparr>" ?t] assms(1) by (simp add: ar_inv_def)
    moreover have "ar_callbacks ?r = cb" "ar_config ?r = cfg" "ar_cache ?r = c"
      "length (ar_resolutions ?r) = length (ar_resolutions r)"
      using assms(1) by (simp_all add: clear_resolution_def ar_inv_def)
    ultimately show ?thesis
      using assms(1) p True r' ps by (auto simp: ar_inv_def waiting_drop_target pending_ok_drop)
  qed
qed

text \<open>A free slot of the pending vector is filled, and emptied again when no resolution could start.\<close>

lemma waiting_fill:
  assumes "i < length ps" "\<not> pf_active (ps ! i)"
  shows "waiting (ps[i := p]) = waiting ps \<union> (if pf_active p then {pf_target p} else {})"
proof -
  have "{q \<in> set (ps[i := p]). pf_active q} = {q \<in> set ps. pf_active q} \<union> (if pf_active p then {p} else {})"
    using assms by (auto simp: in_set_conv_nth nth_list_update)
  then show ?thesis by (auto simp: waiting_def)
qed

lemma pending_ok_update:
  "pending_ok due ps \<Longrightarrow> length (pf_payload p) = 2048 \<Longrightarrow> pf_payload_bytes p \<le> 2048 \<Longrightarrow>
   (pf_active p \<Longrightarrow> pf_deadline_ns p \<le> due) \<Longrightarrow> pending_ok due (ps[i := p])"
  using set_update_subset_insert [of ps i p] by (auto simp: pending_ok_def)

text \<open>What \<open>queue_frame\<close> does once the address is unknown and a slot is free.\<close>

definition filled :: "PendingFrame \<Rightarrow> ArpIpv4Address \<Rightarrow> u16 \<Rightarrow> byte list \<Rightarrow> u64 \<Rightarrow> PendingFrame" where
  "filled old t ty payload deadline = old\<lparr>pf_target := t, pf_ether_type := ty,
     pf_payload_bytes := length payload, pf_deadline_ns := deadline, pf_active := True,
     pf_payload := memcpy_at (pf_payload old) 0 payload\<rparr>"

lemma queue_frame_cases:
  assumes inv: "ar_inv cb cfg due r" and tx: "cb_frame_transmit cb = Some tx"
    and q: "queue_frame r ctx t ty payload now = (r', ctx', st)"
  obtains (refused) "ctx' = ctx" "st \<in> {arp_payload_too_large, arp_queue_full}"
      "ar_inv cb cfg due r'" "ar_pending r' = ar_pending r"
    | (sent) hw err where "tx ctx hw ty payload = (ctx', err)" "st = (if err \<noteq> no_error then arp_send_failed else arp_ok)"
      "ar_inv cb cfg due r'" "ar_pending r' = ar_pending r" "cache_view (ar_cache r) now t = Some hw"
    | (stored) i r1 r2 c where "i < length (ar_pending r)" "\<not> pf_active (ar_pending r ! i)" "length payload \<le> 2048"
      "r1 = r\<lparr>ar_cache := c, ar_pending := (ar_pending r)[i := filled (ar_pending r ! i) t ty payload
         (deadline_from now (cfg_pending_deadline_ns cfg))]\<rparr>"
      "ar_inv cb cfg due (r\<lparr>ar_cache := c\<rparr>)"
      "ensure_resolution r1 ctx t now = (r2, ctx', if st = arp_queued then arp_pending else st)"
      "r' = (if st = arp_queued then r2
         else r2\<lparr>ar_pending := (ar_pending r2)[i := (ar_pending r2 ! i)\<lparr>pf_active := False\<rparr>]\<rparr>)"
      "st \<noteq> arp_pending" "\<forall>j < i. pf_active (ar_pending r ! j)"
proof -
  obtain c hw where l: "cache_lookup (ar_cache r) t now = (c, hw)" by fastforce
  note linv = lookup_inv [OF inv l]
  have hw: "hw = cache_view (ar_cache r) now t"
    using arp_cache.lookup_law [OF _ l] inv by (simp add: ar_inv_def)
  have cb: "ar_callbacks r = cb" "ar_config r = cfg" using inv by (simp_all add: ar_inv_def)
  show thesis
  proof (cases "length payload \<le> 2048")
    case False
    then show thesis using refused q inv by (auto simp: queue_frame_def kArpMaximumPendingPayloadBytes_def)
  next
    case fits: True
    show thesis
    proof (cases hw)
      case (Some h)
      obtain c1 err where "tx ctx h ty payload = (c1, err)" by fastforce
      then show thesis using sent [of h err] Some fits q l tx cb linv hw
        by (auto simp: queue_frame_def kArpMaximumPendingPayloadBytes_def Let_def)
    next
      case None
      show thesis
      proof (cases "index_where (\<lambda>p. \<not> pf_active p) (ar_pending r)")
        case no: None
        then show thesis using refused None fits q l tx cb linv
          by (auto simp: queue_frame_def kArpMaximumPendingPayloadBytes_def Let_def)
      next
        case slot: (Some i)
        let ?r = "r\<lparr>ar_cache := c, ar_pending := (ar_pending r)[i := filled (ar_pending r ! i) t ty payload
          (deadline_from now (cfg_pending_deadline_ns cfg))]\<rparr>"
        obtain r2 c2 s where e: "ensure_resolution ?r ctx t now = (r2, c2, s)" by (metis prod_cases3)
        have ns: "s \<noteq> arp_queued"
          using e transmit_message_status [of ?r] by (auto simp: ensure_resolution_def send_request_def
              transmit_message_def build_arp_message_def Let_def split: if_splits option.splits prod.splits)
        have "(r', ctx', st) = (if s \<noteq> arp_pending
            then (r2\<lparr>ar_pending := (ar_pending r2)[i := (ar_pending r2 ! i)\<lparr>pf_active := False\<rparr>]\<rparr>, c2, s)
            else (r2, c2, arp_queued))"
          using q None fits l tx cb slot e
          by (simp add: queue_frame_def kArpMaximumPendingPayloadBytes_def Let_def filled_def)
        then show thesis
          using stored [of i ?r c r2] index_where_Some [OF slot] index_where_first [OF slot] fits linv e ns
          by (cases "s = arp_pending") simp_all
      qed
    qed
  qed
qed

lemma queue_frame_inv:
  assumes inv: "ar_inv cb cfg due r" and tx: "cb_frame_transmit cb = Some tx"
    and due: "deadline_from now (cfg_pending_deadline_ns cfg) \<le> due"
    and q: "queue_frame r ctx t ty payload now = (r', ctx', st)"
  shows "ar_inv cb cfg due r'"
  using inv tx q
proof (cases rule: queue_frame_cases)
  case (stored i r1 r2 c)
  let ?p = "filled (ar_pending r ! i) t ty payload (deadline_from now (cfg_pending_deadline_ns cfg))"
  have old: "length (pf_payload (ar_pending r ! i)) = 2048"
    using inv stored(1) by (auto simp: ar_inv_def pending_ok_def)
  have ok: "resolutions_ok (cfg_maximum_attempts (ar_config r1)) (ar_resolutions r1)"
    using inv stored(4) by (simp add: ar_inv_def)
  obtain rs where rs: "r2 = r1\<lparr>ar_resolutions := rs\<rparr>" "length rs = length (ar_resolutions r)"
    "resolutions_ok (cfg_maximum_attempts cfg) rs"
    "inflight rs = inflight (ar_resolutions r) \<union> (if st = arp_queued then {t} else {})"
    using ensure_resolution_law [OF stored(6) ok] stored(4,8) inv by (auto simp: ar_inv_def split: if_splits)
  let ?q = "if st = arp_queued then ?p else ?p\<lparr>pf_active := False\<rparr>"
  have r': "r' = r\<lparr>ar_cache := c, ar_pending := (ar_pending r)[i := ?q], ar_resolutions := rs\<rparr>"
    using stored rs(1) by simp
  have "pending_ok due ((ar_pending r)[i := ?q])"
    by (rule pending_ok_update)
       (use inv old stored(3) due in \<open>auto simp: ar_inv_def filled_def split: if_splits\<close>)
  moreover have "waiting ((ar_pending r)[i := ?q]) \<subseteq> inflight rs"
    using inv rs(4) by (auto simp: waiting_fill [OF stored(1,2)] ar_inv_def filled_def)
  ultimately show ?thesis using inv stored(5) rs by (simp add: r' ar_inv_def)
qed auto

lemma word_succ_bounds:
  assumes "(a :: u8) < m"
  shows "0 < a + 1 \<and> a + 1 \<le> m"
proof -
  have "unat m < 2 ^ LENGTH(8)" by (rule unsigned_less)
  then have "unat (a + 1) = unat a + 1"
    using assms by (subst unat_add_nowrap) (simp_all add: word_less_nat_alt)
  then show ?thesis using assms by (simp add: word_less_nat_alt word_le_nat_alt)
qed

text \<open>The steps of \<open>tick\<close>. Each leaves a subset of the waiting frames.\<close>

lemma fail_pending_eq:
  "fail_pending r ctx t reason = (r', ctx') \<Longrightarrow>
   r' = r\<lparr>ar_pending := drop_frames (\<lambda>p. pf_target p = t) (ar_pending r)\<rparr>"
  using fail_loop_pending [of "ar_callbacks r" t reason "ar_pending r" ctx]
  by (auto simp: fail_pending_def split: prod.splits)

definition active_frames :: "'s ArpResolver \<Rightarrow> PendingFrame set" where
  "active_frames r = {p \<in> set (ar_pending r). pf_active p}"

lemma end_resolution_inv:
  assumes inv: "ar_inv cb cfg due r" and i: "i < length (ar_resolutions r)"
    and x: "x = ar_resolutions r ! i" "rs_active x"
    and f: "fail_pending r c (rs_target x) reason = (r1, c1)"
    and r': "r' = r1\<lparr>ar_resolutions := (ar_resolutions r1)[i := x\<lparr>rs_active := False\<rparr>]\<rparr>"
  shows "ar_inv cb cfg due r' \<and> active_frames r' \<subseteq> active_frames r"
proof -
  have ok: "resolutions_ok (cfg_maximum_attempts cfg) (ar_resolutions r)" using inv by (simp add: ar_inv_def)
  have r1: "r1 = r\<lparr>ar_pending := drop_frames (\<lambda>p. pf_target p = rs_target x) (ar_pending r)\<rparr>"
    by (rule fail_pending_eq [OF f])
  have "resolutions_ok (cfg_maximum_attempts cfg) ((ar_resolutions r)[i := x\<lparr>rs_active := False\<rparr>])"
    by (rule resolutions_ok_update [OF ok i]) (auto simp: x)
  then show ?thesis
    using inv x r1 r'
    by (auto simp: ar_inv_def inflight_update [OF ok i] waiting_drop_target pending_ok_drop
        active_frames_def active_drop_frames)
qed

lemma retry_resolution_inv:
  assumes inv: "ar_inv cb cfg due r" and i: "i < length (ar_resolutions r)"
    and x: "x = ar_resolutions r ! i" "rs_active x" "rs_attempts x < cfg_maximum_attempts cfg"
    and r': "r' = r\<lparr>ar_resolutions := (ar_resolutions r)[i := x\<lparr>rs_attempts := rs_attempts x + 1,
      rs_next_retry_ns := n\<rparr>]\<rparr>"
  shows "ar_inv cb cfg due r' \<and> active_frames r' \<subseteq> active_frames r"
proof -
  let ?y = "x\<lparr>rs_attempts := rs_attempts x + 1, rs_next_retry_ns := n\<rparr>"
  have ok: "resolutions_ok (cfg_maximum_attempts cfg) (ar_resolutions r)" using inv by (simp add: ar_inv_def)
  have "0 < rs_attempts x + 1 \<and> rs_attempts x + 1 \<le> cfg_maximum_attempts cfg"
    using x(3) by (rule word_succ_bounds)
  then have "resolutions_ok (cfg_maximum_attempts cfg) ((ar_resolutions r)[i := ?y])"
    by (intro resolutions_ok_update [OF ok i]) (use x in auto)
  moreover have "inflight ((ar_resolutions r)[i := ?y]) = inflight (ar_resolutions r)"
    using x i by (auto simp: inflight_update [OF ok i] inflight_nth)
  ultimately show ?thesis using inv r' by (simp add: ar_inv_def active_frames_def)
qed

lemma tick_resolution_inv:
  assumes inv: "ar_inv cb cfg due r" and i: "i < length (ar_resolutions r)"
    and t: "tick_resolution now i (r, ctx) = (r', ctx')"
  shows "ar_inv cb cfg due r' \<and> active_frames r' \<subseteq> active_frames r"
proof -
  let ?x = "ar_resolutions r ! i"
  note end_case = end_resolution_inv [OF inv i refl] and retry = retry_resolution_inv [OF inv i refl]
  have cfg: "ar_config r = cfg" using inv by (simp add: ar_inv_def)
  obtain ru cu where u: "fail_pending r ctx (rs_target ?x) arp_unreachable = (ru, cu)" by fastforce
  obtain c s where s: "send_request r ctx (rs_target ?x) = (c, s)" by fastforce
  obtain rv cv where v: "fail_pending r c (rs_target ?x) s = (rv, cv)" by fastforce
  note code = t [unfolded tick_resolution_def Let_def prod.case u s v cfg]
  consider "\<not> rs_active ?x" | "rs_active ?x" "rs_deadline_ns ?x \<le> now"
    | "rs_active ?x" "\<not> rs_deadline_ns ?x \<le> now" by blast
  then show ?thesis
  proof cases
    case 1
    then have "r' = r" using code by simp
    then show ?thesis using inv by simp
  next
    case 2
    then show ?thesis using code by (intro end_case [OF _ u]) auto
  next
    case active: 3
    consider "cfg_maximum_attempts cfg \<le> rs_attempts ?x \<or> now < rs_next_retry_ns ?x"
      | "\<not> (cfg_maximum_attempts cfg \<le> rs_attempts ?x \<or> now < rs_next_retry_ns ?x)" "s = arp_ok"
      | "\<not> (cfg_maximum_attempts cfg \<le> rs_attempts ?x \<or> now < rs_next_retry_ns ?x)" "s \<noteq> arp_ok" by blast
    then show ?thesis
    proof cases
      case 1
      then have "r' = r" using code active by simp
      then show ?thesis using inv by simp
    next
      case 2
      then show ?thesis using code active by (intro retry) auto
    next
      case 3
      then show ?thesis using code active by (intro end_case [OF _ v]) auto
    qed
  qed
qed

lemma refresh_flag_inv:
  assumes "cache_inv c" "e = ac_entries c ! i"
  shows "cache_inv (c\<lparr>ac_entries := (ac_entries c)[i := e\<lparr>ce_refresh_requested := True\<rparr>]\<rparr>)"
proof -
  let ?es = "(ac_entries c)[i := e\<lparr>ce_refresh_requested := True\<rparr>]"
  have "ce_valid (?es ! k) = ce_valid (ac_entries c ! k) \<and> ce_address (?es ! k) = ce_address (ac_entries c ! k)"
    if "k < length (ac_entries c)" for k
    using that assms(2) by (cases "k = i") auto
  then show ?thesis using assms(1) by (simp add: cache_inv_def entries_distinct_def)
qed

lemma tick_refresh_inv:
  assumes inv: "ar_inv cb cfg due r" and t: "tick_refresh now i (r, ctx) = (r', ctx')"
  shows "ar_inv cb cfg due r' \<and> active_frames r' = active_frames r"
proof -
  let ?e = "ac_entries (ar_cache r) ! i"
  obtain r1 c1 st where e: "ensure_resolution r ctx (ce_address ?e) now = (r1, c1, st)" by (metis prod_cases3)
  note E = ensure_resolution_inv [OF e inv]
  let ?c = "(ar_cache r)\<lparr>ac_entries := (ac_entries (ar_cache r))[i := ?e\<lparr>ce_refresh_requested := True\<rparr>]\<rparr>"
  consider "r' = r" | "r' = r1" | "r' = r1\<lparr>ar_cache := ?c\<rparr>"
    using t e E by (auto simp: tick_refresh_def Let_def split: if_splits)
  then show ?thesis
  proof cases
    case 3
    have "cache_inv ?c" using refresh_flag_inv inv by (simp add: ar_inv_def)
    moreover have "cache_capacity ?c = cache_capacity (ar_cache r)" by (simp add: cache_capacity_def)
    ultimately show ?thesis using 3 E by (auto simp: ar_inv_def active_frames_def)
  qed (use E inv in \<open>auto simp: active_frames_def\<close>)
qed

lemma tick_inv:
  fixes r :: "'s ArpResolver"
  assumes inv: "ar_inv cb cfg due r" and t: "arp_tick r ctx now = (r', ctx')"
  shows "ar_inv cb cfg due r' \<and> active_frames r' \<subseteq> {p \<in> active_frames r. now < pf_deadline_ns p}"
proof -
  obtain ps c1 where e: "expire_pending (ar_callbacks r) now (ar_pending r) ctx = (ps, c1)" by fastforce
  have ps: "ps = drop_frames (\<lambda>p. pf_deadline_ns p \<le> now) (ar_pending r)"
    using expire_pending_pending [of "ar_callbacks r" now "ar_pending r" ctx] e by simp
  define r1 where "r1 = r\<lparr>ar_cache := cache_expire (ar_cache r) now, ar_pending := ps\<rparr>"
  let ?F = "{p \<in> active_frames r. now < pf_deadline_ns p}"
  let ?P = "\<lambda>st :: 's ArpResolver \<times> 's. ar_inv cb cfg due (fst st) \<and> active_frames (fst st) \<subseteq> ?F"
  have n: "length (ar_resolutions r) = max (cfg_cache_capacity cfg) (cfg_pending_capacity cfg)"
    using inv by (simp add: ar_inv_def)
  have "ar_inv cb cfg due r1"
    using inv waiting_drop [of "\<lambda>p. pf_deadline_ns p \<le> now" "ar_pending r"] arp_cache.expire_law
    by (auto simp: r1_def ar_inv_def ps pending_ok_drop)
  moreover have "active_frames r1 \<subseteq> ?F"
    by (auto simp: active_frames_def r1_def ps active_drop_frames not_le)
  ultimately have start: "?P (r1, c1)" by simp
  have one: "?P (fold (tick_resolution now) [0..<length (ar_resolutions r)] (r1, c1))"
  proof (rule fold_upt_invariant [where P = "\<lambda>k. ?P"])
    fix i st assume i: "i < length (ar_resolutions r)" and P: "?P st"
    obtain a b where ab: "st = (a, b)" by fastforce
    obtain a' b' where step: "tick_resolution now i (a, b) = (a', b')" by fastforce
    have "i < length (ar_resolutions a)" using i n P ab by (simp add: ar_inv_def)
    then show "?P (tick_resolution now i st)"
      using tick_resolution_inv [OF _ _ step, of cb cfg due] P ab step by auto
  qed (rule start)
  have two: "?P (fold (tick_refresh now) [0..<m]
      (fold (tick_resolution now) [0..<length (ar_resolutions r)] (r1, c1)))" for m
  proof (rule fold_upt_invariant [where P = "\<lambda>k. ?P"])
    fix i st assume P: "?P st"
    obtain a b where ab: "st = (a, b)" by fastforce
    obtain a' b' where step: "tick_refresh now i (a, b) = (a', b')" by fastforce
    show "?P (tick_refresh now i st)"
      using tick_refresh_inv [OF _ step, of cb cfg due] P ab step by auto
  qed (rule one)
  show ?thesis
    using two [of "length (ac_entries (cache_expire (ar_cache r) now))"] t e
    by (simp add: arp_tick_def Let_def r1_def)
qed

end
