(* ===== verification/Arp_Run.thy ===== *)
theory Arp_Run
  imports Arp_Resolver "HOL-Library.Multiset"
begin

text \<open>
  Runs of the ARP resolver. The callbacks write what they are asked to do into a log, and two oracles
  decide on the log so far which transmissions the link accepts, so that every pattern of link failures
  is covered. A frame is accepted when \<open>queue_frame\<close> returns \<open>ok\<close> or \<open>queued\<close>, and settled when it was
  handed to the link or reported to the failure callback.
\<close>

datatype arp_event = Arp_Out MacAddress "byte list" | Sent MacAddress u16 "byte list"
  | Refused MacAddress u16 "byte list" | Failed ArpIpv4Address ArpStatus

definition logged ::
  "(arp_event list \<Rightarrow> bool) \<Rightarrow> (arp_event list \<Rightarrow> bool) \<Rightarrow> arp_event list ArpResolverCallbacks" where
  "logged ao fo = \<lparr>
     cb_arp_transmit = Some (\<lambda>log d p. (log @ [Arp_Out d p], if ao log then no_error else other_error 0)),
     cb_frame_transmit = Some (\<lambda>log d ty p.
       if fo log then (log @ [Sent d ty p], no_error) else (log @ [Refused d ty p], other_error 0)),
     cb_failure = Some (\<lambda>log t reason. log @ [Failed t reason])\<rparr>"

fun settles :: "arp_event \<Rightarrow> bool" where
  "settles (Sent d ty p) = True"
| "settles (Failed t reason) = True"
| "settles (Arp_Out d p) = False"
| "settles (Refused d ty p) = False"

definition settled :: "arp_event list \<Rightarrow> nat" where
  "settled log = length (filter settles log)"

datatype arp_op = Resolve ArpIpv4Address u64 | Receive "byte list" u64
  | Queue ArpIpv4Address u16 "byte list" u64 | Tick u64

fun arp_op_time :: "arp_op \<Rightarrow> u64" where
  "arp_op_time (Resolve t now) = now"
| "arp_op_time (Receive bs now) = now"
| "arp_op_time (Queue t ty p now) = now"
| "arp_op_time (Tick now) = now"

type_synonym arp_run_state = "arp_event list ArpResolver \<times> arp_event list \<times> nat"

fun arp_step :: "arp_op \<Rightarrow> arp_run_state \<Rightarrow> arp_run_state" where
  "arp_step (Resolve t now) (r, log, n) = (case resolve r log t now of (r, log, res) \<Rightarrow> (r, log, n))"
| "arp_step (Receive bs now) (r, log, n) = (case on_arp_payload r log bs now of (r, log, st) \<Rightarrow> (r, log, n))"
| "arp_step (Queue t ty p now) (r, log, n) =
     (case queue_frame r log t ty p now of (r, log, st) \<Rightarrow>
        (r, log, if st = arp_ok \<or> st = arp_queued then n + 1 else n))"
| "arp_step (Tick now) (r, log, n) = (case arp_tick r log now of (r, log) \<Rightarrow> (r, log, n))"

section \<open>Accounting\<close>

lemma settled_simps [simp]:
  "settled [] = 0" "settled (log @ log') = settled log + settled log'"
  "settled (e # log) = (if settles e then 1 else 0) + settled log"
  by (simp_all add: settled_def)

lemma cb_frame_transmit_logged: "cb_frame_transmit (logged ao fo) = Some (\<lambda>log d ty p.
    if fo log then (log @ [Sent d ty p], no_error) else (log @ [Refused d ty p], other_error 0))"
  by (simp add: logged_def)

lemma failure_call_logged: "failure_call (logged ao fo) log t reason = log @ [Failed t reason]"
  by (simp add: failure_call_def logged_def)

abbreviation active_count :: "PendingFrame list \<Rightarrow> nat" where
  "active_count ps \<equiv> length (filter pf_active ps)"

lemma flush_loop_accounts:
  "flush_loop (logged ao fo) t hw ps log res = (ps', log', res') \<Longrightarrow>
   active_count ps' + settled log' = active_count ps + settled log"
proof (induction ps arbitrary: ps' log log' res res')
  case (Cons p ps)
  show ?case
  proof (cases "\<not> pf_active p \<or> pf_target p \<noteq> t")
    case True
    obtain ps1 l1 s1 where f: "flush_loop (logged ao fo) t hw ps log res = (ps1, l1, s1)" by (metis prod_cases3)
    then show ?thesis using Cons.prems Cons.IH [OF f] True by auto
  next
    case False
    define log1 where "log1 = (if fo log then log @ [Sent hw (pf_ether_type p) (take (pf_payload_bytes p) (pf_payload p))]
      else log @ [Refused hw (pf_ether_type p) (take (pf_payload_bytes p) (pf_payload p)), Failed t arp_send_failed])"
    obtain ps1 l1 s1 where
      f: "flush_loop (logged ao fo) t hw ps log1 (if fo log then res else arp_send_failed) = (ps1, l1, s1)"
      by (metis prod_cases3)
    have "ps' = p\<lparr>pf_active := False\<rparr> # ps1" "log' = l1"
      using Cons.prems False f
      by (auto simp: logged_def failure_call_def log1_def split: if_splits)
    moreover have "settled log1 = settled log + 1" by (simp add: log1_def)
    ultimately show ?thesis using Cons.IH [OF f] False by simp
  qed
qed simp

lemma fail_loop_accounts:
  "fail_loop (logged ao fo) t reason ps log = (ps', log') \<Longrightarrow>
   active_count ps' + settled log' = active_count ps + settled log"
  by (induction ps arbitrary: ps' log log')
     (fastforce simp: logged_def failure_call_def split: if_splits prod.splits)+

lemma expire_pending_accounts:
  "expire_pending (logged ao fo) now ps log = (ps', log') \<Longrightarrow>
   active_count ps' + settled log' = active_count ps + settled log"
  by (induction ps arbitrary: ps' log log')
     (fastforce simp: logged_def failure_call_def split: if_splits prod.splits)+

lemma fail_pending_accounts:
  assumes "fail_pending r log t reason = (r', log')" "ar_callbacks r = logged ao fo"
  shows "pending_frames r' + settled log' = pending_frames r + settled log"
  using assms fail_loop_accounts [of ao fo t reason "ar_pending r" log]
  by (auto simp: fail_pending_def pending_frames_def split: prod.splits)

lemma transmit_message_accounts:
  "transmit_message r log d m = (log', st) \<Longrightarrow> ar_callbacks r = logged ao fo \<Longrightarrow> settled log' = settled log"
  by (auto simp: transmit_message_def logged_def Let_def split: prod.splits if_splits)

lemma ensure_resolution_accounts:
  "ensure_resolution r log t now = (r', log', st) \<Longrightarrow> ar_callbacks r = logged ao fo \<Longrightarrow>
   settled log' = settled log"
  by (auto simp: ensure_resolution_def send_request_def Let_def
      split: prod.splits if_splits option.splits dest: transmit_message_accounts)

lemma resolve_accounts:
  "resolve r log t now = (r', log', res) \<Longrightarrow> ar_callbacks r = logged ao fo \<Longrightarrow> settled log' = settled log"
  by (auto simp: resolve_def Let_def split: prod.splits if_splits dest: ensure_resolution_accounts)

lemma on_arp_payload_accounts:
  assumes "on_arp_payload r log bs now = (r', log', st)" "ar_callbacks r = logged ao fo"
  shows "pending_frames r' + settled log' = pending_frames r + settled log"
proof -
  obtain s m where p: "parse_arp_message bs = (s, m)" by fastforce
  show ?thesis
  proof (cases "s = arp_ok")
    case False
    then show ?thesis using assms p by (simp add: on_arp_payload_def)
  next
    case True
    let ?t = "am_sender_protocol m" and ?hw = "am_sender_hardware m"
    obtain c ok where i: "cache_insert (ar_cache r) ?t ?hw now = (c, ok)" by fastforce
    obtain ps l1 fs where f: "flush_loop (logged ao fo) ?t ?hw (ar_pending r) log arp_ok = (ps, l1, fs)"
      by (metis prod_cases3)
    have cb: "ar_callbacks ((clear_resolution (r\<lparr>ar_cache := c\<rparr>) ?t)\<lparr>ar_pending := ps\<rparr>) = logged ao fo"
      using assms(2) by (simp add: clear_resolution_def)
    have "ar_pending r' = ps \<and> settled log' = settled l1"
      using assms p True i f transmit_message_accounts [OF _ cb]
      by (auto simp: on_arp_payload_def flush_pending_def Let_def clear_resolution_def
          split: prod.splits if_splits)
    then show ?thesis using flush_loop_accounts [OF f] by (simp add: pending_frames_def)
  qed
qed

lemma active_count_update:
  assumes "i < length ps" "\<not> pf_active (ps ! i)"
  shows "active_count (ps[i := p]) = active_count ps + (if pf_active p then 1 else 0)"
proof -
  have "ps = take i ps @ ps ! i # drop (Suc i) ps" using assms(1) by (simp add: id_take_nth_drop)
  then have "active_count ps = active_count (take i ps) + active_count (drop (Suc i) ps)"
    using assms(2) by (metis (no_types, lifting) filter.simps(2) filter_append length_append)
  then show ?thesis using assms(1) by (simp add: upd_conv_take_nth_drop)
qed

lemma queue_frame_accounts:
  assumes inv: "ar_inv (logged ao fo) cfg due r" and q: "queue_frame r log t ty p now = (r', log', st)"
  shows "pending_frames r' + settled log' =
    pending_frames r + settled log + (if st = arp_ok \<or> st = arp_queued then 1 else 0)"
proof -
  obtain tx where tx: "cb_frame_transmit (logged ao fo) = Some tx" by (simp add: logged_def)
  from inv tx q show ?thesis
  proof (cases rule: queue_frame_cases)
    case (stored i r1 r2 c)
    have cb: "ar_callbacks r1 = logged ao fo" using stored(4) inv by (simp add: ar_inv_def)
    have ok: "resolutions_ok (cfg_maximum_attempts (ar_config r1)) (ar_resolutions r1)"
      using inv stored(4) by (simp add: ar_inv_def)
    have log: "settled log' = settled log" by (rule ensure_resolution_accounts [OF stored(6) cb])
    have "ar_pending r2 = ar_pending r1" using ensure_resolution_law [OF stored(6) ok] by auto
    then have "pending_frames r' = pending_frames r + (if st = arp_queued then 1 else 0)"
      using stored by (simp add: pending_frames_def active_count_update filled_def)
    moreover have "st \<noteq> arp_ok"
      using stored(6) by (auto simp: ensure_resolution_def Let_def split: if_splits option.splits prod.splits)
    ultimately show ?thesis using log by simp
  next
    case (sent hw err)
    then show ?thesis using tx by (auto simp: pending_frames_def logged_def split: if_splits)
  qed (auto simp: pending_frames_def)
qed

lemma tick_resolution_accounts:
  assumes t: "tick_resolution now i (r, log) = (r', log')" and cb: "ar_callbacks r = logged ao fo"
  shows "pending_frames r' + settled log' = pending_frames r + settled log \<and> ar_callbacks r' = logged ao fo"
proof -
  let ?x = "ar_resolutions r ! i"
  have fp: "pending_frames r1 + settled l1 = pending_frames r + settled l \<and> ar_callbacks r1 = logged ao fo"
    if "fail_pending r l (rs_target ?x) reason = (r1, l1)" for l reason r1 l1
    using fail_pending_accounts [OF that cb] fail_pending_eq [OF that] cb by simp
  have sr: "settled l = settled log" if "send_request r log (rs_target ?x) = (l, s)" for l s
    using that transmit_message_accounts [OF _ cb] by (auto simp: send_request_def)
  show ?thesis
    using t cb fp sr unfolding tick_resolution_def Let_def
    by (force simp: pending_frames_def split: if_splits prod.splits)
qed

lemma tick_refresh_accounts:
  assumes inv: "ar_inv (logged ao fo) cfg due r" and t: "tick_refresh now i (r, log) = (r', log')"
  shows "pending_frames r' + settled log' = pending_frames r + settled log"
proof -
  let ?e = "ac_entries (ar_cache r) ! i"
  obtain r1 l1 st where e: "ensure_resolution r log (ce_address ?e) now = (r1, l1, st)" by (metis prod_cases3)
  have "settled l1 = settled log" using ensure_resolution_accounts [OF e] inv by (simp add: ar_inv_def)
  then show ?thesis using t e ensure_resolution_inv [OF e inv]
    by (auto simp: tick_refresh_def Let_def pending_frames_def split: if_splits)
qed

lemma tick_accounts:
  assumes inv: "ar_inv (logged ao fo) cfg due r" and t: "arp_tick r log now = (r', log')"
  shows "pending_frames r' + settled log' = pending_frames r + settled log"
proof -
  obtain ps l1 where e: "expire_pending (logged ao fo) now (ar_pending r) log = (ps, l1)" by fastforce
  have cb: "ar_callbacks r = logged ao fo" using inv by (simp add: ar_inv_def)
  define r1 where "r1 = r\<lparr>ar_cache := cache_expire (ar_cache r) now, ar_pending := ps\<rparr>"
  let ?W = "pending_frames r + settled log"
  let ?P = "\<lambda>st. ar_inv (logged ao fo) cfg due (fst st) \<and> pending_frames (fst st) + settled (snd st) = ?W"
  have n: "length (ar_resolutions r) = max (cfg_cache_capacity cfg) (cfg_pending_capacity cfg)"
    using inv by (simp add: ar_inv_def)
  have ps: "ps = drop_frames (\<lambda>p. pf_deadline_ns p \<le> now) (ar_pending r)"
    using expire_pending_pending [of "logged ao fo" now "ar_pending r" log] e by simp
  have "ar_inv (logged ao fo) cfg due r1"
    using inv waiting_drop [of "\<lambda>p. pf_deadline_ns p \<le> now" "ar_pending r"] arp_cache.expire_law
    by (auto simp: r1_def ar_inv_def ps pending_ok_drop)
  then have start: "?P (r1, l1)"
    using expire_pending_accounts [OF e] by (simp add: r1_def pending_frames_def)
  have one: "?P (fold (tick_resolution now) [0..<length (ar_resolutions r)] (r1, l1))"
  proof (rule fold_upt_invariant [where P = "\<lambda>k. ?P"])
    fix i st assume i: "i < length (ar_resolutions r)" and P: "?P st"
    obtain a b where ab: "st = (a, b)" by fastforce
    obtain a' b' where step: "tick_resolution now i (a, b) = (a', b')" by fastforce
    have "i < length (ar_resolutions a)" "ar_callbacks a = logged ao fo" using i n P ab by (simp_all add: ar_inv_def)
    then show "?P (tick_resolution now i st)"
      using tick_resolution_inv [OF _ _ step] tick_resolution_accounts [OF step] P ab step by fastforce
  qed (rule start)
  have two: "?P (fold (tick_refresh now) [0..<m]
      (fold (tick_resolution now) [0..<length (ar_resolutions r)] (r1, l1)))" for m
  proof (rule fold_upt_invariant [where P = "\<lambda>k. ?P"])
    fix i st assume P: "?P st"
    obtain a b where ab: "st = (a, b)" by fastforce
    obtain a' b' where step: "tick_refresh now i (a, b) = (a', b')" by fastforce
    show "?P (tick_refresh now i st)"
      using tick_refresh_inv [OF _ step] tick_refresh_accounts [OF _ step] P ab step by fastforce
  qed (rule one)
  show ?thesis
    using two [of "length (ac_entries (cache_expire (ar_cache r) now))"] t e cb
    by (simp add: arp_tick_def Let_def r1_def)
qed

definition arp_run_ok :: "(arp_event list \<Rightarrow> bool) \<Rightarrow> (arp_event list \<Rightarrow> bool) \<Rightarrow> ArpResolverConfig \<Rightarrow> u64 \<Rightarrow>
  arp_run_state \<Rightarrow> bool" where
  "arp_run_ok ao fo cfg due st \<longleftrightarrow> (case st of (r, log, n) \<Rightarrow>
     ar_inv (logged ao fo) cfg due r \<and> n = pending_frames r + settled log)"

lemma arp_step_ok:
  assumes "arp_run_ok ao fo cfg due st" "deadline_from (arp_op_time x) (cfg_pending_deadline_ns cfg) \<le> due"
  shows "arp_run_ok ao fo cfg due (arp_step x st)"
proof -
  obtain r log n where st: "st = (r, log, n)" by (metis prod_cases3)
  have inv: "ar_inv (logged ao fo) cfg due r" and n: "n = pending_frames r + settled log"
    using assms(1) by (simp_all add: arp_run_ok_def st)
  have cb: "ar_callbacks r = logged ao fo" using inv by (simp add: ar_inv_def)
  obtain tx where tx: "cb_frame_transmit (logged ao fo) = Some tx" by (simp add: logged_def)
  show ?thesis
  proof (cases x)
    case (Resolve t now)
    obtain r' log' s where o: "resolve r log t now = (r', log', s)" by (metis prod_cases3)
    then show ?thesis using resolve_inv [OF inv o] resolve_accounts [OF o cb] n
      by (simp add: Resolve st arp_run_ok_def pending_frames_def)
  next
    case (Receive bs now)
    obtain r' log' s where o: "on_arp_payload r log bs now = (r', log', s)" by (metis prod_cases3)
    then show ?thesis using on_arp_payload_inv [OF inv o] on_arp_payload_accounts [OF o cb] n
      by (simp add: Receive st arp_run_ok_def)
  next
    case (Queue t ty p now)
    obtain r' log' s where o: "queue_frame r log t ty p now = (r', log', s)" by (metis prod_cases3)
    have "deadline_from now (cfg_pending_deadline_ns cfg) \<le> due" using assms(2) Queue by simp
    then show ?thesis using queue_frame_inv [OF inv tx _ o] queue_frame_accounts [OF inv o] n o
      by (simp add: Queue st arp_run_ok_def)
  next
    case (Tick now)
    obtain r' log' where o: "arp_tick r log now = (r', log')" by fastforce
    then show ?thesis using tick_inv [OF inv o] tick_accounts [OF inv o] n
      by (simp add: Tick st arp_run_ok_def)
  qed
qed

lemma arp_run_invariant:
  assumes "\<forall>x \<in> set ops. arp_op_time x \<le> T"
  shows "arp_run_ok ao fo cfg (deadline_from T (cfg_pending_deadline_ns cfg))
    (fold arp_step ops (new_ArpResolver ip hw cfg (logged ao fo), [], 0))"
  using assms
proof (induction ops rule: rev_induct)
  case Nil
  show ?case
    using ar_inv_new [of "logged ao fo" cfg _ ip hw]
    by (simp add: arp_run_ok_def pending_frames_def new_ArpResolver_def default_PendingFrame_def)
next
  case (snoc x ops)
  then show ?case by (simp add: arp_step_ok deadline_from_mono)
qed

section \<open>The frames waiting for an address\<close>

definition frames_for :: "'s ArpResolver \<Rightarrow> ArpIpv4Address \<Rightarrow> (u16 \<times> byte list) list" where
  "frames_for r t = map (\<lambda>p. (pf_ether_type p, take (pf_payload_bytes p) (pf_payload p)))
     (filter (\<lambda>p. pf_active p \<and> pf_target p = t) (ar_pending r))"

definition deliver :: "(arp_event list \<Rightarrow> bool) \<Rightarrow> ArpIpv4Address \<Rightarrow> MacAddress \<Rightarrow> u16 \<times> byte list \<Rightarrow>
  arp_event list \<Rightarrow> arp_event list" where
  "deliver fo t hw frame log = (case frame of (ty, p) \<Rightarrow>
     if fo log then log @ [Sent hw ty p] else log @ [Refused hw ty p, Failed t arp_send_failed])"

lemma flush_loop_log:
  "fst (snd (flush_loop (logged ao fo) t hw ps log res)) =
   fold (deliver fo t hw) (map (\<lambda>p. (pf_ether_type p, take (pf_payload_bytes p) (pf_payload p)))
     (filter (\<lambda>p. pf_active p \<and> pf_target p = t) ps)) log"
proof (induction ps arbitrary: log res)
  case (Cons p ps)
  show ?case
  proof (cases "pf_active p \<and> pf_target p = t")
    case True
    let ?log = "deliver fo t hw (pf_ether_type p, take (pf_payload_bytes p) (pf_payload p)) log"
    have "fst (snd (flush_loop (logged ao fo) t hw (p # ps) log res)) =
        fst (snd (flush_loop (logged ao fo) t hw ps ?log (if fo log then res else arp_send_failed)))"
      using True by (cases "fo log")
        (auto simp: deliver_def cb_frame_transmit_logged failure_call_logged split: prod.split)
    then show ?thesis using Cons.IH True by simp
  next
    case False
    then show ?thesis using Cons.IH [of log res] by (auto split: prod.split)
  qed
qed simp

lemma frames_for_update:
  assumes "i < length (ar_pending r)" "\<not> pf_active (ar_pending r ! i)"
  shows "mset (frames_for (r\<lparr>ar_pending := (ar_pending r)[i := p]\<rparr>) u) =
    mset (frames_for r u) + (if pf_active p \<and> pf_target p = u
      then {#(pf_ether_type p, take (pf_payload_bytes p) (pf_payload p))#} else {#})"
proof -
  have "ar_pending r = take i (ar_pending r) @ ar_pending r ! i # drop (Suc i) (ar_pending r)"
    using assms(1) by (simp add: id_take_nth_drop)
  then have "filter (\<lambda>p. pf_active p \<and> pf_target p = u) (ar_pending r) =
      filter (\<lambda>p. pf_active p \<and> pf_target p = u) (take i (ar_pending r)) @
      filter (\<lambda>p. pf_active p \<and> pf_target p = u) (drop (Suc i) (ar_pending r))"
    using assms(2) by (metis (no_types, lifting) filter.simps(2) filter_append)
  then show ?thesis using assms(1) by (simp add: frames_for_def upd_conv_take_nth_drop)
qed

text \<open>The whole effect of a received ARP payload; a request for the local address is answered.\<close>

abbreviation answer :: "'s ArpResolver \<Rightarrow> ArpMessage \<Rightarrow> arp_event list" where
  "answer r m \<equiv> if am_operation m = 1 \<and> am_target_protocol m = ar_local_protocol r
     then [Arp_Out (am_sender_hardware m) (arp_encode \<lparr>am_operation = 2,
        am_sender_hardware = ar_local_hardware r, am_sender_protocol = ar_local_protocol r,
        am_target_hardware = am_sender_hardware m, am_target_protocol = am_sender_protocol m\<rparr>)]
     else []"

lemma transmit_message_logged:
  assumes "ar_callbacks r = logged ao fo" "arp_valid m"
  shows "fst (transmit_message r log d m) = log @ [Arp_Out d (arp_encode m)]"
  using assms build_arp_ok [of m "replicate kArpPayloadBytes 0"] length_arp_encode [OF assms(2)]
  by (simp add: transmit_message_def logged_def kArpPayloadBytes_def)

lemma frames_for_drop:
  "frames_for (r\<lparr>ar_pending := drop_frames (\<lambda>p. pf_target p = t) (ar_pending r)\<rparr>) u =
     (if u = t then [] else frames_for r u)"
proof -
  have "filter (\<lambda>p. pf_active p \<and> pf_target p = u) (drop_frames (\<lambda>p. pf_target p = t) ps) =
      (if u = t then [] else filter (\<lambda>p. pf_active p \<and> pf_target p = u) ps)" for ps
    by (induction ps) (auto simp: drop_frames_def)
  then show ?thesis by (simp add: frames_for_def)
qed

lemma on_arp_payload_effect:
  assumes inv: "ar_inv (logged ao fo) cfg due r" and hw: "length (ar_local_hardware r) = 6"
  shows "case parse_arp_message bs of (s, m) \<Rightarrow> case on_arp_payload r log bs now of (r', log', st) \<Rightarrow>
      if s \<noteq> arp_ok then r' = r \<and> log' = log \<and> st = s
      else log' = fold (deliver fo (am_sender_protocol m) (am_sender_hardware m))
             (frames_for r (am_sender_protocol m)) log @
             answer r m \<and>
        (\<forall>u. frames_for r' u = (if u = am_sender_protocol m then [] else frames_for r u)) \<and>
        inflight (ar_resolutions r') = inflight (ar_resolutions r) - {am_sender_protocol m}"
proof -
  obtain s m where p: "parse_arp_message bs = (s, m)" by fastforce
  show ?thesis
  proof (cases "s = arp_ok")
    case False
    then show ?thesis using p by (simp add: on_arp_payload_def)
  next
    case True
    let ?t = "am_sender_protocol m" and ?hw = "am_sender_hardware m"
    let ?reply = "\<lparr>am_operation = 2, am_sender_hardware = ar_local_hardware r,
      am_sender_protocol = ar_local_protocol r, am_target_hardware = ?hw, am_target_protocol = ?t\<rparr>"
    have "arp_valid m" using parse_arp_okD p True by blast
    then have valid: "arp_valid ?reply" using hw by (simp add: arp_valid_def)
    obtain c ok where i: "cache_insert (ar_cache r) ?t ?hw now = (c, ok)" by fastforce
    define r1 where "r1 = clear_resolution (r\<lparr>ar_cache := c\<rparr>) ?t"
    have cb: "ar_callbacks r1 = logged ao fo" "ar_pending r1 = ar_pending r"
      "ar_local_protocol r1 = ar_local_protocol r" "ar_local_hardware r1 = ar_local_hardware r"
      using inv by (simp_all add: r1_def clear_resolution_def ar_inv_def)
    have infl: "inflight (ar_resolutions r1) = inflight (ar_resolutions r) - {?t}"
      using clear_resolution_inv [of "cfg_maximum_attempts cfg" "r\<lparr>ar_cache := c\<rparr>" ?t] inv
      by (simp add: r1_def ar_inv_def)
    obtain ps l1 fs where f: "flush_loop (logged ao fo) ?t ?hw (ar_pending r) log arp_ok = (ps, l1, fs)"
      by (metis prod_cases3)
    have ps: "ps = drop_frames (\<lambda>p. pf_target p = ?t) (ar_pending r)"
      using flush_loop_pending [of "logged ao fo" ?t ?hw "ar_pending r" log arp_ok] f by simp
    have l1: "l1 = fold (deliver fo ?t ?hw) (frames_for r ?t) log"
      using flush_loop_log [of ao fo ?t ?hw "ar_pending r" log arp_ok] f by (simp add: frames_for_def)
    define r2 where "r2 = r1\<lparr>ar_pending := ps\<rparr>"
    obtain l2 rs where tm: "transmit_message r2 l1 ?hw ?reply = (l2, rs)" by fastforce
    have l2: "l2 = l1 @ [Arp_Out ?hw (arp_encode ?reply)]"
      using transmit_message_logged [of r2 ao fo ?reply l1 ?hw] tm valid cb by (simp add: r2_def)
    have fl: "flush_pending r1 log ?t ?hw = (r2, l1, fs)"
      by (simp add: flush_pending_def cb f r2_def)
    have loc: "ar_local_protocol r2 = ar_local_protocol r" "ar_local_hardware r2 = ar_local_hardware r"
      using cb by (simp_all add: r2_def)
    have "\<exists>st. on_arp_payload r log bs now = (r2,
        if am_operation m = 1 \<and> am_target_protocol m = ar_local_protocol r then l2 else l1, st)"
      using p True i fl tm
      by (cases "am_operation m = 1 \<and> am_target_protocol m = ar_local_protocol r")
         (auto simp: on_arp_payload_def Let_def r1_def [symmetric] arp_request_def arp_reply_def loc)
    moreover have "frames_for r2 u = (if u = ?t then [] else frames_for r u)" for u
      using frames_for_drop [where r = r and t = ?t and u = u] by (simp add: frames_for_def r2_def ps)
    ultimately show ?thesis
      using p True l1 l2 infl by (auto simp: r2_def)
  qed
qed

section \<open>The order of delivery\<close>

text \<open>
  A series of calls of \<open>queue_frame\<close>, and the frames that it queued, in the order of the calls. As long as no slot is
  freed in between, the waiting frames fill the slots from the first one on, so that the order of the slots is the
  order of the calls.
\<close>

fun queue_all :: "(ArpIpv4Address \<times> u16 \<times> byte list \<times> u64) list \<Rightarrow> 's ArpResolver \<Rightarrow> 's \<Rightarrow>
  's ArpResolver \<times> 's \<times> (ArpIpv4Address \<times> u16 \<times> byte list) list" where
  "queue_all [] r ctx = (r, ctx, [])"
| "queue_all ((t, ty, p, now) # qs) r ctx =
     (case queue_frame r ctx t ty p now of (r, ctx, st) \<Rightarrow>
      case queue_all qs r ctx of (r, ctx, fs) \<Rightarrow> (r, ctx, (if st = arp_queued then [(t, ty, p)] else []) @ fs))"

definition packed :: "PendingFrame list \<Rightarrow> bool" where
  "packed ps \<longleftrightarrow> (\<exists>k. \<forall>j < length ps. pf_active (ps ! j) \<longleftrightarrow> j < k)"

lemma packed_none: "length (filter pf_active ps) = 0 \<Longrightarrow> packed ps"
  unfolding packed_def by (rule exI [of _ 0]) (auto simp: filter_empty_conv)

lemma packed_fill:
  assumes "packed ps" "i < length ps" "\<not> pf_active (ps ! i)" "\<forall>j < i. pf_active (ps ! j)"
  shows "packed (ps[i := p])" and
    "filter (\<lambda>p. pf_active p \<and> pf_target p = u) (ps[i := p]) =
     filter (\<lambda>p. pf_active p \<and> pf_target p = u) ps @ (if pf_active p \<and> pf_target p = u then [p] else [])"
proof -
  obtain k where k: "\<forall>j < length ps. pf_active (ps ! j) \<longleftrightarrow> j < k" using assms(1) by (auto simp: packed_def)
  have "\<not> i < k" using k assms(2,3) by blast
  moreover have "\<not> k < i"
  proof
    assume "k < i"
    then have "pf_active (ps ! k)" "k < length ps" using assms(2,4) by auto
    then show False using k by blast
  qed
  ultimately have i: "i = k" by simp
  show "packed (ps[i := p])"
    unfolding packed_def
    by (rule exI [of _ "if pf_active p then Suc i else i"]) (use k i in \<open>auto simp: nth_list_update split: if_splits\<close>)
  have "filter (\<lambda>p. pf_active p \<and> pf_target p = u) (drop (Suc i) ps) = []"
    using k i by (auto simp: filter_empty_conv in_set_conv_nth)
  moreover have "ps = take i ps @ ps ! i # drop (Suc i) ps" using assms(2) by (simp add: id_take_nth_drop)
  then have "filter (\<lambda>p. pf_active p \<and> pf_target p = u) ps =
      filter (\<lambda>p. pf_active p \<and> pf_target p = u) (take i ps) @ filter (\<lambda>p. pf_active p \<and> pf_target p = u) (drop (Suc i) ps)"
    using assms(3) by (metis (no_types, lifting) filter.simps(2) filter_append)
  ultimately show "filter (\<lambda>p. pf_active p \<and> pf_target p = u) (ps[i := p]) =
     filter (\<lambda>p. pf_active p \<and> pf_target p = u) ps @ (if pf_active p \<and> pf_target p = u then [p] else [])"
    using assms(2) by (simp add: upd_conv_take_nth_drop)
qed

lemma queue_frame_local:
  "queue_frame r ctx t ty p now = (r', ctx', st) \<Longrightarrow>
   ar_local_hardware r' = ar_local_hardware r \<and> ar_local_protocol r' = ar_local_protocol r"
proof -
  have e: "ensure_resolution r ctx t now = (r', ctx', st) \<Longrightarrow>
      ar_local_hardware r' = ar_local_hardware r \<and> ar_local_protocol r' = ar_local_protocol r"
    for r r' :: "'a ArpResolver" and ctx ctx' st
    by (auto simp: ensure_resolution_def Let_def split: if_splits option.splits prod.splits)
  show "queue_frame r ctx t ty p now = (r', ctx', st) \<Longrightarrow> ?thesis"
    by (auto simp: queue_frame_def Let_def split: if_splits option.splits prod.splits dest!: e)
qed

text \<open>Where \<open>queue_frame\<close> writes: the first free slot, and only when it queues the frame.\<close>

lemma queue_frame_slot:
  assumes inv: "ar_inv (logged ao fo) cfg due r" and q: "queue_frame r log t ty p now = (r', log', st)"
  obtains (kept) "ar_pending r' = ar_pending r" "st \<noteq> arp_queued"
    | (written) i x where "i < length (ar_pending r)" "\<not> pf_active (ar_pending r ! i)" "\<forall>j < i. pf_active (ar_pending r ! j)"
      "ar_pending r' = (ar_pending r)[i := x]" "pf_active x \<longleftrightarrow> st = arp_queued" "pf_target x = t" "pf_ether_type x = ty"
      "take (pf_payload_bytes x) (pf_payload x) = p"
proof -
  obtain tx where tx: "cb_frame_transmit (logged ao fo) = Some tx" by (simp add: logged_def)
  from inv tx q show thesis
  proof (cases rule: queue_frame_cases)
    case (stored i r1 r2 c)
    let ?q = "filled (ar_pending r ! i) t ty p (deadline_from now (cfg_pending_deadline_ns cfg))"
    have ok: "resolutions_ok (cfg_maximum_attempts (ar_config r1)) (ar_resolutions r1)"
      using inv stored(4) by (simp add: ar_inv_def)
    have "ar_pending r2 = ar_pending r1" using ensure_resolution_law [OF stored(6) ok] by auto
    then have "ar_pending r' = (ar_pending r)[i := if st = arp_queued then ?q else ?q\<lparr>pf_active := False\<rparr>]"
      using stored by simp
    then show thesis
      by (rule written [OF stored(1,2,9)]) (simp_all add: filled_def memcpy_at_def split: if_split)
  qed (use kept in \<open>auto split: if_splits\<close>)
qed

lemma ar_inv_no_deadline: "ar_inv cb cfg due r \<Longrightarrow> ar_inv cb cfg (- 1) r"
  by (auto simp: ar_inv_def pending_ok_def)

lemma queue_all_order:
  "ar_inv (logged ao fo) cfg (- 1) r \<Longrightarrow> packed (ar_pending r) \<Longrightarrow> queue_all qs r log = (r', log', fs) \<Longrightarrow>
   ar_inv (logged ao fo) cfg (- 1) r' \<and> ar_local_hardware r' = ar_local_hardware r \<and>
   ar_local_protocol r' = ar_local_protocol r \<and>
   frames_for r' u = frames_for r u @ map snd (filter (\<lambda>f. fst f = u) fs)"
proof (induction qs arbitrary: r log fs)
  case (Cons q qs)
  obtain t ty p now where q: "q = (t, ty, p, now)" by (cases q)
  obtain r1 l1 st where f: "queue_frame r log t ty p now = (r1, l1, st)" by (metis prod_cases3)
  obtain gs where g: "queue_all qs r1 l1 = (r', log', gs)" "fs = (if st = arp_queued then [(t, ty, p)] else []) @ gs"
    using Cons.prems(3) by (auto simp: q f split: prod.splits)
  obtain tx where tx: "cb_frame_transmit (logged ao fo) = Some tx" by (simp add: logged_def)
  have inv: "ar_inv (logged ao fo) cfg (- 1) r1" by (rule queue_frame_inv [OF Cons.prems(1) tx _ f]) simp
  have one: "packed (ar_pending r1) \<and>
      frames_for r1 u = frames_for r u @ (if st = arp_queued \<and> t = u then [(ty, p)] else [])"
    using Cons.prems(1) f
  proof (cases rule: queue_frame_slot)
    case kept
    then show ?thesis using Cons.prems(2) by (simp add: frames_for_def)
  next
    case (written i x)
    note fill = packed_fill [OF Cons.prems(2) written(1-3), where p = x]
    show ?thesis using fill(1) fill(2) [where u = u] written(4-8) by (simp add: frames_for_def)
  qed
  show ?case
    using Cons.IH [OF inv conjunct1 [OF one] g(1)] one queue_frame_local [OF f] by (simp add: g(2))
qed simp

section \<open>Properties\<close>

text \<open>
  Claim C9. No frame is lost while its address is resolved: in every run of the resolver, whatever the
  link accepts or refuses, each accepted frame still waits, was handed to the link, or was reported to the
  failure callback, exactly once; a waiting frame always has a resolution of its address in flight, no
  address has two, and a resolution never exceeds the configured number of requests.
\<close>

theorem arp_frames_accounted:
  "case fold arp_step ops (new_ArpResolver ip hw cfg (logged ao fo), [], 0) of (r, log, accepted) \<Rightarrow>
     accepted = pending_frames r + settled log \<and>
     length (ar_pending r) = cfg_pending_capacity cfg \<and>
     waiting (ar_pending r) \<subseteq> inflight (ar_resolutions r) \<and>
     active_resolutions r = card (inflight (ar_resolutions r)) \<and>
     list_all (\<lambda>x. 0 < rs_attempts x \<and> rs_attempts x \<le> cfg_maximum_attempts cfg)
       (filter rs_active (ar_resolutions r))"
proof -
  obtain r log n where run: "fold arp_step ops (new_ArpResolver ip hw cfg (logged ao fo), [], 0) = (r, log, n)"
    by (metis prod_cases3)
  have ok: "arp_run_ok ao fo cfg (deadline_from (- 1) (cfg_pending_deadline_ns cfg)) (r, log, n)"
    using arp_run_invariant [of ops "- 1" ao fo cfg ip hw] run by simp
  then have res: "resolutions_ok (cfg_maximum_attempts cfg) (ar_resolutions r)"
    by (simp add: arp_run_ok_def ar_inv_def)
  let ?I = "{i. i < length (ar_resolutions r) \<and> rs_active (ar_resolutions r ! i)}"
  have "inj_on (\<lambda>i. rs_target (ar_resolutions r ! i)) ?I"
    by (rule inj_onI) (use resolutions_okD [OF res] in auto)
  moreover have "inflight (ar_resolutions r) = (\<lambda>i. rs_target (ar_resolutions r ! i)) ` ?I"
    by (auto simp: inflight_nth)
  ultimately have "card (inflight (ar_resolutions r)) = active_resolutions r"
    by (simp add: card_image active_resolutions_def length_filter_conv_card)
  then show ?thesis
    using ok res by (auto simp: run arp_run_ok_def ar_inv_def resolutions_ok_def list_all_iff)
qed

text \<open>
  Claim C18. No frame waits forever: once the pending deadline has passed since the last operation of a
  run, one tick leaves no frame waiting, so every accepted frame has by then been handed to the link or
  reported to the failure callback.
\<close>

theorem arp_bounded_wait:
  assumes "\<forall>x \<in> set ops. arp_op_time x \<le> T" "deadline_from T (cfg_pending_deadline_ns cfg) \<le> now"
  shows "case fold arp_step (ops @ [Tick now]) (new_ArpResolver ip hw cfg (logged ao fo), [], 0) of
    (r, log, accepted) \<Rightarrow> pending_frames r = 0 \<and> accepted = settled log"
proof -
  let ?due = "deadline_from T (cfg_pending_deadline_ns cfg)"
  obtain r log n where run: "fold arp_step ops (new_ArpResolver ip hw cfg (logged ao fo), [], 0) = (r, log, n)"
    by (metis prod_cases3)
  have inv: "ar_inv (logged ao fo) cfg ?due r" and n: "n = pending_frames r + settled log"
    using arp_run_invariant [OF assms(1), of ao fo cfg ip hw] run by (simp_all add: arp_run_ok_def)
  obtain r' log' where t: "arp_tick r log now = (r', log')" by fastforce
  have "active_frames r' \<subseteq> {p \<in> active_frames r. now < pf_deadline_ns p}" using tick_inv [OF inv t] by blast
  moreover have "pf_deadline_ns p \<le> now" if "p \<in> active_frames r" for p
    using that inv assms(2) by (force simp: active_frames_def ar_inv_def pending_ok_def)
  ultimately have "active_frames r' = {}" by force
  then have "pending_frames r' = 0" by (auto simp: pending_frames_def active_frames_def filter_empty_conv)
  then show ?thesis using tick_accounts [OF inv t] n by (simp add: run t)
qed

theorem arp_bounded_wait_witness:
  "case fold arp_step ([Queue 7 0x0800 [1] 5] @ [Tick 2000000000])
     (new_ArpResolver 1 [1, 2, 3, 4, 5, 6] default_ArpResolverConfig (logged (\<lambda>_. True) (\<lambda>_. True)), [], 0) of
    (r, log, accepted) \<Rightarrow> pending_frames r = 0 \<and> accepted = settled log"
  by (rule arp_bounded_wait [where T = 5])
     (simp_all add: default_ArpResolverConfig_def kArpDefaultPendingDeadlineNs_def deadline_from_def)

text \<open>
  Claim C19. What waits for an address is delivered when the address is learned. A frame that
  \<open>queue_frame\<close> queues joins the frames waiting for its target, byte for byte, and no other address is
  affected. A valid ARP message hands exactly the frames waiting for its sender to the link, each once
  and to the sender's hardware address, leaves nothing waiting or in flight for the sender and everything
  else as it was, and is answered exactly when it is a request for the local address. When nothing was
  waiting before a series of calls of \<open>queue_frame\<close>, the message that follows it hands over the frames those calls
  queued for its sender in the order of the calls.
\<close>

theorem arp_learning_delivers:
  assumes inv: "ar_inv (logged ao fo) cfg due r" and hw: "length (ar_local_hardware r) = 6"
  shows "(case queue_frame r log t ty p now of (r', log', st) \<Rightarrow>
      \<forall>u. mset (frames_for r' u) =
        mset (frames_for r u) + (if st = arp_queued \<and> u = t then {#(ty, p)#} else {#})) \<and>
    (case parse_arp_message bs of (s, m) \<Rightarrow> case on_arp_payload r log bs now of (r', log', st) \<Rightarrow>
      if s \<noteq> arp_ok then r' = r \<and> log' = log \<and> st = s
      else (\<exists>fs. mset fs = mset (frames_for r (am_sender_protocol m)) \<and>
             log' = fold (deliver fo (am_sender_protocol m) (am_sender_hardware m)) fs log @ answer r m) \<and>
        (\<forall>u. frames_for r' u = (if u = am_sender_protocol m then [] else frames_for r u)) \<and>
        inflight (ar_resolutions r') = inflight (ar_resolutions r) - {am_sender_protocol m}) \<and>
    (pending_frames r = 0 \<longrightarrow>
      (case queue_all qs r log of (r1, log1, fs) \<Rightarrow> case parse_arp_message bs of (s, m) \<Rightarrow>
       case on_arp_payload r1 log1 bs now of (r', log', st) \<Rightarrow> s = arp_ok \<longrightarrow>
         log' = fold (deliver fo (am_sender_protocol m) (am_sender_hardware m))
                  (map snd (filter (\<lambda>f. fst f = am_sender_protocol m) fs)) log1 @ answer r m))"
proof (intro conjI impI)
  obtain r' log' st where q: "queue_frame r log t ty p now = (r', log', st)" by (metis prod_cases3)
  have "mset (frames_for r' u) =
      mset (frames_for r u) + (if st = arp_queued \<and> u = t then {#(ty, p)#} else {#})" for u
    using inv q
  proof (cases rule: queue_frame_slot)
    case kept
    then show ?thesis by (simp add: frames_for_def)
  next
    case (written i x)
    have "frames_for r' u = frames_for (r\<lparr>ar_pending := (ar_pending r)[i := x]\<rparr>) u" using written(4) by (simp add: frames_for_def)
    then show ?thesis using frames_for_update [OF written(1,2), of x u] written(5-8) by auto
  qed
  then show "case queue_frame r log t ty p now of (r', log', st) \<Rightarrow> \<forall>u. mset (frames_for r' u) =
      mset (frames_for r u) + (if st = arp_queued \<and> u = t then {#(ty, p)#} else {#})" by (simp add: q)
next
  show "case parse_arp_message bs of (s, m) \<Rightarrow> case on_arp_payload r log bs now of (r', log', st) \<Rightarrow>
      if s \<noteq> arp_ok then r' = r \<and> log' = log \<and> st = s
      else (\<exists>fs. mset fs = mset (frames_for r (am_sender_protocol m)) \<and>
             log' = fold (deliver fo (am_sender_protocol m) (am_sender_hardware m)) fs log @ answer r m) \<and>
        (\<forall>u. frames_for r' u = (if u = am_sender_protocol m then [] else frames_for r u)) \<and>
        inflight (ar_resolutions r') = inflight (ar_resolutions r) - {am_sender_protocol m}"
    using on_arp_payload_effect [OF inv hw, where bs = bs and log = log and now = now]
    by (auto split: prod.splits if_split_asm)
next
  assume "pending_frames r = 0"
  then have packed: "packed (ar_pending r)" and none: "frames_for r u = []" for u
    using packed_none [of "ar_pending r"] by (auto simp: pending_frames_def frames_for_def filter_empty_conv)
  obtain r1 log1 fs where q: "queue_all qs r log = (r1, log1, fs)" by (metis prod_cases3)
  note all = queue_all_order [OF ar_inv_no_deadline [OF inv] packed q]
  have inv1: "ar_inv (logged ao fo) cfg (- 1) r1" "length (ar_local_hardware r1) = 6"
    and loc: "ar_local_hardware r1 = ar_local_hardware r" "ar_local_protocol r1 = ar_local_protocol r"
    using all hw by auto
  have "frames_for r1 u = map snd (filter (\<lambda>f. fst f = u) fs)" for u using all none by simp
  then show "case queue_all qs r log of (r1, log1, fs) \<Rightarrow> case parse_arp_message bs of (s, m) \<Rightarrow>
       case on_arp_payload r1 log1 bs now of (r', log', st) \<Rightarrow> s = arp_ok \<longrightarrow>
         log' = fold (deliver fo (am_sender_protocol m) (am_sender_hardware m))
                  (map snd (filter (\<lambda>f. fst f = am_sender_protocol m) fs)) log1 @ answer r m"
    using on_arp_payload_effect [OF inv1, where bs = bs and log = log1 and now = now] loc
    by (auto simp: q split: prod.splits)
qed

lemma ar_config_new: "ar_config (new_ArpResolver p h cfg cb) = cfg"
  by (simp add: new_ArpResolver_def)

definition example_resolver :: "arp_event list ArpResolver" where
  "example_resolver = new_ArpResolver 1 [1, 2, 3, 4, 5, 6]
     (default_ArpResolverConfig\<lparr>cfg_cache_capacity := 2, cfg_pending_capacity := 3\<rparr>) (logged (\<lambda>_. True) (\<lambda>_. True))"

definition example_calls :: "(ArpIpv4Address \<times> u16 \<times> byte list \<times> u64) list" where
  "example_calls = [(7, 0x0800, [9], 5), (8, 0x0800, [1], 5), (7, 0x0800, [10], 6)]"

definition example_reply :: "byte list" where
  "example_reply = arp_encode \<lparr>am_operation = 2, am_sender_hardware = [2, 0, 0, 0, 0, 7], am_sender_protocol = 7,
     am_target_hardware = [1, 2, 3, 4, 5, 6], am_target_protocol = 1\<rparr>"

theorem arp_learning_delivers_witness:
  "case queue_all example_calls example_resolver [] of (r1, log1, fs) \<Rightarrow>
   case on_arp_payload r1 log1 example_reply 7 of (r', log', st) \<Rightarrow>
     log' = log1 @ [Sent [2, 0, 0, 0, 0, 7] 0x0800 [9], Sent [2, 0, 0, 0, 0, 7] 0x0800 [10]]"
proof -
  have inv: "ar_inv (logged (\<lambda>_. True) (\<lambda>_. True)) (ar_config example_resolver) 0 example_resolver"
    by (simp add: example_resolver_def ar_inv_new ar_config_new)
  have hw: "length (ar_local_hardware example_resolver) = 6" by code_simp
  have none: "pending_frames example_resolver = 0" by code_simp
  have fs: "snd (snd (queue_all example_calls example_resolver [])) = [(7, 0x0800, [9]), (8, 0x0800, [1]), (7, 0x0800, [10])]"
    by code_simp
  have p: "parse_arp_message example_reply = (arp_ok, \<lparr>am_operation = 2, am_sender_hardware = [2, 0, 0, 0, 0, 7],
      am_sender_protocol = 7, am_target_hardware = [1, 2, 3, 4, 5, 6], am_target_protocol = 1\<rparr>)"
    by code_simp
  obtain r1 log1 fs where q: "queue_all example_calls example_resolver [] = (r1, log1, fs)" by (metis prod_cases3)
  show ?thesis
    using arp_learning_delivers [OF inv hw, where log = "[]" and qs = example_calls and bs = example_reply and now = 7] none fs p
    by (auto simp: q deliver_def split: prod.splits)
qed

text \<open>
  With a slot freed in between, a later frame can overtake an earlier one: the frame for 8 queued last takes the slot
  that the answer of 7 freed, and goes out first.
\<close>

lemma slot_reuse_reorders:
  "case queue_all [(7, 0x0800, [1], 5), (8, 0x0800, [2], 5)] example_resolver [] of (r1, log1, _) \<Rightarrow>
   case on_arp_payload r1 log1 example_reply 6 of (r2, log2, _) \<Rightarrow>
   case queue_all [(8, 0x0800, [3], 7)] r2 log2 of (r3, log3, fs) \<Rightarrow>
     fs = [(8, 0x0800, [3])] \<and> frames_for r3 8 = [(0x0800, [3]), (0x0800, [2])]"
  by code_simp

end
