(* ===== verification/Connection.thy ===== *)
theory Connection
  imports Conn_State_Machine Receive_Ranges Fast_Retransmit Rto Congestion
begin

text \<open>
  The connection (\<^verbatim>\<open>include/vectornet/transport/connection.hpp\<close>, \<^verbatim>\<open>src/transport/connection.cpp\<close>):
  the record \<open>Impl\<close> holds what \<^verbatim>\<open>Connection::Impl\<close> holds, and every member function is a definition on
  it and on the state \<open>'s\<close> the four callbacks work on (\<open>None\<close> is a null callback; callbacks do not call
  back into the connection).

  The congestion controller's acknowledgement loop is a partial function, so \<open>process_ack\<close> and
  \<open>cn_on_segment\<close> return an option; \<open>None\<close> is "does not return", and the properties show it never is.
\<close>

datatype SendStatus = snd_accepted | snd_would_block | snd_closed | snd_payload_too_large

datatype ConnectionError = malformed_segment | invalid_transition | transmit_failed
  | receive_capacity_exhausted | pool_error

datatype TransmitReason = tx_control | tx_new_data | tx_fast_retransmit | tx_rto_retransmit

record ConnectionConfig =
  cf_initial_send_sequence :: u32
  cf_initial_receive_sequence :: u32
  cf_maximum_segment_payload_bytes :: u32
  cf_packet_pool_buffers :: nat
  cf_retransmission_capacity :: nat
  cf_receive_capacity :: nat

definition default_ConnectionConfig :: ConnectionConfig where
  "default_ConnectionConfig = \<lparr>cf_initial_send_sequence = 0, cf_initial_receive_sequence = 0,
     cf_maximum_segment_payload_bytes = 1436, cf_packet_pool_buffers = 4096,
     cf_retransmission_capacity = 1024, cf_receive_capacity = 1024\<rparr>"

record 's ConnectionCallbacks =
  ccb_transmit :: "('s \<Rightarrow> byte list \<Rightarrow> TransmitReason \<Rightarrow> 's \<times> error_code) option"
  ccb_receive :: "('s \<Rightarrow> byte list \<Rightarrow> 's) option"
  ccb_state :: "('s \<Rightarrow> ConnectionState \<Rightarrow> 's) option"
  ccb_error :: "('s \<Rightarrow> ConnectionError \<Rightarrow> 's) option"

record ConnectionStatistics =
  cst_payload_bytes_sent :: u64
  cst_payload_bytes_acked :: u64
  cst_payload_bytes_received :: u64
  cst_control_segments_sent :: u64
  cst_malformed_segments :: u64
  cst_duplicate_segments :: u64
  cst_fast_retransmissions :: u64
  cst_rto_retransmissions :: u64
  cst_transmit_failures :: u64
  cst_receive_drops :: u64

record ReceiveSlot =
  rsl_start :: u32
  rsl_end :: u32
  rsl_buffer :: nat
  rsl_active :: bool

record 's Impl =
  cn_config :: ConnectionConfig
  cn_callbacks :: "'s ConnectionCallbacks"
  cn_tx_pool :: PacketPool
  cn_rx_pool :: PacketPool
  cn_machine :: ConnectionStateMachine
  cn_retransmission :: RetransmissionQueue
  cn_receive_ranges :: ReceiveRangeSet
  cn_fast_retransmit :: FastRetransmitController
  cn_rto :: RtoEstimator
  cn_congestion :: CongestionController
  cn_receive_slots :: "ReceiveSlot arr"
  cn_control_buffer :: "byte list"
  cn_remembered_control_buffer :: "byte list"
  cn_next_send_sequence :: u32
  cn_oldest_unacknowledged :: u32
  cn_delivery_sequence :: u32
  cn_peer_window :: u16
  cn_remembered_control_bytes :: nat
  cn_remembered_control_flags :: u8
  cn_control_deadline_ns :: u64
  cn_time_wait_deadline_ns :: u64
  cn_statistics :: ConnectionStatistics

definition kControlRetryNs :: u64 where "kControlRetryNs = 1000000000"
definition kTimeWaitNs :: u64 where "kTimeWaitNs = 2000000000"

definition default_ConnectionStatistics :: ConnectionStatistics where
  "default_ConnectionStatistics = \<lparr>cst_payload_bytes_sent = 0, cst_payload_bytes_acked = 0,
     cst_payload_bytes_received = 0, cst_control_segments_sent = 0, cst_malformed_segments = 0,
     cst_duplicate_segments = 0, cst_fast_retransmissions = 0, cst_rto_retransmissions = 0,
     cst_transmit_failures = 0, cst_receive_drops = 0\<rparr>"

definition default_ReceiveSlot :: ReceiveSlot where
  "default_ReceiveSlot = \<lparr>rsl_start = 0, rsl_end = 0, rsl_buffer = 0, rsl_active = False\<rparr>"

definition default_TransportHeader :: TransportHeader where
  "default_TransportHeader = \<lparr>th_sequence = 0, th_cumulative_ack = 0, th_flags = 0, th_sack_count = 0,
     th_window = 0, th_sacks = default_sacks\<rparr>"

text \<open>
  The constructor. The addresses of the two pools' storage are arguments; the members are initialised
  from the configuration as given, and the configuration is clamped afterwards, as in the source.
\<close>

definition clamp_config :: "ConnectionConfig \<Rightarrow> ConnectionConfig" where
  "clamp_config config =
     (let limit = kPacketBufferBytes - kMaximumTransportHeaderBytes;
          config = (if cf_maximum_segment_payload_bytes config = 0 \<or>
                       unat (cf_maximum_segment_payload_bytes config) > limit
                    then config\<lparr>cf_maximum_segment_payload_bytes := of_nat limit\<rparr> else config);
          config = config\<lparr>cf_receive_capacity := min (cf_receive_capacity config) kReceiveRangeCapacity\<rparr>
      in config\<lparr>cf_retransmission_capacity :=
           min (cf_retransmission_capacity config) kRetransmissionCapacity\<rparr>)"

definition new_Connection ::
  "nat \<Rightarrow> nat \<Rightarrow> ConnectionConfig \<Rightarrow> 's ConnectionCallbacks \<Rightarrow> 's Impl" where
  "new_Connection tx_base rx_base config callbacks =
     \<lparr>cn_config = clamp_config config, cn_callbacks = callbacks,
      cn_tx_pool = new_PacketPool tx_base (cf_packet_pool_buffers config),
      cn_rx_pool = new_PacketPool rx_base (cf_receive_capacity config),
      cn_machine = initial_machine,
      cn_retransmission = new_RetransmissionQueue (cf_retransmission_capacity config),
      cn_receive_ranges =
        new_ReceiveRangeSet (cf_initial_receive_sequence config) (cf_receive_capacity config),
      cn_fast_retransmit = new_FastRetransmitController (cf_initial_send_sequence config),
      cn_rto = new_RtoEstimator,
      cn_congestion = new_CongestionController (cf_maximum_segment_payload_bytes config) (- 1),
      cn_receive_slots = (\<lambda>_. default_ReceiveSlot),
      cn_control_buffer = replicate kMaximumTransportHeaderBytes 0,
      cn_remembered_control_buffer = replicate kMaximumTransportHeaderBytes 0,
      cn_next_send_sequence = cf_initial_send_sequence config,
      cn_oldest_unacknowledged = cf_initial_send_sequence config,
      cn_delivery_sequence = cf_initial_receive_sequence config,
      cn_peer_window = - 1, cn_remembered_control_bytes = 0, cn_remembered_control_flags = 0,
      cn_control_deadline_ns = 0, cn_time_wait_deadline_ns = 0,
      cn_statistics = default_ConnectionStatistics\<rparr>"

text \<open>Counting a statistic; the callbacks.\<close>

definition count :: "(ConnectionStatistics \<Rightarrow> ConnectionStatistics) \<Rightarrow> 's Impl \<Rightarrow> 's Impl" where
  "count f c = c\<lparr>cn_statistics := f (cn_statistics c)\<rparr>"

definition cn_notify_error :: "'s Impl \<Rightarrow> 's \<Rightarrow> ConnectionError \<Rightarrow> 's" where
  "cn_notify_error c ctx error = (case ccb_error (cn_callbacks c) of None \<Rightarrow> ctx | Some cb \<Rightarrow> cb ctx error)"

definition cn_notify_state :: "'s Impl \<Rightarrow> 's \<Rightarrow> 's" where
  "cn_notify_state c ctx =
     (case ccb_state (cn_callbacks c) of None \<Rightarrow> ctx | Some cb \<Rightarrow> cb ctx (sm_state (cn_machine c)))"

definition advertised_window :: "'s Impl \<Rightarrow> u16" where
  "advertised_window c =
     (let bytes = (of_nat (pool_available (cn_rx_pool c)) :: u64) *
                  ucast (cf_maximum_segment_payload_bytes (cn_config c))
      in ucast (min bytes 0xFFFF))"

definition make_header :: "'s Impl \<Rightarrow> u8 \<Rightarrow> TransportHeader" where
  "make_header c flags =
     (case generate_sacks (cn_receive_ranges c) default_sacks of (sacks, n) \<Rightarrow>
        \<lparr>th_sequence = cn_next_send_sequence c,
         th_cumulative_ack = rr_cumulative_ack (cn_receive_ranges c), th_flags = flags,
         th_sack_count = of_nat n, th_window = advertised_window c, th_sacks = sacks\<rparr>)"

definition transmit_bytes :: "'s Impl \<Rightarrow> 's \<Rightarrow> byte list \<Rightarrow> TransmitReason \<Rightarrow> 's Impl \<times> 's \<times> bool" where
  "transmit_bytes c ctx bytes reason =
     (case ccb_transmit (cn_callbacks c) of
        None \<Rightarrow>
          let c = count (\<lambda>s. s\<lparr>cst_transmit_failures := cst_transmit_failures s + 1\<rparr>) c
          in (c, cn_notify_error c ctx transmit_failed, False)
      | Some transmit \<Rightarrow>
          (case transmit ctx bytes reason of (ctx, error) \<Rightarrow>
             if error \<noteq> no_error
             then
               let c = count (\<lambda>s. s\<lparr>cst_transmit_failures := cst_transmit_failures s + 1\<rparr>) c
               in (c, cn_notify_error c ctx transmit_failed, False)
             else (c, ctx, True)))"

definition send_control :: "'s Impl \<Rightarrow> 's \<Rightarrow> u8 \<Rightarrow> u64 \<Rightarrow> bool \<Rightarrow> 's Impl \<times> 's \<times> bool" where
  "send_control c ctx flags now_ns remember =
     (case serialize_transport_header (make_header c flags) (cn_control_buffer c) of
        (status, control_buffer, bytes) \<Rightarrow>
        let c = c\<lparr>cn_control_buffer := control_buffer\<rparr> in
        if status \<noteq> wire_ok then (c, cn_notify_error c ctx malformed_segment, False)
        else
          let c = (if remember
                   then c\<lparr>cn_remembered_control_bytes := bytes, cn_remembered_control_flags := flags,
                          cn_remembered_control_buffer :=
                            memcpy_at (cn_remembered_control_buffer c) 0 (take bytes control_buffer),
                          cn_control_deadline_ns := deadline_from now_ns kControlRetryNs\<rparr>
                   else c);
              c = count (\<lambda>s. s\<lparr>cst_control_segments_sent := cst_control_segments_sent s + 1\<rparr>) c
          in transmit_bytes c ctx (take bytes control_buffer) tx_control)"

definition clear_control :: "'s Impl \<Rightarrow> 's Impl" where
  "clear_control c = c\<lparr>cn_remembered_control_bytes := 0, cn_remembered_control_flags := 0,
     cn_control_deadline_ns := 0\<rparr>"

text \<open>The flags and the remember flag that \<open>perform_actions\<close> derives from a transition.\<close>

definition action_flags :: "ConnectionAction \<Rightarrow> u8 \<times> bool" where
  "action_flags actions =
     (let flags = 0; remember = False;
          (flags, remember) = (if has_action actions send_syn then (flags OR kFlagSyn, True) else (flags, remember));
          flags = (if has_action actions send_ack then flags OR kFlagAck else flags);
          (flags, remember) = (if has_action actions send_fin then (flags OR (kFlagFin OR kFlagAck), True)
                               else (flags, remember));
          flags = (if has_action actions send_rst then flags OR kFlagRst else flags)
      in (flags, remember))"

definition perform_actions :: "'s Impl \<Rightarrow> 's \<Rightarrow> TransitionResult \<Rightarrow> u64 \<Rightarrow> 's Impl \<times> 's \<times> bool" where
  "perform_actions c ctx transition now_ns =
     (let ctx = (if \<not> tr_accepted transition then cn_notify_error c ctx invalid_transition else ctx);
          (flags, remember) = action_flags (tr_actions transition);
          (c, ctx, sent) = (if flags \<noteq> 0 then send_control c ctx flags now_ns remember else (c, ctx, True));
          (c, ctx) = (if has_action (tr_actions transition) notify_connected \<or>
                         has_action (tr_actions transition) notify_closed
                      then let c = clear_control c in (c, cn_notify_state c ctx) else (c, ctx));
          ctx = (if has_action (tr_actions transition) notify_error
                 then cn_notify_error c ctx invalid_transition else ctx);
          c = (if tr_current transition = time_wait
               then c\<lparr>cn_time_wait_deadline_ns := deadline_from now_ns kTimeWaitNs\<rparr> else c)
      in (c, ctx, tr_accepted transition \<and> sent))"

text \<open>\<open>machine.handle(event)\<close> on the connection's machine.\<close>

definition handle_event :: "'s Impl \<Rightarrow> ConnectionEvent \<Rightarrow> 's Impl \<times> TransitionResult" where
  "handle_event c event =
     (case handle (cn_machine c) event of (m, result) \<Rightarrow> (c\<lparr>cn_machine := m\<rparr>, result))"

definition cn_connect :: "'s Impl \<Rightarrow> 's \<Rightarrow> u64 \<Rightarrow> 's Impl \<times> 's \<times> bool" where
  "cn_connect c ctx now_ns =
     (case handle_event c app_connect of (c, result) \<Rightarrow>
        perform_actions c (cn_notify_state c ctx) result now_ns)"

definition cn_close :: "'s Impl \<Rightarrow> 's \<Rightarrow> u64 \<Rightarrow> 's Impl \<times> 's \<times> bool" where
  "cn_close c ctx now_ns =
     (case handle_event c app_close of (c, result) \<Rightarrow>
        perform_actions c (cn_notify_state c ctx) result now_ns)"

definition flight_bytes :: "'s Impl \<Rightarrow> u32" where
  "flight_bytes c = cn_next_send_sequence c - cn_oldest_unacknowledged c"

text \<open>The bytes of a buffer that were filled.\<close>

definition buffer_bytes :: "PacketPool \<Rightarrow> nat \<Rightarrow> byte list" where
  "buffer_bytes p b = take (unat (pb_length (deref p b))) (pb_data (deref p b))"

definition cn_send :: "'s Impl \<Rightarrow> 's \<Rightarrow> byte list \<Rightarrow> u64 \<Rightarrow> 's Impl \<times> 's \<times> SendStatus" where
  "cn_send c ctx payload now_ns =
     (if sm_state (cn_machine c) \<noteq> established then (c, ctx, snd_closed)
      else if payload = [] \<or>
              length payload > unat (cf_maximum_segment_payload_bytes (cn_config c))
      then (c, ctx, snd_payload_too_large)
      else if rq_size (cn_retransmission c) \<ge> rq_capacity (cn_retransmission c) \<or>
              unat (send_allowance_bytes (cn_congestion c) (flight_bytes c) (cn_peer_window c))
                < length payload
      then (c, ctx, snd_would_block)
      else
        case acquire (cn_tx_pool c) of (tx_pool, buffer) \<Rightarrow>
        let c = c\<lparr>cn_tx_pool := tx_pool\<rparr> in
        if buffer = 0 then (c, ctx, snd_would_block)
        else
          let header = make_header c kFlagAck;
              (status, data, header_bytes) =
                serialize_transport_header header (pb_data (deref (cn_tx_pool c) buffer));
              c = c\<lparr>cn_tx_pool := store (cn_tx_pool c) buffer
                     ((deref (cn_tx_pool c) buffer)\<lparr>pb_data := data\<rparr>)\<rparr>
          in if status \<noteq> wire_ok \<or> header_bytes + length payload > length data
             then (c\<lparr>cn_tx_pool := fst (release (cn_tx_pool c) buffer)\<rparr>, ctx, snd_payload_too_large)
             else
               let segment_bytes = header_bytes + length payload;
                   c = c\<lparr>cn_tx_pool := store (cn_tx_pool c) buffer
                          \<lparr>pb_data = memcpy_at data header_bytes payload, pb_length = of_nat segment_bytes\<rparr>\<rparr>;
                   payload_bytes = (of_nat (length payload) :: u32);
                   pending = default_PendingSegment\<lparr>
                     ps_sequence_start := cn_next_send_sequence c,
                     ps_sequence_end := cn_next_send_sequence c + payload_bytes,
                     ps_buffer := buffer, ps_sent_at_ns := now_ns\<rparr>;
                   (retransmission, status) = rq_enqueue (cn_retransmission c) pending
               in if status \<noteq> enq_accepted
                  then (c\<lparr>cn_tx_pool := fst (release (cn_tx_pool c) buffer)\<rparr>, ctx, snd_would_block)
                  else
                    let c = c\<lparr>cn_retransmission := retransmission,
                               cn_next_send_sequence := cn_next_send_sequence c + payload_bytes\<rparr>;
                        c = count (\<lambda>s. s\<lparr>cst_payload_bytes_sent :=
                                    cst_payload_bytes_sent s + of_nat (length payload)\<rparr>) c;
                        (c, ctx, sent) = transmit_bytes c ctx (buffer_bytes (cn_tx_pool c) buffer) tx_new_data
                    in (c, ctx, snd_accepted))"

text \<open>
  The part of \<open>process_ack\<close> that runs when the acknowledgement moves forward.
\<close>

definition ack_progress :: "'s Impl \<Rightarrow> 's \<Rightarrow> TransportHeader \<Rightarrow> u64 \<Rightarrow> ('s Impl \<times> 's) option" where
  "ack_progress c ctx header now_ns =
     (let (sample_sent_at, sample_retransmitted) =
            (case rq_at (cn_retransmission c) 0 of
               Some first \<Rightarrow>
                 if sequence_less_equal (ps_sequence_end first) (th_cumulative_ack header)
                 then (ps_sent_at_ns first, ps_retransmit_count first \<noteq> 0) else (0, False)
             | None \<Rightarrow> (0, False));
          acknowledged = th_cumulative_ack header - cn_oldest_unacknowledged c;
          (retransmission, tx_pool, released) =
            rq_acknowledge (cn_retransmission c) (th_cumulative_ack header) (cn_tx_pool c);
          c = c\<lparr>cn_retransmission := retransmission, cn_tx_pool := tx_pool\<rparr>;
          ctx = (if ar_pool_error released then cn_notify_error c ctx pool_error else ctx);
          c = c\<lparr>cn_oldest_unacknowledged := th_cumulative_ack header\<rparr>;
          c = count (\<lambda>s. s\<lparr>cst_payload_bytes_acked := cst_payload_bytes_acked s + ucast acknowledged\<rparr>) c
      in case cc_on_ack (cn_congestion c) acknowledged of
           None \<Rightarrow> None
         | Some congestion \<Rightarrow>
             let c = c\<lparr>cn_congestion := fst (on_recovery_ack congestion (th_cumulative_ack header))\<rparr>;
                 c = c\<lparr>cn_rto := on_forward_progress (cn_rto c)\<rparr>;
                 c = (if sample_sent_at \<noteq> 0
                      then c\<lparr>cn_rto := fst (observe (cn_rto c) sample_sent_at now_ns sample_retransmitted)\<rparr>
                      else c)
             in Some (c, ctx))"

text \<open>The sequence number that ends a recovery: the end of the last segment in flight.\<close>

definition recovery_point_of :: "'s Impl \<Rightarrow> u32" where
  "recovery_point_of c =
     (case (if rq_size (cn_retransmission c) = 0 then None
            else rq_at (cn_retransmission c) (rq_size (cn_retransmission c) - 1)) of
        None \<Rightarrow> cn_next_send_sequence c
      | Some tail \<Rightarrow> ps_sequence_end tail)"

definition process_ack :: "'s Impl \<Rightarrow> 's \<Rightarrow> TransportHeader \<Rightarrow> u64 \<Rightarrow> ('s Impl \<times> 's) option" where
  "process_ack c ctx header now_ns =
     (let c = c\<lparr>cn_peer_window := th_window header\<rparr> in
      if sequence_greater (th_cumulative_ack header) (cn_next_send_sequence c)
      then
        let c = count (\<lambda>s. s\<lparr>cst_malformed_segments := cst_malformed_segments s + 1\<rparr>) c
        in Some (c, cn_notify_error c ctx malformed_segment)
      else
        case (if sequence_greater (th_cumulative_ack header) (cn_oldest_unacknowledged c)
              then ack_progress c ctx header now_ns else Some (c, ctx)) of
          None \<Rightarrow> None
        | Some (c, ctx) \<Rightarrow>
            let c = c\<lparr>cn_retransmission := fst (apply_sacks (cn_retransmission c)
                        (take (unat (th_sack_count header)) (th_sacks header)))\<rparr>;
                (fast_retransmit, retransmission, decision) =
                  fr_on_ack (cn_fast_retransmit c) (th_cumulative_ack header) now_ns (cn_retransmission c);
                c = c\<lparr>cn_fast_retransmit := fast_retransmit, cn_retransmission := retransmission\<rparr>
            in case (fd_triggered decision, fd_segment decision) of
                 (True, Some index) \<Rightarrow>
                   let c = c\<lparr>cn_congestion := fst (on_loss (cn_congestion c) sack_fast_recovery
                              (flight_bytes c) (recovery_point_of c))\<rparr>;
                       c = count (\<lambda>s. s\<lparr>cst_fast_retransmissions := cst_fast_retransmissions s + 1\<rparr>) c;
                       (c, ctx, sent) = transmit_bytes c ctx
                         (buffer_bytes (cn_tx_pool c) (ps_buffer (rq_segments (cn_retransmission c) index)))
                         tx_fast_retransmit
                   in Some (c, ctx)
               | _ \<Rightarrow> Some (c, ctx))"

definition free_receive_slot :: "'s Impl \<Rightarrow> nat option" where
  "free_receive_slot c =
     find (\<lambda>index. \<not> rsl_active (cn_receive_slots c index)) [0..<cf_receive_capacity (cn_config c)]"

definition overlaps_received :: "'s Impl \<Rightarrow> u32 \<Rightarrow> u32 \<Rightarrow> bool" where
  "overlaps_received c start end' =
     list_ex (\<lambda>index. let slot = cn_receive_slots c index in
         rsl_active slot \<and> sequence_less start (rsl_end slot) \<and> sequence_less (rsl_start slot) end')
       [0..<cf_receive_capacity (cn_config c)]"

definition next_deliverable :: "'s Impl \<Rightarrow> nat option" where
  "next_deliverable c =
     find (\<lambda>index. rsl_active (cn_receive_slots c index) \<and>
             rsl_start (cn_receive_slots c index) = cn_delivery_sequence c)
       [0..<cf_receive_capacity (cn_config c)]"

text \<open>One round of \<open>deliver_contiguous\<close> on the slot found, and the loop.\<close>

definition deliver_slot :: "'s Impl \<Rightarrow> 's \<Rightarrow> nat \<Rightarrow> 's Impl \<times> 's" where
  "deliver_slot c ctx index =
     (let slot = cn_receive_slots c index;
          ctx = (case ccb_receive (cn_callbacks c) of None \<Rightarrow> ctx
                 | Some receive \<Rightarrow> receive ctx (buffer_bytes (cn_rx_pool c) (rsl_buffer slot)));
          c = count (\<lambda>s. s\<lparr>cst_payload_bytes_received := cst_payload_bytes_received s +
                ucast (pb_length (deref (cn_rx_pool c) (rsl_buffer slot)))\<rparr>) c;
          c = c\<lparr>cn_delivery_sequence := rsl_end slot\<rparr>;
          (rx_pool, ok) = release (cn_rx_pool c) (rsl_buffer slot);
          c = c\<lparr>cn_rx_pool := rx_pool\<rparr>;
          ctx = (if \<not> ok then cn_notify_error c ctx pool_error else ctx)
      in (c\<lparr>cn_receive_slots := (cn_receive_slots c)(index := slot\<lparr>rsl_active := False\<rparr>)\<rparr>, ctx))"

definition active_slot_count :: "'s Impl \<Rightarrow> nat" where
  "active_slot_count c =
     card {index. index < cf_receive_capacity (cn_config c) \<and> rsl_active (cn_receive_slots c index)}"

lemma next_deliverable_Some:
  "next_deliverable c = Some i \<Longrightarrow> i < cf_receive_capacity (cn_config c) \<and> rsl_active (cn_receive_slots c i) \<and>
   rsl_start (cn_receive_slots c i) = cn_delivery_sequence c"
  by (auto simp: next_deliverable_def find_Some_iff)

lemma deliver_slot_simps:
  "cn_config (fst (deliver_slot c ctx i)) = cn_config c"
  "cn_callbacks (fst (deliver_slot c ctx i)) = cn_callbacks c"
  "cn_receive_slots (fst (deliver_slot c ctx i)) =
     (cn_receive_slots c)(i := (cn_receive_slots c i)\<lparr>rsl_active := False\<rparr>)"
  "cn_delivery_sequence (fst (deliver_slot c ctx i)) = rsl_end (cn_receive_slots c i)"
  by (simp_all add: deliver_slot_def Let_def count_def split: prod.split)

lemma deliver_slot_decreases:
  assumes "next_deliverable c = Some i"
  shows "active_slot_count (fst (deliver_slot c ctx i)) < active_slot_count c"
  unfolding active_slot_count_def deliver_slot_simps
  by (rule psubset_card_mono) (use next_deliverable_Some [OF assms] in auto)

function deliver_contiguous :: "'s Impl \<Rightarrow> 's \<Rightarrow> 's Impl \<times> 's" where
  "deliver_contiguous c ctx =
     (case next_deliverable c of
        None \<Rightarrow> (c, ctx)
      | Some index \<Rightarrow> (case deliver_slot c ctx index of (c, ctx) \<Rightarrow> deliver_contiguous c ctx))"
  by pat_completeness auto
termination
proof (relation "measure (\<lambda>(c, ctx). active_slot_count c)")
  fix c :: "'s Impl" and ctx i c' ctx'
  assume i: "next_deliverable c = Some i" and p: "(c', ctx') = deliver_slot c ctx i"
  have "c' = fst (deliver_slot c ctx i)" using p by (metis fst_conv)
  then show "((c', ctx'), c, ctx) \<in> measure (\<lambda>(c, ctx). active_slot_count c)"
    using deliver_slot_decreases [OF i] by simp
qed simp

declare deliver_contiguous.simps [simp del]

definition process_payload :: "'s Impl \<Rightarrow> 's \<Rightarrow> TransportHeader \<Rightarrow> byte list \<Rightarrow> u64 \<Rightarrow> 's Impl \<times> 's" where
  "process_payload c ctx header payload now_ns =
     (if payload = [] then (c, ctx)
      else
        let bytes = (of_nat (length payload) :: u32);
            end' = th_sequence header + bytes;
            acknowledge = (\<lambda>c ctx. case send_control c ctx kFlagAck now_ns False of (c, ctx, sent) \<Rightarrow> (c, ctx))
        in if sequence_less_equal end' (cn_delivery_sequence c) \<or>
              overlaps_received c (th_sequence header) end'
        then acknowledge (count (\<lambda>s. s\<lparr>cst_duplicate_segments := cst_duplicate_segments s + 1\<rparr>) c) ctx
        else if length payload > kPacketBufferBytes
        then
          let c = count (\<lambda>s. s\<lparr>cst_receive_drops := cst_receive_drops s + 1\<rparr>) c
          in (c, cn_notify_error c ctx receive_capacity_exhausted)
        else
          let slot = free_receive_slot c;
              (rx_pool, buffer) = acquire (cn_rx_pool c);
              c = c\<lparr>cn_rx_pool := rx_pool\<rparr>
          in if slot = None \<or> buffer = 0
          then
            let c = (if buffer \<noteq> 0 then c\<lparr>cn_rx_pool := fst (release (cn_rx_pool c) buffer)\<rparr> else c);
                c = count (\<lambda>s. s\<lparr>cst_receive_drops := cst_receive_drops s + 1\<rparr>) c
            in acknowledge c (cn_notify_error c ctx receive_capacity_exhausted)
          else
            let (receive_ranges, result) = rr_insert (cn_receive_ranges c) (th_sequence header) end';
                c = c\<lparr>cn_receive_ranges := receive_ranges\<rparr>
            in if rres_status result \<noteq> range_accepted
            then
              let c = c\<lparr>cn_rx_pool := fst (release (cn_rx_pool c) buffer)\<rparr>;
                  c = (if rres_status result = range_duplicate
                       then count (\<lambda>s. s\<lparr>cst_duplicate_segments := cst_duplicate_segments s + 1\<rparr>) c
                       else count (\<lambda>s. s\<lparr>cst_receive_drops := cst_receive_drops s + 1\<rparr>) c)
              in acknowledge c ctx
            else
              let c = c\<lparr>cn_rx_pool := store (cn_rx_pool c) buffer
                     \<lparr>pb_data = memcpy_at (pb_data (deref (cn_rx_pool c) buffer)) 0 payload,
                      pb_length = of_nat (length payload)\<rparr>\<rparr>;
                  c = c\<lparr>cn_receive_slots := (cn_receive_slots c)(the slot :=
                     \<lparr>rsl_start = th_sequence header, rsl_end = end', rsl_buffer = buffer, rsl_active = True\<rparr>)\<rparr>;
                  (c, ctx) = deliver_contiguous c ctx
              in acknowledge c ctx)"

definition react :: "'s Impl \<Rightarrow> 's \<Rightarrow> ConnectionEvent \<Rightarrow> u64 \<Rightarrow> 's Impl \<times> 's \<times> bool" where
  "react c ctx event now_ns =
     (case handle_event c event of (c, result) \<Rightarrow> perform_actions c ctx result now_ns)"

definition process_control :: "'s Impl \<Rightarrow> 's \<Rightarrow> TransportHeader \<Rightarrow> u64 \<Rightarrow> 's Impl \<times> 's \<times> bool" where
  "process_control c ctx header now_ns =
     (let syn = (th_flags header AND kFlagSyn \<noteq> 0);
          ack = (th_flags header AND kFlagAck \<noteq> 0);
          fin = (th_flags header AND kFlagFin \<noteq> 0);
          rst = (th_flags header AND kFlagRst \<noteq> 0);
          state = sm_state (cn_machine c)
      in if rst then react c ctx receive_rst now_ns
         else if syn \<and> ack \<and> state = syn_sent then react c ctx receive_syn_ack now_ns
         else if syn
         then (if state = syn_received then send_control c ctx (kFlagSyn OR kFlagAck) now_ns True
               else react c ctx receive_syn now_ns)
         else if fin then react c ctx receive_fin now_ns
         else if ack \<and> state = syn_received then react c ctx receive_ack now_ns
         else if ack \<and> (state = fin_wait_1 \<or> state = last_ack) then react c ctx receive_ack now_ns
         else (c, ctx, True))"

definition cn_on_segment :: "'s Impl \<Rightarrow> 's \<Rightarrow> byte list \<Rightarrow> u64 \<Rightarrow> ('s Impl \<times> 's \<times> bool) option" where
  "cn_on_segment c ctx segment now_ns =
     (case parse_transport_header segment default_TransportHeader of (status, header, header_bytes) \<Rightarrow>
        if status \<noteq> wire_ok \<or> header_bytes > length segment
        then
          let c = count (\<lambda>s. s\<lparr>cst_malformed_segments := cst_malformed_segments s + 1\<rparr>) c
          in Some (c, cn_notify_error c ctx malformed_segment, False)
        else
          case (if th_flags header AND kFlagAck \<noteq> 0 then process_ack c ctx header now_ns
                else Some (c, ctx)) of
            None \<Rightarrow> None
          | Some (c, ctx) \<Rightarrow>
              (case process_control c ctx header now_ns of (c, ctx, ok) \<Rightarrow>
                 if \<not> ok then Some (c, ctx, False)
                 else
                   let payload = drop header_bytes segment in
                   if payload \<noteq> []
                   then (if sm_state (cn_machine c) \<noteq> established
                         then Some (c, cn_notify_error c ctx invalid_transition, False)
                         else case process_payload c ctx header payload now_ns of (c, ctx) \<Rightarrow>
                           Some (c, ctx, True))
                   else Some (c, ctx, True)))"

text \<open>The three parts of \<open>tick\<close>.\<close>

definition tick_time_wait :: "'s Impl \<Rightarrow> 's \<Rightarrow> u64 \<Rightarrow> 's Impl \<times> 's" where
  "tick_time_wait c ctx now_ns =
     (if sm_state (cn_machine c) = time_wait \<and> cn_time_wait_deadline_ns c \<noteq> 0 \<and>
         now_ns \<ge> cn_time_wait_deadline_ns c
      then (case react c ctx time_wait_expired now_ns of (c, ctx, ok) \<Rightarrow> (c, ctx)) else (c, ctx))"

definition tick_control :: "'s Impl \<Rightarrow> 's \<Rightarrow> u64 \<Rightarrow> 's Impl \<times> 's" where
  "tick_control c ctx now_ns =
     (if cn_remembered_control_bytes c \<noteq> 0 \<and> now_ns \<ge> cn_control_deadline_ns c
      then
        let c = c\<lparr>cn_control_deadline_ns := deadline_from now_ns kControlRetryNs\<rparr>;
            c = count (\<lambda>s. s\<lparr>cst_control_segments_sent := cst_control_segments_sent s + 1\<rparr>) c
        in (case transmit_bytes c ctx
                   (take (cn_remembered_control_bytes c) (cn_remembered_control_buffer c)) tx_control of
              (c, ctx, sent) \<Rightarrow> (c, ctx))
      else (c, ctx))"

definition tick_rto :: "'s Impl \<Rightarrow> 's \<Rightarrow> u64 \<Rightarrow> 's Impl \<times> 's" where
  "tick_rto c ctx now_ns =
     (case lowest_unsacked (cn_retransmission c) of
        None \<Rightarrow> (c, ctx)
      | Some index \<Rightarrow>
          let segment = rq_segments (cn_retransmission c) index in
          if now_ns < ps_sent_at_ns segment \<or>
             now_ns - ps_sent_at_ns segment < rto_current_rto_ns (cn_rto c)
          then (c, ctx)
          else
            let c = c\<lparr>cn_congestion := fst (on_loss (cn_congestion c) rto_timeout_signal
                       (flight_bytes c) (recovery_point_of c))\<rparr>;
                c = c\<lparr>cn_retransmission := (cn_retransmission c)\<lparr>rq_segments :=
                       (rq_segments (cn_retransmission c))(index := mark_retransmitted now_ns segment)\<rparr>\<rparr>;
                c = c\<lparr>cn_rto := fst (on_timeout (cn_rto c))\<rparr>;
                c = count (\<lambda>s. s\<lparr>cst_rto_retransmissions := cst_rto_retransmissions s + 1\<rparr>) c
            in (case transmit_bytes c ctx (buffer_bytes (cn_tx_pool c) (ps_buffer segment))
                       tx_rto_retransmit of
                  (c, ctx, sent) \<Rightarrow> (c, ctx)))"

definition cn_tick :: "'s Impl \<Rightarrow> 's \<Rightarrow> u64 \<Rightarrow> 's Impl \<times> 's" where
  "cn_tick c ctx now_ns =
     (case tick_time_wait c ctx now_ns of (c, ctx) \<Rightarrow>
      case tick_control c ctx now_ns of (c, ctx) \<Rightarrow> tick_rto c ctx now_ns)"

text \<open>The destructor: every buffer goes back to its pool.\<close>

definition release_slot_buffer :: "nat \<Rightarrow> 's Impl \<Rightarrow> 's Impl" where
  "release_slot_buffer index c =
     (let slot = cn_receive_slots c index in
      if rsl_active slot
      then c\<lparr>cn_rx_pool := fst (release (cn_rx_pool c) (rsl_buffer slot)),
             cn_receive_slots := (cn_receive_slots c)(index := slot\<lparr>rsl_active := False\<rparr>)\<rparr>
      else c)"

definition cn_destroy :: "'s Impl \<Rightarrow> 's Impl" where
  "cn_destroy c =
     (case rq_clear (cn_retransmission c) (cn_tx_pool c) of (retransmission, tx_pool, result) \<Rightarrow>
        fold release_slot_buffer [0..<kReceiveRangeCapacity]
          (c\<lparr>cn_retransmission := retransmission, cn_tx_pool := tx_pool\<rparr>))"

end
