(* ===== verification/Connection_Inv.thy ===== *)
theory Connection_Inv
  imports Connection
begin

text \<open>
  The invariant of a connection.

  The callbacks record what happens in a log of events; an oracle on the log decides which
  transmissions fail. \<open>S\<close> is the byte stream the application has handed to \<open>send\<close>, \<open>R\<close> the stream of
  the peer. The invariant says that every buffer of the transmit pool belongs to one segment of the
  retransmission queue and holds a segment that carries its piece of \<open>S\<close>, that every buffer of the receive
  pool belongs to one receive slot and holds a piece of \<open>R\<close>, that everything transmitted carries pieces
  of \<open>S\<close>, and that what was delivered is a prefix of \<open>R\<close>.
\<close>

datatype cn_event = Tx "byte list" TransmitReason | Rx "byte list" | St ConnectionState | Er ConnectionError

text \<open>
  How a connection's context is observed: the events it has seen, an invariant of the context, and a bound
  on the size of the segments that keep it.
\<close>

record 'c observer =
  ob_events :: "'c \<Rightarrow> cn_event list"
  ob_good :: "'c \<Rightarrow> bool"
  ob_limit :: nat

text \<open>
  What the connection relies on of its callbacks: each adds its event and keeps the invariant of the
  context; \<open>transmit\<close> may fail, and it may rely on the bound.
\<close>

locale observed =
  fixes ob :: "'c observer" and cb :: "'c ConnectionCallbacks"
  assumes limit: "44 \<le> ob_limit ob"
    and transmits: "\<exists>f. ccb_transmit cb = Some f \<and> (\<forall>ctx b r.
      ob_events ob (fst (f ctx b r)) = ob_events ob ctx @ [Tx b r] \<and>
      (ob_good ob ctx \<longrightarrow> length b \<le> ob_limit ob \<longrightarrow> ob_good ob (fst (f ctx b r))))"
    and receives: "\<exists>f. ccb_receive cb = Some f \<and> (\<forall>ctx p.
      ob_events ob (f ctx p) = ob_events ob ctx @ [Rx p] \<and> (ob_good ob ctx \<longrightarrow> ob_good ob (f ctx p)))"
    and changes: "\<exists>f. ccb_state cb = Some f \<and> (\<forall>ctx s.
      ob_events ob (f ctx s) = ob_events ob ctx @ [St s] \<and> (ob_good ob ctx \<longrightarrow> ob_good ob (f ctx s)))"
    and fails: "\<exists>f. ccb_error cb = Some f \<and> (\<forall>ctx e.
      ob_events ob (f ctx e) = ob_events ob ctx @ [Er e] \<and> (ob_good ob ctx \<longrightarrow> ob_good ob (f ctx e)))"
begin

text \<open>The three calls a connection makes outside \<open>receive\<close>, as the context sees them.\<close>

lemma notify_error_event:
  "cn_callbacks c = cb \<Longrightarrow> ob_events ob (cn_notify_error c ctx e) = ob_events ob ctx @ [Er e] \<and>
     (ob_good ob ctx \<longrightarrow> ob_good ob (cn_notify_error c ctx e))"
  using fails by (auto simp: cn_notify_error_def)

lemma notify_state_event:
  "cn_callbacks c = cb \<Longrightarrow> ob_events ob (cn_notify_state c ctx) = ob_events ob ctx @ [St (sm_state (cn_machine c))] \<and>
     (ob_good ob ctx \<longrightarrow> ob_good ob (cn_notify_state c ctx))"
  using changes by (auto simp: cn_notify_state_def)

lemma transmit_event:
  assumes c: "cn_callbacks c = cb" and t: "transmit_bytes c ctx b r = (c', ctx', sent)"
  shows "(\<exists>es. ob_events ob ctx' = ob_events ob ctx @ Tx b r # es \<and> es \<in> {[], [Er transmit_failed]}) \<and>
    (ob_good ob ctx \<longrightarrow> length b \<le> ob_limit ob \<longrightarrow> ob_good ob ctx')"
proof -
  obtain f where f: "ccb_transmit cb = Some f" "\<And>ctx. ob_events ob (fst (f ctx b r)) = ob_events ob ctx @ [Tx b r]"
      "\<And>ctx. ob_good ob ctx \<Longrightarrow> length b \<le> ob_limit ob \<Longrightarrow> ob_good ob (fst (f ctx b r))"
    using transmits by blast
  obtain ctx1 e where fe: "f ctx b r = (ctx1, e)" by fastforce
  have 1: "ob_events ob ctx1 = ob_events ob ctx @ [Tx b r]"
      "ob_good ob ctx \<Longrightarrow> length b \<le> ob_limit ob \<Longrightarrow> ob_good ob ctx1"
    using f(2,3) [of ctx] fe by simp_all
  let ?c = "count (\<lambda>s. s\<lparr>cst_transmit_failures := cst_transmit_failures s + 1\<rparr>) c"
  have "ctx' = ctx1 \<or> ctx' = cn_notify_error ?c ctx1 transmit_failed"
    using t f(1) c fe by (auto simp: transmit_bytes_def Let_def split: if_splits)
  moreover have "cn_callbacks ?c = cb" using c by (simp add: count_def)
  ultimately show ?thesis using 1 notify_error_event [of ?c ctx1 transmit_failed] by auto
qed

end

text \<open>The simplest context is the log itself; an oracle on it decides which transmissions fail.\<close>

definition recorded :: "(cn_event list \<Rightarrow> bool) \<Rightarrow> cn_event list ConnectionCallbacks" where
  "recorded ok = \<lparr>
     ccb_transmit = Some (\<lambda>log b r. (log @ [Tx b r], if ok log then no_error else other_error 0)),
     ccb_receive = Some (\<lambda>log p. log @ [Rx p]),
     ccb_state = Some (\<lambda>log s. log @ [St s]),
     ccb_error = Some (\<lambda>log e. log @ [Er e])\<rparr>"

definition log_observer :: "cn_event list observer" where
  "log_observer = \<lparr>ob_events = (\<lambda>log. log), ob_good = (\<lambda>log. True), ob_limit = 2048\<rparr>"

lemma log_observer_simps [simp]:
  "ob_events log_observer log = log" "ob_good log_observer log" "ob_limit log_observer = 2048"
  by (simp_all add: log_observer_def)

interpretation recorded: observed log_observer "recorded ok"
  by unfold_locales (simp_all add: recorded_def)

fun event_payload :: "cn_event \<Rightarrow> byte list" where
  "event_payload (Rx p) = p"
| "event_payload (Tx b r) = []"
| "event_payload (St s) = []"
| "event_payload (Er e) = []"

definition delivered :: "cn_event list \<Rightarrow> byte list" where
  "delivered log = concat (map event_payload log)"

text \<open>The payload \<open>p\<close> is the piece of the stream \<open>S\<close> at sequence number \<open>q\<close>, \<open>base\<close> being the first.\<close>

definition piece_at :: "u32 \<Rightarrow> byte list \<Rightarrow> u32 \<Rightarrow> byte list \<Rightarrow> bool" where
  "piece_at base S q p \<longleftrightarrow>
     (\<exists>off. q = base + of_nat off \<and> off + length p \<le> length S \<and> p = take (length p) (drop off S))"

text \<open>Whatever a receiver parses out of the segment is a piece of the stream.\<close>

definition carries :: "u32 \<Rightarrow> byte list \<Rightarrow> byte list \<Rightarrow> bool" where
  "carries base S seg \<longleftrightarrow> (case parse_transport_header seg default_TransportHeader of (status, h, n) \<Rightarrow>
     status = wire_ok \<longrightarrow> drop n seg = [] \<or> piece_at base S (th_sequence h) (drop n seg))"

text \<open>
  The incoming stream is \<open>Some R\<close> when the peer is a known sender of \<open>R\<close>, and \<open>None\<close> when nothing is known
  of the segments that arrive.
\<close>

definition in_piece :: "u32 \<Rightarrow> byte list option \<Rightarrow> u32 \<Rightarrow> byte list \<Rightarrow> bool" where
  "in_piece base R q p \<longleftrightarrow> (case R of None \<Rightarrow> True | Some R \<Rightarrow> piece_at base R q p)"

definition in_carries :: "u32 \<Rightarrow> byte list option \<Rightarrow> byte list \<Rightarrow> bool" where
  "in_carries base R seg \<longleftrightarrow> (case R of None \<Rightarrow> True | Some R \<Rightarrow> carries base R seg)"

definition in_bounded :: "byte list option \<Rightarrow> bool" where
  "in_bounded R \<longleftrightarrow> (case R of None \<Rightarrow> True | Some R \<Rightarrow> length R < 2 ^ 32)"

definition slot_ok :: "u32 \<Rightarrow> byte list option \<Rightarrow> PacketPool \<Rightarrow> ReceiveSlot \<Rightarrow> bool" where
  "slot_ok base R rx s \<longleftrightarrow> (let p = buffer_bytes rx (rsl_buffer s) in
     p \<noteq> [] \<and> rsl_end s = rsl_start s + of_nat (length p) \<and> in_piece base R (rsl_start s) p)"

definition tx_ok :: "nat \<Rightarrow> u32 \<Rightarrow> byte list \<Rightarrow> PacketPool \<Rightarrow> nat list \<Rightarrow> u32 \<Rightarrow> bool" where
  "tx_ok limit base S tx bufs nxt \<longleftrightarrow> pool_inv tx \<and> distinct bufs \<and> held tx = set bufs \<and>
     nxt = base + of_nat (length S) \<and> (\<forall>b \<in> set bufs. carries base S (buffer_bytes tx b) \<and> length (buffer_bytes tx b) \<le> limit)"

definition active_set :: "nat \<Rightarrow> ReceiveSlot arr \<Rightarrow> nat set" where
  "active_set cap slots = {i. i < cap \<and> rsl_active (slots i)}"

definition rx_ok :: "u32 \<Rightarrow> byte list option \<Rightarrow> nat \<Rightarrow> PacketPool \<Rightarrow> ReceiveSlot arr \<Rightarrow> bool" where
  "rx_ok base R cap rx slots \<longleftrightarrow> pool_inv rx \<and>
     inj_on (\<lambda>i. rsl_buffer (slots i)) (active_set cap slots) \<and>
     held rx = (\<lambda>i. rsl_buffer (slots i)) ` active_set cap slots \<and>
     (\<forall>i \<ge> cap. \<not> rsl_active (slots i)) \<and>
     (\<forall>i \<in> active_set cap slots. slot_ok base R rx (slots i))"

definition prefix_at :: "u32 \<Rightarrow> byte list \<Rightarrow> u32 \<Rightarrow> byte list \<Rightarrow> bool" where
  "prefix_at base R dseq D \<longleftrightarrow> (\<exists>k \<le> length R. D = take k R \<and> dseq = base + of_nat k)"

definition prefix_ok :: "u32 \<Rightarrow> byte list option \<Rightarrow> u32 \<Rightarrow> byte list \<Rightarrow> bool" where
  "prefix_ok base R dseq D \<longleftrightarrow> (case R of None \<Rightarrow> True | Some R \<Rightarrow> prefix_at base R dseq D)"

definition header_only :: "byte list \<Rightarrow> bool" where
  "header_only b \<longleftrightarrow> carries 0 [] b \<and> length b \<le> 44"

definition control_ok :: "'s Impl \<Rightarrow> bool" where
  "control_ok c \<longleftrightarrow> length (cn_control_buffer c) = 44 \<and> length (cn_remembered_control_buffer c) = 44 \<and>
     header_only (take (cn_remembered_control_bytes c) (cn_remembered_control_buffer c))"

definition config_ok :: "ConnectionConfig \<Rightarrow> bool" where
  "config_ok cfg \<longleftrightarrow> unat (cf_maximum_segment_payload_bytes cfg) \<le> 2004 \<and> cf_receive_capacity cfg \<le> 1024"

text \<open>What a connection sends out carries \<open>S\<close>.\<close>

fun event_ok :: "u32 \<Rightarrow> byte list \<Rightarrow> cn_event \<Rightarrow> bool" where
  "event_ok base S (Tx b r) = carries base S b"
| "event_ok base S (Rx p) = True"
| "event_ok base S (St s) = True"
| "event_ok base S (Er e) = True"

definition sent_ok :: "u32 \<Rightarrow> byte list \<Rightarrow> cn_event list \<Rightarrow> bool" where
  "sent_ok base S log = list_all (event_ok base S) log"

record streams =
  sm_iss :: u32
  sm_out :: "byte list"
  sm_irs :: u32
  sm_in :: "byte list option"

definition conn_inv :: "'c observer \<Rightarrow> streams \<Rightarrow> 'c Impl \<Rightarrow> 'c \<Rightarrow> bool" where
  "conn_inv ob m c log \<longleftrightarrow> observed ob (cn_callbacks c) \<and> ob_good ob log \<and> config_ok (cn_config c) \<and>
     44 + unat (cf_maximum_segment_payload_bytes (cn_config c)) \<le> ob_limit ob \<and> cc_inv (cn_congestion c) \<and>
     control_ok c \<and>
     tx_ok (ob_limit ob) (sm_iss m) (sm_out m) (cn_tx_pool c) (rq_buffers (cn_retransmission c)) (cn_next_send_sequence c) \<and>
     rx_ok (sm_irs m) (sm_in m) (cf_receive_capacity (cn_config c)) (cn_rx_pool c) (cn_receive_slots c) \<and>
     prefix_ok (sm_irs m) (sm_in m) (cn_delivery_sequence c) (delivered (ob_events ob log)) \<and>
     sent_ok (sm_iss m) (sm_out m) (ob_events ob log)"

section \<open>Streams\<close>

lemma piece_at_append: "piece_at base S q p \<Longrightarrow> piece_at base (S @ T) q p"
  unfolding piece_at_def by (elim exE conjE) (rule exI, auto)

lemma carries_append: "carries base S b \<Longrightarrow> carries base (S @ T) b"
  by (auto simp: carries_def split: prod.splits intro: piece_at_append)

lemma header_only_carries: "header_only b \<Longrightarrow> carries base S b"
  by (auto simp: header_only_def carries_def piece_at_def split: prod.splits)

lemma event_ok_append: "event_ok base S e \<Longrightarrow> event_ok base (S @ T) e"
  by (cases e) (auto intro: carries_append)

lemma sent_ok_append: "sent_ok base S log \<Longrightarrow> sent_ok base (S @ T) log"
  by (auto simp: sent_ok_def list_all_iff intro: event_ok_append)

lemma sent_ok_simps [simp]:
  "sent_ok base S []" "sent_ok base S (l @ l') \<longleftrightarrow> sent_ok base S l \<and> sent_ok base S l'"
  "sent_ok base S (e # l) \<longleftrightarrow> event_ok base S e \<and> sent_ok base S l"
  by (simp_all add: sent_ok_def)

lemma delivered_simps [simp]:
  "delivered [] = []" "delivered (l @ l') = delivered l @ delivered l'" "delivered (e # l) = event_payload e @ delivered l"
  by (simp_all add: delivered_def)

lemma piece_next:
  assumes "prefix_at base R d D" "piece_at base R d p" "length R < 2 ^ 32"
  shows "prefix_at base R (d + of_nat (length p)) (D @ p)"
proof -
  obtain k where k: "k \<le> length R" "D = take k R" "d = base + of_nat k" using assms(1) by (auto simp: prefix_at_def)
  obtain off where off: "d = base + of_nat off" "off + length p \<le> length R" "p = take (length p) (drop off R)"
    using assms(2) by (auto simp: piece_at_def)
  have "(of_nat k :: u32) = of_nat off" using k off by simp
  then have "unat (of_nat k :: u32) = unat (of_nat off :: u32)" by simp
  then have "k = off" using k off assms(3) by (simp add: unat_of_nat take_bit_nat_eq_self)
  then have "D @ p = take (k + length p) R" using k off by (metis take_add)
  then show ?thesis using k off \<open>k = off\<close> unfolding prefix_at_def
    by (intro exI [of _ "k + length p"]) (simp add: add.assoc)
qed

lemma in_piece_next:
  assumes "prefix_ok base R d D" "in_piece base R d p" "in_bounded R"
  shows "prefix_ok base R (d + of_nat (length p)) (D @ p)"
  using assms piece_next by (auto simp: prefix_ok_def in_piece_def in_bounded_def split: option.splits)

text \<open>The header a connection makes round-trips, so its segments carry their payload and nothing else.\<close>

lemma make_header_padded: "header_padded (make_header c f)"
proof -
  define n where "n = min (rr_size (cn_receive_ranges c)) 4"
  have "fold (\<lambda>i out. out[i := rr_ranges (cn_receive_ranges c) i]) [0..<n] (replicate 4 default_SackBlock)
      = live (rr_ranges (cn_receive_ranges c)) n @ replicate (4 - n) default_SackBlock"
    by (subst fold_update_prefix) (simp_all add: n_def)
  then have "th_sacks (make_header c f) = live (rr_ranges (cn_receive_ranges c)) n @ replicate (4 - n) default_SackBlock"
    "th_sack_count (make_header c f) = of_nat n"
    by (simp_all add: make_header_def generate_sacks_def default_sacks_def kMaximumSackBlocks_def Let_def n_def)
  moreover have "unat (of_nat n :: u8) = n" by (simp add: n_def unat_of_nat take_bit_nat_eq_self)
  moreover have "n \<le> 4" by (simp add: n_def)
  ultimately show ?thesis by (auto simp: header_padded_def kMaximumSackBlocks_def nth_append)
qed

lemma make_header_simps [simp]: "th_sequence (make_header c f) = cn_next_send_sequence c"
  by (simp add: make_header_def split: prod.split)

lemma serialize_okD:
  assumes "serialize_transport_header h out = (wire_ok, out', n)"
  shows "out' = encode_header h @ drop n out \<and> n = header_bytes_of h \<and> n \<le> length out \<and> validate h = wire_ok"
proof -
  have "fst (serialize_transport_header h out) = wire_ok" using assms by simp
  then have "validate h = wire_ok" "header_bytes_of h \<le> length out"
    unfolding serialize_status by (auto split: if_splits)
  then show ?thesis using serialize_ok [of h out] assms by simp
qed

lemma serialize_length:
  assumes "serialize_transport_header h out = (st, out', n)"
  shows "length out' = length out"
proof (cases "st = wire_ok")
  case True
  then show ?thesis using serialize_okD [of h out out' n] assms by simp
next
  case False
  then show ?thesis using serialize_failed [of h out] assms by simp
qed

lemma encode_carries:
  assumes "validate h = wire_ok" "header_padded h" "p = [] \<or> piece_at base S (th_sequence h) p"
  shows "carries base S (encode_header h @ p)"
  using parse_encode [OF assms(1,2), of p default_TransportHeader] assms(3)
  by (simp add: carries_def)

lemma header_bytes_of_le: "validate h = wire_ok \<Longrightarrow> header_bytes_of h \<le> 44"
  by (auto simp: validate_def header_bytes_of_def wire_consts split: if_splits)

section \<open>Sending control segments and performing actions\<close>

text \<open>
  Steps that touch neither the pools nor the streams: only control buffers, timers, statistics and the
  machine change, and the events they add are control segments and notifications.
\<close>

definition same_data :: "'s Impl \<Rightarrow> 's Impl \<Rightarrow> bool" where
  "same_data c c' \<longleftrightarrow> cn_config c' = cn_config c \<and> cn_callbacks c' = cn_callbacks c \<and>
     cn_tx_pool c' = cn_tx_pool c \<and> cn_rx_pool c' = cn_rx_pool c \<and>
     cn_retransmission c' = cn_retransmission c \<and> cn_receive_ranges c' = cn_receive_ranges c \<and>
     cn_fast_retransmit c' = cn_fast_retransmit c \<and> cn_rto c' = cn_rto c \<and>
     cn_congestion c' = cn_congestion c \<and> cn_receive_slots c' = cn_receive_slots c \<and>
     cn_next_send_sequence c' = cn_next_send_sequence c \<and>
     cn_oldest_unacknowledged c' = cn_oldest_unacknowledged c \<and>
     cn_delivery_sequence c' = cn_delivery_sequence c \<and> cn_peer_window c' = cn_peer_window c"

fun quiet_event :: "cn_event \<Rightarrow> bool" where
  "quiet_event (Tx b r) = header_only b"
| "quiet_event (Rx p) = False"
| "quiet_event (St s) = True"
| "quiet_event (Er e) = True"

definition quiet :: "'c observer \<Rightarrow> 'c \<Rightarrow> 'c \<Rightarrow> bool" where
  "quiet ob log log' \<longleftrightarrow> (\<exists>es. ob_events ob log' = ob_events ob log @ es \<and> list_all quiet_event es) \<and>
     (ob_good ob log \<longrightarrow> ob_good ob log')"

definition quiet_step :: "'c observer \<Rightarrow> 'c Impl \<Rightarrow> 'c \<Rightarrow> 'c Impl \<Rightarrow> 'c \<Rightarrow> bool" where
  "quiet_step ob c log c' log' \<longleftrightarrow> same_data c c' \<and> control_ok c' \<and> quiet ob log log'"

lemma same_data_refl [simp]: "same_data c c"
  by (simp add: same_data_def)

lemma same_data_trans: "same_data a b \<Longrightarrow> same_data b c \<Longrightarrow> same_data a c"
  by (simp add: same_data_def)

lemma quiet_refl [simp]: "quiet ob log log"
  by (simp add: quiet_def)

lemma quiet_trans: "quiet ob a b \<Longrightarrow> quiet ob b c \<Longrightarrow> quiet ob a c"
  unfolding quiet_def by (metis append_assoc list_all_append)

lemma quiet_step_refl: "control_ok c \<Longrightarrow> quiet_step ob c log c log"
  by (simp add: quiet_step_def)

lemma quiet_step_trans: "quiet_step ob a l b l' \<Longrightarrow> quiet_step ob b l' c l'' \<Longrightarrow> quiet_step ob a l c l''"
  by (auto simp: quiet_step_def intro: same_data_trans quiet_trans)

lemma quiet_delivered: "quiet ob log log' \<Longrightarrow> delivered (ob_events ob log') = delivered (ob_events ob log)"
proof -
  have "list_all quiet_event es \<Longrightarrow> delivered es = []" for es
  proof (induction es)
    case (Cons e es)
    then show ?case by (cases e) auto
  qed simp
  then show "quiet ob log log' \<Longrightarrow> delivered (ob_events ob log') = delivered (ob_events ob log)" by (auto simp: quiet_def)
qed

lemma quiet_event_ok: "quiet_event e \<Longrightarrow> event_ok base S e"
  by (cases e) (auto intro: header_only_carries)

lemma quiet_sent: "quiet ob log log' \<Longrightarrow> sent_ok base S (ob_events ob log) \<Longrightarrow> sent_ok base S (ob_events ob log')"
  by (auto simp: quiet_def sent_ok_def list_all_iff intro: quiet_event_ok)

lemma quiet_good: "quiet ob log log' \<Longrightarrow> ob_good ob log \<Longrightarrow> ob_good ob log'"
  by (simp add: quiet_def)

text \<open>A quiet step keeps the invariant.\<close>

lemma conn_inv_quiet: "quiet_step ob c log c' log' \<Longrightarrow> conn_inv ob m c log \<Longrightarrow> conn_inv ob m c' log'"
  using quiet_delivered [of ob log log'] quiet_sent [of ob log log'] quiet_good [of ob log log']
  by (simp add: conn_inv_def quiet_step_def same_data_def)

lemma conn_invD: "conn_inv ob m c log \<Longrightarrow> observed ob (cn_callbacks c)" "conn_inv ob m c log \<Longrightarrow> control_ok c"
  by (simp_all add: conn_inv_def)

lemma count_same_data [simp]: "same_data c (count f c)"
  by (simp add: same_data_def count_def)

lemma control_ok_count [simp]: "control_ok (count f c) \<longleftrightarrow> control_ok c"
  by (simp add: control_ok_def count_def)

lemma count_sel [simp]:
  "cn_callbacks (count f c) = cn_callbacks c" "cn_machine (count f c) = cn_machine c"
  "cn_tx_pool (count f c) = cn_tx_pool c" "cn_rx_pool (count f c) = cn_rx_pool c"
  "cn_retransmission (count f c) = cn_retransmission c" "cn_config (count f c) = cn_config c"
  "cn_receive_slots (count f c) = cn_receive_slots c" "cn_receive_ranges (count f c) = cn_receive_ranges c"
  "cn_congestion (count f c) = cn_congestion c" "cn_delivery_sequence (count f c) = cn_delivery_sequence c"
  "cn_next_send_sequence (count f c) = cn_next_send_sequence c" "cn_rto (count f c) = cn_rto c"
  "cn_oldest_unacknowledged (count f c) = cn_oldest_unacknowledged c"
  by (simp_all add: count_def)

lemma quiet_notified:
  assumes "observed ob (cn_callbacks c)"
  shows "quiet ob log (cn_notify_error c log e)" "quiet ob log (cn_notify_state c log)"
  using observed.notify_error_event [OF assms refl] observed.notify_state_event [OF assms refl]
  by (auto simp: quiet_def)

lemma transmit_data:
  "transmit_bytes c log b r = (c', log', sent) \<Longrightarrow>
    same_data c c' \<and> cn_machine c' = cn_machine c \<and> (control_ok c \<longrightarrow> control_ok c')"
  by (auto simp: transmit_bytes_def Let_def split: if_splits prod.splits option.splits)

lemma transmit_quiet:
  assumes cb: "observed ob (cn_callbacks c)" and t: "transmit_bytes c log b r = (c', log', sent)" and b: "header_only b"
  shows "quiet ob log log'"
proof -
  have "length b \<le> ob_limit ob" using b observed.limit [OF cb] by (simp add: header_only_def)
  then show ?thesis using observed.transmit_event [OF cb refl t] b by (auto simp: quiet_def)
qed

lemma send_control_quiet:
  assumes cb: "observed ob (cn_callbacks c)" and ctl: "control_ok c"
    and s: "send_control c log f now rem = (c', log', b)"
  shows "quiet_step ob c log c' log' \<and> cn_machine c' = cn_machine c"
proof -
  obtain st buf n where ser: "serialize_transport_header (make_header c f) (cn_control_buffer c) = (st, buf, n)"
    by (metis prod_cases3)
  have len: "length buf = 44" using serialize_length [OF ser] ctl by (simp add: control_ok_def)
  show ?thesis
  proof (cases "st = wire_ok")
    case False
    let ?c = "c\<lparr>cn_control_buffer := buf\<rparr>"
    have "c' = ?c" "log' = cn_notify_error ?c log malformed_segment"
      using s ser False by (auto simp: send_control_def Let_def)
    moreover have "observed ob (cn_callbacks ?c)" using cb by simp
    ultimately show ?thesis using ctl len quiet_notified(1) [of ob ?c]
      by (simp add: quiet_step_def same_data_def control_ok_def)
  next
    case True
    have d: "buf = encode_header (make_header c f) @ drop n (cn_control_buffer c)"
      "n = header_bytes_of (make_header c f)" "n \<le> 44" "validate (make_header c f) = wire_ok"
      using serialize_okD [of "make_header c f" "cn_control_buffer c" buf n] ser True ctl
      by (auto simp: control_ok_def)
    have bytes: "take n buf = encode_header (make_header c f)" using d(1,2) by simp
    have ho: "header_only (take n buf)"
      unfolding header_only_def bytes using encode_carries [OF d(4) make_header_padded, of "[]"] d(2,3) by simp
    define c1 where "c1 = (if rem then c\<lparr>cn_control_buffer := buf, cn_remembered_control_bytes := n,
        cn_remembered_control_flags := f,
        cn_remembered_control_buffer := memcpy_at (cn_remembered_control_buffer c) 0 (take n buf),
        cn_control_deadline_ns := deadline_from now kControlRetryNs\<rparr>
      else c\<lparr>cn_control_buffer := buf\<rparr>)"
    define c2 where "c2 = count (\<lambda>s. s\<lparr>cst_control_segments_sent := cst_control_segments_sent s + 1\<rparr>) c1"
    have t: "transmit_bytes c2 log (take n buf) tx_control = (c', log', b)"
      using s ser True by (simp add: send_control_def Let_def c1_def c2_def split: if_splits)
    have "same_data c c2" "cn_machine c2 = cn_machine c"
      by (simp_all add: c1_def c2_def same_data_def count_def)
    moreover have "control_ok c2"
      using ctl len d(3) ho
      by (auto simp: control_ok_def c2_def c1_def count_def memcpy_at_def take_append)
    moreover have cb2: "observed ob (cn_callbacks c2)" using cb by (simp add: c1_def c2_def)
    ultimately show ?thesis
      using transmit_data [OF t] transmit_quiet [OF cb2 t ho] same_data_trans [of c c2 c']
      by (auto simp: quiet_step_def)
  qed
qed

lemma quiet_notify:
  assumes "observed ob (cn_callbacks c)" "control_ok c"
  shows "quiet_step ob c log c (cn_notify_error c log e)" "quiet_step ob c log c (cn_notify_state c log)"
  using assms by (simp_all add: quiet_step_def quiet_notified)

lemma clear_control_quiet:
  "control_ok c \<Longrightarrow> quiet_step ob c log (clear_control c) log"
  using encode_carries [of "default_TransportHeader" "[]"]
  by (auto simp: quiet_step_def same_data_def control_ok_def clear_control_def header_only_def carries_def
      split: prod.splits)

lemma quiet_step_cb: "quiet_step ob c l c' l' \<Longrightarrow> cn_callbacks c' = cn_callbacks c \<and> control_ok c'"
  by (simp add: quiet_step_def same_data_def)

lemma perform_actions_quiet:
  assumes cb: "observed ob (cn_callbacks c)" and ctl: "control_ok c"
    and p: "perform_actions c log tr now = (c', log', b)"
  shows "quiet_step ob c log c' log' \<and> cn_machine c' = cn_machine c"
proof -
  let ?a = "tr_actions tr"
  define l1 where "l1 = (if \<not> tr_accepted tr then cn_notify_error c log invalid_transition else log)"
  obtain f rem where f: "action_flags ?a = (f, rem)" by fastforce
  obtain c2 l2 s2 where s2: "(if f \<noteq> 0 then send_control c l1 f now rem else (c, l1, True)) = (c2, l2, s2)"
    by (metis prod_cases3)
  define c3 where "c3 = (if has_action ?a notify_connected \<or> has_action ?a notify_closed then clear_control c2 else c2)"
  define l3 where "l3 = (if has_action ?a notify_connected \<or> has_action ?a notify_closed
    then cn_notify_state (clear_control c2) l2 else l2)"
  define l4 where "l4 = (if has_action ?a notify_error then cn_notify_error c3 l3 invalid_transition else l3)"
  have r: "c' = (if tr_current tr = time_wait
      then c3\<lparr>cn_time_wait_deadline_ns := deadline_from now kTimeWaitNs\<rparr> else c3)" "log' = l4"
    using p s2 unfolding perform_actions_def Let_def f l1_def [symmetric]
    by (auto simp: c3_def l3_def l4_def split: if_splits)
  have 1: "quiet_step ob c log c l1" using quiet_notify(1) [OF cb ctl] quiet_step_refl [OF ctl] by (simp add: l1_def)
  have 2: "quiet_step ob c l1 c2 l2 \<and> cn_machine c2 = cn_machine c"
    using s2 send_control_quiet [OF cb ctl] quiet_step_refl [OF ctl] by (auto split: if_splits)
  have cb2: "observed ob (cn_callbacks c2)" "control_ok c2" using quiet_step_cb 2 cb by metis+
  have 3: "quiet_step ob c2 l2 c3 l3 \<and> cn_machine c3 = cn_machine c2"
  proof (cases "has_action ?a notify_connected \<or> has_action ?a notify_closed")
    case True
    have q: "quiet_step ob c2 l2 (clear_control c2) l2" by (rule clear_control_quiet [OF cb2(2)])
    have "quiet_step ob (clear_control c2) l2 (clear_control c2) (cn_notify_state (clear_control c2) l2)"
      using quiet_notify(2) [of ob "clear_control c2" l2] quiet_step_cb [OF q] cb2 by simp
    then show ?thesis using quiet_step_trans [OF q] True by (simp add: c3_def l3_def clear_control_def)
  next
    case False
    then show ?thesis using quiet_step_refl [OF cb2(2)] by (simp add: c3_def l3_def)
  qed
  have cb3: "observed ob (cn_callbacks c3)" "control_ok c3" using quiet_step_cb 3 cb2 by metis+
  have 4: "quiet_step ob c3 l3 c' l4 \<and> cn_machine c' = cn_machine c3"
    using quiet_notify(1) [OF cb3] cb3 r(1)
    by (auto simp: l4_def quiet_step_def same_data_def control_ok_def)
  show ?thesis
    using quiet_step_trans [OF quiet_step_trans [OF quiet_step_trans [OF 1]]] 2 3 4 r(2) by metis
qed

lemma machine_quiet: "control_ok c \<Longrightarrow> quiet_step ob c log (c\<lparr>cn_machine := x\<rparr>) log"
  by (simp add: quiet_step_def same_data_def control_ok_def)

lemma react_quiet:
  assumes cb: "observed ob (cn_callbacks c)" and ctl: "control_ok c"
    and r: "react c log e now = (c', log', b)"
  shows "quiet_step ob c log c' log'"
proof -
  obtain x res where h: "handle (cn_machine c) e = (x, res)" by fastforce
  let ?c = "c\<lparr>cn_machine := x\<rparr>"
  have "perform_actions ?c log res now = (c', log', b)" using r h by (simp add: react_def handle_event_def)
  moreover have "observed ob (cn_callbacks ?c)" "control_ok ?c" using cb ctl by (simp_all add: control_ok_def)
  ultimately show ?thesis
    using perform_actions_quiet [of ob ?c log res now c' log' b] quiet_step_trans [OF machine_quiet [OF ctl]] by auto
qed

lemma connect_quiet:
  assumes cb: "observed ob (cn_callbacks c)" and ctl: "control_ok c"
  shows "cn_connect c log now = (c', log', b) \<Longrightarrow> quiet_step ob c log c' log'"
    and "cn_close c log now = (c', log', b) \<Longrightarrow> quiet_step ob c log c' log'"
proof -
  have *: "quiet_step ob c log c' log'"
    if "perform_actions (c\<lparr>cn_machine := x\<rparr>) (cn_notify_state (c\<lparr>cn_machine := x\<rparr>) log) res now = (c', log', b)"
    for x res
  proof -
    let ?c = "c\<lparr>cn_machine := x\<rparr>"
    have c: "observed ob (cn_callbacks ?c)" "control_ok ?c" using cb ctl by (simp_all add: control_ok_def)
    show ?thesis
      using quiet_step_trans [OF quiet_step_trans [OF machine_quiet [OF ctl] quiet_notify(2) [OF c]]]
        perform_actions_quiet [OF c that] by blast
  qed
  show "cn_connect c log now = (c', log', b) \<Longrightarrow> quiet_step ob c log c' log'"
    using * by (auto simp: cn_connect_def handle_event_def split: prod.splits)
  show "cn_close c log now = (c', log', b) \<Longrightarrow> quiet_step ob c log c' log'"
    using * by (auto simp: cn_close_def handle_event_def split: prod.splits)
qed

lemma process_control_quiet:
  assumes cb: "observed ob (cn_callbacks c)" and ctl: "control_ok c"
    and p: "process_control c log h now = (c', log', b)"
  shows "quiet_step ob c log c' log'"
  using p react_quiet [OF cb ctl] send_control_quiet [OF cb ctl] quiet_step_refl [OF ctl]
  unfolding process_control_def Let_def by (auto split: if_splits)

lemma tick_time_wait_quiet:
  assumes cb: "observed ob (cn_callbacks c)" and ctl: "control_ok c"
    and p: "tick_time_wait c log now = (c', log')"
  shows "quiet_step ob c log c' log'"
  using p react_quiet [OF cb ctl] quiet_step_refl [OF ctl]
  by (auto simp: tick_time_wait_def split: if_splits prod.splits)

lemma tick_control_quiet:
  assumes cb: "observed ob (cn_callbacks c)" and ctl: "control_ok c"
    and p: "tick_control c log now = (c', log')"
  shows "quiet_step ob c log c' log'"
proof (cases "cn_remembered_control_bytes c \<noteq> 0 \<and> now \<ge> cn_control_deadline_ns c")
  case True
  define c1 where "c1 = count (\<lambda>s. s\<lparr>cst_control_segments_sent := cst_control_segments_sent s + 1\<rparr>)
    (c\<lparr>cn_control_deadline_ns := deadline_from now kControlRetryNs\<rparr>)"
  let ?b = "take (cn_remembered_control_bytes c) (cn_remembered_control_buffer c)"
  obtain sent where t: "transmit_bytes c1 log ?b tx_control = (c', log', sent)"
    using p True by (auto simp: tick_control_def Let_def c1_def count_def split: prod.splits)
  have c1: "same_data c c1" "control_ok c1" "observed ob (cn_callbacks c1)"
    using cb ctl by (simp_all add: c1_def same_data_def control_ok_def count_def)
  have "header_only ?b" using ctl by (simp add: control_ok_def)
  then show ?thesis
    using transmit_data [OF t] transmit_quiet [OF c1(3) t] c1 same_data_trans [of c c1 c'] by (auto simp: quiet_step_def)
next
  case False
  then show ?thesis using p quiet_step_refl [OF ctl] by (auto simp: tick_control_def)
qed

section \<open>The sending side\<close>

lemma conn_inv_transmit:
  assumes inv: "conn_inv ob m c log" and b: "carries (sm_iss m) (sm_out m) b" "length b \<le> ob_limit ob"
    and t: "transmit_bytes c log b r = (c', log', sent)"
  shows "conn_inv ob m c' log'"
proof -
  have cb: "observed ob (cn_callbacks c)" using inv by (simp add: conn_inv_def)
  have "delivered (ob_events ob log') = delivered (ob_events ob log)" "ob_good ob log'"
      "sent_ok (sm_iss m) (sm_out m) (ob_events ob log')"
    using observed.transmit_event [OF cb refl t] inv b by (auto simp: conn_inv_def)
  then show ?thesis
    using transmit_data [OF t] inv by (auto simp: conn_inv_def same_data_def)
qed

text \<open>Fields the invariant does not mention, or mentions only through the buffers of the queue.\<close>

lemma conn_inv_queue:
  assumes "conn_inv ob m c log" "rq_buffers q = rq_buffers (cn_retransmission c)"
  shows "conn_inv ob m (c\<lparr>cn_retransmission := q\<rparr>) log"
  using assms by (simp add: conn_inv_def control_ok_def)

lemma conn_inv_fields:
  assumes "conn_inv ob m c log"
  shows "conn_inv ob m (c\<lparr>cn_rto := x\<rparr>) log" "conn_inv ob m (c\<lparr>cn_fast_retransmit := y\<rparr>) log"
    "conn_inv ob m (c\<lparr>cn_peer_window := w\<rparr>) log" "conn_inv ob m (count f c) log"
    "conn_inv ob m (c\<lparr>cn_oldest_unacknowledged := q\<rparr>) log" "conn_inv ob m (c\<lparr>cn_receive_ranges := s\<rparr>) log"
    "cc_inv cc \<Longrightarrow> conn_inv ob m (c\<lparr>cn_congestion := cc\<rparr>) log"
  using assms by (simp_all add: conn_inv_def control_ok_def count_def)

lemma conn_inv_quietly:
  assumes "conn_inv ob m c log" "quiet ob log log'"
  shows "conn_inv ob m c log'"
  using assms quiet_delivered [OF assms(2)] quiet_sent [OF assms(2)] quiet_good [OF assms(2)]
  by (simp add: conn_inv_def)

lemma queue_carries:
  assumes "conn_inv ob m c log" "i < rq_size (cn_retransmission c)"
  shows "carries (sm_iss m) (sm_out m)
    (buffer_bytes (cn_tx_pool c) (ps_buffer (rq_segments (cn_retransmission c) i)))"
    "length (buffer_bytes (cn_tx_pool c) (ps_buffer (rq_segments (cn_retransmission c) i))) \<le> ob_limit ob"
proof -
  have "ps_buffer (rq_segments (cn_retransmission c) i) \<in> set (rq_buffers (cn_retransmission c))"
    using assms(2) by (auto simp: rq_buffers_def rq_live_def set_live)
  then show "carries (sm_iss m) (sm_out m)
    (buffer_bytes (cn_tx_pool c) (ps_buffer (rq_segments (cn_retransmission c) i)))"
    "length (buffer_bytes (cn_tx_pool c) (ps_buffer (rq_segments (cn_retransmission c) i))) \<le> ob_limit ob"
    using assms(1) by (simp_all add: conn_inv_def tx_ok_def)
qed

lemma rq_buffers_update:
  assumes "\<And>i. i < rq_size q \<Longrightarrow> ps_buffer (a i) = ps_buffer (rq_segments q i)"
  shows "rq_buffers (q\<lparr>rq_segments := a\<rparr>) = rq_buffers q"
  by (rule nth_equalityI) (use assms in \<open>auto simp: rq_buffers_def rq_live_def\<close>)

lemma mark_buffer [simp]: "ps_buffer (mark_retransmitted now s) = ps_buffer s"
  by (simp add: mark_retransmitted_def Let_def)

lemma apply_sacks_buffers: "rq_buffers (fst (apply_sacks q sacks)) = rq_buffers q"
proof -
  have "fst (apply_sacks q sacks) = q\<lparr>rq_segments :=
      \<lambda>i. sack_mark (i < rq_size q \<and> sacked_by sacks (rq_segments q i)) (rq_segments q i)\<rparr>"
    by (simp add: apply_sacks_def sack_blocks_loop)
  then show ?thesis by (simp add: rq_buffers_update sack_mark_def)
qed

lemma fr_on_ack_buffers:
  assumes "fr_on_ack f ack now q = (f', q', d)"
  shows "rq_buffers q' = rq_buffers q \<and> rq_size q' = rq_size q \<and> (\<forall>i. fd_segment d = Some i \<longrightarrow> i < rq_size q)"
proof -
  have upd: "rq_buffers (q\<lparr>rq_segments := (rq_segments q)(i := mark_retransmitted now (rq_segments q i))\<rparr>) = rq_buffers q"
    for i by (rule rq_buffers_update) simp
  show ?thesis
    using assms upd lowest_unsacked_SomeD [of q]
    by (auto simp: fr_on_ack_def no_decision_def Let_def split: if_splits option.splits)
qed

lemma on_loss_inv:
  assumes "cc_inv c"
  shows "cc_inv (fst (on_loss c s f r))"
proof (cases "cc_in_recovery c")
  case True
  then show ?thesis using assms by (simp add: on_loss_def)
next
  case False
  obtain c' res where "on_loss c s f r = (c', res)" by fastforce
  then show ?thesis using on_loss_applied [OF assms False] by simp
qed

lemma on_recovery_ack_inv: "cc_inv c \<Longrightarrow> cc_inv (fst (on_recovery_ack c a))"
  by (simp add: on_recovery_ack_def cc_inv_def)

lemma ack_progress_inv:
  assumes inv: "conn_inv ob m c log"
  shows "\<exists>c' log'. ack_progress c log h now = Some (c', log') \<and> conn_inv ob m c' log' \<and>
    cn_machine c' = cn_machine c"
proof -
  let ?q = "cn_retransmission c" and ?p = "cn_tx_pool c" and ?ack = "th_cumulative_ack h"
  have tx: "tx_ok (ob_limit ob) (sm_iss m) (sm_out m) ?p (rq_buffers ?q) (cn_next_send_sequence c)"
    and cc: "cc_inv (cn_congestion c)"
    using inv by (simp_all add: conn_inv_def)
  have "rq_owns ?q ?p" using tx by (simp add: tx_ok_def rq_owns_def)
  then obtain q p n where a: "rq_acknowledge ?q ?ack ?p = (q, p, \<lparr>ar_released = n, ar_pool_error = False\<rparr>)"
    "rq_live q = dropWhile (\<lambda>s. sequence_less_equal (ps_sequence_end s) ?ack) (rq_live ?q)"
    "rq_owns q p" "held p = held ?p -
      ps_buffer ` set (takeWhile (\<lambda>s. sequence_less_equal (ps_sequence_end s) ?ack) (rq_live ?q))"
    "\<forall>b \<in> held p. deref p b = deref ?p b"
    using rq_acknowledge_owned [of ?q ?p ?ack] by blast
  have split: "rq_buffers ?q =
      map ps_buffer (takeWhile (\<lambda>s. sequence_less_equal (ps_sequence_end s) ?ack) (rq_live ?q)) @ rq_buffers q"
    by (simp add: rq_buffers_def a(2) flip: map_append)
  have "distinct (rq_buffers ?q)" "held ?p = set (rq_buffers ?q)" using tx by (simp_all add: tx_ok_def)
  then have h: "held p = set (rq_buffers q)" unfolding a(4) split by auto
  have "tx_ok (ob_limit ob) (sm_iss m) (sm_out m) p (rq_buffers q) (cn_next_send_sequence c)"
    using tx a(3,5) h split by (auto simp: tx_ok_def rq_owns_def buffer_bytes_def)
  then have 1: "conn_inv ob m (c\<lparr>cn_retransmission := q, cn_tx_pool := p\<rparr>) log"
    using inv by (simp add: conn_inv_def control_ok_def)
  obtain cc' where cc': "cc_on_ack (cn_congestion c) (?ack - cn_oldest_unacknowledged c) = Some cc'" "cc_inv cc'"
    using cc_on_ack_inv [OF cc] by blast
  obtain sa sr where sm: "(case rq_at ?q 0 of
      Some first \<Rightarrow> if sequence_less_equal (ps_sequence_end first) ?ack
        then (ps_sent_at_ns first, ps_retransmit_count first \<noteq> 0) else (0, False)
    | None \<Rightarrow> (0, False)) = (sa, sr)" by fastforce
  show ?thesis
    unfolding ack_progress_def Let_def sm a(1) prod.case
    using cc' 1 on_recovery_ack_inv [OF cc'(2)]
    by (auto simp: count_def intro!: conn_inv_fields [unfolded count_def])
qed

lemma process_ack_inv:
  assumes inv: "conn_inv ob m c log"
  shows "\<exists>c' log'. process_ack c log h now = Some (c', log') \<and> conn_inv ob m c' log'"
proof -
  define c0 where "c0 = c\<lparr>cn_peer_window := th_window h\<rparr>"
  have inv0: "conn_inv ob m c0 log" unfolding c0_def by (rule conn_inv_fields(3) [OF inv])
  have cb: "observed ob (cn_callbacks c0)" using inv0 by (simp add: conn_inv_def)
  show ?thesis
  proof (cases "sequence_greater (th_cumulative_ack h) (cn_next_send_sequence c0)")
    case True
    have "conn_inv ob m (count f c0) (cn_notify_error (count f c0) log e)" for f e
      by (rule conn_inv_quietly [OF conn_inv_fields(4) [OF inv0]], rule quiet_notified) (use cb in simp)
    then show ?thesis
      using True by (simp add: process_ack_def c0_def [symmetric] Let_def)
  next
    case False
    have "\<exists>c1 log1. (if sequence_greater (th_cumulative_ack h) (cn_oldest_unacknowledged c0)
        then ack_progress c0 log h now else Some (c0, log)) = Some (c1, log1) \<and> conn_inv ob m c1 log1"
      using ack_progress_inv [OF inv0, of h now] inv0 by auto
    then obtain c1 log1 where 1: "(if sequence_greater (th_cumulative_ack h) (cn_oldest_unacknowledged c0)
        then ack_progress c0 log h now else Some (c0, log)) = Some (c1, log1)" "conn_inv ob m c1 log1" by blast
    define q2 where "q2 = fst (apply_sacks (cn_retransmission c1) (take (unat (th_sack_count h)) (th_sacks h)))"
    obtain f q3 d where fr: "fr_on_ack (cn_fast_retransmit c1) (th_cumulative_ack h) now q2 = (f, q3, d)"
      by (metis prod_cases3)
    note F = fr_on_ack_buffers [OF fr]
    define c3 where "c3 = c1\<lparr>cn_fast_retransmit := f, cn_retransmission := q3\<rparr>"
    have "rq_buffers q3 = rq_buffers (cn_retransmission c1)"
      using F by (simp add: q2_def apply_sacks_buffers)
    then have inv3: "conn_inv ob m c3 log1"
      unfolding c3_def using conn_inv_queue [OF conn_inv_fields(2) [OF 1(2)]] by simp
    have p: "process_ack c log h now = (case (fd_triggered d, fd_segment d) of
        (True, Some i) \<Rightarrow>
          (case transmit_bytes (count (\<lambda>s. s\<lparr>cst_fast_retransmissions := cst_fast_retransmissions s + 1\<rparr>)
              (c3\<lparr>cn_congestion := fst (on_loss (cn_congestion c3) sack_fast_recovery (flight_bytes c3)
                 (recovery_point_of c3))\<rparr>)) log1
              (buffer_bytes (cn_tx_pool c3) (ps_buffer (rq_segments q3 i))) tx_fast_retransmit of
            (c, ctx, sent) \<Rightarrow> Some (c, ctx))
      | _ \<Rightarrow> Some (c3, log1))"
      using False 1(1) fr
      by (cases "fd_triggered d"; cases "fd_segment d")
         (simp_all add: process_ack_def c0_def [symmetric] Let_def q2_def c3_def)
    show ?thesis
    proof (cases "fd_triggered d \<and> fd_segment d \<noteq> None")
      case True
      then obtain i where i: "fd_triggered d" "fd_segment d = Some i" by auto
      have "carries (sm_iss m) (sm_out m) (buffer_bytes (cn_tx_pool c3) (ps_buffer (rq_segments q3 i)))"
          "length (buffer_bytes (cn_tx_pool c3) (ps_buffer (rq_segments q3 i))) \<le> ob_limit ob"
        using queue_carries [OF inv3, of i] F i by (simp_all add: c3_def)
      moreover have "conn_inv ob m (count g (c3\<lparr>cn_congestion := fst (on_loss (cn_congestion c3) a b e)\<rparr>)) log1" for g a b e
        using inv3 on_loss_inv by (intro conn_inv_fields) (simp_all add: conn_inv_def)
      ultimately have "conn_inv ob m c' log'"
        if "transmit_bytes (count g (c3\<lparr>cn_congestion := fst (on_loss (cn_congestion c3) x y z)\<rparr>)) log1
          (buffer_bytes (cn_tx_pool c3) (ps_buffer (rq_segments q3 i))) r = (c', log', s)" for g x y z r c' log' s
        using conn_inv_transmit [OF _ _ _ that] by blast
      then show ?thesis using i unfolding p by (auto split: prod.split)
    next
      case False
      then have "process_ack c log h now = Some (c3, log1)" unfolding p by (auto split: bool.split option.split)
      then show ?thesis using inv3 by blast
    qed
  qed
qed

lemma tick_rto_inv:
  assumes inv: "conn_inv ob m c log" and t: "tick_rto c log now = (c', log')"
  shows "conn_inv ob m c' log'"
proof (cases "lowest_unsacked (cn_retransmission c)")
  case None
  then show ?thesis using t inv by (simp add: tick_rto_def)
next
  case (Some i)
  let ?s = "rq_segments (cn_retransmission c) i"
  show ?thesis
  proof (cases "now < ps_sent_at_ns ?s \<or> now - ps_sent_at_ns ?s < rto_current_rto_ns (cn_rto c)")
    case True
    then show ?thesis using t inv Some by (simp add: tick_rto_def)
  next
    case False
    define q where "q = (cn_retransmission c)\<lparr>rq_segments :=
      (rq_segments (cn_retransmission c))(i := mark_retransmitted now ?s)\<rparr>"
    define c1 where "c1 = count (\<lambda>s. s\<lparr>cst_rto_retransmissions := cst_rto_retransmissions s + 1\<rparr>)
      (c\<lparr>cn_congestion := fst (on_loss (cn_congestion c) rto_timeout_signal (flight_bytes c) (recovery_point_of c)),
         cn_retransmission := q, cn_rto := fst (on_timeout (cn_rto c))\<rparr>)"
    have "rq_buffers q = rq_buffers (cn_retransmission c)" unfolding q_def by (rule rq_buffers_update) simp
    moreover have "cc_inv (fst (on_loss (cn_congestion c) rto_timeout_signal (flight_bytes c) (recovery_point_of c)))"
      using inv on_loss_inv by (simp add: conn_inv_def)
    ultimately have "conn_inv ob m c1 log"
      unfolding c1_def by (intro conn_inv_fields conn_inv_queue inv) simp_all
    moreover obtain sent where "transmit_bytes c1 log (buffer_bytes (cn_tx_pool c1) (ps_buffer ?s)) tx_rto_retransmit
        = (c', log', sent)"
      using t Some False
      by (auto simp: tick_rto_def Let_def c1_def q_def count_def split: prod.splits)
    moreover have "carries (sm_iss m) (sm_out m) (buffer_bytes (cn_tx_pool c1) (ps_buffer ?s))"
        "length (buffer_bytes (cn_tx_pool c1) (ps_buffer ?s)) \<le> ob_limit ob"
      using queue_carries [OF inv, of i] lowest_unsacked_SomeD [OF Some] by (simp_all add: c1_def)
    ultimately show ?thesis by (blast intro: conn_inv_transmit)
  qed
qed

lemma tick_conn_inv:
  assumes inv: "conn_inv ob m c log" and t: "cn_tick c log now = (c', log')"
  shows "conn_inv ob m c' log'"
proof -
  obtain c1 l1 where 1: "tick_time_wait c log now = (c1, l1)" by fastforce
  obtain c2 l2 where 2: "tick_control c1 l1 now = (c2, l2)" by fastforce
  have i1: "conn_inv ob m c1 l1"
    by (rule conn_inv_quiet [OF tick_time_wait_quiet [OF conn_invD [OF inv] 1] inv])
  have i2: "conn_inv ob m c2 l2"
    by (rule conn_inv_quiet [OF tick_control_quiet [OF conn_invD [OF i1] 2] i1])
  show ?thesis using tick_rto_inv [OF i2] t 1 2 by (simp add: cn_tick_def)
qed

lemma enqueue_live:
  assumes "rq_enqueue q s = (q', enq_accepted)"
  shows "rq_buffers q' = rq_buffers q @ [ps_buffer s]"
  using assms by (auto simp: rq_enqueue_def rq_buffers_def rq_live_def live_push split: if_splits)

text \<open>Filling a freshly acquired transmit buffer, and giving it back.\<close>

lemma acquired_kept:
  assumes "pool_inv p" "acquire p = (p1, b)" "b \<noteq> 0"
  shows "pool_inv p1 \<and> b \<notin> held p \<and> held p1 = insert b (held p) \<and> (\<forall>x \<in> held p. deref (store p1 b y) x = deref p x)"
proof -
  have av: "0 < pool_available p" using packet_pool.acq_null_iff [OF assms(1)] assms(2,3) by auto
  note a = acquire_correct [OF assms(1,2) av]
  have "deref (store p1 b y) x = deref p x" if "x \<in> held p" for x
    using a that deref_store_other [of b p1 x y] deref_acquire_other [OF assms(1,2) that] by auto
  then show ?thesis using a by blast
qed

lemma stored_kept:
  assumes "pool_inv p" "acquire p = (p1, b)" "b \<noteq> 0" "length (pb_data y) = kPacketBufferBytes"
    "release (store p1 b y) b = (p2, r)"
  shows "pool_inv p2 \<and> held p2 = held p \<and> (\<forall>x \<in> held p. deref p2 x = deref p x)"
proof -
  note a = acquired_kept [OF assms(1-3)]
  have inv: "pool_inv (store p1 b y)" by (rule pool_inv_store) (use a assms(4) in auto)
  have b: "b \<in> held (store p1 b y)" using a by simp
  have r: "pool_inv p2" "held p2 = held p"
    using packet_pool.rel_held [OF inv b assms(5)] a by auto
  have "deref p2 x = deref p x" if "x \<in> held p" for x
    using deref_release_other [OF inv assms(5), of x] a that by auto
  then show ?thesis using r by blast
qed

lemma store_store [simp]: "store (store p b x) b y = store p b y"
  by (simp add: store_def)

lemma tx_ok_kept:
  assumes "tx_ok limit base S p bufs n" "pool_inv p'" "held p' = held p" "\<forall>x \<in> held p. deref p' x = deref p x"
  shows "tx_ok limit base S p' bufs n"
  using assms by (auto simp: tx_ok_def buffer_bytes_def)

lemma conn_inv_tx:
  assumes "conn_inv ob m c log" "tx_ok (ob_limit ob) (sm_iss m) (sm_out m) p (rq_buffers (cn_retransmission c)) (cn_next_send_sequence c)"
  shows "conn_inv ob m (c\<lparr>cn_tx_pool := p\<rparr>) log"
  using assms by (simp add: conn_inv_def control_ok_def)

text \<open>A segment accepted by \<open>send\<close> extends the outgoing stream by its payload.\<close>

lemma tx_ok_extend:
  assumes tx: "tx_ok limit base S p bufs n" and a: "acquire p = (p1, b)" "b \<noteq> 0"
    and h: "validate h = wire_ok" "header_padded h" "th_sequence h = n"
    and y: "take (unat (pb_length y)) (pb_data y) = encode_header h @ payload" "length (pb_data y) = kPacketBufferBytes"
    and limit: "44 + length payload \<le> limit"
  shows "tx_ok limit base (S @ payload) (store p1 b y) (bufs @ [b]) (n + of_nat (length payload))"
proof -
  have inv: "pool_inv p" "held p = set bufs" "n = base + of_nat (length S)" using tx by (simp_all add: tx_ok_def)
  note k = acquired_kept [OF inv(1) a, of y]
  have "pool_inv (store p1 b y)" by (rule pool_inv_store) (use k y in auto)
  moreover have "carries base (S @ payload) (buffer_bytes (store p1 b y) x) \<and>
      length (buffer_bytes (store p1 b y) x) \<le> limit" if "x \<in> set bufs" for x
    using that tx k inv(2) by (auto simp: tx_ok_def buffer_bytes_def intro: carries_append)
  moreover have "piece_at base (S @ payload) n payload"
    unfolding piece_at_def using inv(3) by (intro exI [of _ "length S"]) simp
  then have "carries base (S @ payload) (buffer_bytes (store p1 b y) b)"
    using encode_carries [OF h(1,2)] h(3) y(1) by (simp add: buffer_bytes_def)
  moreover have "length (buffer_bytes (store p1 b y) b) \<le> limit"
    using limit y(1) header_bytes_of_le [OF h(1)] by (simp add: buffer_bytes_def)
  ultimately show ?thesis
    using tx k inv by (auto simp: tx_ok_def add.assoc)
qed

end
