(* ===== verification/Connection_Run.thy ===== *)
theory Connection_Run
  imports Connection_Inv
begin

text \<open>
  The operations that move data keep the connection invariant: \<open>send\<close>, the receive path and
  \<open>on_segment\<close>; then runs of a connection and its properties.
\<close>

section \<open>Sending\<close>

lemma conn_inv_extend:
  assumes inv: "conn_inv ob m c log"
    and tx: "tx_ok (ob_limit ob) (sm_iss m) (sm_out m @ p) pool (rq_buffers q) nxt"
  shows "conn_inv ob (m\<lparr>sm_out := sm_out m @ p\<rparr>)
    (c\<lparr>cn_tx_pool := pool, cn_retransmission := q, cn_next_send_sequence := nxt\<rparr>) log"
  using inv tx by (auto simp: conn_inv_def control_ok_def intro: sent_ok_append)

lemma filled_buffer:
  assumes "length data = 2048" "data = encode_header h @ rest" "n = header_bytes_of h" "n + length p \<le> 2048"
  shows "take (unat (of_nat (n + length p) :: u16)) (memcpy_at data n p) = encode_header h @ p"
    "length (memcpy_at data n p) = 2048"
proof -
  have "unat (of_nat (n + length p) :: u16) = n + length p"
    using assms(4) by (simp del: of_nat_add add: unat_of_nat take_bit_nat_eq_self)
  moreover have "take n data = encode_header h" using assms(2,3) by simp
  ultimately show "take (unat (of_nat (n + length p) :: u16)) (memcpy_at data n p) = encode_header h @ p"
    using take_memcpy_at [of n data p] assms(1,4) by simp
  show "length (memcpy_at data n p) = 2048" using assms by simp
qed

text \<open>A buffer acquired for a segment that is not sent goes back to its pool.\<close>

lemma send_put_back:
  assumes inv: "conn_inv ob m c log" and a: "acquire (cn_tx_pool c) = (p1, b)" "b \<noteq> 0" and z: "length (pb_data z) = 2048"
  shows "conn_inv ob m (c\<lparr>cn_tx_pool := fst (release (store p1 b z) b)\<rparr>) log"
proof -
  have tx: "tx_ok (ob_limit ob) (sm_iss m) (sm_out m) (cn_tx_pool c) (rq_buffers (cn_retransmission c)) (cn_next_send_sequence c)"
    and pool: "pool_inv (cn_tx_pool c)"
    using inv by (simp_all add: conn_inv_def tx_ok_def)
  obtain p2 r where rel: "release (store p1 b z) b = (p2, r)" by fastforce
  show ?thesis
    using stored_kept [OF pool a _ rel] z tx_ok_kept [OF tx] conn_inv_tx [OF inv] rel
    by (simp add: kPacketBufferBytes_def)
qed

lemma send_no_buffer:
  assumes inv: "conn_inv ob m c log" and a: "acquire (cn_tx_pool c) = (p1, 0)"
  shows "conn_inv ob m (c\<lparr>cn_tx_pool := p1\<rparr>) log"
proof -
  have tx: "tx_ok (ob_limit ob) (sm_iss m) (sm_out m) (cn_tx_pool c) (rq_buffers (cn_retransmission c)) (cn_next_send_sequence c)"
    and pool: "pool_inv (cn_tx_pool c)"
    using inv by (simp_all add: conn_inv_def tx_ok_def)
  have "pool_available (cn_tx_pool c) = 0" using packet_pool.acq_null_iff [OF pool] a by simp
  then have "tx_ok (ob_limit ob) (sm_iss m) (sm_out m) p1 (rq_buffers (cn_retransmission c)) (cn_next_send_sequence c)"
    using packet_pool.acq_exhausted [OF pool a] deref_acquire_other [OF pool a] by (intro tx_ok_kept [OF tx]) auto
  then show ?thesis using conn_inv_tx [OF inv] by simp
qed

text \<open>An accepted segment: its buffer holds the encoded header and the payload, and the stream grows by the payload.\<close>

lemma send_commit:
  assumes inv: "conn_inv ob m c log" and a: "acquire (cn_tx_pool c) = (p1, b)" "b \<noteq> 0"
    and h: "h = make_header (c\<lparr>cn_tx_pool := p1\<rparr>) kFlagAck" "validate h = wire_ok"
    and y: "take (unat (pb_length y)) (pb_data y) = encode_header h @ payload" "length (pb_data y) = 2048"
    and len: "length payload \<le> unat (cf_maximum_segment_payload_bytes (cn_config c))"
    and enq: "rq_enqueue (cn_retransmission c) (default_PendingSegment\<lparr>ps_sequence_start := cn_next_send_sequence c,
      ps_sequence_end := cn_next_send_sequence c + of_nat (length payload), ps_buffer := b, ps_sent_at_ns := now\<rparr>)
      = (q, enq_accepted)"
    and c3: "c3 = count f (c\<lparr>cn_tx_pool := store p1 b y, cn_retransmission := q,
      cn_next_send_sequence := cn_next_send_sequence c + of_nat (length payload)\<rparr>)"
    and t: "transmit_bytes c3 log (buffer_bytes (cn_tx_pool c3) b) tx_new_data = (c', log', sent)"
  shows "conn_inv ob (m\<lparr>sm_out := sm_out m @ payload\<rparr>) c' log'"
proof -
  let ?m = "m\<lparr>sm_out := sm_out m @ payload\<rparr>"
  have tx: "tx_ok (ob_limit ob) (sm_iss m) (sm_out m) (cn_tx_pool c) (rq_buffers (cn_retransmission c)) (cn_next_send_sequence c)"
    and limit: "44 + length payload \<le> ob_limit ob"
    using inv len by (simp_all add: conn_inv_def)
  have bufs: "rq_buffers q = rq_buffers (cn_retransmission c) @ [b]" using enqueue_live enq by fastforce
  have "tx_ok (ob_limit ob) (sm_iss m) (sm_out m @ payload) (store p1 b y) (rq_buffers q)
      (cn_next_send_sequence c + of_nat (length payload))"
    unfolding bufs using y h(2)
    by (intro tx_ok_extend [OF tx a _ _ _ _ _ limit, where h = h]) (simp_all add: h(1) make_header_padded kPacketBufferBytes_def)
  then have tx3: "conn_inv ob ?m c3 log"
    unfolding c3 by (intro conn_inv_fields(4) conn_inv_extend [OF inv])
  have "b \<in> set (rq_buffers (cn_retransmission c3))" by (simp add: c3 bufs count_def)
  then have "carries (sm_iss ?m) (sm_out ?m) (buffer_bytes (cn_tx_pool c3) b)"
      "length (buffer_bytes (cn_tx_pool c3) b) \<le> ob_limit ob"
    using tx3 by (simp_all add: conn_inv_def tx_ok_def)
  then show ?thesis using conn_inv_transmit [OF tx3 _ _ t] by simp
qed

lemma send_inv:
  assumes inv: "conn_inv ob m c log" and s: "cn_send c log payload now = (c', log', st)"
  shows "conn_inv ob (if st = snd_accepted then m\<lparr>sm_out := sm_out m @ payload\<rparr> else m) c' log'"
proof -
  let ?blocked = "sm_state (cn_machine c) \<noteq> established \<or> payload = [] \<or>
    length payload > unat (cf_maximum_segment_payload_bytes (cn_config c)) \<or>
    rq_size (cn_retransmission c) \<ge> rq_capacity (cn_retransmission c) \<or>
    unat (send_allowance_bytes (cn_congestion c) (flight_bytes c) (cn_peer_window c)) < length payload"
  obtain p1 b where a: "acquire (cn_tx_pool c) = (p1, b)" by fastforce
  define h where "h = make_header (c\<lparr>cn_tx_pool := p1\<rparr>) kFlagAck"
  obtain ws data n where ser: "serialize_transport_header h (pb_data (deref p1 b)) = (ws, data, n)" by (metis prod_cases3)
  define y0 where "y0 = (deref p1 b)\<lparr>pb_data := data\<rparr>"
  define y where "y = \<lparr>pb_data = memcpy_at data n payload, pb_length = of_nat (n + length payload)\<rparr>"
  let ?seg = "default_PendingSegment\<lparr>ps_sequence_start := cn_next_send_sequence c,
    ps_sequence_end := cn_next_send_sequence c + of_nat (length payload), ps_buffer := b, ps_sent_at_ns := now\<rparr>"
  obtain q es where enq: "rq_enqueue (cn_retransmission c) ?seg = (q, es)" by fastforce
  let ?long = "ws \<noteq> wire_ok \<or> n + length payload > length data"
  have len: "length data = 2048" if "b \<noteq> 0"
    using serialize_length [OF ser] held_data_length acquired_kept [OF _ a that] inv
    by (auto simp: kPacketBufferBytes_def conn_inv_def tx_ok_def)
  consider (blocked) ?blocked | (none) "\<not> ?blocked" "b = 0" | (long) "\<not> ?blocked" "b \<noteq> 0" ?long
    | (queue) "\<not> ?blocked" "b \<noteq> 0" "\<not> ?long" "es \<noteq> enq_accepted" | (sent) "\<not> ?blocked" "b \<noteq> 0" "\<not> ?long" "es = enq_accepted"
    by blast
  then show ?thesis
  proof cases
    case blocked
    then have "c' = c \<and> log' = log \<and> st \<noteq> snd_accepted" using s unfolding cn_send_def by (auto split: if_splits)
    then show ?thesis using inv by simp
  next
    case none
    then have "c' = c\<lparr>cn_tx_pool := p1\<rparr> \<and> log' = log \<and> st = snd_would_block" using s a by (auto simp: cn_send_def Let_def)
    then show ?thesis using send_no_buffer [OF inv] a none(2) by simp
  next
    case long
    then have "c' = c\<lparr>cn_tx_pool := fst (release (store p1 b y0) b)\<rparr> \<and> log' = log \<and> st = snd_payload_too_large"
      using s a ser by (auto simp: cn_send_def Let_def h_def [symmetric] y0_def)
    then show ?thesis using send_put_back [OF inv a long(2), of y0] len [OF long(2)] by (simp add: y0_def)
  next
    case queue
    then have "c' = c\<lparr>cn_tx_pool := fst (release (store p1 b y) b)\<rparr> \<and> log' = log \<and> st = snd_would_block"
      using s a ser enq by (auto simp: cn_send_def Let_def h_def [symmetric] y_def)
    moreover have "length (memcpy_at data n payload) = 2048" using queue(3) len [OF queue(2)] by simp
    ultimately show ?thesis using send_put_back [OF inv a queue(2), of y] by (simp add: y_def)
  next
    case sent
    have d: "data = encode_header h @ drop n (pb_data (deref p1 b))" "n = header_bytes_of h" "validate h = wire_ok"
      using serialize_okD [of h "pb_data (deref p1 b)" data n] ser sent(3) by auto
    have fit: "n + length payload \<le> 2048" using sent(3) len [OF sent(2)] by simp
    note fb = filled_buffer [OF len [OF sent(2)] d(1,2) fit]
    define c3 where "c3 = count (\<lambda>s. s\<lparr>cst_payload_bytes_sent := cst_payload_bytes_sent s + of_nat (length payload)\<rparr>)
      (c\<lparr>cn_tx_pool := store p1 b y, cn_retransmission := q,
         cn_next_send_sequence := cn_next_send_sequence c + of_nat (length payload)\<rparr>)"
    obtain ok' where t: "transmit_bytes c3 log (buffer_bytes (cn_tx_pool c3) b) tx_new_data = (c', log', ok')"
      and st: "st = snd_accepted"
      using s sent a ser enq by (auto simp: cn_send_def Let_def h_def [symmetric] y_def c3_def split: prod.splits)
    show ?thesis
      using send_commit [OF inv a sent(2) h_def d(3) _ _ _ _ c3_def t] fb enq sent(1,4) st by (simp add: y_def)
  qed
qed

section \<open>Delivering\<close>

lemma rx_ok_release:
  assumes rx: "rx_ok base R cap p slots" and i: "i < cap" "rsl_active (slots i)"
    and rel: "release p (rsl_buffer (slots i)) = (p', r)"
  shows "rx_ok base R cap p' (slots(i := (slots i)\<lparr>rsl_active := False\<rparr>)) \<and> r"
proof -
  let ?slots = "slots(i := (slots i)\<lparr>rsl_active := False\<rparr>)" and ?b = "rsl_buffer (slots i)"
  have inv: "pool_inv p" and inj: "inj_on (\<lambda>i. rsl_buffer (slots i)) (active_set cap slots)"
    and h: "held p = (\<lambda>i. rsl_buffer (slots i)) ` active_set cap slots"
    using rx by (simp_all add: rx_ok_def)
  have i': "i \<in> active_set cap slots" using i by (simp add: active_set_def)
  have b: "?b \<in> held p" using h i' by blast
  note rel' = release_correct [OF inv b rel]
  have act: "active_set cap ?slots = active_set cap slots - {i}" by (auto simp: active_set_def)
  have other: "rsl_buffer (slots j) \<noteq> ?b" if "j \<in> active_set cap slots - {i}" for j
    using inj_onD [OF inj, of j i] that i' by auto
  have "inj_on (\<lambda>j. rsl_buffer (?slots j)) (active_set cap ?slots)"
    unfolding act using inj by (auto simp: inj_on_def)
  moreover have "held p' = (\<lambda>j. rsl_buffer (?slots j)) ` active_set cap ?slots"
    unfolding act using rel' h other by (auto simp: image_iff)
  moreover have "slot_ok base R p' (?slots j)" if "j \<in> active_set cap ?slots" for j
  proof -
    have j: "j \<in> active_set cap slots" "j \<noteq> i" using that act by auto
    have "rsl_buffer (slots j) \<in> held p" using h j(1) by blast
    then have "deref p' (rsl_buffer (slots j)) = deref p (rsl_buffer (slots j))"
      using deref_release_other [OF inv rel] other [of j] j by blast
    moreover have "slot_ok base R p (slots j)" using rx j(1) by (simp add: rx_ok_def)
    ultimately show ?thesis using j(2) by (simp add: slot_ok_def buffer_bytes_def)
  qed
  moreover have "\<forall>j \<ge> cap. \<not> rsl_active (?slots j)" using rx by (simp add: rx_ok_def)
  ultimately show ?thesis using rel' unfolding rx_ok_def by blast
qed

lemma rx_ok_fill:
  assumes rx: "rx_ok base R cap p slots" and a: "acquire p = (p1, b)" "b \<noteq> 0"
    and i: "i < cap" "\<not> rsl_active (slots i)"
    and y: "take (unat (pb_length y)) (pb_data y) = pl" "length (pb_data y) = kPacketBufferBytes"
    and pl: "pl \<noteq> []" "in_piece base R q pl"
  shows "rx_ok base R cap (store p1 b y)
    (slots(i := \<lparr>rsl_start = q, rsl_end = q + of_nat (length pl), rsl_buffer = b, rsl_active = True\<rparr>))"
    (is "rx_ok base R cap ?p ?slots")
proof -
  have inv: "pool_inv p" and inj: "inj_on (\<lambda>i. rsl_buffer (slots i)) (active_set cap slots)"
    and h: "held p = (\<lambda>i. rsl_buffer (slots i)) ` active_set cap slots"
    using rx by (simp_all add: rx_ok_def)
  note k = acquired_kept [OF inv a, of y]
  have act: "active_set cap ?slots = insert i (active_set cap slots)" "i \<notin> active_set cap slots"
    using i by (auto simp: active_set_def)
  have bufs: "rsl_buffer (?slots j) = rsl_buffer (slots j)" if "j \<in> active_set cap slots" for j
    using that act(2) by auto
  have "pool_inv ?p" by (rule pool_inv_store) (use k y in auto)
  moreover have "inj_on (\<lambda>j. rsl_buffer (?slots j)) (active_set cap ?slots)"
    unfolding act(1) inj_on_insert
    using inj k h act(2) by (auto simp: inj_on_def split: if_splits)
  moreover have "held ?p = (\<lambda>j. rsl_buffer (?slots j)) ` active_set cap ?slots"
    unfolding act(1) using k h bufs by (auto simp: image_iff)
  moreover have "slot_ok base R ?p (?slots j)" if "j \<in> active_set cap ?slots" for j
  proof (cases "j = i")
    case True
    then show ?thesis using y pl by (simp add: slot_ok_def buffer_bytes_def)
  next
    case False
    then have j: "j \<in> active_set cap slots" using that act(1) by simp
    then have "deref ?p (rsl_buffer (slots j)) = deref p (rsl_buffer (slots j))" using k h by blast
    moreover have "slot_ok base R p (slots j)" using rx j by (simp add: rx_ok_def)
    ultimately show ?thesis using False by (simp add: slot_ok_def buffer_bytes_def)
  qed
  moreover have "\<forall>j \<ge> cap. \<not> rsl_active (?slots j)" using rx i(1) by (simp add: rx_ok_def)
  ultimately show ?thesis unfolding rx_ok_def by blast
qed

lemma deliver_slot_inv:
  assumes inv: "conn_inv ob m c log" and R: "in_bounded (sm_in m)"
    and i: "next_deliverable c = Some i" and d: "deliver_slot c log i = (c', log')"
  shows "conn_inv ob m c' log'"
proof -
  let ?s = "cn_receive_slots c i" and ?cap = "cf_receive_capacity (cn_config c)"
  let ?p = "buffer_bytes (cn_rx_pool c) (rsl_buffer ?s)"
  have rx: "rx_ok (sm_irs m) (sm_in m) ?cap (cn_rx_pool c) (cn_receive_slots c)"
    and pre: "prefix_ok (sm_irs m) (sm_in m) (cn_delivery_sequence c) (delivered (ob_events ob log))"
    and cb: "observed ob (cn_callbacks c)"
    using inv by (simp_all add: conn_inv_def)
  have i': "i < ?cap" "rsl_active ?s" "rsl_start ?s = cn_delivery_sequence c"
    using next_deliverable_Some [OF i] by auto
  have so: "slot_ok (sm_irs m) (sm_in m) (cn_rx_pool c) ?s"
    using rx i' by (simp add: rx_ok_def active_set_def)
  obtain p' r where rel: "release (cn_rx_pool c) (rsl_buffer ?s) = (p', r)" by fastforce
  note rx' = rx_ok_release [OF rx i'(1,2) rel]
  have c': "c' = (count (\<lambda>s. s\<lparr>cst_payload_bytes_received := cst_payload_bytes_received s +
        ucast (pb_length (deref (cn_rx_pool c) (rsl_buffer ?s)))\<rparr>) c)
      \<lparr>cn_delivery_sequence := rsl_end ?s, cn_rx_pool := p',
       cn_receive_slots := (cn_receive_slots c)(i := ?s\<lparr>rsl_active := False\<rparr>)\<rparr>"
    and log': "ob_events ob log' = ob_events ob log @ [Rx ?p]" "ob_good ob log'"
    using d rel rx' inv observed.receives [OF cb] by (auto simp: deliver_slot_def Let_def conn_inv_def)
  have "prefix_ok (sm_irs m) (sm_in m) (rsl_end ?s) (delivered (ob_events ob log) @ ?p)"
    using in_piece_next [OF pre _ R, of ?p] so i'(3) by (simp add: slot_ok_def Let_def)
  then show ?thesis
    using inv rx' log' unfolding c' by (simp add: conn_inv_def control_ok_def count_def)
qed

lemma deliver_contiguous_inv:
  "conn_inv ob m c log \<Longrightarrow> in_bounded (sm_in m) \<Longrightarrow> deliver_contiguous c log = (c', log') \<Longrightarrow>
   conn_inv ob m c' log'"
proof (induction c log rule: deliver_contiguous.induct)
  case (1 c log)
  show ?case
  proof (cases "next_deliverable c")
    case None
    then show ?thesis using "1.prems" by (simp add: deliver_contiguous.simps [of c])
  next
    case (Some i)
    obtain c1 l1 where d: "deliver_slot c log i = (c1, l1)" by fastforce
    show ?thesis
      using "1.IH" [OF Some d [symmetric]] deliver_slot_inv [OF "1.prems"(1,2) Some d] "1.prems"(2,3) Some d
      by (simp add: deliver_contiguous.simps [of c])
  qed
qed

section \<open>Receiving\<close>

lemma conn_inv_rx:
  assumes "conn_inv ob m c log"
    "rx_ok (sm_irs m) (sm_in m) (cf_receive_capacity (cn_config c)) p (cn_receive_slots c)"
  shows "conn_inv ob m (c\<lparr>cn_rx_pool := p\<rparr>) log"
  using assms by (simp add: conn_inv_def control_ok_def)

lemma rx_ok_kept:
  assumes "rx_ok base R cap p slots" "pool_inv p'" "held p' = held p" "\<forall>x \<in> held p. deref p' x = deref p x"
  shows "rx_ok base R cap p' slots"
  using assms by (auto simp: rx_ok_def slot_ok_def buffer_bytes_def)

lemma rx_ok_put_back:
  assumes rx: "rx_ok base R cap p slots" and a: "acquire p = (p1, b)" "b \<noteq> 0"
  shows "rx_ok base R cap (fst (release p1 b)) slots"
proof -
  obtain p2 r where rel: "release p1 b = (p2, r)" by fastforce
  have inv: "pool_inv p" using rx by (simp add: rx_ok_def)
  have k: "pool_inv p1" "b \<in> held p1" using acquired_kept [OF inv a] by auto
  have same: "store p1 b (deref p1 b) = p1" by (simp add: store_def deref_def)
  show ?thesis
    using rx_ok_kept [OF rx] stored_kept [OF inv a, of "deref p1 b" p2 r] rel same held_data_length [OF k] by simp
qed

lemma rx_ok_exhausted:
  assumes rx: "rx_ok base R cap p slots" and a: "acquire p = (p1, 0)"
  shows "rx_ok base R cap p1 slots"
proof -
  have inv: "pool_inv p" using rx by (simp add: rx_ok_def)
  have "pool_available p = 0" using packet_pool.acq_null_iff [OF inv] a by simp
  then show ?thesis
    using packet_pool.acq_exhausted [OF inv a] deref_acquire_other [OF inv a] by (intro rx_ok_kept [OF rx]) auto
qed

definition acknowledge_now :: "'s Impl \<Rightarrow> 's \<Rightarrow> u64 \<Rightarrow> 's Impl \<times> 's" where
  "acknowledge_now c ctx now_ns = (case send_control c ctx kFlagAck now_ns False of (c, ctx, sent) \<Rightarrow> (c, ctx))"

lemma acknowledge_now_inv:
  assumes "conn_inv ob m c log" "acknowledge_now c log now = (c', log')"
  shows "conn_inv ob m c' log'"
  using assms send_control_quiet [OF conn_invD [OF assms(1)]] conn_inv_quiet [OF _ assms(1)]
  by (fastforce simp: acknowledge_now_def split: prod.splits)

lemma conn_inv_error:
  assumes "conn_inv ob m c log"
  shows "conn_inv ob m c (cn_notify_error c log e)"
  using conn_inv_quiet [OF quiet_notify(1) [OF conn_invD [OF assms]] assms] .

lemma payload_no_slot:
  assumes inv: "conn_inv ob m c log" and a: "acquire (cn_rx_pool c) = (p1, b)"
  defines "p2 \<equiv> if b \<noteq> 0 then fst (release p1 b) else p1"
  shows "conn_inv ob m (count f (c\<lparr>cn_rx_pool := p2\<rparr>)) log"
proof -
  have rx: "rx_ok (sm_irs m) (sm_in m) (cf_receive_capacity (cn_config c)) (cn_rx_pool c) (cn_receive_slots c)"
    using inv by (simp add: conn_inv_def)
  have "rx_ok (sm_irs m) (sm_in m) (cf_receive_capacity (cn_config c)) p2 (cn_receive_slots c)"
    using rx_ok_put_back [OF rx a] rx_ok_exhausted [OF rx] a by (auto simp: p2_def)
  then show ?thesis by (intro conn_inv_fields(4) conn_inv_rx [OF inv])
qed

text \<open>The copied payload fills a free slot: the buffer read back is the payload, so the slot holds a
  piece of the peer's stream.\<close>

lemma payload_stored:
  assumes inv: "conn_inv ob m c log" and pl: "in_piece (sm_irs m) (sm_in m) (th_sequence h) payload"
    and a: "acquire (cn_rx_pool c) = (p1, b)" "b \<noteq> 0"
    and slot: "free_receive_slot c = Some i" and len: "payload \<noteq> []" "length payload \<le> kPacketBufferBytes"
  shows "conn_inv ob m (c\<lparr>cn_receive_ranges := rr, cn_rx_pool := store p1 b
        \<lparr>pb_data = memcpy_at (pb_data (deref p1 b)) 0 payload, pb_length = of_nat (length payload)\<rparr>,
      cn_receive_slots := (cn_receive_slots c)(i := \<lparr>rsl_start = th_sequence h,
        rsl_end = th_sequence h + of_nat (length payload), rsl_buffer = b, rsl_active = True\<rparr>)\<rparr>) log"
proof -
  define y where "y = \<lparr>pb_data = memcpy_at (pb_data (deref p1 b)) 0 payload, pb_length = of_nat (length payload)\<rparr>"
  have rx: "rx_ok (sm_irs m) (sm_in m) (cf_receive_capacity (cn_config c)) (cn_rx_pool c) (cn_receive_slots c)"
    using inv by (simp add: conn_inv_def)
  then have "pool_inv (cn_rx_pool c)" by (simp add: rx_ok_def)
  then have "length (pb_data (deref p1 b)) = 2048"
    using held_data_length acquired_kept [OF _ a] by (auto simp: kPacketBufferBytes_def)
  then have y: "take (unat (pb_length y)) (pb_data y) = payload" "length (pb_data y) = kPacketBufferBytes"
    using len(2) take_memcpy_at [of 0 "pb_data (deref p1 b)" payload]
    by (simp_all add: y_def kPacketBufferBytes_def unat_of_nat take_bit_nat_eq_self)
  have i: "i < cf_receive_capacity (cn_config c)" "\<not> rsl_active (cn_receive_slots c i)"
    using slot by (auto simp: free_receive_slot_def find_Some_iff)
  show ?thesis
    using inv rx_ok_fill [OF rx a i y len(1) pl] unfolding y_def
    by (simp add: conn_inv_def control_ok_def)
qed

lemma process_payload_inv:
  assumes inv: "conn_inv ob m c log" and R: "in_bounded (sm_in m)"
    and pl: "in_piece (sm_irs m) (sm_in m) (th_sequence h) payload"
    and p: "process_payload c log h payload now = (c', log')"
  shows "conn_inv ob m c' log'"
proof -
  let ?stop = "th_sequence h + of_nat (length payload)"
  let ?dup = "sequence_less_equal ?stop (cn_delivery_sequence c) \<or> overlaps_received c (th_sequence h) ?stop"
  let ?drop = "count (\<lambda>s. s\<lparr>cst_receive_drops := cst_receive_drops s + 1\<rparr>)"
  let ?dupl = "count (\<lambda>s. s\<lparr>cst_duplicate_segments := cst_duplicate_segments s + 1\<rparr>)"
  have rx: "rx_ok (sm_irs m) (sm_in m) (cf_receive_capacity (cn_config c)) (cn_rx_pool c) (cn_receive_slots c)"
    using inv by (simp add: conn_inv_def)
  obtain p1 b where a: "acquire (cn_rx_pool c) = (p1, b)" by fastforce
  obtain rr res where ins: "rr_insert (cn_receive_ranges c) (th_sequence h) ?stop = (rr, res)" by fastforce
  consider (empty) "payload = []" | (dup) "payload \<noteq> []" ?dup
    | (large) "payload \<noteq> []" "\<not> ?dup" "length payload > kPacketBufferBytes"
    | (full) "payload \<noteq> []" "\<not> ?dup" "\<not> length payload > kPacketBufferBytes"
        "free_receive_slot c = None \<or> b = 0"
    | (refused) i where "payload \<noteq> []" "\<not> ?dup" "\<not> length payload > kPacketBufferBytes"
        "free_receive_slot c = Some i" "b \<noteq> 0" "rres_status res \<noteq> range_accepted"
    | (stored) i where "payload \<noteq> []" "\<not> ?dup" "\<not> length payload > kPacketBufferBytes"
        "free_receive_slot c = Some i" "b \<noteq> 0" "rres_status res = range_accepted"
    by fastforce
  then show ?thesis
  proof cases
    case empty
    then show ?thesis using p inv by (simp add: process_payload_def)
  next
    case dup
    then have "acknowledge_now (?dupl c) log now = (c', log')"
      using p by (simp add: process_payload_def Let_def acknowledge_now_def)
    then show ?thesis by (rule acknowledge_now_inv [OF conn_inv_fields(4) [OF inv]])
  next
    case large
    then have "c' = ?drop c" "log' = cn_notify_error (?drop c) log receive_capacity_exhausted"
      using p by (auto simp: process_payload_def Let_def)
    then show ?thesis using conn_inv_error [OF conn_inv_fields(4) [OF inv]] by simp
  next
    case full
    let ?c = "?drop (c\<lparr>cn_rx_pool := if b \<noteq> 0 then fst (release p1 b) else p1\<rparr>)"
    have "acknowledge_now ?c (cn_notify_error ?c log receive_capacity_exhausted) now = (c', log')"
      using p full a by (cases "b = 0") (auto simp: process_payload_def Let_def acknowledge_now_def)
    then show ?thesis by (rule acknowledge_now_inv [OF conn_inv_error [OF payload_no_slot [OF inv a]]])
  next
    case refused
    define c1 where "c1 = c\<lparr>cn_receive_ranges := rr, cn_rx_pool := fst (release p1 b)\<rparr>"
    have "conn_inv ob m c1 log"
      unfolding c1_def
      by (rule conn_inv_rx [OF conn_inv_fields(6) [OF inv]]) (use rx_ok_put_back [OF rx a refused(5)] in simp)
    from conn_inv_fields(4) [OF this]
    have "conn_inv ob m ((if rres_status res = range_duplicate then ?dupl else ?drop) c1) log" by simp
    then show ?thesis
      by (rule acknowledge_now_inv)
         (use p refused a ins in \<open>simp add: process_payload_def Let_def acknowledge_now_def c1_def split: if_splits\<close>)
  next
    case stored
    define c1 where "c1 = c\<lparr>cn_receive_ranges := rr, cn_rx_pool := store p1 b
        \<lparr>pb_data = memcpy_at (pb_data (deref p1 b)) 0 payload, pb_length = of_nat (length payload)\<rparr>,
      cn_receive_slots := (cn_receive_slots c)(i := \<lparr>rsl_start = th_sequence h,
        rsl_end = ?stop, rsl_buffer = b, rsl_active = True\<rparr>)\<rparr>"
    have "conn_inv ob m c1 log"
      unfolding c1_def using payload_stored [OF inv pl a stored(5,4,1)] stored(3) by simp
    moreover obtain c2 l2 where d: "deliver_contiguous c1 log = (c2, l2)" by fastforce
    moreover have "acknowledge_now c2 l2 now = (c', log')"
      using p stored a ins d
      by (simp add: process_payload_def Let_def acknowledge_now_def c1_def)
    ultimately show ?thesis by (rule acknowledge_now_inv [OF deliver_contiguous_inv [OF _ R]])
  qed
qed

lemma on_segment_inv:
  assumes inv: "conn_inv ob m c log" and R: "in_bounded (sm_in m)"
    and seg: "in_carries (sm_irs m) (sm_in m) segment"
  shows "\<exists>c' log' r. cn_on_segment c log segment now = Some (c', log', r) \<and> conn_inv ob m c' log'"
proof -
  obtain st h n where ps: "parse_transport_header segment default_TransportHeader = (st, h, n)" by (metis prod_cases3)
  show ?thesis
  proof (cases "st \<noteq> wire_ok \<or> n > length segment")
    case True
    then show ?thesis
      using ps conn_inv_error [OF conn_inv_fields(4) [OF inv]] by (auto simp: cn_on_segment_def Let_def)
  next
    case False
    have pl: "drop n segment = [] \<or> in_piece (sm_irs m) (sm_in m) (th_sequence h) (drop n segment)"
      using seg ps False by (auto simp: in_carries_def in_piece_def carries_def split: option.splits)
    obtain c1 l1 where 1: "(if th_flags h AND kFlagAck \<noteq> 0 then process_ack c log h now else Some (c, log)) = Some (c1, l1)"
      "conn_inv ob m c1 l1"
      using process_ack_inv [OF inv, of h now] inv by (cases "th_flags h AND kFlagAck \<noteq> 0") auto
    obtain c2 l2 b where 2: "process_control c1 l1 h now = (c2, l2, b)" by (metis prod_cases3)
    have i2: "conn_inv ob m c2 l2"
      by (rule conn_inv_quiet [OF process_control_quiet [OF conn_invD [OF 1(2)] 2] 1(2)])
    obtain c3 l3 where 3: "process_payload c2 l2 h (drop n segment) now = (c3, l3)" by fastforce
    have s: "cn_on_segment c log segment now =
       (if \<not> b then Some (c2, l2, False)
        else if drop n segment \<noteq> []
        then (if sm_state (cn_machine c2) \<noteq> established then Some (c2, cn_notify_error c2 l2 invalid_transition, False)
              else Some (c3, l3, True))
        else Some (c2, l2, True))"
      using ps False 1(1) 2 3 by (auto simp: cn_on_segment_def Let_def)
    have "drop n segment \<noteq> [] \<Longrightarrow> conn_inv ob m c3 l3" using process_payload_inv [OF i2 R _ 3] pl by simp
    then show ?thesis unfolding s using i2 conn_inv_error [OF i2] by auto
  qed
qed

end
