(* ===== verification/Connection_Capacity.thy ===== *)
theory Connection_Capacity
  imports Connection_Inv
begin

text \<open>No operation of a connection changes the capacities of its two pools.\<close>

definition capacities :: "'s Impl \<Rightarrow> nat \<times> nat" where
  "capacities c = (pool_capacity (cn_tx_pool c), pool_capacity (cn_rx_pool c))"

lemma pool_op_capacity:
  "acquire p = (p', b) \<Longrightarrow> pool_capacity p' = pool_capacity p"
  "release p b' = (p', r) \<Longrightarrow> pool_capacity p' = pool_capacity p"
  using acquire_capacity [of p] release_capacity [of p b'] by simp_all

lemma release_while_capacity:
  "release_while P s n p k = (p', r, e) \<Longrightarrow> pool_capacity p' = pool_capacity p"
proof (induction P s n p k rule: release_while.induct)
  case (1 P s n p k)
  obtain p1 ok where r: "release p (ps_buffer (s k)) = (p1, ok)" by fastforce
  show ?case
    using "1.prems" "1.IH" [OF _ r [symmetric]] r pool_op_capacity(2) [OF r]
    by (subst (asm) release_while.simps) (auto split: if_splits)
qed

lemma transmit_capacities [simp]: "capacities (fst (transmit_bytes c ctx b r)) = capacities c"
  by (simp add: transmit_bytes_def capacities_def Let_def split: option.split prod.split)

lemma send_control_capacities [simp]: "capacities (fst (send_control c ctx f now rem)) = capacities c"
  by (auto simp: send_control_def Let_def split: prod.split) (auto simp: capacities_def)

lemma capacitiesD:
  "transmit_bytes c ctx b r = (d, x) \<Longrightarrow> capacities d = capacities c"
  "send_control c ctx f now rem = (d, x) \<Longrightarrow> capacities d = capacities c"
  using transmit_capacities [of c ctx b r] send_control_capacities [of c ctx f now rem] by simp_all

lemma perform_actions_capacities [simp]: "capacities (fst (perform_actions c ctx tr now)) = capacities c"
proof -
  have *: "capacities (c\<lparr>cn_time_wait_deadline_ns := t\<rparr>) = capacities c" "capacities (clear_control c) = capacities c"
    for t and c :: "'a Impl" by (simp_all add: capacities_def clear_control_def)
  show ?thesis
    unfolding perform_actions_def Let_def
    by (auto simp: * dest!: capacitiesD(2) split: prod.split)
qed

lemma react_capacities [simp]: "capacities (fst (react c ctx e now)) = capacities c"
  by (simp add: react_def handle_event_def split: prod.split) (simp add: capacities_def)

lemma process_control_capacities [simp]: "capacities (fst (process_control c ctx h now)) = capacities c"
  by (simp add: process_control_def Let_def)

lemma connect_capacities [simp]:
  "capacities (fst (cn_connect c ctx now)) = capacities c" "capacities (fst (cn_close c ctx now)) = capacities c"
  by (simp_all add: cn_connect_def cn_close_def handle_event_def split: prod.split) (simp_all add: capacities_def)

lemma send_capacities [simp]: "capacities (fst (cn_send c ctx p now)) = capacities c"
proof -
  show ?thesis
    unfolding cn_send_def Let_def
    by (auto split: prod.splits dest!: capacitiesD(1) dest: pool_op_capacity) (auto simp: capacities_def dest: pool_op_capacity)
qed

lemma ack_progress_capacities:
  assumes "ack_progress c ctx h now = Some (d, x)"
  shows "capacities d = capacities c"
proof -
  obtain q p r where a: "rq_acknowledge (cn_retransmission c) (th_cumulative_ack h) (cn_tx_pool c) = (q, p, r)"
    by (metis prod_cases3)
  then have "pool_capacity p = pool_capacity (cn_tx_pool c)"
    using release_while_capacity by (fastforce simp: rq_acknowledge_def Let_def split: prod.splits if_splits)
  then show ?thesis
    using assms a unfolding ack_progress_def Let_def
    by (auto simp: capacities_def count_def split: option.splits prod.splits if_splits)
qed

lemma process_ack_capacities:
  assumes "process_ack c ctx h now = Some (d, x)"
  shows "capacities d = capacities c"
proof -
  let ?c = "c\<lparr>cn_peer_window := th_window h\<rparr>"
  have c: "capacities ?c = capacities c" by (simp add: capacities_def)
  show ?thesis
  proof (cases "sequence_greater (th_cumulative_ack h) (cn_next_send_sequence ?c)")
    case True
    then show ?thesis using assms by (auto simp: process_ack_def Let_def capacities_def)
  next
    case False
    obtain c1 l1 where 1: "(if sequence_greater (th_cumulative_ack h) (cn_oldest_unacknowledged ?c)
        then ack_progress ?c ctx h now else Some (?c, ctx)) = Some (c1, l1)"
      using assms False unfolding process_ack_def Let_def by (auto split: option.splits if_splits)
    have "capacities c1 = capacities c"
      using 1 ack_progress_capacities [of ?c ctx h now c1 l1] c by (auto split: if_splits)
    then show ?thesis
      using assms False 1 unfolding process_ack_def Let_def
      by (auto split: prod.splits bool.splits option.splits dest!: capacitiesD(1)) (auto simp: capacities_def)
  qed
qed

lemma deliver_slot_capacities: "capacities (fst (deliver_slot c ctx i)) = capacities c"
  by (auto simp: deliver_slot_def Let_def capacities_def dest: pool_op_capacity split: prod.split)

lemma deliver_contiguous_capacities: "capacities (fst (deliver_contiguous c ctx)) = capacities c"
proof (induction c ctx rule: deliver_contiguous.induct)
  case (1 c ctx)
  show ?case
  proof (cases "next_deliverable c")
    case (Some i)
    obtain d x where d: "deliver_slot c ctx i = (d, x)" by fastforce
    show ?thesis using "1.IH" [OF Some d [symmetric]] Some d deliver_slot_capacities [of c ctx i]
      by (simp add: deliver_contiguous.simps [of c])
  qed (simp add: deliver_contiguous.simps [of c])
qed

lemma process_payload_capacities [simp]: "capacities (fst (process_payload c ctx h p now)) = capacities c"
proof -
  have del: "capacities d = capacities d'" if "deliver_contiguous d' l = (d, x)" for d d' :: "'a Impl" and l x
    using that deliver_contiguous_capacities [of d' l] by simp
  show ?thesis
    unfolding process_payload_def Let_def
    by (auto split: prod.splits dest!: capacitiesD(2) del dest: pool_op_capacity)
       (auto simp: capacities_def dest: pool_op_capacity)
qed

lemma on_segment_capacities:
  assumes "cn_on_segment c ctx s now = Some (d, x)"
  shows "capacities d = capacities c"
proof -
  have pc: "capacities d = capacities d'" if "process_control d' l h now = (d, x)" for d d' :: "'a Impl" and l h x
    using that process_control_capacities [of d' l h now] by simp
  have pp: "capacities d = capacities d'" if "process_payload d' l h p now = (d, x)" for d d' :: "'a Impl" and l h p x
    using that process_payload_capacities [of d' l h p now] by simp
  show ?thesis
    using assms unfolding cn_on_segment_def Let_def
    by (auto split: prod.splits if_splits option.splits dest!: pc pp process_ack_capacities)
       (auto simp: capacities_def)
qed

lemma tick_capacities [simp]: "capacities (fst (cn_tick c ctx now)) = capacities c"
proof -
  have react: "capacities d = capacities d'" if "react d' l e now = (d, x)" for d d' :: "'a Impl" and l e x
    using that react_capacities [of d' l e now] by simp
  have 1: "capacities d = capacities d'" if "tick_time_wait d' l now = (d, x)" for d d' :: "'a Impl" and l x
    using that by (auto simp: tick_time_wait_def split: prod.splits if_splits dest!: react)
  have 2: "capacities d = capacities d'" if "tick_control d' l now = (d, x)" for d d' :: "'a Impl" and l x
    using that by (auto simp: tick_control_def Let_def split: prod.splits if_splits dest!: capacitiesD(1)) (auto simp: capacities_def)
  have 3: "capacities (fst (tick_rto d l now)) = capacities d" for d :: "'a Impl" and l
    by (auto simp: tick_rto_def Let_def split: option.splits prod.splits dest!: capacitiesD(1))
       (auto simp: capacities_def)
  show ?thesis unfolding cn_tick_def by (auto simp: 3 split: prod.split dest!: 1 2)
qed

lemma destroy_capacities [simp]: "capacities (cn_destroy c) = capacities c"
proof -
  have slots: "capacities (fold release_slot_buffer js c) = capacities c" for js and c :: "'a Impl"
    by (induction js arbitrary: c) (auto simp: release_slot_buffer_def Let_def capacities_def)
  obtain q p r where a: "rq_clear (cn_retransmission c) (cn_tx_pool c) = (q, p, r)" by (metis prod_cases3)
  then have "pool_capacity p = pool_capacity (cn_tx_pool c)"
    using release_while_capacity by (fastforce simp: rq_clear_def Let_def split: prod.splits if_splits)
  then show ?thesis unfolding cn_destroy_def a prod.case slots by (simp add: capacities_def)
qed

lemma operation_capacitiesD:
  "cn_connect c ctx now = (d, x) \<Longrightarrow> capacities d = capacities c"
  "cn_close c ctx now = (d, x) \<Longrightarrow> capacities d = capacities c"
  "cn_send c ctx p now = (d, y) \<Longrightarrow> capacities d = capacities c"
  "cn_tick c ctx now = (d, z) \<Longrightarrow> capacities d = capacities c"
  using connect_capacities [of c ctx now] send_capacities [of c ctx p now] tick_capacities [of c ctx now]
  by simp_all

end
