(* ===== verification/Connection_Net.thy ===== *)
theory Connection_Net
  imports Connection_Run Connection_Capacity "HOL-Library.Sublist"
begin

text \<open>
  Runs of one connection against an arbitrary peer, and of two connections over a network that loses,
  duplicates, delays and reorders segments.

  An \<open>endpoint\<close> is a connection with the log of its callbacks and the bytes its \<open>send\<close> has accepted. The
  network hands over any segment the other side has transmitted so far, any number of times and in any
  order.
\<close>

record endpoint =
  ep_conn :: "cn_event list Impl"
  ep_log :: "cn_event list"
  ep_accepted :: "byte list"

definition new_endpoint :: "(cn_event list \<Rightarrow> bool) \<Rightarrow> nat \<Rightarrow> nat \<Rightarrow> ConnectionConfig \<Rightarrow> endpoint" where
  "new_endpoint ok tx rx config =
     \<lparr>ep_conn = new_Connection tx rx config (recorded ok), ep_log = [], ep_accepted = []\<rparr>"

datatype app_op = Connect u64 | Close u64 | Send "byte list" u64 | Tick u64

text \<open>A call of the application, with the bytes that \<open>send\<close> accepted.\<close>

fun app_call :: "app_op \<Rightarrow> 'c Impl \<Rightarrow> 'c \<Rightarrow> 'c Impl \<times> 'c \<times> byte list" where
  "app_call (Connect now) c ctx = (case cn_connect c ctx now of (c, ctx, _) \<Rightarrow> (c, ctx, []))"
| "app_call (Close now) c ctx = (case cn_close c ctx now of (c, ctx, _) \<Rightarrow> (c, ctx, []))"
| "app_call (Send p now) c ctx =
     (case cn_send c ctx p now of (c, ctx, status) \<Rightarrow> (c, ctx, if status = snd_accepted then p else []))"
| "app_call (Tick now) c ctx = (case cn_tick c ctx now of (c, ctx) \<Rightarrow> (c, ctx, []))"

definition app_step :: "app_op \<Rightarrow> endpoint \<Rightarrow> endpoint" where
  "app_step a e = (case app_call a (ep_conn e) (ep_log e) of
     (c, log, p) \<Rightarrow> \<lparr>ep_conn = c, ep_log = log, ep_accepted = ep_accepted e @ p\<rparr>)"

definition arrive :: "byte list \<Rightarrow> u64 \<Rightarrow> endpoint \<Rightarrow> endpoint option" where
  "arrive segment now e = (case cn_on_segment (ep_conn e) (ep_log e) segment now of
     None \<Rightarrow> None | Some (c, log, _) \<Rightarrow> Some (e\<lparr>ep_conn := c, ep_log := log\<rparr>))"

section \<open>The invariant of an endpoint\<close>

definition ep_inv :: "u32 \<Rightarrow> u32 \<Rightarrow> byte list option \<Rightarrow> endpoint \<Rightarrow> bool" where
  "ep_inv iss irs R e \<longleftrightarrow>
     conn_inv log_observer \<lparr>sm_iss = iss, sm_out = ep_accepted e, sm_irs = irs, sm_in = R\<rparr> (ep_conn e) (ep_log e)"

lemma maximum_header [simp]: "kMaximumTransportHeaderBytes = 44"
  by (simp add: kMaximumTransportHeaderBytes_def kTransportFixedHeaderBytes_def kMaximumSackBlocks_def
      kSackBlockBytes_def)

lemma clamp_config_ok: "config_ok (clamp_config cfg)"
  by (simp add: config_ok_def clamp_config_def Let_def kPacketBufferBytes_def
      kReceiveRangeCapacity_def unat_of_nat take_bit_nat_eq_self)

lemma header_only_Nil: "header_only []"
  by (simp add: header_only_def carries_def split: prod.split)

text \<open>A new connection satisfies the invariant in any context that has seen nothing yet.\<close>

lemma new_Connection_inv:
  assumes "observed ob cb" "ob_good ob ctx" "ob_events ob ctx = []"
    "44 + unat (cf_maximum_segment_payload_bytes (clamp_config cfg)) \<le> ob_limit ob"
    "pool_placed tx (cf_packet_pool_buffers cfg)" "pool_placed rx (cf_receive_capacity cfg)"
  shows "conn_inv ob \<lparr>sm_iss = cf_initial_send_sequence cfg, sm_out = [], sm_irs = cf_initial_receive_sequence cfg, sm_in = R\<rparr>
    (new_Connection tx rx cfg cb) ctx"
  using assms new_PacketPool_inv new_CongestionController_inv clamp_config_ok [of cfg] header_only_Nil
  by (auto simp: conn_inv_def new_Connection_def control_ok_def tx_ok_def rx_ok_def
      rq_buffers_def rq_live_def new_RetransmissionQueue_def active_set_def
      default_ReceiveSlot_def prefix_ok_def prefix_at_def split: option.split)

lemma new_endpoint_inv:
  assumes "pool_placed tx (cf_packet_pool_buffers cfg)" "pool_placed rx (cf_receive_capacity cfg)"
  shows "ep_inv (cf_initial_send_sequence cfg) (cf_initial_receive_sequence cfg) R (new_endpoint ok tx rx cfg)"
  using new_Connection_inv [OF recorded.observed_axioms _ _ _ assms, of "[]" R ok] clamp_config_ok [of cfg]
  by (simp add: ep_inv_def new_endpoint_def config_ok_def)

lemma app_call_inv:
  assumes i: "conn_inv ob m c ctx" and a: "app_call a c ctx = (c', ctx', p)"
  shows "conn_inv ob (m\<lparr>sm_out := sm_out m @ p\<rparr>) c' ctx'"
proof (cases a)
  case (Connect now)
  obtain b where s: "cn_connect c ctx now = (c', ctx', b)" "p = []" using a Connect by (auto split: prod.splits)
  show ?thesis using conn_inv_quiet [OF connect_quiet(1) [OF conn_invD [OF i] s(1)] i] s(2) by simp
next
  case (Close now)
  obtain b where s: "cn_close c ctx now = (c', ctx', b)" "p = []" using a Close by (auto split: prod.splits)
  show ?thesis using conn_inv_quiet [OF connect_quiet(2) [OF conn_invD [OF i] s(1)] i] s(2) by simp
next
  case (Send q now)
  obtain st where s: "cn_send c ctx q now = (c', ctx', st)" "p = (if st = snd_accepted then q else [])"
    using a Send by (auto split: prod.splits)
  show ?thesis using send_inv [OF i s(1)] s(2) by (auto split: if_splits)
next
  case (Tick now)
  have s: "cn_tick c ctx now = (c', ctx')" "p = []" using a Tick by (auto split: prod.splits)
  show ?thesis using tick_conn_inv [OF i s(1)] s(2) by simp
qed

lemma app_step_inv:
  assumes "ep_inv iss irs R e"
  shows "ep_inv iss irs R (app_step a e)"
proof -
  obtain c l p where s: "app_call a (ep_conn e) (ep_log e) = (c, l, p)" by (metis prod_cases3)
  show ?thesis using app_call_inv [OF assms [unfolded ep_inv_def] s] s by (simp add: ep_inv_def app_step_def)
qed

lemma arrive_inv:
  assumes "ep_inv iss irs R e" "in_bounded R" "in_carries irs R segment"
  shows "\<exists>e'. arrive segment now e = Some e' \<and> ep_inv iss irs R e' \<and> ep_accepted e' = ep_accepted e"
  using on_segment_inv [OF assms(1) [unfolded ep_inv_def], of segment now] assms(2,3)
  by (auto simp: arrive_def ep_inv_def)

text \<open>The peer's stream may grow.\<close>

lemma in_piece_append: "in_piece base (Some R) q p \<Longrightarrow> in_piece base (Some (R @ T)) q p"
  by (simp add: in_piece_def piece_at_append)

lemma prefix_ok_append: "prefix_ok base (Some R) d D \<Longrightarrow> prefix_ok base (Some (R @ T)) d D"
proof -
  assume "prefix_ok base (Some R) d D"
  then obtain k where "k \<le> length R" "D = take k R" "d = base + of_nat k" by (auto simp: prefix_ok_def prefix_at_def)
  then show ?thesis by (auto simp: prefix_ok_def prefix_at_def intro!: exI [of _ k])
qed

lemma conn_inv_append:
  assumes "conn_inv ob m c ctx" "sm_in m = Some R"
  shows "conn_inv ob (m\<lparr>sm_in := Some (R @ T)\<rparr>) c ctx"
  using assms in_piece_append prefix_ok_append
  by (auto simp: conn_inv_def rx_ok_def slot_ok_def Let_def)

lemma ep_inv_append:
  assumes "ep_inv iss irs (Some R) e"
  shows "ep_inv iss irs (Some (R @ T)) e"
  using conn_inv_append [OF assms [unfolded ep_inv_def], of R T] by (simp add: ep_inv_def)

section \<open>Destroying a connection\<close>

lemma release_slots_inv:
  assumes rx: "rx_ok base R cap (cn_rx_pool c) (cn_receive_slots c)" and cap: "cap \<le> n"
  shows "held (cn_rx_pool (fold release_slot_buffer [0..<n] c)) = {} \<and>
    pool_inv (cn_rx_pool (fold release_slot_buffer [0..<n] c)) \<and>
    cn_tx_pool (fold release_slot_buffer [0..<n] c) = cn_tx_pool c"
proof -
  let ?P = "\<lambda>k d. rx_ok base R cap (cn_rx_pool d) (cn_receive_slots d) \<and> cn_tx_pool d = cn_tx_pool c \<and>
    (\<forall>j < k. \<not> rsl_active (cn_receive_slots d j))"
  have "?P (Suc i) (release_slot_buffer i d)" if d: "?P i d" for i d
  proof (cases "rsl_active (cn_receive_slots d i)")
    case True
    then have "i < cap" using d unfolding rx_ok_def by (meson not_le)
    then show ?thesis
      using d True rx_ok_release [of base R cap "cn_rx_pool d" "cn_receive_slots d" i _ _, OF _ _ _ prod.collapse [symmetric]]
      by (auto simp: release_slot_buffer_def Let_def less_Suc_eq)
  next
    case False
    then show ?thesis using d by (auto simp: release_slot_buffer_def Let_def less_Suc_eq)
  qed
  then have "?P n (fold release_slot_buffer [0..<n] c)"
    by (intro fold_upt_invariant [where P = ?P]) (use rx in auto)
  then show ?thesis using cap by (auto simp: rx_ok_def active_set_def)
qed

lemma destroy_returns_all:
  assumes inv: "conn_inv ob m c log"
  shows "held (cn_tx_pool (cn_destroy c)) = {} \<and> held (cn_rx_pool (cn_destroy c)) = {} \<and>
    pool_inv (cn_tx_pool (cn_destroy c)) \<and> pool_inv (cn_rx_pool (cn_destroy c))"
proof -
  have tx: "rq_owns (cn_retransmission c) (cn_tx_pool c)" "held (cn_tx_pool c) = set (rq_buffers (cn_retransmission c))"
    and rx: "rx_ok (sm_irs m) (sm_in m) (cf_receive_capacity (cn_config c)) (cn_rx_pool c) (cn_receive_slots c)"
    and cap: "cf_receive_capacity (cn_config c) \<le> kReceiveRangeCapacity"
    using inv by (auto simp: conn_inv_def tx_ok_def rq_owns_def config_ok_def kReceiveRangeCapacity_def)
  obtain p r where cl: "rq_clear (cn_retransmission c) (cn_tx_pool c) = ((cn_retransmission c)\<lparr>rq_size := 0\<rparr>, p, r)"
    "pool_inv p" "held p = {}"
    using rq_clear_owned [OF tx(1)] tx(2) by auto
  let ?c = "c\<lparr>cn_retransmission := (cn_retransmission c)\<lparr>rq_size := 0\<rparr>, cn_tx_pool := p\<rparr>"
  show ?thesis
    using release_slots_inv [OF _ cap, of "sm_irs m" "sm_in m" ?c] rx cl by (simp add: cn_destroy_def)
qed

section \<open>Runs\<close>

datatype ep_op = App app_op | Segment "byte list" u64

fun ep_step :: "ep_op \<Rightarrow> endpoint \<Rightarrow> endpoint option" where
  "ep_step (App a) e = Some (app_step a e)"
| "ep_step (Segment segment now) e = arrive segment now e"

fun ep_run :: "ep_op list \<Rightarrow> endpoint \<Rightarrow> endpoint option" where
  "ep_run [] e = Some e"
| "ep_run (s # ss) e = (case ep_step s e of None \<Rightarrow> None | Some e \<Rightarrow> ep_run ss e)"

lemma ep_run_inv:
  "ep_inv iss irs None e \<Longrightarrow> \<exists>e'. ep_run ss e = Some e' \<and> ep_inv iss irs None e'"
proof (induction ss arbitrary: e)
  case (Cons s ss)
  have "\<exists>e1. ep_step s e = Some e1 \<and> ep_inv iss irs None e1"
  proof (cases s)
    case (App a)
    then show ?thesis using app_step_inv [OF Cons.prems] by simp
  next
    case (Segment seg now)
    then show ?thesis using arrive_inv [OF Cons.prems, of seg now] by (auto simp: in_bounded_def in_carries_def)
  qed
  then show ?case using Cons.IH by auto
qed simp

lemma ep_run_capacities:
  "ep_run ss e = Some e' \<Longrightarrow> capacities (ep_conn e') = capacities (ep_conn e)"
proof (induction ss arbitrary: e)
  case (Cons s ss)
  obtain e1 where 1: "ep_step s e = Some e1" "ep_run ss e1 = Some e'" using Cons.prems by (auto split: option.splits)
  have "capacities (ep_conn (app_step a e)) = capacities (ep_conn e)" for a
    by (cases a) (auto simp: app_step_def split: prod.split dest: operation_capacitiesD)
  moreover have "capacities (ep_conn e1) = capacities (ep_conn e)" if "arrive seg now e = Some e1" for seg now
    using that by (auto simp: arrive_def split: option.splits dest: on_segment_capacities)
  ultimately have "capacities (ep_conn e1) = capacities (ep_conn e)" using 1(1) by (cases s) auto
  then show ?case using Cons.IH [OF 1(2)] by simp
qed simp

text \<open>Two endpoints; segments arrive by their number among those the other side has transmitted.\<close>

datatype net_op = App_A app_op | App_B app_op | Arrive_A nat u64 | Arrive_B nat u64

fun sent_by :: "cn_event list \<Rightarrow> byte list list" where
  "sent_by [] = []"
| "sent_by (Tx b r # es) = b # sent_by es"
| "sent_by (Rx p # es) = sent_by es"
| "sent_by (St s # es) = sent_by es"
| "sent_by (Er e # es) = sent_by es"

definition arrive_nth :: "cn_event list \<Rightarrow> nat \<Rightarrow> u64 \<Rightarrow> endpoint \<Rightarrow> endpoint option" where
  "arrive_nth log k now e = (if k < length (sent_by log) then arrive (sent_by log ! k) now e else Some e)"

fun net_step :: "net_op \<Rightarrow> endpoint \<times> endpoint \<Rightarrow> (endpoint \<times> endpoint) option" where
  "net_step (App_A a) (A, B) = Some (app_step a A, B)"
| "net_step (App_B a) (A, B) = Some (A, app_step a B)"
| "net_step (Arrive_A k now) (A, B) = map_option (\<lambda>A. (A, B)) (arrive_nth (ep_log B) k now A)"
| "net_step (Arrive_B k now) (A, B) = map_option (\<lambda>B. (A, B)) (arrive_nth (ep_log A) k now B)"

fun net_run :: "net_op list \<Rightarrow> endpoint \<times> endpoint \<Rightarrow> (endpoint \<times> endpoint) option" where
  "net_run [] n = Some n"
| "net_run (s # ss) n = (case net_step s n of None \<Rightarrow> None | Some n \<Rightarrow> net_run ss n)"

lemma sent_by_ok: "sent_ok base S log \<Longrightarrow> b \<in> set (sent_by log) \<Longrightarrow> carries base S b"
  by (induction log rule: sent_by.induct) auto

definition net_inv :: "u32 \<Rightarrow> u32 \<Rightarrow> endpoint \<times> endpoint \<Rightarrow> bool" where
  "net_inv isA isB n \<longleftrightarrow> (case n of (A, B) \<Rightarrow>
     ep_inv isA isB (Some (ep_accepted B)) A \<and> ep_inv isB isA (Some (ep_accepted A)) B)"

definition net_bounded :: "endpoint \<times> endpoint \<Rightarrow> bool" where
  "net_bounded n \<longleftrightarrow> length (ep_accepted (fst n)) < 2 ^ 32 \<and> length (ep_accepted (snd n)) < 2 ^ 32"

lemma app_step_accepted: "\<exists>T. ep_accepted (app_step a e) = ep_accepted e @ T"
  by (auto simp: app_step_def split: prod.split)

lemma arrive_nth_inv:
  assumes A: "ep_inv iss irs (Some S) A" and B: "ep_inv irs isB R B" and S: "S = ep_accepted B"
    and len: "length S < 2 ^ 32"
  shows "\<exists>A'. arrive_nth (ep_log B) k now A = Some A' \<and> ep_inv iss irs (Some S) A' \<and>
    ep_accepted A' = ep_accepted A"
proof (cases "k < length (sent_by (ep_log B))")
  case True
  have "sent_ok irs S (ep_log B)" using B S by (simp add: ep_inv_def conn_inv_def)
  then have "carries irs S (sent_by (ep_log B) ! k)" using sent_by_ok True nth_mem by blast
  then show ?thesis
    using arrive_inv [OF A, of "sent_by (ep_log B) ! k" now] True len
    by (auto simp: arrive_nth_def in_bounded_def in_carries_def)
next
  case False
  then show ?thesis using A by (simp add: arrive_nth_def)
qed

lemma net_step_inv:
  assumes inv: "net_inv isA isB n" and bd: "net_bounded n"
  shows "\<exists>n'. net_step s n = Some n' \<and> net_inv isA isB n'"
proof -
  obtain A B where n: "n = (A, B)" by fastforce
  have A: "ep_inv isA isB (Some (ep_accepted B)) A" and B: "ep_inv isB isA (Some (ep_accepted A)) B"
    using inv by (simp_all add: net_inv_def n)
  have len: "length (ep_accepted A) < 2 ^ 32" "length (ep_accepted B) < 2 ^ 32" using bd by (simp_all add: net_bounded_def n)
  show ?thesis
  proof (cases s)
    case (App_A a)
    obtain T where "ep_accepted (app_step a A) = ep_accepted A @ T" using app_step_accepted by blast
    then show ?thesis using app_step_inv [OF A] ep_inv_append [OF B] App_A n by (simp add: net_inv_def)
  next
    case (App_B a)
    obtain T where "ep_accepted (app_step a B) = ep_accepted B @ T" using app_step_accepted by blast
    then show ?thesis using app_step_inv [OF B] ep_inv_append [OF A] App_B n by (simp add: net_inv_def)
  next
    case (Arrive_A k now)
    then show ?thesis using arrive_nth_inv [OF A B refl len(2), of k now] n B by (auto simp: net_inv_def)
  next
    case (Arrive_B k now)
    then show ?thesis using arrive_nth_inv [OF B A refl len(1), of k now] n A by (auto simp: net_inv_def)
  qed
qed

lemma arrive_nth_accepted: "arrive_nth log k now e = Some e' \<Longrightarrow> ep_accepted e' = ep_accepted e"
  by (auto simp: arrive_nth_def arrive_def split: if_splits option.splits)

lemma net_step_mono:
  assumes "net_step s n = Some n'" "net_bounded n'"
  shows "net_bounded n"
proof -
  obtain A B where n: "n = (A, B)" by fastforce
  have len: "length (ep_accepted e) \<le> length (ep_accepted (app_step a e))" for a e
    using app_step_accepted [of a e] by auto
  show ?thesis
    using assms n le_less_trans [OF len [of A]] le_less_trans [OF len [of B]]
    by (cases s) (auto simp: net_bounded_def dest: arrive_nth_accepted)
qed

lemma net_run_mono: "net_run ss n = Some n' \<Longrightarrow> net_bounded n' \<Longrightarrow> net_bounded n"
proof (induction ss arbitrary: n)
  case (Cons s ss)
  obtain n1 where "net_step s n = Some n1" "net_run ss n1 = Some n'" using Cons.prems by (auto split: option.splits)
  then show ?case using Cons net_step_mono by blast
qed simp

lemma net_run_inv:
  "net_inv isA isB n \<Longrightarrow> net_run ss n = Some n' \<Longrightarrow> net_bounded n' \<Longrightarrow> net_inv isA isB n'"
proof (induction ss arbitrary: n)
  case (Cons s ss)
  obtain n1 where n1: "net_step s n = Some n1" "net_run ss n1 = Some n'" using Cons.prems by (auto split: option.splits)
  then have "net_bounded n" using net_run_mono net_step_mono Cons.prems by blast
  then have "net_inv isA isB n1" using net_step_inv [OF Cons.prems(1), of s] n1 by simp
  then show ?case using Cons n1 by blast
qed simp

lemma arrive_nth_returns:
  "ep_inv iss irs None e \<Longrightarrow> \<exists>e'. arrive_nth log k now e = Some e' \<and> ep_inv iss irs None e'"
  using arrive_inv [of iss irs None e "sent_by log ! k" now]
  by (auto simp: arrive_nth_def in_bounded_def in_carries_def)

lemma net_run_returns:
  "ep_inv isA irA None A \<Longrightarrow> ep_inv isB irB None B \<Longrightarrow> \<exists>n'. net_run ss (A, B) = Some n'"
proof (induction ss arbitrary: A B)
  case (Cons s ss)
  have "\<exists>A' B'. net_step s (A, B) = Some (A', B') \<and> ep_inv isA irA None A' \<and> ep_inv isB irB None B'"
  proof (cases s)
    case (App_A a)
    then show ?thesis using Cons.prems app_step_inv by simp
  next
    case (App_B a)
    then show ?thesis using Cons.prems app_step_inv by simp
  next
    case (Arrive_A k now)
    then show ?thesis using Cons.prems(2) arrive_nth_returns [OF Cons.prems(1), of "ep_log B" k now] by auto
  next
    case (Arrive_B k now)
    then show ?thesis using Cons.prems(1) arrive_nth_returns [OF Cons.prems(2), of "ep_log A" k now] by auto
  qed
  then show ?case using Cons.IH by auto
qed simp

section \<open>Properties\<close>

definition peers :: "ConnectionConfig \<Rightarrow> ConnectionConfig \<Rightarrow> bool" where
  "peers a b \<longleftrightarrow> cf_initial_receive_sequence b = cf_initial_send_sequence a \<and>
     cf_initial_receive_sequence a = cf_initial_send_sequence b"

definition placed :: "nat \<Rightarrow> nat \<Rightarrow> ConnectionConfig \<Rightarrow> bool" where
  "placed tx rx cfg \<longleftrightarrow> pool_placed tx (cf_packet_pool_buffers cfg) \<and> pool_placed rx (cf_receive_capacity cfg)"

text \<open>The bytes each application hands to \<open>send\<close> in a run bound what is accepted.\<close>

fun offered :: "app_op \<Rightarrow> nat" where
  "offered (Send p now) = length p"
| "offered (Connect now) = 0"
| "offered (Close now) = 0"
| "offered (Tick now) = 0"

fun offered_A :: "net_op list \<Rightarrow> nat" where
  "offered_A [] = 0"
| "offered_A (App_A a # ss) = offered a + offered_A ss"
| "offered_A (s # ss) = offered_A ss"

fun offered_B :: "net_op list \<Rightarrow> nat" where
  "offered_B [] = 0"
| "offered_B (App_B a # ss) = offered a + offered_B ss"
| "offered_B (s # ss) = offered_B ss"

lemma app_call_offered: "app_call a c ctx = (c', ctx', p) \<Longrightarrow> length p \<le> offered a"
  by (cases a) (auto split: prod.splits if_splits)

lemma app_step_offered: "length (ep_accepted (app_step a e)) \<le> length (ep_accepted e) + offered a"
  using app_call_offered by (auto simp: app_step_def split: prod.split)

lemma net_run_offered:
  "net_run ss (A, B) = Some (A', B') \<Longrightarrow>
   length (ep_accepted A') \<le> length (ep_accepted A) + offered_A ss \<and>
   length (ep_accepted B') \<le> length (ep_accepted B) + offered_B ss"
proof (induction ss arbitrary: A B)
  case (Cons s ss)
  obtain A1 B1 where 1: "net_step s (A, B) = Some (A1, B1)" "net_run ss (A1, B1) = Some (A', B')"
    using Cons.prems by (auto split: option.splits)
  note IH = Cons.IH [OF 1(2)]
  show ?case
    using 1(1) IH app_step_offered [of _ A] app_step_offered [of _ B] arrive_nth_accepted
    by (cases s) (fastforce intro: le_trans)+
qed simp

text \<open>
  Claim C2. Two connections whose initial sequence numbers match, over a network that loses, duplicates,
  delays and reorders segments at will and with transmissions that fail at will: whatever the
  applications do, every operation returns, and what each side has delivered is a prefix of what the
  other side's \<open>send\<close> accepted, as long as neither application offers as much as the sequence space.
\<close>

theorem delivered_is_prefix_of_accepted:
  assumes "peers ca cb" "placed ta ra ca" "placed tb rb cb" "offered_A ops < 2 ^ 32" "offered_B ops < 2 ^ 32"
  shows "\<exists>A B. net_run ops (new_endpoint okA ta ra ca, new_endpoint okB tb rb cb) = Some (A, B) \<and>
     prefix (delivered (ep_log B)) (ep_accepted A) \<and> prefix (delivered (ep_log A)) (ep_accepted B)"
proof -
  let ?A = "new_endpoint okA ta ra ca" and ?B = "new_endpoint okB tb rb cb"
  have A: "ep_inv (cf_initial_send_sequence ca) (cf_initial_send_sequence cb) R ?A" for R
    using new_endpoint_inv [of ta ca ra R okA] assms by (simp add: placed_def peers_def)
  have B: "ep_inv (cf_initial_send_sequence cb) (cf_initial_send_sequence ca) R ?B" for R
    using new_endpoint_inv [of tb cb rb R okB] assms by (simp add: placed_def peers_def)
  obtain A' B' where run: "net_run ops (?A, ?B) = Some (A', B')"
    using net_run_returns [OF A B, of ops] by auto
  have "net_bounded (A', B')"
    using net_run_offered [OF run] assms(4,5) by (simp add: net_bounded_def new_endpoint_def)
  then have "net_inv (cf_initial_send_sequence ca) (cf_initial_send_sequence cb) (A', B')"
    by (intro net_run_inv [OF _ run]) (use A B in \<open>auto simp: net_inv_def\<close>)
  then have "prefix (delivered (ep_log B')) (ep_accepted A')" "prefix (delivered (ep_log A')) (ep_accepted B')"
    by (auto simp: net_inv_def ep_inv_def conn_inv_def prefix_ok_def prefix_at_def take_is_prefix)
  with run show ?thesis by blast
qed

definition tiny_config :: ConnectionConfig where
  "tiny_config = default_ConnectionConfig\<lparr>cf_packet_pool_buffers := 1, cf_receive_capacity := 1,
     cf_retransmission_capacity := 1\<rparr>"

definition handshake_and_data :: "net_op list" where
  "handshake_and_data = [App_A (Connect 1), Arrive_B 0 2, Arrive_A 0 3, Arrive_B 1 4,
     App_A (Send [7, 8, 9] 5), Arrive_B 2 6, Arrive_B 2 7, Arrive_A 1 8]"

theorem delivered_is_prefix_of_accepted_witness:
  "\<exists>A B. net_run handshake_and_data (new_endpoint (\<lambda>_. True) 64 64 tiny_config,
       new_endpoint (\<lambda>_. True) 64 64 tiny_config) = Some (A, B) \<and>
     prefix (delivered (ep_log B)) (ep_accepted A) \<and> prefix (delivered (ep_log A)) (ep_accepted B)"
  by (rule delivered_is_prefix_of_accepted)
     (simp_all add: peers_def placed_def tiny_config_def default_ConnectionConfig_def pool_placed_def
       handshake_and_data_def sizeof_PacketBuffer_def)

text \<open>
  Claim C5. Whatever the application does and whatever arrives, malformed and hostile segments included,
  every operation returns, the free buffers of the transmit pool and the segments awaiting
  acknowledgement make up the pool, the free buffers of the receive pool and the occupied receive slots
  make up the other, and the destructor gives every buffer back.
\<close>

theorem connection_buffers_accounted:
  assumes "placed tx rx cfg"
  shows "\<exists>e. ep_run ops (new_endpoint ok tx rx cfg) = Some e \<and> (let c = ep_conn e; d = cn_destroy c in
     pool_available (cn_tx_pool c) + rq_size (cn_retransmission c) = cf_packet_pool_buffers cfg \<and>
     pool_available (cn_rx_pool c) + active_slot_count c = cf_receive_capacity cfg \<and>
     pool_available (cn_tx_pool d) = cf_packet_pool_buffers cfg \<and>
     pool_available (cn_rx_pool d) = cf_receive_capacity cfg)"
proof -
  obtain e where e: "ep_run ops (new_endpoint ok tx rx cfg) = Some e"
    "ep_inv (cf_initial_send_sequence cfg) (cf_initial_receive_sequence cfg) None e"
    using ep_run_inv [OF new_endpoint_inv] assms by (metis placed_def)
  let ?c = "ep_conn e"
  note inv = e(2) [unfolded ep_inv_def]
  have cap: "capacities ?c = (cf_packet_pool_buffers cfg, cf_receive_capacity cfg)"
    using ep_run_capacities [OF e(1)] by (simp add: new_endpoint_def new_Connection_def capacities_def)
  have "length (rq_buffers q) = rq_size q" for q by (simp add: rq_buffers_def rq_live_def)
  then have "card (held (cn_tx_pool ?c)) = rq_size (cn_retransmission ?c)" "pool_inv (cn_tx_pool ?c)"
    using inv by (auto simp: conn_inv_def tx_ok_def distinct_card)
  moreover have "card (held (cn_rx_pool ?c)) = active_slot_count ?c" "pool_inv (cn_rx_pool ?c)"
    using inv card_image by (auto simp: conn_inv_def rx_ok_def active_slot_count_def active_set_def)
  moreover note destroy_returns_all [OF inv]
  ultimately show ?thesis
    using e(1) cap destroy_capacities [of ?c] card_held [of "cn_tx_pool ?c"] card_held [of "cn_rx_pool ?c"]
      card_held [of "cn_tx_pool (cn_destroy ?c)"] card_held [of "cn_rx_pool (cn_destroy ?c)"]
    by (simp add: Let_def capacities_def)
qed

theorem connection_buffers_accounted_witness:
  "\<exists>e. ep_run [App (Connect 1), Segment [1, 2, 3] 2, App (Tick 3)] (new_endpoint (\<lambda>_. True) 64 64 tiny_config) = Some e \<and>
     (let c = ep_conn e; d = cn_destroy c in
     pool_available (cn_tx_pool c) + rq_size (cn_retransmission c) = cf_packet_pool_buffers tiny_config \<and>
     pool_available (cn_rx_pool c) + active_slot_count c = cf_receive_capacity tiny_config \<and>
     pool_available (cn_tx_pool d) = cf_packet_pool_buffers tiny_config \<and>
     pool_available (cn_rx_pool d) = cf_receive_capacity tiny_config)"
  by (rule connection_buffers_accounted)
     (simp add: placed_def tiny_config_def default_ConnectionConfig_def pool_placed_def sizeof_PacketBuffer_def)

end
