(* ===== verification/Connection_Limits.thy ===== *)
theory Connection_Limits
  imports Connection
begin

text \<open>
  Behaviours of the connection at the limits of what its peer is expected to do
  (\<^verbatim>\<open>src/transport/connection.cpp\<close>): a segment that straddles the delivered data, an acknowledged FIN, a repeated
  SYN+ACK and a repeated FIN. Each lemma is about one step of the code in a state given by the facts it needs.
\<close>

lemma send_control_frame:
  assumes "send_control c ctx flags now remember = (c', ctx', ok)"
  shows "cn_receive_ranges c' = cn_receive_ranges c" "cn_receive_slots c' = cn_receive_slots c"
    "cn_delivery_sequence c' = cn_delivery_sequence c" "cn_config c' = cn_config c" "cn_machine c' = cn_machine c"
  using assms
  by (auto simp: send_control_def transmit_bytes_def count_def Let_def split: prod.splits if_splits option.splits)

text \<open>
  A segment that begins before the next byte to deliver and ends after it is acknowledged in full, but the
  slot that holds it begins before the byte that \<open>deliver_contiguous\<close> waits for: nothing is delivered, and no
  slot can be.
\<close>

lemma rr_insert_straddling:
  assumes "rr_size s = 0" "sequence_less start (rr_cumulative_ack s)" "\<not> sequence_less_equal end' (rr_cumulative_ack s)"
    "end' - start < 0x80000000"
  shows "rr_insert s start end' = (s\<lparr>rr_cumulative_ack := end'\<rparr>,
    range_result range_accepted end' (end' - rr_cumulative_ack s))"
proof -
  have "start \<noteq> end'" using assms(2,3) by (auto simp: sequence_less_equal_def)
  moreover have "advance_contiguous (s\<lparr>rr_cumulative_ack := end'\<rparr>) = s\<lparr>rr_cumulative_ack := end'\<rparr>"
    using assms(1) by (subst advance_contiguous.simps) simp
  ultimately show ?thesis using assms by (simp add: rr_insert_def Let_def not_le)
qed

lemma straddling_segment_not_delivered:
  assumes idle: "\<And>i. \<not> rsl_active (cn_receive_slots c i)" "0 < cf_receive_capacity (cn_config c)"
      "rr_size (cn_receive_ranges c) = 0" "rr_cumulative_ack (cn_receive_ranges c) = cn_delivery_sequence c"
    and straddle: "sequence_less (th_sequence h) (cn_delivery_sequence c)"
      "\<not> sequence_less_equal (th_sequence h + of_nat (length payload)) (cn_delivery_sequence c)"
      "(of_nat (length payload) :: u32) < 0x80000000" "payload \<noteq> []" "length payload \<le> kPacketBufferBytes"
    and buffer: "acquire (cn_rx_pool c) = (pool, b)" "b \<noteq> 0"
    and p: "process_payload c ctx h payload now = (c', ctx')"
  shows "rr_cumulative_ack (cn_receive_ranges c') = th_sequence h + of_nat (length payload) \<and>
    cn_delivery_sequence c' = cn_delivery_sequence c \<and> next_deliverable c' = None \<and> rsl_active (cn_receive_slots c' 0)"
proof -
  let ?stop = "th_sequence h + of_nat (length payload)"
  have free: "free_receive_slot c = Some 0" using idle(1,2) by (simp add: free_receive_slot_def upt_conv_Cons)
  have quiet: "\<not> overlaps_received c (th_sequence h) ?stop" using idle(1) by (simp add: overlaps_received_def list_ex_iff)
  note ins = rr_insert_straddling [OF idle(3), unfolded idle(4), OF straddle(1,2), simplified, OF straddle(3)]
  define c1 where "c1 = c\<lparr>cn_rx_pool := pool, cn_receive_ranges := (cn_receive_ranges c)\<lparr>rr_cumulative_ack := ?stop\<rparr>,
    cn_rx_pool := store pool b
      \<lparr>pb_data = memcpy_at (pb_data (deref pool b)) 0 payload, pb_length = of_nat (length payload)\<rparr>,
    cn_receive_slots := (cn_receive_slots c)(0 :=
      \<lparr>rsl_start = th_sequence h, rsl_end = ?stop, rsl_buffer = b, rsl_active = True\<rparr>)\<rparr>"
  have ne: "th_sequence h \<noteq> cn_delivery_sequence c" using straddle(1) by auto
  have none: "next_deliverable c1 = None"
    using idle(1) ne by (auto simp: next_deliverable_def c1_def find_None_iff)
  then have dc: "deliver_contiguous c1 ctx = (c1, ctx)" by (subst deliver_contiguous.simps) simp
  obtain c2 ctx2 ok where sc: "send_control c1 ctx kFlagAck now False = (c2, ctx2, ok)" by (metis prod_cases3)
  have "process_payload c ctx h payload now = (case deliver_contiguous c1 ctx of (c, ctx) \<Rightarrow>
      case send_control c ctx kFlagAck now False of (c, ctx, sent) \<Rightarrow> (c, ctx))"
    using quiet straddle free buffer ins by (simp add: process_payload_def Let_def range_result_def c1_def)
  then have "(c', ctx') = (c2, ctx2)" using p dc sc by simp
  then show ?thesis
    using send_control_frame [OF sc] none by (simp add: c1_def next_deliverable_def)
qed

text \<open>
  The peer's acknowledgement moves FIN_WAIT_1 to FIN_WAIT_2 and leaves the FIN remembered, so that the next
  timer transmits it again.
\<close>

lemma acknowledged_fin_sent_again:
  assumes st: "sm_state (cn_machine c) = fin_wait_1" and h: "th_flags h = kFlagAck"
    and rem: "cn_remembered_control_bytes c \<noteq> 0" "cn_control_deadline_ns c \<le> later"
    and tr: "ccb_transmit (cn_callbacks c) = Some (\<lambda>ctx bytes reason. (ctx @ [bytes], no_error))"
  shows "\<exists>c1 c2. process_control c ctx h now = (c1, ctx, True) \<and> sm_state (cn_machine c1) = fin_wait_2 \<and>
    tick_control c1 ctx later = (c2, ctx @ [take (cn_remembered_control_bytes c) (cn_remembered_control_buffer c)])"
proof -
  have d: "tabled (sm_state (cn_machine c)) receive_ack fin_wait_2 act_none" using st by (simp add: tabled.intros documented.intros)
  define c1 where "c1 = c\<lparr>cn_machine := \<lparr>sm_state = fin_wait_2, sm_reset_sent = sm_reset_sent (cn_machine c)\<rparr>\<rparr>"
  have "process_control c ctx h now = (c1, ctx, True)"
    using st h handle_tabled [OF d]
    by (simp add: process_control_def react_def handle_event_def perform_actions_def action_flags_def
        has_action_def action_defs kFlagSyn_def kFlagAck_def kFlagFin_def kFlagRst_def c1_def Let_def)
  moreover have "tick_control c1 ctx later = (fst (tick_control c1 ctx later),
      ctx @ [take (cn_remembered_control_bytes c) (cn_remembered_control_buffer c)])"
    using rem tr by (simp add: tick_control_def transmit_bytes_def count_def c1_def Let_def)
  ultimately show ?thesis by (metis c1_def ConnectionStateMachine.select_convs(1) Impl.select_convs(5) Impl.surjective
        Impl.update_convs(5))
qed

text \<open>
  A repeated SYN+ACK in ESTABLISHED, or a repeated FIN in CLOSE_WAIT, is an invalid transition: the connection is
  closed and a reset goes out.
\<close>

definition resets :: "'s Impl \<Rightarrow> 's \<Rightarrow> TransportHeader \<Rightarrow> u64 \<Rightarrow> bool" where
  "resets c ctx h now \<longleftrightarrow> (\<exists>c' ctx' sent ctx1. process_control c ctx h now = (c', ctx', False) \<and>
     sm_state (cn_machine c') = closed \<and>
     (\<exists>d. send_control d ctx1 kFlagRst now False = (c', sent) \<and> cn_next_send_sequence d = cn_next_send_sequence c))"

lemma untabled_resets:
  assumes u: "\<not> (\<exists>t a. tabled (sm_state (cn_machine c)) e t a)" "\<not> sm_reset_sent (cn_machine c)"
    and p: "process_control c ctx h now = react c ctx e now"
  shows "resets c ctx h now"
proof -
  define d where "d = c\<lparr>cn_machine := \<lparr>sm_state = closed, sm_reset_sent = True\<rparr>\<rparr>"
  obtain c' ctx' sent where sc: "send_control d (cn_notify_error d ctx invalid_transition) kFlagRst now False = (c', ctx', sent)"
    by (metis prod_cases3)
  have rst: "kFlagRst \<noteq> 0" by (simp add: kFlagRst_def)
  have m: "sm_state (cn_machine c') = closed" using send_control_frame(5) [OF sc] by (simp add: d_def)
  have "process_control c ctx h now = (c', cn_notify_error c' ctx' invalid_transition, False)"
    using p sc handle_untabled [OF u(1)] u(2) rst
    by (simp add: react_def handle_event_def perform_actions_def action_flags_def has_action_def action_defs d_def Let_def)
  moreover have "cn_next_send_sequence d = cn_next_send_sequence c" by (simp add: d_def)
  ultimately show ?thesis unfolding resets_def using sc m by blast
qed

lemma repeated_syn_ack_resets:
  assumes "sm_state (cn_machine c) = established" "\<not> sm_reset_sent (cn_machine c)" "th_flags h = kFlagSyn OR kFlagAck"
  shows "resets c ctx h now"
  by (rule untabled_resets [where e = receive_syn])
     (use assms in \<open>auto simp: tabled_simps documented_simps process_control_def Let_def kFlagSyn_def kFlagAck_def kFlagRst_def\<close>)

lemma repeated_fin_resets:
  assumes "sm_state (cn_machine c) = close_wait" "\<not> sm_reset_sent (cn_machine c)" "th_flags h = kFlagFin OR kFlagAck"
  shows "resets c ctx h now"
  by (rule untabled_resets [where e = receive_fin])
     (use assms in \<open>auto simp: tabled_simps documented_simps process_control_def Let_def kFlagSyn_def kFlagAck_def kFlagFin_def kFlagRst_def\<close>)

end
