(* ===== verification/Spsc_Ring.thy ===== *)
theory Spsc_Ring
  imports Prelude "HOL-Library.Sublist"
begin

text \<open>
  The single-producer single-consumer ring (\<^verbatim>\<open>include/vectornet/alloc/spsc_ring.hpp\<close>). The two cursors are
  64-bit and wrap. \<open>try_push\<close> and \<open>try_pop\<close> run in two threads: a thread's call is split at its accesses
  to the atomic cursors and to the slots (\<open>push_step\<close>, \<open>pop_step\<close>), and the steps of the two threads
  interleave. Each access is atomic and sees the latest value, which is what the acquire and release
  orderings of the source give for the cursors and the slots they publish.

  The locale \<open>bounded_fifo\<close> is what a client of one thread may rely on; \<open>fits\<close> are the values the queue has room for.
\<close>

record 'a SpscRing =
  rg_producer :: u64
  rg_consumer :: u64
  rg_slots :: "'a arr"

definition new_SpscRing :: "'a \<Rightarrow> 'a SpscRing" where
  "new_SpscRing zero = \<lparr>rg_producer = 0, rg_consumer = 0, rg_slots = (\<lambda>_. zero)\<rparr>"

text \<open>The template argument and its static assertions: a power of two, at least 2.\<close>

definition ring_capacity :: "nat \<Rightarrow> bool" where
  "ring_capacity Capacity \<longleftrightarrow> (\<exists>k. 1 \<le> k \<and> k < 64 \<and> Capacity = 2 ^ k)"

definition slot_of :: "nat \<Rightarrow> u64 \<Rightarrow> nat" where
  "slot_of Capacity cursor = unat (cursor AND (of_nat Capacity - 1))"

definition try_push :: "nat \<Rightarrow> 'a \<Rightarrow> 'a SpscRing \<Rightarrow> 'a SpscRing \<times> bool" where
  "try_push Capacity v ring =
     (let write = rg_producer ring; read = rg_consumer ring in
      if write - read = of_nat Capacity then (ring, False)
      else (ring\<lparr>rg_slots := (rg_slots ring)(slot_of Capacity write := v), rg_producer := write + 1\<rparr>, True))"

definition try_pop :: "nat \<Rightarrow> 'a \<Rightarrow> 'a SpscRing \<Rightarrow> 'a SpscRing \<times> 'a \<times> bool" where
  "try_pop Capacity v ring =
     (let read = rg_consumer ring; write = rg_producer ring in
      if read = write then (ring, v, False)
      else (ring\<lparr>rg_consumer := read + 1\<rparr>, rg_slots ring (slot_of Capacity read), True))"

definition approximate_size :: "'a SpscRing \<Rightarrow> u64" where
  "approximate_size ring = rg_producer ring - rg_consumer ring"

section \<open>The two threads\<close>

datatype 'a push_pc = push_idle | push_loaded 'a u64 | push_checked 'a u64 u64 | push_written 'a u64
datatype 'a pop_pc = pop_idle | pop_loaded u64 | pop_checked u64 u64 | pop_read u64 'a

record 'a spsc =
  sp_ring :: "'a SpscRing"
  sp_push :: "'a push_pc"
  sp_pop :: "'a pop_pc"
  sp_pushed :: "'a list"
  sp_popped :: "'a list"

text \<open>
  One access of the producer; an idle producer starts \<open>try_push(v)\<close>. \<open>sp_pushed\<close> and \<open>sp_popped\<close> record
  the values of the calls that returned true.
\<close>

fun push_step :: "nat \<Rightarrow> 'a \<Rightarrow> 'a spsc \<Rightarrow> 'a push_pc \<Rightarrow> 'a spsc" where
  "push_step Capacity v s push_idle = s\<lparr>sp_push := push_loaded v (rg_producer (sp_ring s))\<rparr>"
| "push_step Capacity v s (push_loaded x write) = s\<lparr>sp_push := push_checked x write (rg_consumer (sp_ring s))\<rparr>"
| "push_step Capacity v s (push_checked x write read) =
     (if write - read = of_nat Capacity then s\<lparr>sp_push := push_idle\<rparr>
      else s\<lparr>sp_push := push_written x write,
             sp_ring := (sp_ring s)\<lparr>rg_slots := (rg_slots (sp_ring s))(slot_of Capacity write := x)\<rparr>\<rparr>)"
| "push_step Capacity v s (push_written x write) =
     s\<lparr>sp_push := push_idle, sp_ring := (sp_ring s)\<lparr>rg_producer := write + 1\<rparr>, sp_pushed := sp_pushed s @ [x]\<rparr>"

fun pop_step :: "nat \<Rightarrow> 'a spsc \<Rightarrow> 'a pop_pc \<Rightarrow> 'a spsc" where
  "pop_step Capacity s pop_idle = s\<lparr>sp_pop := pop_loaded (rg_consumer (sp_ring s))\<rparr>"
| "pop_step Capacity s (pop_loaded read) = s\<lparr>sp_pop := pop_checked read (rg_producer (sp_ring s))\<rparr>"
| "pop_step Capacity s (pop_checked read write) =
     (if read = write then s\<lparr>sp_pop := pop_idle\<rparr>
      else s\<lparr>sp_pop := pop_read read (rg_slots (sp_ring s) (slot_of Capacity read))\<rparr>)"
| "pop_step Capacity s (pop_read read x) =
     s\<lparr>sp_pop := pop_idle, sp_ring := (sp_ring s)\<lparr>rg_consumer := read + 1\<rparr>, sp_popped := sp_popped s @ [x]\<rparr>"

definition new_spsc :: "'a \<Rightarrow> 'a spsc" where
  "new_spsc zero = \<lparr>sp_ring = new_SpscRing zero, sp_push = push_idle, sp_pop = pop_idle,
     sp_pushed = [], sp_popped = []\<rparr>"

definition push_next :: "nat \<Rightarrow> 'a \<Rightarrow> 'a spsc \<Rightarrow> 'a spsc" where
  "push_next Capacity v s = push_step Capacity v s (sp_push s)"

definition pop_next :: "nat \<Rightarrow> 'a spsc \<Rightarrow> 'a spsc" where
  "pop_next Capacity s = pop_step Capacity s (sp_pop s)"

inductive spsc_reachable :: "nat \<Rightarrow> 'a \<Rightarrow> 'a spsc \<Rightarrow> bool" for Capacity zero where
  spsc_start: "spsc_reachable Capacity zero (new_spsc zero)"
| spsc_push: "spsc_reachable Capacity zero s \<Longrightarrow> spsc_reachable Capacity zero (push_next Capacity v s)"
| spsc_pop: "spsc_reachable Capacity zero s \<Longrightarrow> spsc_reachable Capacity zero (pop_next Capacity s)"

section \<open>Cursors\<close>

lemma slot_of_nat:
  assumes "ring_capacity Capacity"
  shows "slot_of Capacity (of_nat n) = n mod Capacity"
proof -
  obtain k where k: "k < 64" "Capacity = 2 ^ k" using assms by (auto simp: ring_capacity_def)
  have "(of_nat Capacity :: u64) - 1 = mask k" using k by (simp add: mask_eq_exp_minus_1)
  then have "slot_of Capacity (of_nat n) = unat (take_bit k (of_nat n :: u64))"
    by (simp add: slot_of_def take_bit_eq_mask)
  also have "\<dots> = take_bit k (unat (of_nat n :: u64))" by (rule unsigned_take_bit_eq)
  also have "\<dots> = n mod 2 ^ 64 mod 2 ^ k" by (simp add: unat_of_nat take_bit_eq_mod)
  also have "\<dots> = n mod Capacity"
    unfolding k(2) by (rule mod_mod_cancel) (rule le_imp_power_dvd, use k(1) in simp)
  finally show ?thesis .
qed

lemma capacity_bound: "ring_capacity Capacity \<Longrightarrow> 2 \<le> Capacity \<and> Capacity \<le> 2 ^ 63"
proof -
  assume "ring_capacity Capacity"
  then obtain k where k: "1 \<le> k" "k < 64" "Capacity = 2 ^ k" by (auto simp: ring_capacity_def)
  have "2 ^ 1 \<le> (2 :: nat) ^ k" "(2 :: nat) ^ k \<le> 2 ^ 63" using k by (intro power_increasing; simp)+
  then show ?thesis using k by simp
qed

text \<open>A difference of cursors that is at most the capacity is exact.\<close>

lemma cursor_difference:
  assumes "m \<le> n" "n - m < 2 ^ 64"
  shows "unat ((of_nat n :: u64) - of_nat m) = n - m"
proof -
  have "(of_nat n :: u64) - of_nat m = of_nat (n - m)" using assms(1) by (simp add: of_nat_diff)
  then show ?thesis using assms(2) by (simp add: unat_of_nat take_bit_nat_eq_self)
qed

lemma cursor_full:
  assumes "ring_capacity Capacity" "m \<le> n" "n \<le> m + Capacity"
  shows "(of_nat n :: u64) - of_nat m = of_nat Capacity \<longleftrightarrow> n = m + Capacity"
proof -
  have b: "Capacity < 2 ^ 64" using capacity_bound [OF assms(1)] by simp
  have "unat ((of_nat n :: u64) - of_nat m) = n - m" using assms b by (intro cursor_difference) auto
  moreover have "unat (of_nat Capacity :: u64) = Capacity" using b by (simp add: unat_of_nat take_bit_nat_eq_self)
  ultimately have "(of_nat n :: u64) - of_nat m = of_nat Capacity \<longleftrightarrow> n - m = Capacity"
    by (metis word_unat_eq_iff)
  then show ?thesis using assms(2) by auto
qed

lemma cursor_empty:
  assumes "ring_capacity Capacity" "m \<le> n" "n \<le> m + Capacity"
  shows "(of_nat m :: u64) = of_nat n \<longleftrightarrow> m = n"
proof -
  have "unat ((of_nat n :: u64) - of_nat m) = n - m"
    using assms capacity_bound [OF assms(1)] by (intro cursor_difference) auto
  then show ?thesis using assms(2) by auto
qed

text \<open>Distinct positions less than a capacity apart have distinct slots.\<close>

lemma slots_apart:
  assumes "j < n" "n < j + Capacity"
  shows "j mod Capacity \<noteq> n mod (Capacity :: nat)"
proof
  assume "j mod Capacity = n mod Capacity"
  then have "Capacity dvd n - j" using assms(1) mod_eq_dvd_iff_nat [of j n Capacity] by simp
  then show False using assms by (auto dest: dvd_imp_le)
qed

section \<open>The invariant\<close>

text \<open>
  \<open>n\<close> values were pushed and \<open>m\<close> popped; each thread's view of the other's cursor may be old, but never
  more than the capacity off.
\<close>

definition cursors_ok :: "nat \<Rightarrow> nat \<Rightarrow> nat \<Rightarrow> 'a SpscRing \<Rightarrow> bool" where
  "cursors_ok Capacity n m r \<longleftrightarrow> rg_producer r = of_nat n \<and> rg_consumer r = of_nat m \<and> m \<le> n \<and> n \<le> m + Capacity"

definition slots_ok :: "nat \<Rightarrow> 'a list \<Rightarrow> nat \<Rightarrow> 'a arr \<Rightarrow> bool" where
  "slots_ok Capacity xs m a \<longleftrightarrow> (\<forall>j. m \<le> j \<and> j < length xs \<longrightarrow> a (j mod Capacity) = xs ! j)"

fun push_ok :: "nat \<Rightarrow> nat \<Rightarrow> nat \<Rightarrow> 'a arr \<Rightarrow> 'a push_pc \<Rightarrow> bool" where
  "push_ok Capacity n m a push_idle = True"
| "push_ok Capacity n m a (push_loaded x w) = (w = of_nat n)"
| "push_ok Capacity n m a (push_checked x w r) =
     (w = of_nat n \<and> (\<exists>m' \<le> m. r = of_nat m' \<and> n \<le> m' + Capacity))"
| "push_ok Capacity n m a (push_written x w) = (w = of_nat n \<and> n < m + Capacity \<and> a (n mod Capacity) = x)"

fun pop_ok :: "nat \<Rightarrow> 'a list \<Rightarrow> nat \<Rightarrow> 'a pop_pc \<Rightarrow> bool" where
  "pop_ok Capacity xs m pop_idle = True"
| "pop_ok Capacity xs m (pop_loaded r) = (r = of_nat m)"
| "pop_ok Capacity xs m (pop_checked r w) =
     (r = of_nat m \<and> (\<exists>n' \<le> length xs. w = of_nat n' \<and> m \<le> n' \<and> n' \<le> m + Capacity))"
| "pop_ok Capacity xs m (pop_read r x) = (r = of_nat m \<and> m < length xs \<and> x = xs ! m)"

definition spsc_inv :: "nat \<Rightarrow> 'a spsc \<Rightarrow> bool" where
  "spsc_inv Capacity s \<longleftrightarrow>
     (let xs = sp_pushed s; m = length (sp_popped s); r = sp_ring s in
      cursors_ok Capacity (length xs) m r \<and> sp_popped s = take m xs \<and> slots_ok Capacity xs m (rg_slots r) \<and>
      push_ok Capacity (length xs) m (rg_slots r) (sp_push s) \<and> pop_ok Capacity xs m (sp_pop s))"

lemma slots_ok_write:
  assumes "slots_ok Capacity xs m a" "length xs < m + Capacity"
  shows "slots_ok Capacity xs m (a(length xs mod Capacity := x))"
  unfolding slots_ok_def
proof (intro allI impI)
  fix j assume j: "m \<le> j \<and> j < length xs"
  then have "j mod Capacity \<noteq> length xs mod Capacity" using assms(2) by (intro slots_apart) auto
  then show "(a(length xs mod Capacity := x)) (j mod Capacity) = xs ! j" using assms(1) j by (simp add: slots_ok_def)
qed

lemma slots_ok_publish:
  "slots_ok Capacity xs m a \<Longrightarrow> a (length xs mod Capacity) = x \<Longrightarrow> slots_ok Capacity (xs @ [x]) m a"
  by (auto simp: slots_ok_def nth_append less_Suc_eq)

lemma pop_ok_publish: "pop_ok Capacity xs m pc \<Longrightarrow> pop_ok Capacity (xs @ [x]) m pc"
proof (cases pc)
  case (pop_checked r w)
  assume "pop_ok Capacity xs m pc"
  then obtain n' where "n' \<le> length xs" "r = of_nat m" "w = of_nat n'" "m \<le> n'" "n' \<le> m + Capacity"
    using pop_checked by auto
  then show ?thesis using pop_checked by (auto intro!: exI [of _ n'])
qed (auto simp: nth_append)

lemma push_ok_consume: "push_ok Capacity n m a pc \<Longrightarrow> push_ok Capacity n (Suc m) a pc"
  by (cases pc) (auto intro: le_SucI)

lemma push_step_inv:
  assumes cap: "ring_capacity Capacity" and inv: "spsc_inv Capacity s"
  shows "spsc_inv Capacity (push_step Capacity v s (sp_push s))"
proof (cases "sp_push s")
  case push_idle
  then show ?thesis using inv by (simp add: spsc_inv_def Let_def cursors_ok_def)
next
  case (push_loaded x w)
  then show ?thesis using inv by (auto simp: spsc_inv_def Let_def cursors_ok_def)
next
  case (push_checked x w r)
  let ?n = "length (sp_pushed s)" and ?m = "length (sp_popped s)"
  obtain m' where m': "w = of_nat ?n" "m' \<le> ?m" "r = of_nat m'" "?n \<le> m' + Capacity"
    using inv push_checked by (auto simp: spsc_inv_def Let_def)
  have mn: "?m \<le> ?n" using inv by (simp add: spsc_inv_def Let_def cursors_ok_def)
  have full: "w - r = of_nat Capacity \<longleftrightarrow> ?n = m' + Capacity"
    unfolding m' using cursor_full [OF cap] m' mn by simp
  show ?thesis
  proof (cases "w - r = of_nat Capacity")
    case True
    then show ?thesis using inv push_checked by (simp add: spsc_inv_def Let_def)
  next
    case False
    then have "?n < ?m + Capacity" using full m' by linarith
    then show ?thesis
      using inv push_checked False slots_ok_write
      by (auto simp: spsc_inv_def Let_def cursors_ok_def m'(1) slot_of_nat [OF cap])
  qed
next
  case (push_written x w)
  then show ?thesis
    using inv slots_ok_publish [of Capacity "sp_pushed s" "length (sp_popped s)" "rg_slots (sp_ring s)" x]
      pop_ok_publish [of Capacity "sp_pushed s" "length (sp_popped s)" "sp_pop s" x]
    by (auto simp: spsc_inv_def Let_def cursors_ok_def)
qed

lemma pop_step_inv:
  assumes cap: "ring_capacity Capacity" and inv: "spsc_inv Capacity s"
  shows "spsc_inv Capacity (pop_step Capacity s (sp_pop s))"
proof (cases "sp_pop s")
  case pop_idle
  then show ?thesis using inv by (simp add: spsc_inv_def Let_def cursors_ok_def)
next
  case (pop_loaded r)
  then show ?thesis using inv by (auto simp: spsc_inv_def Let_def cursors_ok_def)
next
  case (pop_checked r w)
  let ?m = "length (sp_popped s)"
  obtain n' where n': "r = of_nat ?m" "w = of_nat n'" "?m \<le> n'" "n' \<le> ?m + Capacity" "n' \<le> length (sp_pushed s)"
    using inv pop_checked by (auto simp: spsc_inv_def Let_def)
  have "r = w \<longleftrightarrow> ?m = n'" unfolding n'(1,2) using cursor_empty [OF cap n'(3,4)] .
  then show ?thesis
    using inv pop_checked n' by (auto simp: spsc_inv_def Let_def slots_ok_def slot_of_nat [OF cap])
next
  case (pop_read r x)
  let ?m = "length (sp_popped s)" and ?xs = "sp_pushed s"
  have x: "r = of_nat ?m" "?m < length ?xs" "x = ?xs ! ?m" "sp_popped s = take ?m ?xs"
    using inv pop_read by (auto simp: spsc_inv_def Let_def)
  have "sp_popped s @ [x] = take (Suc ?m) ?xs" using x by (simp add: take_Suc_conv_app_nth)
  then show ?thesis
    using inv pop_read x push_ok_consume
    by (auto simp: spsc_inv_def Let_def cursors_ok_def slots_ok_def)
qed

lemma spsc_reachable_inv:
  assumes "spsc_reachable Capacity zero s" "ring_capacity Capacity"
  shows "spsc_inv Capacity s"
  using assms
proof (induction rule: spsc_reachable.induct)
  case spsc_start
  then show ?case
    using capacity_bound by (simp add: new_spsc_def new_SpscRing_def spsc_inv_def cursors_ok_def slots_ok_def)
qed (auto simp: push_next_def pop_next_def intro: push_step_inv pop_step_inv)

section \<open>One thread: a bounded queue\<close>

locale bounded_fifo =
  fixes inv :: "'r \<Rightarrow> bool"
    and contents :: "'r \<Rightarrow> 'a list"
    and bound :: nat
    and fits :: "'a \<Rightarrow> bool"
    and push :: "'a \<Rightarrow> 'r \<Rightarrow> 'r \<times> bool"
    and pop :: "'a \<Rightarrow> 'r \<Rightarrow> 'r \<times> 'a \<times> bool"
  assumes bounded: "inv r \<Longrightarrow> length (contents r) \<le> bound"
    and push_refused: "inv r \<Longrightarrow> length (contents r) = bound \<or> \<not> fits x \<Longrightarrow> push x r = (r', b) \<Longrightarrow>
      \<not> b \<and> inv r' \<and> contents r' = contents r"
    and push_room: "inv r \<Longrightarrow> length (contents r) < bound \<Longrightarrow> fits x \<Longrightarrow> push x r = (r', b) \<Longrightarrow>
      b \<and> inv r' \<and> contents r' = contents r @ [x]"
    and pop_empty: "inv r \<Longrightarrow> contents r = [] \<Longrightarrow> pop y r = (r, y, False)"
    and pop_some: "inv r \<Longrightarrow> contents r = x # xs \<Longrightarrow> pop y r = (r', z, b) \<Longrightarrow>
      b \<and> z = x \<and> inv r' \<and> contents r' = xs"
begin

fun push_all :: "'a list \<Rightarrow> 'r \<Rightarrow> 'r" where
  "push_all [] r = r"
| "push_all (x # xs) r = push_all xs (fst (push x r))"

fun pop_many :: "nat \<Rightarrow> 'a \<Rightarrow> 'r \<Rightarrow> 'a list" where
  "pop_many 0 y r = []"
| "pop_many (Suc n) y r = (case pop y r of (r, z, b) \<Rightarrow> if b then z # pop_many n y r else [])"

lemma push_all_contents:
  "inv r \<Longrightarrow> length (contents r) + length xs \<le> bound \<Longrightarrow> list_all fits xs \<Longrightarrow>
   inv (push_all xs r) \<and> contents (push_all xs r) = contents r @ xs"
proof (induction xs arbitrary: r)
  case (Cons x xs)
  obtain r' b where "push x r = (r', b)" by fastforce
  then show ?case using Cons push_room [of r x r' b] by simp
qed simp

lemma pop_many_contents: "inv r \<Longrightarrow> pop_many n y r = take n (contents r)"
proof (induction n arbitrary: r)
  case (Suc n)
  obtain r' z b where p: "pop y r = (r', z, b)" by (metis prod_cases3)
  show ?case
  proof (cases "contents r")
    case Nil
    then show ?thesis using Suc.prems pop_empty by simp
  next
    case (Cons x xs)
    then show ?thesis using Suc pop_some [OF Suc.prems Cons p] p by simp
  qed
qed simp

text \<open>Whatever is offered, a push appends the value or leaves the contents.\<close>

lemma push_cases:
  assumes "inv r" "push x r = (r', b)"
  shows "inv r' \<and> contents r' = contents r @ (if b then [x] else [])"
  using push_refused [OF assms(1) _ assms(2)] push_room [OF assms(1) _ _ assms(2)] bounded [OF assms(1)]
  by (cases "length (contents r) = bound \<or> \<not> fits x") auto

text \<open>What fits comes out in the order it went in, and nothing more.\<close>

lemma fifo:
  assumes "inv r" "length (contents r) + length xs \<le> bound" "list_all fits xs"
  shows "pop_many (length (contents r) + length xs + k) y (push_all xs r) = contents r @ xs"
  using push_all_contents [OF assms] pop_many_contents by simp

end

text \<open>A ring between calls: the values from the consumer's to the producer's cursor.\<close>

definition ring_inv :: "nat \<Rightarrow> 'a SpscRing \<Rightarrow> bool" where
  "ring_inv Capacity r \<longleftrightarrow> unat (rg_producer r - rg_consumer r) \<le> Capacity"

definition ring_contents :: "nat \<Rightarrow> 'a SpscRing \<Rightarrow> 'a list" where
  "ring_contents Capacity r =
     map (\<lambda>i. rg_slots r (slot_of Capacity (rg_consumer r + of_nat i))) [0..<unat (rg_producer r - rg_consumer r)]"

lemma slot_of_mod: "ring_capacity Capacity \<Longrightarrow> slot_of Capacity c = unat c mod Capacity"
  using slot_of_nat [of Capacity "unat c"] by simp

lemma slots_distinct:
  assumes cap: "ring_capacity Capacity" and i: "i < n" "n < Capacity"
  shows "slot_of Capacity (c + of_nat i) \<noteq> slot_of Capacity (c + of_nat n)"
proof -
  have "slot_of Capacity (c + of_nat j) = (unat c + j) mod Capacity" for j
    using slot_of_nat [OF cap, of "unat c + j"] by simp
  then show ?thesis using slots_apart [of "unat c + i" "unat c + n" Capacity] i by simp
qed

lemma ring_push:
  assumes cap: "ring_capacity Capacity" and inv: "ring_inv Capacity r"
  shows "length (ring_contents Capacity r) = Capacity \<Longrightarrow> try_push Capacity x r = (r, False)"
    and "length (ring_contents Capacity r) < Capacity \<Longrightarrow> try_push Capacity x r = (r', b) \<Longrightarrow>
      b \<and> ring_inv Capacity r' \<and> ring_contents Capacity r' = ring_contents Capacity r @ [x]"
proof -
  let ?n = "unat (rg_producer r - rg_consumer r)"
  have u: "unat (of_nat Capacity :: u64) = Capacity"
    using capacity_bound [OF cap] by (simp add: unat_of_nat take_bit_nat_eq_self)
  have len: "length (ring_contents Capacity r) = ?n" by (simp add: ring_contents_def)
  have full: "rg_producer r - rg_consumer r = of_nat Capacity \<longleftrightarrow> ?n = Capacity"
    using u by (metis word_unat_eq_iff)
  show "length (ring_contents Capacity r) = Capacity \<Longrightarrow> try_push Capacity x r = (r, False)"
    using full len by (simp add: try_push_def)
  assume room: "length (ring_contents Capacity r) < Capacity" and p: "try_push Capacity x r = (r', b)"
  have n: "?n < Capacity" using room len by simp
  have r': "r' = r\<lparr>rg_slots := (rg_slots r)(slot_of Capacity (rg_producer r) := x), rg_producer := rg_producer r + 1\<rparr>" "b"
    using p full n by (auto simp: try_push_def Let_def split: if_splits)
  have "unat (rg_producer r + 1 - rg_consumer r) = unat ((rg_producer r - rg_consumer r) + 1)"
    by (simp add: algebra_simps)
  also have "\<dots> = Suc ?n"
    using n capacity_bound [OF cap] unat_add_nowrap [of "rg_producer r - rg_consumer r" 1] by simp
  finally have sz: "unat (rg_producer r' - rg_consumer r') = Suc ?n" by (simp add: r')
  have pr: "rg_producer r = rg_consumer r + of_nat ?n" by simp
  have "ring_contents Capacity r' = map (\<lambda>i. rg_slots r' (slot_of Capacity (rg_consumer r + of_nat i))) [0..<?n] @
      [rg_slots r' (slot_of Capacity (rg_consumer r + of_nat ?n))]"
    unfolding ring_contents_def sz by (simp add: r')
  also have "map (\<lambda>i. rg_slots r' (slot_of Capacity (rg_consumer r + of_nat i))) [0..<?n] = ring_contents Capacity r"
    unfolding ring_contents_def using slots_distinct [OF cap _ n, of _ "rg_consumer r"] by (auto simp: r')
  finally show "b \<and> ring_inv Capacity r' \<and> ring_contents Capacity r' = ring_contents Capacity r @ [x]"
    using r' sz n pr by (simp add: ring_inv_def)
qed

lemma ring_pop:
  assumes cap: "ring_capacity Capacity" and inv: "ring_inv Capacity r"
  shows "ring_contents Capacity r = [] \<Longrightarrow> try_pop Capacity y r = (r, y, False)"
    and "ring_contents Capacity r = x # xs \<Longrightarrow> try_pop Capacity y r = (r', z, b) \<Longrightarrow>
      b \<and> z = x \<and> ring_inv Capacity r' \<and> ring_contents Capacity r' = xs"
proof -
  let ?n = "unat (rg_producer r - rg_consumer r)"
  have len: "length (ring_contents Capacity r) = ?n" by (simp add: ring_contents_def)
  show "ring_contents Capacity r = [] \<Longrightarrow> try_pop Capacity y r = (r, y, False)"
    using len by (simp add: try_pop_def Let_def unsigned_eq_0_iff)
  assume c: "ring_contents Capacity r = x # xs" and p: "try_pop Capacity y r = (r', z, b)"
  obtain n where n: "?n = Suc n" using len c by (cases ?n) auto
  then have ne: "rg_consumer r \<noteq> rg_producer r" by auto
  then have r': "r' = r\<lparr>rg_consumer := rg_consumer r + 1\<rparr>" "z = rg_slots r (slot_of Capacity (rg_consumer r))" "b"
    using p by (auto simp: try_pop_def Let_def)
  have "rg_producer r' - rg_consumer r' = (rg_producer r - rg_consumer r) - 1" by (simp add: r' algebra_simps)
  then have sz: "unat (rg_producer r' - rg_consumer r') = n"
    using n unat_sub_nowrap [of 1 "rg_producer r - rg_consumer r"] by simp
  have "x # xs = rg_slots r (slot_of Capacity (rg_consumer r + of_nat 0)) #
      map (\<lambda>i. rg_slots r (slot_of Capacity (rg_consumer r + of_nat (Suc i)))) [0..<n]"
    using c unfolding ring_contents_def n by (simp add: upt_conv_Cons map_Suc_upt [symmetric] comp_def del: upt_Suc)
  then show "b \<and> z = x \<and> ring_inv Capacity r' \<and> ring_contents Capacity r' = xs"
    using r' sz n inv by (auto simp: ring_inv_def ring_contents_def add.assoc)
qed

interpretation spsc_ring: bounded_fifo "\<lambda>r. ring_capacity Capacity \<and> ring_inv Capacity r"
  "ring_contents Capacity" Capacity "\<lambda>_. True" "try_push Capacity" "try_pop Capacity" for Capacity
proof unfold_locales
  fix r :: "'b SpscRing" and x xs y z r' b
  assume "ring_capacity Capacity \<and> ring_inv Capacity r"
  then have r: "ring_capacity Capacity" "ring_inv Capacity r" by auto
  show "length (ring_contents Capacity r) \<le> Capacity" using r(2) by (simp add: ring_contents_def ring_inv_def)
  show "length (ring_contents Capacity r) = Capacity \<or> \<not> True \<Longrightarrow> try_push Capacity x r = (r', b) \<Longrightarrow>
      \<not> b \<and> (ring_capacity Capacity \<and> ring_inv Capacity r') \<and> ring_contents Capacity r' = ring_contents Capacity r"
    using ring_push(1) [OF r] r by auto
  show "length (ring_contents Capacity r) < Capacity \<Longrightarrow> try_push Capacity x r = (r', b) \<Longrightarrow>
      b \<and> (ring_capacity Capacity \<and> ring_inv Capacity r') \<and> ring_contents Capacity r' = ring_contents Capacity r @ [x]"
    using ring_push(2) [OF r] r(1) by blast
  show "ring_contents Capacity r = [] \<Longrightarrow> try_pop Capacity y r = (r, y, False)"
    by (rule ring_pop(1) [OF r])
  show "ring_contents Capacity r = x # xs \<Longrightarrow> try_pop Capacity y r = (r', z, b) \<Longrightarrow>
      b \<and> z = x \<and> (ring_capacity Capacity \<and> ring_inv Capacity r') \<and> ring_contents Capacity r' = xs"
    using ring_pop(2) [OF r] r(1) by blast
qed

text \<open>A call that is not interrupted is the sequential operation.\<close>

definition push_call :: "nat \<Rightarrow> 'a \<Rightarrow> 'a spsc \<Rightarrow> 'a spsc" where
  "push_call Capacity v s =
     (let step = push_next Capacity v; s = step (step (step s))
      in if sp_push s = push_idle then s else step s)"

lemma push_call_try_push:
  "sp_push s = push_idle \<Longrightarrow> sp_push (push_call Capacity v s) = push_idle \<and>
     try_push Capacity v (sp_ring s) =
       (sp_ring (push_call Capacity v s), sp_pushed (push_call Capacity v s) \<noteq> sp_pushed s)"
  by (auto simp: push_call_def push_next_def try_push_def Let_def)

lemma spsc_contents:
  assumes cap: "ring_capacity Capacity" and inv: "spsc_inv Capacity s"
  shows "ring_inv Capacity (sp_ring s)"
    and "ring_contents Capacity (sp_ring s) = drop (length (sp_popped s)) (sp_pushed s)"
    and "unat (approximate_size (sp_ring s)) = length (sp_pushed s) - length (sp_popped s)"
proof -
  let ?n = "length (sp_pushed s)" and ?m = "length (sp_popped s)" and ?r = "sp_ring s"
  have c: "rg_producer ?r = of_nat ?n" "rg_consumer ?r = of_nat ?m" "?m \<le> ?n" "?n \<le> ?m + Capacity"
    "slots_ok Capacity (sp_pushed s) ?m (rg_slots ?r)"
    using inv by (simp_all add: spsc_inv_def Let_def cursors_ok_def)
  have sz: "unat (rg_producer ?r - rg_consumer ?r) = ?n - ?m"
    unfolding c(1,2) using c(3,4) capacity_bound [OF cap] by (intro cursor_difference) auto
  show "ring_inv Capacity ?r" using sz c by (simp add: ring_inv_def)
  show "unat (approximate_size ?r) = ?n - ?m" using sz by (simp add: approximate_size_def)
  have "slot_of Capacity (of_nat ?m + of_nat i) = (?m + i) mod Capacity" for i
    using slot_of_nat [OF cap, of "?m + i"] by simp
  then show "ring_contents Capacity ?r = drop ?m (sp_pushed s)"
    unfolding ring_contents_def sz using c(2,5) by (intro nth_equalityI) (auto simp: slots_ok_def)
qed

section \<open>Properties\<close>

text \<open>
  Claim C6. However the accesses of the producer and of the consumer interleave, and however often the
  cursors wrap, the values popped are a prefix of the values pushed, in order and each once, the ring
  holds exactly the rest, which never exceeds the capacity, and \<open>approximate_size\<close> is its number.
\<close>

theorem spsc_ring_fifo:
  assumes "ring_capacity Capacity" "spsc_reachable Capacity zero s"
  shows "sp_pushed s = sp_popped s @ ring_contents Capacity (sp_ring s) \<and>
    length (ring_contents Capacity (sp_ring s)) \<le> Capacity \<and>
    unat (approximate_size (sp_ring s)) = length (ring_contents Capacity (sp_ring s))"
proof -
  have inv: "spsc_inv Capacity s" by (rule spsc_reachable_inv [OF assms(2,1)])
  note c = spsc_contents [OF assms(1) inv]
  have "sp_popped s = take (length (sp_popped s)) (sp_pushed s)" using inv by (simp add: spsc_inv_def Let_def)
  then have "sp_pushed s = sp_popped s @ drop (length (sp_popped s)) (sp_pushed s)"
    by (metis append_take_drop_id)
  then show ?thesis
    using c spsc_ring.bounded [of Capacity "sp_ring s"] assms(1) by simp
qed

theorem spsc_ring_fifo_witness:
  "\<exists>s :: nat spsc. sp_pushed s = [5, 6] \<and> sp_popped s = [5] \<and> ring_contents 2 (sp_ring s) = [6]"
proof -
  let ?p = "push_next 2" and ?c = "pop_next 2"
  let ?s = "?c (?c (?p 0 (?c (?p 0 (?c (?p 0 (?p 6 (?p 0 (?p 0 (?p 0 (?p (5 :: nat) (new_spsc 0))))))))))))"
  have r: "spsc_reachable 2 0 ?s" by (intro spsc_reachable.intros)
  have c: "ring_capacity 2" unfolding ring_capacity_def by (intro exI [of _ 1]) simp
  have q: "sp_pushed ?s = sp_popped ?s @ ring_contents 2 (sp_ring ?s)" using spsc_ring_fifo [OF c r] by (rule conjunct1)
  have v: "sp_pushed ?s = [5, 6]" "sp_popped ?s = [5]"
    by (simp_all add: push_next_def pop_next_def new_spsc_def new_SpscRing_def slot_of_def)
  have "ring_contents 2 (sp_ring ?s) = [6]" using q unfolding v by simp
  with v show ?thesis by blast
qed

end
