(* ===== verification/Bpf_Filter.thy ===== *)
theory Bpf_Filter
  imports Ethernet
begin

text \<open>
  The capture filter (\<open>install_capture_filter\<close> of \<^verbatim>\<open>src/link/darwin/bpf_backend.cpp\<close>): the program the
  source assembles for the kernel's packet filter. The filter machine is the kernel's: it is the argument
  \<open>vm\<close> of the property, of which \<open>bpf_semantics\<close> assumes what \<^verbatim>\<open>bpf(4)\<close> documents of the five kinds of
  instruction used. \<open>bpf_exec\<close> is a machine that has it.
\<close>

datatype bpf_insn =
    LD_W_ABS u32
  | LD_H_ABS u32
  | LD_B_ABS u32
  | JEQ_K u32 u8 u8
  | RET_K u32

definition local_prefix :: "MacAddress \<Rightarrow> u32" where
  "local_prefix mac = push_bit 24 (ucast (mac ! 0)) OR push_bit 16 (ucast (mac ! 1))
     OR push_bit 8 (ucast (mac ! 2)) OR ucast (mac ! 3)"

definition local_suffix :: "MacAddress \<Rightarrow> u32" where
  "local_suffix mac = push_bit 8 (ucast (mac ! 4)) OR ucast (mac ! 5)"

definition filter_instructions :: "MacAddress \<Rightarrow> bpf_insn list" where
  "filter_instructions mac =
     [LD_W_ABS 0,
      JEQ_K (local_prefix mac) 0 2,
      LD_H_ABS 4,
      JEQ_K (local_suffix mac) 3 9,
      JEQ_K 0xFFFFFFFF 0 8,
      LD_H_ABS 4,
      JEQ_K 0xFFFF 0 6,
      LD_H_ABS 12,
      JEQ_K (ucast kEtherTypeArp) 3 0,
      JEQ_K (ucast kEtherTypeIpv4) 0 3,
      LD_B_ABS 23,
      JEQ_K 253 0 1,
      RET_K (- 1),
      RET_K 0]"

text \<open>\<open>set_filter\<close> is the \<open>BIOCSETF\<close> request, \<open>None\<close> its success.\<close>

definition install_capture_filter ::
  "('w \<Rightarrow> bpf_insn list \<Rightarrow> 'w \<times> error_code option) \<Rightarrow> 'w \<Rightarrow> CaptureFilter \<Rightarrow> MacAddress
     \<Rightarrow> 'w \<times> error_code option" where
  "install_capture_filter set_filter w selection local_mac =
     (case selection of
        cf_none \<Rightarrow> (w, None)
      | cf_stack_arp_ipv4_253 \<Rightarrow> set_filter w (filter_instructions local_mac))"

section \<open>The filter machine\<close>

type_synonym bpf_machine = "bpf_insn list \<Rightarrow> byte list \<Rightarrow> nat \<Rightarrow> u32 \<Rightarrow> u32"

text \<open>
  \<open>vm prog pkt pc a\<close> is what running from instruction \<open>pc\<close> with the accumulator \<open>a\<close> returns. A load outside
  the packet ends the program with 0.
\<close>

definition bpf_semantics :: "bpf_machine \<Rightarrow> bool" where
  "bpf_semantics vm \<longleftrightarrow> (\<forall>prog pkt pc a. pc < length prog \<longrightarrow> vm prog pkt pc a =
     (case prog ! pc of
        LD_W_ABS k \<Rightarrow> if unat k + 4 \<le> length pkt then vm prog pkt (pc + 1) (read_be32 pkt (unat k)) else 0
      | LD_H_ABS k \<Rightarrow> if unat k + 2 \<le> length pkt then vm prog pkt (pc + 1) (ucast (read_be16 pkt (unat k))) else 0
      | LD_B_ABS k \<Rightarrow> if unat k < length pkt then vm prog pkt (pc + 1) (ucast (pkt ! unat k)) else 0
      | JEQ_K k jt jf \<Rightarrow> vm prog pkt (pc + 1 + (if a = k then unat jt else unat jf)) a
      | RET_K k \<Rightarrow> k))"

function bpf_exec :: bpf_machine where
  "bpf_exec prog pkt pc a =
     (if pc < length prog
      then (case prog ! pc of
        LD_W_ABS k \<Rightarrow> if unat k + 4 \<le> length pkt then bpf_exec prog pkt (pc + 1) (read_be32 pkt (unat k)) else 0
      | LD_H_ABS k \<Rightarrow> if unat k + 2 \<le> length pkt then bpf_exec prog pkt (pc + 1) (ucast (read_be16 pkt (unat k))) else 0
      | LD_B_ABS k \<Rightarrow> if unat k < length pkt then bpf_exec prog pkt (pc + 1) (ucast (pkt ! unat k)) else 0
      | JEQ_K k jt jf \<Rightarrow> bpf_exec prog pkt (pc + 1 + (if a = k then unat jt else unat jf)) a
      | RET_K k \<Rightarrow> k)
      else 0)"
  by pat_completeness auto
termination
  by (relation "measure (\<lambda>(prog, pkt, pc, a). length prog - pc)") auto

declare bpf_exec.simps [simp del]

lemma bpf_exec_semantics: "bpf_semantics bpf_exec"
  unfolding bpf_semantics_def by (auto simp: bpf_exec.simps split: bpf_insn.split)

section \<open>What the program accepts\<close>

lemma filter_length: "length (filter_instructions mac) = 14"
  by (simp add: filter_instructions_def)

text \<open>The program run from its decision points.\<close>

lemma filter_step:
  assumes "bpf_semantics vm" "pc < 14"
  shows "vm (filter_instructions mac) pkt pc a =
     (case filter_instructions mac ! pc of
        LD_W_ABS k \<Rightarrow> if unat k + 4 \<le> length pkt then vm (filter_instructions mac) pkt (pc + 1) (read_be32 pkt (unat k)) else 0
      | LD_H_ABS k \<Rightarrow> if unat k + 2 \<le> length pkt
          then vm (filter_instructions mac) pkt (pc + 1) (ucast (read_be16 pkt (unat k))) else 0
      | LD_B_ABS k \<Rightarrow> if unat k < length pkt then vm (filter_instructions mac) pkt (pc + 1) (ucast (pkt ! unat k)) else 0
      | JEQ_K k jt jf \<Rightarrow> vm (filter_instructions mac) pkt (pc + 1 + (if a = k then unat jt else unat jf)) a
      | RET_K k \<Rightarrow> k)"
proof -
  have "pc < length (filter_instructions mac)" using assms(2) by (simp add: filter_length)
  then show ?thesis using assms(1) unfolding bpf_semantics_def by blast
qed

lemma filter_at:
  "filter_instructions mac ! 0 = LD_W_ABS 0" "filter_instructions mac ! Suc 0 = JEQ_K (local_prefix mac) 0 2"
  "filter_instructions mac ! 2 = LD_H_ABS 4" "filter_instructions mac ! 3 = JEQ_K (local_suffix mac) 3 9"
  "filter_instructions mac ! 4 = JEQ_K 0xFFFFFFFF 0 8" "filter_instructions mac ! 5 = LD_H_ABS 4"
  "filter_instructions mac ! 6 = JEQ_K 0xFFFF 0 6" "filter_instructions mac ! 7 = LD_H_ABS 12"
  "filter_instructions mac ! 8 = JEQ_K (ucast kEtherTypeArp) 3 0"
  "filter_instructions mac ! 9 = JEQ_K (ucast kEtherTypeIpv4) 0 3"
  "filter_instructions mac ! 10 = LD_B_ABS 23" "filter_instructions mac ! 11 = JEQ_K 253 0 1"
  "filter_instructions mac ! 12 = RET_K (- 1)" "filter_instructions mac ! 13 = RET_K 0"
  by (simp_all add: filter_instructions_def numeral_eq_Suc)

lemma ucast_u16_eq: "(ucast (x :: u16) :: u32) = ucast y \<longleftrightarrow> x = y"
proof -
  have "unat (ucast (z :: u16) :: u32) = unat z" for z
  proof -
    have "unat z < 2 ^ LENGTH(16)" by (rule unsigned_less)
    then show ?thesis by (simp add: unsigned_ucast_eq take_bit_nat_eq_self)
  qed
  then show ?thesis by (metis word_unat_eq_iff)
qed

lemma ucast_u8_eq: "(ucast (x :: u8) :: u32) = 253 \<longleftrightarrow> x = 253"
proof -
  have u: "unat (ucast (z :: u8) :: u32) = unat z" for z
  proof -
    have "unat z < 2 ^ LENGTH(8)" by (rule unsigned_less)
    then show ?thesis by (simp add: unsigned_ucast_eq take_bit_nat_eq_self)
  qed
  have "(253 :: u32) = ucast (253 :: u8)" by simp
  then show ?thesis using u by (metis word_unat_eq_iff)
qed

lemma filter_type:
  assumes vm: "bpf_semantics vm"
  shows "vm (filter_instructions mac) pkt 7 a =
    (if 14 \<le> length pkt \<and> (read_be16 pkt 12 = kEtherTypeArp \<or>
        read_be16 pkt 12 = kEtherTypeIpv4 \<and> 24 \<le> length pkt \<and> pkt ! 23 = 253) then - 1 else 0)"
proof -
  note at = filter_step [OF vm] filter_at
  have 13: "vm (filter_instructions mac) pkt 13 b = 0" for b by (subst at(1)) (simp_all add: at(2-))
  have 12: "vm (filter_instructions mac) pkt 12 b = - 1" for b by (subst at(1)) (simp_all add: at(2-))
  have 11: "vm (filter_instructions mac) pkt 11 b = (if b = 253 then - 1 else 0)" for b
    by (subst at(1)) (simp_all add: at(2-) 12 13)
  have 10: "vm (filter_instructions mac) pkt 10 b = (if 24 \<le> length pkt \<and> pkt ! 23 = 253 then - 1 else 0)" for b
    by (subst at(1)) (auto simp: at(2-) 11 ucast_u8_eq)
  have 9: "vm (filter_instructions mac) pkt 9 b =
      (if b = ucast kEtherTypeIpv4 then if 24 \<le> length pkt \<and> pkt ! 23 = 253 then - 1 else 0 else 0)" for b
    by (subst at(1)) (simp_all add: at(2-) 10 13)
  have 8: "vm (filter_instructions mac) pkt 8 b = (if b = ucast kEtherTypeArp then - 1
      else if b = ucast kEtherTypeIpv4 then if 24 \<le> length pkt \<and> pkt ! 23 = 253 then - 1 else 0 else 0)" for b
    by (subst at(1)) (simp_all add: at(2-) 9 12)
  show ?thesis
    by (subst at(1)) (auto simp: at(2-) 8 ucast_u16_eq)
qed

lemma read_be32_eq_iff:
  assumes "4 \<le> length bs" "4 \<le> length cs"
  shows "read_be32 bs 0 = read_be32 cs 0 \<longleftrightarrow> take 4 bs = take 4 cs"
proof
  show "read_be32 bs 0 = read_be32 cs 0 \<Longrightarrow> take 4 bs = take 4 cs"
    using be32_read_be32 [of 0 bs] be32_read_be32 [of 0 cs] assms by simp
  assume e: "take 4 bs = take 4 cs"
  have "read_be32 bs 0 = read_be32 (take 4 bs) 0"
    using read_be32_prefix [of 0 "take 4 bs" "drop 4 bs"] assms by simp
  also have "\<dots> = read_be32 cs 0"
    unfolding e using read_be32_prefix [of 0 "take 4 cs" "drop 4 cs"] assms by simp
  finally show "read_be32 bs 0 = read_be32 cs 0" .
qed

lemma read_be16_eq_iff:
  assumes "i + 2 \<le> length bs" "i + 2 \<le> length cs"
  shows "read_be16 bs i = read_be16 cs i \<longleftrightarrow> take 2 (drop i bs) = take 2 (drop i cs)"
proof
  show "read_be16 bs i = read_be16 cs i \<Longrightarrow> take 2 (drop i bs) = take 2 (drop i cs)"
    using be16_read_be16 [OF assms(1)] be16_read_be16 [OF assms(2)] by simp
  assume e: "take 2 (drop i bs) = take 2 (drop i cs)"
  have "bs ! (i + k) = cs ! (i + k)" if "k < 2" for k
    using that assms arg_cong [OF e, of "\<lambda>l. l ! k"] by simp
  from this [of 0] this [of 1] show "read_be16 bs i = read_be16 cs i" by (simp add: read_be16_def)
qed

text \<open>Six bytes are their first four and their last two.\<close>

lemma take_6_iff: "take 6 bs = take 6 cs \<longleftrightarrow> take 4 bs = take 4 cs \<and> take 2 (drop 4 bs) = take 2 (drop 4 cs)"
  if "6 \<le> length bs" "6 \<le> length cs" for bs cs :: "byte list"
proof -
  have *: "take 6 xs = take 4 xs @ take 2 (drop 4 xs)" for xs :: "byte list" using take_add [of 4 2 xs] by simp
  show ?thesis unfolding * using that by auto
qed

lemma local_prefix_read: "local_prefix mac = read_be32 mac 0"
  by (simp add: local_prefix_def read_be32_def numeral_eq_Suc)

lemma local_suffix_read: "local_suffix mac = ucast (read_be16 mac 4)"
  by (rule bit_word_eqI) (auto simp: local_suffix_def read_be16_def bit_simps dest: bit_imp_le_length)

definition broadcast :: MacAddress where "broadcast = replicate 6 0xFF"

lemma broadcast_read: "read_be32 broadcast 0 = 0xFFFFFFFF" "ucast (read_be16 broadcast 4) = (0xFFFF :: u32)"
  by code_simp+

section \<open>Properties\<close>

text \<open>
  Claim C13. On a machine that runs the filter's instructions as documented, the capture filter accepts, in
  full length, exactly the frames addressed to the interface or broadcast that carry ARP, or IPv4 with
  protocol 253 in its header, and refuses every other frame, truncated ones included. The interface's address must not begin
  with ff:ff:ff:ff, which only group addresses do.
\<close>

theorem capture_filter_exact:
  assumes vm: "bpf_semantics vm" and mac: "length mac = 6" "take 4 mac \<noteq> take 4 broadcast"
  shows "vm (filter_instructions mac) frame 0 0 =
    (if 14 \<le> length frame \<and> (take 6 frame = mac \<or> take 6 frame = broadcast) \<and>
        (read_be16 frame 12 = kEtherTypeArp \<or>
         read_be16 frame 12 = kEtherTypeIpv4 \<and> 24 \<le> length frame \<and> frame ! 23 = 253)
     then - 1 else 0)"
proof -
  let ?vm = "vm (filter_instructions mac) frame"
  let ?type = "14 \<le> length frame \<and> (read_be16 frame 12 = kEtherTypeArp \<or>
        read_be16 frame 12 = kEtherTypeIpv4 \<and> 24 \<le> length frame \<and> frame ! 23 = 253)"
  note at = filter_step [OF vm] filter_at
  have 13: "?vm 13 b = 0" for b by (subst at(1)) (simp_all add: at(2-))
  have 6: "?vm 6 b = (if b = 0xFFFF \<and> ?type then - 1 else 0)" for b
    by (subst at(1)) (auto simp: at(2-) 13 filter_type [OF vm])
  have 5: "?vm 5 b = (if 6 \<le> length frame \<and> ucast (read_be16 frame 4) = (0xFFFF :: u32) \<and> ?type then - 1 else 0)" for b
    by (subst at(1)) (auto simp: at(2-) 6)
  have 4: "?vm 4 b = (if b = 0xFFFFFFFF \<and> 6 \<le> length frame \<and> ucast (read_be16 frame 4) = (0xFFFF :: u32) \<and> ?type
      then - 1 else 0)" for b
    by (subst at(1)) (auto simp: at(2-) 5 13)
  have 3: "?vm 3 b = (if b = local_suffix mac \<and> ?type then - 1 else 0)" for b
    by (subst at(1)) (auto simp: at(2-) 13 filter_type [OF vm])
  have 2: "?vm 2 b = (if 6 \<le> length frame \<and> ucast (read_be16 frame 4) = local_suffix mac \<and> ?type then - 1 else 0)" for b
    by (subst at(1)) (auto simp: at(2-) 3)
  have 1: "?vm 1 b = (if b = local_prefix mac then ?vm 2 b else ?vm 4 b)" for b
    by (subst at(1)) (auto simp: at(2-) simp flip: numeral_2_eq_2)
  have 0: "?vm 0 0 = (if 4 \<le> length frame then ?vm 1 (read_be32 frame 0) else 0)"
    by (subst at(1)) (auto simp: at(2-))
  show ?thesis
  proof (cases "14 \<le> length frame")
    case False
    then show ?thesis unfolding 0 1 2 4 by auto
  next
    case True
    have pre: "read_be32 frame 0 = local_prefix mac \<longleftrightarrow> take 4 frame = take 4 mac"
      unfolding local_prefix_read using read_be32_eq_iff [of frame mac] True mac(1) by simp
    have suf: "ucast (read_be16 frame 4) = local_suffix mac \<longleftrightarrow> take 2 (drop 4 frame) = take 2 (drop 4 mac)"
      unfolding local_suffix_read ucast_u16_eq using read_be16_eq_iff [of 4 frame mac] True mac(1) by simp
    have len: "length broadcast = 6" by (simp add: broadcast_def)
    have bpre: "read_be32 frame 0 = 0xFFFFFFFF \<longleftrightarrow> take 4 frame = take 4 broadcast"
      using read_be32_eq_iff [of frame broadcast] True len by (simp add: broadcast_read)
    have bsuf: "ucast (read_be16 frame 4) = (0xFFFF :: u32) \<longleftrightarrow> take 2 (drop 4 frame) = take 2 (drop 4 broadcast)"
      unfolding broadcast_read(2) [symmetric] ucast_u16_eq using read_be16_eq_iff [of 4 frame broadcast] True len by simp
    have m: "take 6 frame = mac \<longleftrightarrow> take 4 frame = take 4 mac \<and> take 2 (drop 4 frame) = take 2 (drop 4 mac)"
      using take_6_iff [of frame mac] True mac(1) by simp
    have b: "take 6 frame = broadcast \<longleftrightarrow> take 4 frame = take 4 broadcast \<and> take 2 (drop 4 frame) = take 2 (drop 4 broadcast)"
      using take_6_iff [of frame broadcast] True len by simp
    show ?thesis unfolding 0 1 2 4 pre suf bpre bsuf m b using True mac(2) by auto
  qed
qed

definition example_frame :: "byte list" where
  "example_frame = [2, 0, 0, 0, 0, 1] @ [2, 0, 0, 0, 0, 2] @ [8, 0] @ replicate 9 0 @ [253]"

lemma example_frame_type: "read_be16 example_frame 12 = kEtherTypeIpv4" "example_frame ! 23 = 253"
  by code_simp+

theorem capture_filter_exact_witness:
  "bpf_exec (filter_instructions [2, 0, 0, 0, 0, 1]) example_frame 0 0 = - 1"
proof -
  have "take 4 [2, 0, 0, 0, 0, 1] \<noteq> take 4 broadcast" by code_simp
  moreover have "24 \<le> length example_frame" "take 6 example_frame = [2, 0, 0, 0, 0, 1]"
    by (simp_all add: example_frame_def)
  ultimately show ?thesis
    using capture_filter_exact [OF bpf_exec_semantics, of "[2, 0, 0, 0, 0, 1]" example_frame] example_frame_type
    by simp
qed

end
