(* ===== verification/Bpf_Backend.thy ===== *)
theory Bpf_Backend
  imports Bpf_Filter
begin

text \<open>
  The packet-capture backend (\<^verbatim>\<open>src/link/darwin/bpf_backend.hpp\<close> and \<^verbatim>\<open>bpf_backend.cpp\<close>).

  The system calls are a parameter, the record \<open>bpf_os\<close> of functions on the state \<open>'w\<close> of the system: a
  call returns the new state and a value or an \<open>errno\<close>. The layout of the capture header is a parameter
  too (\<open>bpf_abi\<close>: where \<open>bh_hdrlen\<close> lies, how the fields are read, how records are aligned). The loops that
  repeat a call while it is interrupted may not end, and return an option.
\<close>

definition EINTR :: nat where "EINTR = 4"
definition EBUSY :: nat where "EBUSY = 16"
definition ENOENT :: nat where "ENOENT = 2"
definition IFNAMSIZ :: nat where "IFNAMSIZ = 16"
definition BPF_MAJOR_VERSION :: nat where "BPF_MAJOR_VERSION = 1"
definition BPF_MINOR_VERSION :: nat where "BPF_MINOR_VERSION = 1"
definition BPF_MAXBUFSIZE :: nat where "BPF_MAXBUFSIZE = 0x80000"
definition DLT_EN10MB :: nat where "DLT_EN10MB = 1"
definition kMaxBpfDevices :: nat where "kMaxBpfDevices = 256"

definition errno_error :: "nat \<Rightarrow> error_code" where
  "errno_error errno = (if errno = 0 then no_error else other_error errno)"

record TxMetadata =
  tm_monotonic_before_ns :: u64
  tm_monotonic_after_ns :: u64

record BpfStatistics =
  bs_received :: u32
  bs_dropped :: u32

record BpfBackend =
  bb_fd :: nat
  bb_kqueue_fd :: nat
  bb_read_buffer_size :: nat
  bb_info :: InterfaceInfo

section \<open>The system\<close>

datatype ioctl_request = BIOCVERSION | BIOCSBLEN nat | BIOCSETIF string | BIOCGDLT | BIOCSHDRCMPLT nat
  | BIOCPROMISC | BIOCSSEESENT nat | BIOCSETF "bpf_insn list" | BIOCIMMEDIATE nat | BIOCFLUSH
  | SIOCGIFMTU string | BIOCGSTATS

datatype ioctl_reply = reply_error nat | reply_ok | reply_version nat nat | reply_uint nat
  | reply_int int | reply_stats u32 u32

datatype ready = ready_error nat | ready_timeout | ready_event bool nat

record timespec =
  tv_sec :: int
  tv_nsec :: int

record ifaddr =
  ifa_name :: "string option"
  ifa_link_address :: "byte list option"

record 'w bpf_os =
  os_open :: "'w \<Rightarrow> nat \<Rightarrow> 'w \<times> (nat + nat)"
  os_socket :: "'w \<Rightarrow> 'w \<times> (nat + nat)"
  os_kqueue :: "'w \<Rightarrow> 'w \<times> (nat + nat)"
  os_close :: "'w \<Rightarrow> nat \<Rightarrow> 'w"
  os_ioctl :: "'w \<Rightarrow> nat \<Rightarrow> ioctl_request \<Rightarrow> 'w \<times> ioctl_reply"
  os_getifaddrs :: "'w \<Rightarrow> 'w \<times> (nat + ifaddr list)"
  os_kevent_add :: "'w \<Rightarrow> nat \<Rightarrow> nat \<Rightarrow> 'w \<times> nat option"
  os_kevent :: "'w \<Rightarrow> nat \<Rightarrow> timespec option \<Rightarrow> 'w \<times> ready"
  os_read :: "'w \<Rightarrow> nat \<Rightarrow> nat \<Rightarrow> 'w \<times> (nat + byte list)"
  os_write :: "'w \<Rightarrow> nat \<Rightarrow> byte list \<Rightarrow> 'w \<times> (nat + nat)"
  os_clock :: "'w \<Rightarrow> 'w \<times> (nat + timespec)"

section \<open>Opening\<close>

text \<open>The first device that opens, among those that exist and are not busy; the path is \<^verbatim>\<open>/dev/bpf\<close>\<open>index\<close>.\<close>

fun open_loop :: "'w bpf_os \<Rightarrow> nat list \<Rightarrow> bool \<Rightarrow> 'w \<Rightarrow> 'w \<times> (error_code + nat)" where
  "open_loop os [] saw_busy_device w =
     (w, Inl (if saw_busy_device then device_or_resource_busy else no_such_device))"
| "open_loop os (index # rest) saw_busy_device w =
     (case os_open os w index of
        (w, Inr fd) \<Rightarrow> (w, Inr fd)
      | (w, Inl errno) \<Rightarrow>
          if errno = EBUSY then open_loop os rest True w
          else if errno = ENOENT then open_loop os rest saw_busy_device w
          else (w, Inl (errno_error errno)))"

definition open_available_bpf :: "'w bpf_os \<Rightarrow> 'w \<Rightarrow> 'w \<times> (error_code + nat)" where
  "open_available_bpf os w = open_loop os [0..<kMaxBpfDevices] False w"

text \<open>Continue with the reply of a request, or return its error.\<close>

definition on_reply ::
  "'w \<times> ioctl_reply \<Rightarrow> ('w \<Rightarrow> ioctl_reply \<Rightarrow> 'w \<times> (error_code + 'a)) \<Rightarrow> 'w \<times> (error_code + 'a)" where
  "on_reply r k = (case r of (w, reply) \<Rightarrow>
     case reply of reply_error errno \<Rightarrow> (w, Inl (errno_error errno)) | _ \<Rightarrow> k w reply)"

definition valid_interface_name :: "string \<Rightarrow> bool" where
  "valid_interface_name name \<longleftrightarrow> name \<noteq> [] \<and> length name < IFNAMSIZ"

definition find_mac :: "string \<Rightarrow> ifaddr list \<Rightarrow> MacAddress option" where
  "find_mac interface_name addresses =
     (case find (\<lambda>a. ifa_name a = Some interface_name \<and>
              (case ifa_link_address a of None \<Rightarrow> False | Some bytes \<Rightarrow> length bytes = 6)) addresses of
        None \<Rightarrow> None | Some a \<Rightarrow> ifa_link_address a)"

definition mtu_of_reply :: "ioctl_reply \<Rightarrow> int" where
  "mtu_of_reply reply = (case reply of reply_int mtu \<Rightarrow> mtu | _ \<Rightarrow> 0)"

text \<open>The body between opening and closing the control socket.\<close>

definition query_on_socket ::
  "'w bpf_os \<Rightarrow> 'w \<Rightarrow> nat \<Rightarrow> string \<Rightarrow> InterfaceInfo \<Rightarrow> 'w \<times> (error_code + InterfaceInfo)" where
  "query_on_socket os w control_socket interface_name info =
     on_reply (os_ioctl os w control_socket (SIOCGIFMTU interface_name)) (\<lambda>w reply.
       if mtu_of_reply reply \<le> 0 then (w, Inl protocol_error)
       else
         let info = info\<lparr>ii_mtu := word_of_int (mtu_of_reply reply)\<rparr> in
         (case os_getifaddrs os w of
            (w, Inl errno) \<Rightarrow> (w, Inl (errno_error errno))
          | (w, Inr addresses) \<Rightarrow>
              (case find_mac interface_name addresses of
                 None \<Rightarrow> (w, Inl address_not_available)
               | Some mac \<Rightarrow> (w, Inr (info\<lparr>ii_mac := mac\<rparr>)))))"

definition query_interface_info ::
  "'w bpf_os \<Rightarrow> 'w \<Rightarrow> string \<Rightarrow> InterfaceInfo \<Rightarrow> 'w \<times> (error_code + InterfaceInfo)" where
  "query_interface_info os w interface_name info =
     (if \<not> valid_interface_name interface_name then (w, Inl invalid_argument)
      else case os_socket os w of
        (w, Inl errno) \<Rightarrow> (w, Inl (errno_error errno))
      | (w, Inr control_socket) \<Rightarrow>
          (case query_on_socket os w control_socket interface_name info of
             (w, result) \<Rightarrow> (os_close os w control_socket, result)))"

text \<open>
  The request sequence on the open device, up to the flush. A reply of another kind than the request's
  does not occur; it is read as zero, as the source's zero-initialised variable would be.
\<close>

definition set_filter :: "'w bpf_os \<Rightarrow> nat \<Rightarrow> 'w \<Rightarrow> bpf_insn list \<Rightarrow> 'w \<times> error_code option" where
  "set_filter os fd w program =
     (case os_ioctl os w fd (BIOCSETF program) of
        (w, reply_error errno) \<Rightarrow> (w, Some (errno_error errno))
      | (w, reply) \<Rightarrow> (w, None))"

definition finish_configuration ::
  "'w bpf_os \<Rightarrow> LinkConfig \<Rightarrow> nat \<Rightarrow> nat \<Rightarrow> 'w \<Rightarrow> 'w \<times> (error_code + InterfaceInfo)" where
  "finish_configuration os config fd buffer_bytes w =
     (let info = \<lparr>ii_mac = zero_mac, ii_mtu = 0, ii_bpf_buffer_bytes = buffer_bytes\<rparr> in
      case query_interface_info os w (lc_interface_name config) info of
        (w, Inl e) \<Rightarrow> (w, Inl e)
      | (w, Inr info) \<Rightarrow>
          (case install_capture_filter (set_filter os fd) w (lc_capture_filter config) (ii_mac info) of
             (w, Some e) \<Rightarrow> (w, Inl e)
           | (w, None) \<Rightarrow>
               on_reply (os_ioctl os w fd (BIOCIMMEDIATE 1)) (\<lambda>w _.
               on_reply (os_ioctl os w fd BIOCFLUSH) (\<lambda>w _. (w, Inr info)))))"

definition buffer_of_reply :: "nat \<Rightarrow> ioctl_reply \<Rightarrow> nat" where
  "buffer_of_reply requested reply = (case reply of reply_uint n \<Rightarrow> n | _ \<Rightarrow> requested)"

definition configure_interface ::
  "'w bpf_os \<Rightarrow> LinkConfig \<Rightarrow> nat \<Rightarrow> nat \<Rightarrow> 'w \<Rightarrow> 'w \<times> (error_code + InterfaceInfo)" where
  "configure_interface os config fd buffer_bytes w =
     (if \<not> valid_interface_name (lc_interface_name config) then (w, Inl invalid_argument)
      else
        on_reply (os_ioctl os w fd (BIOCSETIF (lc_interface_name config))) (\<lambda>w _.
        on_reply (os_ioctl os w fd BIOCGDLT) (\<lambda>w data_link_type.
        if data_link_type \<noteq> reply_uint DLT_EN10MB then (w, Inl protocol_not_supported)
        else
          on_reply (os_ioctl os w fd (BIOCSHDRCMPLT 1)) (\<lambda>w _.
          on_reply (if lc_promiscuous config then os_ioctl os w fd BIOCPROMISC else (w, reply_ok)) (\<lambda>w _.
          on_reply (os_ioctl os w fd (BIOCSSEESENT 0)) (\<lambda>w _.
          finish_configuration os config fd buffer_bytes w))))))"

definition configure ::
  "'w bpf_os \<Rightarrow> LinkConfig \<Rightarrow> nat \<Rightarrow> 'w \<Rightarrow> 'w \<times> (error_code + InterfaceInfo)" where
  "configure os config fd w =
     on_reply (os_ioctl os w fd BIOCVERSION) (\<lambda>w version.
       case version of
         reply_version major minor \<Rightarrow>
           if major \<noteq> BPF_MAJOR_VERSION \<or> minor < BPF_MINOR_VERSION then (w, Inl protocol_error)
           else
             let requested = (if lc_requested_buffer_bytes config = 0 then BPF_MAXBUFSIZE
                              else lc_requested_buffer_bytes config)
             in on_reply (os_ioctl os w fd (BIOCSBLEN requested)) (\<lambda>w reply.
                  configure_interface os config fd (buffer_of_reply requested reply) w)
       | _ \<Rightarrow> (w, Inl protocol_error))"

definition bpf_open :: "'w bpf_os \<Rightarrow> LinkConfig \<Rightarrow> 'w \<Rightarrow> 'w \<times> (error_code + BpfBackend)" where
  "bpf_open os config w =
     (if \<not> valid_interface_name (lc_interface_name config) then (w, Inl invalid_argument)
      else if lc_requested_buffer_bytes config > 2 ^ 32 - 1 then (w, Inl value_too_large)
      else case open_available_bpf os w of
        (w, Inl e) \<Rightarrow> (w, Inl e)
      | (w, Inr fd) \<Rightarrow>
          (case configure os config fd w of
             (w, Inl e) \<Rightarrow> (os_close os w fd, Inl e)
           | (w, Inr info) \<Rightarrow>
               (case os_kqueue os w of
                  (w, Inl errno) \<Rightarrow> (os_close os w fd, Inl (errno_error errno))
                | (w, Inr event_queue) \<Rightarrow>
                    (case os_kevent_add os w event_queue fd of
                       (w, Some errno) \<Rightarrow> (os_close os (os_close os w event_queue) fd, Inl (errno_error errno))
                     | (w, None) \<Rightarrow>
                         (w, Inr \<lparr>bb_fd = fd, bb_kqueue_fd = event_queue,
                                  bb_read_buffer_size = ii_bpf_buffer_bytes info, bb_info = info\<rparr>)))))"

definition bpf_destroy :: "'w bpf_os \<Rightarrow> BpfBackend \<Rightarrow> 'w \<Rightarrow> 'w" where
  "bpf_destroy os b w = os_close os (os_close os w (bb_kqueue_fd b)) (bb_fd b)"

definition bpf_statistics :: "'w bpf_os \<Rightarrow> BpfBackend \<Rightarrow> 'w \<Rightarrow> 'w \<times> error_code \<times> BpfStatistics" where
  "bpf_statistics os b w =
     (case os_ioctl os w (bb_fd b) BIOCGSTATS of
        (w, reply_error errno) \<Rightarrow> (w, errno_error errno, \<lparr>bs_received = 0, bs_dropped = 0\<rparr>)
      | (w, reply_stats recv lost) \<Rightarrow> (w, no_error, \<lparr>bs_received = recv, bs_dropped = lost\<rparr>)
      | (w, _) \<Rightarrow> (w, no_error, \<lparr>bs_received = 0, bs_dropped = 0\<rparr>))"

section \<open>Receiving\<close>

record bpf_hdr =
  bh_tv_sec :: int
  bh_tv_usec :: int
  bh_caplen :: u32
  bh_datalen :: u32
  bh_hdrlen :: u16

record bpf_abi =
  abi_hdrlen_offset :: nat
  abi_decode :: "byte list \<Rightarrow> bpf_hdr"
  abi_wordalign :: "nat \<Rightarrow> nat"

definition kBpfHeaderFieldsBytes :: "bpf_abi \<Rightarrow> nat" where
  "kBpfHeaderFieldsBytes abi = abi_hdrlen_offset abi + 2"

definition capture_metadata :: "bpf_hdr \<Rightarrow> error_code + CaptureMetadata" where
  "capture_metadata header =
     (if bh_tv_sec header < 0 \<or> bh_tv_usec header < 0 \<or> bh_tv_usec header \<ge> 1000000
      then Inl protocol_error
      else
        let seconds = (word_of_int (bh_tv_sec header) :: u64) in
        if seconds > (- 1) div 1000000000 then Inl value_too_large
        else Inr \<lparr>cm_capture_timestamp_ns =
                     seconds * 1000000000 + word_of_int (bh_tv_usec header) * 1000,
                  cm_captured_length = bh_caplen header, cm_wire_length = bh_datalen header\<rparr>)"

text \<open>
  The walk over the records of a batch: the frame, the metadata and the size of the record at an offset,
  the offset of the next one, and the loop.
\<close>

definition record_at :: "bpf_abi \<Rightarrow> byte list \<Rightarrow> nat \<Rightarrow> error_code + byte list \<times> CaptureMetadata \<times> nat" where
  "record_at abi batch offset =
     (if length batch - offset < kBpfHeaderFieldsBytes abi then Inl protocol_error
      else
        let header = abi_decode abi (take (kBpfHeaderFieldsBytes abi) (drop offset batch));
            header_bytes = unat (bh_hdrlen header);
            captured_bytes = unat (bh_caplen header)
        in
        if header_bytes < kBpfHeaderFieldsBytes abi \<or> header_bytes > length batch - offset
        then Inl protocol_error
        else
          let frame_offset = offset + header_bytes in
          if captured_bytes > length batch - frame_offset then Inl protocol_error
          else case capture_metadata header of
            Inl e \<Rightarrow> Inl e
          | Inr metadata \<Rightarrow>
              Inr (take captured_bytes (drop frame_offset batch), metadata, header_bytes + captured_bytes))"

definition next_offset :: "bpf_abi \<Rightarrow> byte list \<Rightarrow> nat \<Rightarrow> nat \<Rightarrow> error_code + nat" where
  "next_offset abi batch offset record_bytes =
     (let remaining_bytes = length batch - offset in
      if record_bytes = remaining_bytes then Inr (length batch)
      else
        let aligned_bytes = abi_wordalign abi record_bytes in
        if aligned_bytes < record_bytes \<or> aligned_bytes > remaining_bytes then Inl protocol_error
        else Inr (offset + aligned_bytes))"

lemma record_at_size: "record_at abi batch offset = Inr (frame, metadata, n) \<Longrightarrow> 0 < n"
  by (auto simp: record_at_def Let_def kBpfHeaderFieldsBytes_def split: if_splits sum.splits)

lemma next_offset_advances:
  "next_offset abi batch offset n = Inr next' \<Longrightarrow> 0 < n \<Longrightarrow> offset < length batch \<Longrightarrow>
   offset < next' \<and> next' \<le> length batch"
  by (auto simp: next_offset_def Let_def split: if_splits)

function walk_batch ::
  "bpf_abi \<Rightarrow> ('s \<Rightarrow> byte list \<Rightarrow> CaptureMetadata \<Rightarrow> 's) \<Rightarrow> byte list \<Rightarrow> nat \<Rightarrow> 's \<Rightarrow> 's \<times> error_code" where
  "walk_batch abi callback batch offset ctx =
     (if offset < length batch
      then
        (case record_at abi batch offset of
           Inl e \<Rightarrow> (ctx, e)
         | Inr (frame, metadata, record_bytes) \<Rightarrow>
             (case next_offset abi batch offset record_bytes of
                Inl e \<Rightarrow> (callback ctx frame metadata, e)
              | Inr offset \<Rightarrow> walk_batch abi callback batch offset (callback ctx frame metadata)))
      else (ctx, no_error))"
  by pat_completeness auto
termination
proof (relation "measure (\<lambda>(abi, callback, batch, offset, ctx). length batch - offset)")
  fix abi :: bpf_abi and callback :: "'s \<Rightarrow> byte list \<Rightarrow> CaptureMetadata \<Rightarrow> 's" and batch offset ctx x frame y metadata n next'
  assume "offset < length batch" "record_at abi batch offset = Inr x" "(frame, y) = x" "(metadata, n) = y"
    "next_offset abi batch offset n = Inr next'"
  then have "offset < next' \<and> next' \<le> length batch" using next_offset_advances record_at_size by blast
  then show "((abi, callback, batch, next', callback ctx frame metadata), abi, callback, batch, offset, ctx)
      \<in> measure (\<lambda>(abi, callback, batch, offset, ctx). length batch - offset)" by auto
qed simp

declare walk_batch.simps [simp del]

text \<open>\<open>do ... while (interrupted)\<close>.\<close>

partial_function (option) retry :: "('w \<Rightarrow> 'w \<times> 'r) \<Rightarrow> ('r \<Rightarrow> bool) \<Rightarrow> 'w \<Rightarrow> ('w \<times> 'r) option" where
  "retry call interrupted w =
     (case call w of (w', r) \<Rightarrow> if interrupted r then retry call interrupted w' else Some (w', r))"

declare retry.simps [code]

definition timespec_of_ms :: "u32 \<Rightarrow> timespec" where
  "timespec_of_ms timeout_ms =
     \<lparr>tv_sec = uint (timeout_ms div 1000), tv_nsec = uint (timeout_ms mod 1000) * 1000000\<rparr>"

definition bpf_poll_frames_impl ::
  "'w bpf_os \<Rightarrow> bpf_abi \<Rightarrow> BpfBackend \<Rightarrow> 'w \<Rightarrow> ('s \<Rightarrow> byte list \<Rightarrow> CaptureMetadata \<Rightarrow> 's) option \<Rightarrow> 's
     \<Rightarrow> timespec option \<Rightarrow> ('w \<times> 's \<times> error_code) option" where
  "bpf_poll_frames_impl os abi b w callback ctx timeout =
     (case callback of
        None \<Rightarrow> Some (w, ctx, invalid_argument)
      | Some callback \<Rightarrow>
          (case retry (\<lambda>w. os_kevent os w (bb_kqueue_fd b) timeout) (\<lambda>r. r = ready_error EINTR) w of
             None \<Rightarrow> None
           | Some (w, ready_error errno) \<Rightarrow> Some (w, ctx, errno_error errno)
           | Some (w, ready_timeout) \<Rightarrow> Some (w, ctx, timed_out)
           | Some (w, ready_event failed data) \<Rightarrow>
               if failed then Some (w, ctx, errno_error data)
               else
                 (case retry (\<lambda>w. os_read os w (bb_fd b) (bb_read_buffer_size b)) (\<lambda>r. r = Inl EINTR) w of
                    None \<Rightarrow> None
                  | Some (w, Inl errno) \<Rightarrow> Some (w, ctx, errno_error errno)
                  | Some (w, Inr batch) \<Rightarrow>
                      if batch = [] then Some (w, ctx, io_error)
                      else (case walk_batch abi callback batch 0 ctx of (ctx, e) \<Rightarrow> Some (w, ctx, e)))))"

definition bpf_poll_frames where
  "bpf_poll_frames os abi b w callback ctx = bpf_poll_frames_impl os abi b w callback ctx None"

definition bpf_poll_frames_for where
  "bpf_poll_frames_for os abi b w callback ctx timeout_ms =
     bpf_poll_frames_impl os abi b w callback ctx (Some (timespec_of_ms timeout_ms))"

section \<open>Sending\<close>

definition nanoseconds :: "timespec \<Rightarrow> u64" where
  "nanoseconds t = word_of_int (tv_sec t) * 1000000000 + word_of_int (tv_nsec t)"

definition bpf_send_frame ::
  "'w bpf_os \<Rightarrow> BpfBackend \<Rightarrow> 'w \<Rightarrow> byte list \<Rightarrow> TxMetadata option \<Rightarrow> 'w \<times> TxMetadata option \<times> error_code" where
  "bpf_send_frame os b w frame metadata =
     (let metadata = map_option (\<lambda>_. \<lparr>tm_monotonic_before_ns = 0, tm_monotonic_after_ns = 0\<rparr>) metadata in
      if length frame < kEthernetHeaderBytes then (w, metadata, invalid_argument)
      else if length frame > unat (ii_mtu (bb_info b)) + kEthernetHeaderBytes then (w, metadata, message_size)
      else if length frame > 2 ^ 63 - 1 then (w, metadata, value_too_large)
      else case os_clock os w of
        (w, Inl errno) \<Rightarrow> (w, metadata, errno_error errno)
      | (w, Inr before) \<Rightarrow>
          (case os_write os w (bb_fd b) frame of (w, written) \<Rightarrow>
             (case os_clock os w of
                (w, Inl errno) \<Rightarrow> (w, metadata, errno_error errno)
              | (w, Inr after) \<Rightarrow>
                  if tv_sec before < 0 \<or> tv_nsec before < 0 \<or> tv_sec after < 0 \<or> tv_nsec after < 0
                  then (w, metadata, value_too_large)
                  else
                    let metadata = map_option (\<lambda>_. \<lparr>tm_monotonic_before_ns = nanoseconds before,
                                                   tm_monotonic_after_ns = nanoseconds after\<rparr>) metadata in
                    (case written of
                       Inl errno \<Rightarrow> (w, metadata, errno_error errno)
                     | Inr n \<Rightarrow> if n \<noteq> length frame then (w, metadata, io_error) else (w, metadata, no_error)))))"

end
