(* ===== verification/Bpf_Run.thy ===== *)
theory Bpf_Run
  imports Bpf_Backend
begin

text \<open>
  What the capture backend does: the walk over a batch delivers its records, opening and destroying keep
  the descriptor table, a sent frame is written once and in full.
\<close>

section \<open>The walk\<close>

lemma record_at_drop: "offset \<le> length batch \<Longrightarrow> record_at abi batch offset = record_at abi (drop offset batch) 0"
  by (auto simp: record_at_def Let_def add.commute diff_diff_left split: sum.split)

lemma next_offset_drop:
  "offset \<le> length batch \<Longrightarrow> next_offset abi batch offset n = map_sum id (\<lambda>k. offset + k) (next_offset abi (drop offset batch) 0 n)"
  by (simp add: next_offset_def Let_def)

lemma walk_batch_drop:
  "offset \<le> length batch \<Longrightarrow> walk_batch abi cb batch offset ctx = walk_batch abi cb (drop offset batch) 0 ctx"
proof (induction "length batch - offset" arbitrary: offset batch ctx rule: less_induct)
  case less
  show ?case
  proof (cases "offset < length batch")
    case False
    then show ?thesis using less.prems by (simp add: walk_batch.simps)
  next
    case True
    show ?thesis
    proof (cases "record_at abi batch offset")
      case (Inl e)
      then show ?thesis using True record_at_drop [of offset batch abi] by (simp add: walk_batch.simps)
    next
      case (Inr x)
      obtain frame metadata n where x: "x = (frame, metadata, n)" by (metis prod_cases3)
      have r: "record_at abi batch offset = Inr (frame, metadata, n)" "record_at abi (drop offset batch) 0 = Inr (frame, metadata, n)"
        using Inr x record_at_drop [of offset batch abi] True by simp_all
      show ?thesis
      proof (cases "next_offset abi (drop offset batch) 0 n")
        case (Inl e)
        then show ?thesis using True r next_offset_drop [of offset batch abi n] by (simp add: walk_batch.simps)
      next
        case (Inr k)
        then have k: "next_offset abi batch offset n = Inr (offset + k)" using True next_offset_drop [of offset batch abi n] by simp
        have b: "offset < offset + k \<and> offset + k \<le> length batch"
          using next_offset_advances [OF k record_at_size [OF r(1)] True] .
        let ?ctx = "cb ctx frame metadata"
        have "walk_batch abi cb batch (offset + k) ?ctx = walk_batch abi cb (drop (offset + k) batch) 0 ?ctx"
          by (rule less.hyps) (use b in auto)
        moreover have "walk_batch abi cb (drop offset batch) k ?ctx = walk_batch abi cb (drop k (drop offset batch)) 0 ?ctx"
        proof (cases "offset = 0")
          case True
          then show ?thesis using calculation by simp
        next
          case False
          show ?thesis by (rule less.hyps) (use b False in auto)
        qed
        ultimately show ?thesis
          using True r k Inr by (simp add: walk_batch.simps [of _ _ _ offset] walk_batch.simps [of _ _ _ 0] add.commute)
      qed
    qed
  qed
qed

section \<open>A batch of records\<close>

record capture_record =
  cr_header :: bpf_hdr
  cr_header_bytes :: "byte list"
  cr_frame :: "byte list"
  cr_padding :: "byte list"
  cr_metadata :: CaptureMetadata

definition record_bytes :: "capture_record \<Rightarrow> byte list" where
  "record_bytes r = cr_header_bytes r @ cr_frame r @ cr_padding r"

text \<open>
  The metadata a frame has to be delivered with: the capture time of its header as a number of nanoseconds, the
  bytes that were captured, and the bytes that were on the wire. The header's time is a valid one whose
  nanoseconds fit 64 bits.
\<close>

definition describes :: "CaptureMetadata \<Rightarrow> bpf_hdr \<Rightarrow> byte list \<Rightarrow> bool" where
  "describes m h frame \<longleftrightarrow> 0 \<le> bh_tv_sec h \<and> 0 \<le> bh_tv_usec h \<and> bh_tv_usec h < 10 ^ 6 \<and>
     uint (cm_capture_timestamp_ns m) = bh_tv_sec h * 10 ^ 9 + bh_tv_usec h * 10 ^ 3 \<and>
     unat (cm_captured_length m) = length frame \<and> cm_wire_length m = bh_datalen h"

lemma describes_capture_metadata:
  assumes d: "describes m h frame" and n: "unat (bh_caplen h) = length frame"
  shows "capture_metadata h = Inr m"
proof -
  let ?s = "bh_tv_sec h" and ?u = "bh_tv_usec h"
  have r: "0 \<le> ?s" "0 \<le> ?u" "?u < 1000000" using d by (auto simp: describes_def)
  have t: "uint (cm_capture_timestamp_ns m) = ?s * 1000000000 + ?u * 1000" using d by (simp add: describes_def)
  moreover have "uint (cm_capture_timestamp_ns m) < 18446744073709551616"
    using uint_lt2p [of "cm_capture_timestamp_ns m"] by simp
  ultimately have s: "?s \<le> 18446744073" using r by linarith
  then have "uint (word_of_int ?s :: u64) = ?s" using r by (simp add: uint_word_of_int)
  moreover have "(- 1) div 1000000000 = (18446744073 :: u64)" by code_simp
  ultimately have "\<not> word_of_int ?s > ((- 1) div 1000000000 :: u64)"
    using s by (simp add: word_less_def)
  moreover have "cm_capture_timestamp_ns m = word_of_int ?s * 1000000000 + word_of_int ?u * 1000"
    using arg_cong [OF t, of "word_of_int :: int \<Rightarrow> u64"] by simp
  moreover have "cm_captured_length m = bh_caplen h"
    using d n by (metis describes_def word_unat_eq_iff)
  moreover have "cm_wire_length m = bh_datalen h" using d by (simp add: describes_def)
  ultimately show ?thesis using r by (cases m) (simp add: capture_metadata_def)
qed

definition record_ok :: "bpf_abi \<Rightarrow> capture_record \<Rightarrow> bool" where
  "record_ok abi r \<longleftrightarrow> kBpfHeaderFieldsBytes abi \<le> length (cr_header_bytes r) \<and>
     abi_decode abi (take (kBpfHeaderFieldsBytes abi) (cr_header_bytes r)) = cr_header r \<and>
     unat (bh_hdrlen (cr_header r)) = length (cr_header_bytes r) \<and>
     unat (bh_caplen (cr_header r)) = length (cr_frame r) \<and>
     describes (cr_metadata r) (cr_header r) (cr_frame r)"

text \<open>Each record is padded up to the alignment; the last one need not be.\<close>

fun batch_ok :: "bpf_abi \<Rightarrow> capture_record list \<Rightarrow> bool" where
  "batch_ok abi [] \<longleftrightarrow> True"
| "batch_ok abi (r # rs) \<longleftrightarrow> record_ok abi r \<and>
     (length (record_bytes r) = abi_wordalign abi (length (cr_header_bytes r) + length (cr_frame r)) \<or>
      rs = [] \<and> cr_padding r = []) \<and> batch_ok abi rs"

lemma record_at_record:
  assumes "record_ok abi r"
  shows "record_at abi (record_bytes r @ rest) 0 =
    Inr (cr_frame r, cr_metadata r, length (cr_header_bytes r) + length (cr_frame r))"
  using assms describes_capture_metadata [of "cr_metadata r" "cr_header r" "cr_frame r"]
  by (simp add: record_at_def record_ok_def record_bytes_def Let_def)

lemma record_bytes_pos: "record_ok abi r \<Longrightarrow> record_bytes r \<noteq> []"
  by (auto simp: record_ok_def record_bytes_def kBpfHeaderFieldsBytes_def)

lemma walk_batch_records:
  "batch_ok abi rs \<Longrightarrow> walk_batch abi cb (concat (map record_bytes rs)) 0 ctx =
     (fold (\<lambda>r ctx. cb ctx (cr_frame r) (cr_metadata r)) rs ctx, no_error)"
proof (induction rs arbitrary: ctx)
  case Nil
  then show ?case by (simp add: walk_batch.simps)
next
  case (Cons r rs)
  let ?n = "length (cr_header_bytes r) + length (cr_frame r)" and ?rest = "concat (map record_bytes rs)"
  have ok: "record_ok abi r" "batch_ok abi rs" using Cons.prems by auto
  let ?b = "record_bytes r @ ?rest" and ?ctx = "cb ctx (cr_frame r) (cr_metadata r)"
  have nx: "next_offset abi ?b 0 ?n = Inr (length (record_bytes r))"
  proof (cases "rs = [] \<and> cr_padding r = []")
    case True
    then show ?thesis by (simp add: next_offset_def record_bytes_def)
  next
    case False
    then have al: "length (record_bytes r) = abi_wordalign abi ?n" using Cons.prems by auto
    have ge: "?n \<le> length (record_bytes r)" by (simp add: record_bytes_def)
    show ?thesis
    proof (cases "?n = length ?b")
      case True
      then show ?thesis using ge by (simp add: next_offset_def)
    next
      case False
      then show ?thesis using al [symmetric] ge by (simp add: next_offset_def Let_def)
    qed
  qed
  have "walk_batch abi cb ?b 0 ctx = walk_batch abi cb ?b (length (record_bytes r)) ?ctx"
    using record_bytes_pos [OF ok(1)] record_at_record [OF ok(1), of ?rest] nx
    by (simp add: walk_batch.simps [of _ _ _ 0])
  also have "\<dots> = walk_batch abi cb ?rest 0 ?ctx" using walk_batch_drop [of "length (record_bytes r)" ?b] by simp
  also have "\<dots> = (fold (\<lambda>r ctx. cb ctx (cr_frame r) (cr_metadata r)) rs ?ctx, no_error)"
    by (rule Cons.IH [OF ok(2)])
  finally show ?case by simp
qed

section \<open>The descriptor table\<close>

text \<open>
  \<open>fds w\<close> is the set of descriptors open in \<open>w\<close>: a call that makes one returns a new one, \<open>close\<close> removes
  its argument, and the other calls leave the table alone.
\<close>

definition makes_descriptor :: "('w \<Rightarrow> nat set) \<Rightarrow> ('w \<Rightarrow> 'w \<times> (nat + nat)) \<Rightarrow> bool" where
  "makes_descriptor fds call \<longleftrightarrow> (\<forall>w. case call w of
     (w', Inl e) \<Rightarrow> fds w' = fds w
   | (w', Inr fd) \<Rightarrow> fd \<notin> fds w \<and> fds w' = insert fd (fds w))"

definition lawful :: "'w bpf_os \<Rightarrow> ('w \<Rightarrow> nat set) \<Rightarrow> bool" where
  "lawful os fds \<longleftrightarrow> (\<forall>i. makes_descriptor fds (\<lambda>w. os_open os w i)) \<and>
     makes_descriptor fds (os_socket os) \<and> makes_descriptor fds (os_kqueue os) \<and>
     (\<forall>w fd. fds (os_close os w fd) = fds w - {fd}) \<and>
     (\<forall>w fd r. fds (fst (os_ioctl os w fd r)) = fds w) \<and>
     (\<forall>w. fds (fst (os_getifaddrs os w)) = fds w) \<and>
     (\<forall>w q fd. fds (fst (os_kevent_add os w q fd)) = fds w)"

lemma makes_descriptorD:
  assumes "makes_descriptor fds call"
  shows "call w = (w', Inl e) \<Longrightarrow> fds w' = fds w"
    "call w = (w', Inr fd) \<Longrightarrow> fd \<notin> fds w \<and> fds w' = insert fd (fds w)"
  using assms unfolding makes_descriptor_def by (auto dest: spec [of _ w])

lemma lawful_close: "lawful os fds \<Longrightarrow> fds (os_close os w fd) = fds w - {fd}"
  by (simp add: lawful_def)

text \<open>A step that leaves the table at \<open>F\<close>.\<close>

definition keeps :: "('w \<Rightarrow> nat set) \<Rightarrow> nat set \<Rightarrow> 'w \<times> 'a \<Rightarrow> bool" where
  "keeps fds F r \<longleftrightarrow> fds (fst r) = F"

lemma keeps_pair: "fds w = F \<Longrightarrow> keeps fds F (w, x)"
  by (simp add: keeps_def)

lemma keeps_if: "(P \<Longrightarrow> keeps fds F a) \<Longrightarrow> (\<not> P \<Longrightarrow> keeps fds F b) \<Longrightarrow> keeps fds F (if P then a else b)"
  by simp

lemma keeps_ioctl: "lawful os fds \<Longrightarrow> fds w = F \<Longrightarrow> keeps fds F (os_ioctl os w fd r)"
  by (simp add: lawful_def keeps_def)

lemma keeps_on_reply:
  assumes "keeps fds F r" "\<And>w reply. fds w = F \<Longrightarrow> keeps fds F (k w reply)"
  shows "keeps fds F (on_reply r k)"
  using assms by (cases r) (auto simp: on_reply_def keeps_def split: ioctl_reply.split)

lemma keeps_sum:
  assumes "keeps fds F r" "\<And>w e. fds w = F \<Longrightarrow> keeps fds F (f w e)" "\<And>w x. fds w = F \<Longrightarrow> keeps fds F (g w x)"
  shows "keeps fds F (case r of (w, Inl e) \<Rightarrow> f w e | (w, Inr x) \<Rightarrow> g w x)"
  using assms by (auto simp: keeps_def split: prod.split sum.split)

lemma keeps_option:
  assumes "keeps fds F r" "\<And>w e. fds w = F \<Longrightarrow> keeps fds F (f w e)" "\<And>w. fds w = F \<Longrightarrow> keeps fds F (g w)"
  shows "keeps fds F (case r of (w, Some e) \<Rightarrow> f w e | (w, None) \<Rightarrow> g w)"
  using assms by (auto simp: keeps_def split: prod.split option.split)

lemmas keeps_rules = keeps_if keeps_pair keeps_on_reply keeps_ioctl keeps_sum keeps_option

lemma query_keeps:
  assumes l: "lawful os fds" and F: "fds w = F"
  shows "keeps fds F (query_interface_info os w name info)"
proof -
  have addrs: "keeps fds G (os_getifaddrs os v)" if "fds v = G" for v G using l that by (simp add: lawful_def keeps_def)
  have mac: "keeps fds G (case find_mac name a of None \<Rightarrow> (v, Inl x) | Some m \<Rightarrow> (v, y m))" if "fds v = G" for v G a x and y :: "MacAddress \<Rightarrow> error_code + InterfaceInfo"
    using that by (simp add: keeps_def split: option.split)
  have q: "keeps fds G (query_on_socket os v s name info)" if "fds v = G" for v s G
    unfolding query_on_socket_def Let_def
    by (rule keeps_rules mac addrs l that | assumption)+
  show ?thesis
  proof (cases "os_socket os w")
    case (Pair w1 r)
    show ?thesis
    proof (cases r)
      case (Inl e)
      then show ?thesis
        using makes_descriptorD(1) [of fds "os_socket os" w w1 e] l F Pair
        by (auto simp: query_interface_info_def keeps_def lawful_def)
    next
      case (Inr s)
      have s: "s \<notin> fds w" "fds w1 = insert s (fds w)"
        using makes_descriptorD(2) [of fds "os_socket os" w w1 s] l Pair Inr by (auto simp: lawful_def)
      obtain w2 res where r2: "query_on_socket os w1 s name info = (w2, res)" by fastforce
      have "fds w2 = insert s (fds w)" using q [OF s(2), of s] r2 by (simp add: keeps_def)
      then have "fds (os_close os w2 s) = F" using s(1) F by (simp add: lawful_close [OF l])
      then show ?thesis using F Pair Inr r2 by (simp add: query_interface_info_def keeps_def)
    qed
  qed
qed

lemma filter_keeps: "lawful os fds \<Longrightarrow> fds w = F \<Longrightarrow> keeps fds F (install_capture_filter (set_filter os fd) w sel mac)"
  using keeps_ioctl [of os fds w F fd "BIOCSETF (filter_instructions mac)"]
  by (cases sel; cases "os_ioctl os w fd (BIOCSETF (filter_instructions mac))")
     (auto simp: install_capture_filter_def set_filter_def keeps_def split: ioctl_reply.split)

lemma finish_keeps:
  assumes l: "lawful os fds" and F: "fds w = F"
  shows "keeps fds F (finish_configuration os config fd n w)"
  unfolding finish_configuration_def Let_def
  by (rule keeps_rules query_keeps filter_keeps l F | assumption)+

lemma configure_interface_keeps:
  assumes l: "lawful os fds" and F: "fds w = F"
  shows "keeps fds F (configure_interface os config fd n w)"
  unfolding configure_interface_def
  by (rule keeps_rules finish_keeps l F | assumption)+

lemma configure_keeps:
  assumes l: "lawful os fds" and F: "fds w = F"
  shows "keeps fds F (configure os config fd w)"
proof -
  have v: "keeps fds F (case reply of reply_version a b \<Rightarrow> f a b | _ \<Rightarrow> (v, Inl protocol_error))"
    if "fds v = F" "\<And>a b. keeps fds F (f a b)" for reply v and f :: "nat \<Rightarrow> nat \<Rightarrow> 'a \<times> (error_code + InterfaceInfo)"
    using that by (cases reply) (auto intro: keeps_pair)
  show ?thesis
    unfolding configure_def Let_def
    by (rule keeps_rules v configure_interface_keeps l F | assumption)+
qed

lemma open_keeps:
  assumes l: "lawful os fds"
  shows "open_loop os js busy w = (w', r) \<Longrightarrow>
    (case r of Inl e \<Rightarrow> fds w' = fds w | Inr fd \<Rightarrow> fd \<notin> fds w \<and> fds w' = insert fd (fds w))"
proof (induction js arbitrary: busy w)
  case Nil
  then show ?case by auto
next
  case (Cons i js)
  have m: "makes_descriptor fds (\<lambda>w. os_open os w i)" using l by (simp add: lawful_def)
  obtain w1 r1 where o: "os_open os w i = (w1, r1)" by fastforce
  show ?case
  proof (cases r1)
    case (Inr fd)
    then show ?thesis using Cons.prems o makes_descriptorD(2) [OF m, of w w1 fd] by auto
  next
    case (Inl e)
    have k: "fds w1 = fds w" using makes_descriptorD(1) [OF m, of w w1 e] o Inl by simp
    show ?thesis
    proof (cases "e = EBUSY \<or> e = ENOENT")
      case True
      then obtain b where "open_loop os js b w1 = (w', r)" using Cons.prems o Inl by (auto split: if_splits)
      then show ?thesis using Cons.IH k by metis
    next
      case False
      then show ?thesis using Cons.prems o Inl k by auto
    qed
  qed
qed

section \<open>Properties\<close>

text \<open>
  Claim C17. A poll whose wait and read succeed, however often they were interrupted, hands over every
  record of the batch the kernel wrote, in order, with its frame and with the metadata that \<open>describes\<close> spells out:
  the header's capture time in nanoseconds, the captured length, which is the frame's, and the header's wire length;
  and it reports success.
\<close>

theorem bpf_poll_delivers_batch:
  assumes "batch_ok abi rs" "rs \<noteq> []"
    and "retry (\<lambda>w. os_kevent os w (bb_kqueue_fd b) timeout) (\<lambda>r. r = ready_error EINTR) w
      = Some (w1, ready_event False data)"
    and "retry (\<lambda>w. os_read os w (bb_fd b) (bb_read_buffer_size b)) (\<lambda>r. r = Inl EINTR) w1
      = Some (w2, Inr (concat (map record_bytes rs)))"
  shows "bpf_poll_frames_impl os abi b w (Some cb) ctx timeout =
    Some (w2, fold (\<lambda>r ctx. cb ctx (cr_frame r) (cr_metadata r)) rs ctx, no_error)"
proof -
  have "concat (map record_bytes rs) \<noteq> []" using assms(1,2) record_bytes_pos by (cases rs) auto
  then show ?thesis
    using assms walk_batch_records [OF assms(1)] by (simp add: bpf_poll_frames_impl_def)
qed

text \<open>A system for the witnesses: the header layout of a little-endian machine, one device, one batch.\<close>

definition le16 :: "byte list \<Rightarrow> nat \<Rightarrow> u16" where
  "le16 bs i = ucast (bs ! i) OR push_bit 8 (ucast (bs ! (i + 1)))"

definition le32 :: "byte list \<Rightarrow> nat \<Rightarrow> u32" where
  "le32 bs i = ucast (bs ! i) OR push_bit 8 (ucast (bs ! (i + 1))) OR push_bit 16 (ucast (bs ! (i + 2))) OR
     push_bit 24 (ucast (bs ! (i + 3)))"

definition example_abi :: bpf_abi where
  "example_abi = \<lparr>abi_hdrlen_offset = 16,
     abi_decode = (\<lambda>bs. \<lparr>bh_tv_sec = sint (le32 bs 0), bh_tv_usec = sint (le32 bs 4), bh_caplen = le32 bs 8,
       bh_datalen = le32 bs 12, bh_hdrlen = le16 bs 16\<rparr>),
     abi_wordalign = (\<lambda>n. (n + 3) div 4 * 4)\<rparr>"

definition example_record :: capture_record where
  "example_record = \<lparr>cr_header = \<lparr>bh_tv_sec = 1, bh_tv_usec = 2, bh_caplen = 1, bh_datalen = 9, bh_hdrlen = 18\<rparr>,
     cr_header_bytes = [1, 0, 0, 0, 2, 0, 0, 0, 1, 0, 0, 0, 9, 0, 0, 0, 18, 0], cr_frame = [7], cr_padding = [],
     cr_metadata = \<lparr>cm_capture_timestamp_ns = 1000002000, cm_captured_length = 1, cm_wire_length = 9\<rparr>\<rparr>"

definition fresh_descriptor :: "nat \<Rightarrow> nat set \<times> nat \<Rightarrow> (nat set \<times> nat) \<times> (nat + nat)" where
  "fresh_descriptor n w = (if n \<in> fst w then (w, Inl EBUSY) else ((insert n (fst w), snd w), Inr n))"

definition example_os :: "(nat set \<times> nat) bpf_os" where
  "example_os = \<lparr>os_open = (\<lambda>w i. fresh_descriptor (3 + i) w), os_socket = fresh_descriptor 300,
     os_kqueue = fresh_descriptor 300, os_close = (\<lambda>w fd. (fst w - {fd}, snd w)),
     os_ioctl = (\<lambda>w fd r. (w, case r of BIOCVERSION \<Rightarrow> reply_version 1 1 | BIOCGDLT \<Rightarrow> reply_uint 1
        | BIOCSBLEN n \<Rightarrow> reply_uint n | SIOCGIFMTU s \<Rightarrow> reply_int 1500 | _ \<Rightarrow> reply_ok)),
     os_getifaddrs = (\<lambda>w. (w, Inr [\<lparr>ifa_name = Some ''en0'', ifa_link_address = Some [2, 0, 0, 0, 0, 1]\<rparr>])),
     os_kevent_add = (\<lambda>w q fd. (w, None)),
     os_kevent = (\<lambda>w q t. if snd w = 0 then ((fst w, 1), ready_error EINTR) else (w, ready_event False 0)),
     os_read = (\<lambda>w fd n. (w, Inr (record_bytes example_record))),
     os_write = (\<lambda>w fd f. (w, Inr (length f))),
     os_clock = (\<lambda>w. (w, Inr \<lparr>tv_sec = 0, tv_nsec = 0\<rparr>))\<rparr>"

definition example_backend :: BpfBackend where
  "example_backend = \<lparr>bb_fd = 3, bb_kqueue_fd = 300, bb_read_buffer_size = 4096,
     bb_info = \<lparr>ii_mac = [2, 0, 0, 0, 0, 1], ii_mtu = 1500, ii_bpf_buffer_bytes = 4096\<rparr>\<rparr>"

lemma example_record_ok: "record_ok example_abi example_record"
  by code_simp

theorem bpf_poll_delivers_batch_witness:
  "bpf_poll_frames_impl example_os example_abi example_backend ({3, 300}, 0) (Some (\<lambda>fs f m. fs @ [(f, m)])) [] None =
     Some (({3, 300}, 1), [([7], \<lparr>cm_capture_timestamp_ns = 1000002000, cm_captured_length = 1, cm_wire_length = 9\<rparr>)], no_error)"
proof -
  have "batch_ok example_abi [example_record]" using example_record_ok by (simp add: example_record_def)
  moreover have "retry (\<lambda>w. os_kevent example_os w (bb_kqueue_fd example_backend) None) (\<lambda>r. r = ready_error EINTR) ({3, 300}, 0)
      = Some (({3, 300}, 1), ready_event False 0)"
    by (simp add: retry.simps example_os_def)
  moreover have "retry (\<lambda>w. os_read example_os w (bb_fd example_backend) (bb_read_buffer_size example_backend))
      (\<lambda>r. r = Inl EINTR) ({3, 300}, 1) = Some (({3, 300}, 1), Inr (concat (map record_bytes [example_record])))"
    by (simp add: retry.simps example_os_def)
  ultimately show ?thesis
    using bpf_poll_delivers_batch [of example_abi "[example_record]" example_os example_backend None "({3, 300}, 0)"
        "({3, 300}, 1)" 0 "({3, 300}, 1)" "\<lambda>fs f m. fs @ [(f, m)]" "[]"]
    by (simp add: example_record_def)
qed

text \<open>
  Claim C16. Whatever the system answers, a failing \<open>open\<close> leaves the process's descriptors as it found them,
  and a successful one adds exactly the device and the event queue of the backend, which the destructor
  closes.
\<close>

theorem bpf_open_keeps_descriptors:
  assumes l: "lawful os fds"
  shows "case bpf_open os config w of
      (w', Inl e) \<Rightarrow> fds w' = fds w
    | (w', Inr b) \<Rightarrow> bb_fd b \<noteq> bb_kqueue_fd b \<and> {bb_fd b, bb_kqueue_fd b} \<inter> fds w = {} \<and>
        fds w' = {bb_fd b, bb_kqueue_fd b} \<union> fds w \<and> fds (bpf_destroy os b w') = fds w"
proof -
  note close = lawful_close [OF l]
  obtain w1 r1 where o: "open_available_bpf os w = (w1, r1)" by fastforce
  note ok = open_keeps [OF l o [unfolded open_available_bpf_def]]
  show ?thesis
  proof (cases "valid_interface_name (lc_interface_name config) \<and> lc_requested_buffer_bytes config \<le> 2 ^ 32 - 1")
    case False
    then show ?thesis by (auto simp: bpf_open_def)
  next
    case True
    note ready = True
    show ?thesis
    proof (cases r1)
      case (Inl e)
      then show ?thesis using True o ok by (simp add: bpf_open_def)
    next
      case (Inr fd)
      have fd: "fd \<notin> fds w" "fds w1 = insert fd (fds w)" using ok Inr by auto
      obtain w2 r2 where c: "configure os config fd w1 = (w2, r2)" by fastforce
      have w2: "fds w2 = insert fd (fds w)" using configure_keeps [OF l fd(2), of config fd] c by (simp add: keeps_def)
      show ?thesis
      proof (cases r2)
        case (Inl e)
        then show ?thesis using True o \<open>r1 = Inr fd\<close> c w2 fd by (simp add: bpf_open_def close)
      next
        case info: (Inr info)
        obtain w3 r3 where k: "os_kqueue os w2 = (w3, r3)" by fastforce
        have m: "makes_descriptor fds (os_kqueue os)" using l by (simp add: lawful_def)
        show ?thesis
        proof (cases r3)
          case (Inl e)
          then have "fds w3 = insert fd (fds w)" using makes_descriptorD(1) [OF m, of w2 w3 e] k w2 by simp
          then show ?thesis using True o \<open>r1 = Inr fd\<close> c info k Inl fd by (simp add: bpf_open_def close)
        next
          case q: (Inr q)
          have w3: "q \<notin> fds w2" "fds w3 = insert q (insert fd (fds w))"
            using makes_descriptorD(2) [OF m, of w2 w3 q] k q w2 by auto
          obtain w4 r4 where a: "os_kevent_add os w3 q fd = (w4, r4)" by fastforce
          have "fds (fst (os_kevent_add os w3 q fd)) = fds w3" using l by (simp add: lawful_def)
          then have w4: "fds w4 = insert q (insert fd (fds w))" using a w3 by simp
          have ne: "q \<noteq> fd" "q \<notin> fds w" using w3(1) w2 by auto
          have "bpf_open os config w = (case r4 of
              Some errno \<Rightarrow> (os_close os (os_close os w4 q) fd, Inl (errno_error errno))
            | None \<Rightarrow> (w4, Inr \<lparr>bb_fd = fd, bb_kqueue_fd = q, bb_read_buffer_size = ii_bpf_buffer_bytes info, bb_info = info\<rparr>))"
            using True o \<open>r1 = Inr fd\<close> c info k q a by (simp add: bpf_open_def split: option.split)
          then show ?thesis using w4 fd ne by (cases r4) (auto simp: close bpf_destroy_def)
        qed
      qed
    qed
  qed
qed

lemma example_os_lawful: "lawful example_os fst"
  by (auto simp: lawful_def makes_descriptor_def example_os_def fresh_descriptor_def)

theorem bpf_open_keeps_descriptors_witness:
  "case bpf_open example_os \<lparr>lc_interface_name = ''en0'', lc_requested_buffer_bytes = 0, lc_promiscuous = False,
       lc_capture_filter = cf_none\<rparr> ({0, 1, 2}, 0) of
      (w', Inl e) \<Rightarrow> fst w' = {0, 1, 2}
    | (w', Inr b) \<Rightarrow> bb_fd b \<noteq> bb_kqueue_fd b \<and> {bb_fd b, bb_kqueue_fd b} \<inter> {0, 1, 2} = {} \<and>
        fst w' = {bb_fd b, bb_kqueue_fd b} \<union> {0, 1, 2} \<and> fst (bpf_destroy example_os b w') = {0, 1, 2}"
  by (rule bpf_open_keeps_descriptors [OF example_os_lawful, where w = "({0, 1, 2}, 0)", unfolded fst_conv])

end
