(* ===== verification/Network_Stack.thy ===== *)
theory Network_Stack
  imports Fragment_Reassembly Arp_Resolver
begin

text \<open>
  The network stack (\<^verbatim>\<open>include/vectornet/net/network_stack.hpp\<close>, \<^verbatim>\<open>src/net/network_stack.cpp\<close>): Ethernet,
  ARP, IPv4, fragmentation and reassembly behind two operations, sending a datagram and polling.

  The callbacks of the resolver work on the parts of \<open>Impl\<close> they touch: the endpoint, the link below it and
  the statistics (\<open>stack_ctx\<close>). The link's \<open>send_frame\<close> and the frames a poll captured are parameters, and so
  is the clock \<open>receive_frame\<close> reads. The stack has no null \<open>impl_\<close>: that is a stack moved from.
\<close>

datatype NetworkStatus = net_accepted | net_queued_for_arp | net_would_block | net_payload_too_large
  | net_unreachable | net_malformed | net_send_failed

record NetworkStackConfig =
  nc_interface_name :: string
  nc_local_address :: Ipv4Address
  nc_requested_bpf_buffer_bytes :: nat
  nc_promiscuous :: bool
  nc_arp :: ArpResolverConfig

record NetworkStackStatistics =
  nst_ipv4_received :: u64
  nst_ipv4_delivered :: u64
  nst_malformed_drops :: u64
  nst_wrong_destination_drops :: u64
  nst_wrong_protocol_drops :: u64
  nst_reassembly_drops :: u64
  nst_arp_unreachable :: u64

definition default_NetworkStackStatistics :: NetworkStackStatistics where
  "default_NetworkStackStatistics = \<lparr>nst_ipv4_received = 0, nst_ipv4_delivered = 0, nst_malformed_drops = 0,
     nst_wrong_destination_drops = 0, nst_wrong_protocol_drops = 0, nst_reassembly_drops = 0,
     nst_arp_unreachable = 0\<rparr>"

record 'l stack_ctx =
  sc_endpoint :: EthernetEndpoint
  sc_link :: 'l
  sc_statistics :: NetworkStackStatistics

record 'l NetworkStack =
  ns_ctx :: "'l stack_ctx"
  ns_config :: NetworkStackConfig
  ns_arp :: "'l stack_ctx ArpResolver"
  ns_reassembly :: ReassemblyTable
  ns_identification :: u16
  ns_fragment_scratch :: "byte list"
  ns_send_destination :: Ipv4Address
  ns_send_now_ns :: u64
  ns_poll_now_ns :: u64
  ns_send_status :: NetworkStatus
  ns_send_queued :: bool
  ns_current_metadata :: CaptureMetadata

type_synonym 'l link_send = "'l \<Rightarrow> byte list \<Rightarrow> 'l \<times> error_code"

text \<open>
  The application's callback works on a state of its own and on the stack, because it may send: the benchmark's
  does, to answer what it receives.
\<close>

type_synonym ('l, 'u) datagram_callback =
  "'l NetworkStack \<times> 'u \<Rightarrow> Ipv4Address \<Rightarrow> byte list \<Rightarrow> CaptureMetadata \<Rightarrow> 'l NetworkStack \<times> 'u"


fun arp_status_to_network :: "ArpStatus \<Rightarrow> NetworkStatus" where
  "arp_status_to_network arp_ok = net_accepted"
| "arp_status_to_network arp_queued = net_queued_for_arp"
| "arp_status_to_network arp_pending = net_queued_for_arp"
| "arp_status_to_network arp_queue_full = net_would_block"
| "arp_status_to_network arp_cache_full = net_would_block"
| "arp_status_to_network arp_payload_too_large = net_payload_too_large"
| "arp_status_to_network arp_unreachable = net_unreachable"
| "arp_status_to_network arp_malformed = net_malformed"
| "arp_status_to_network arp_unsupported = net_malformed"
| "arp_status_to_network arp_output_too_small = net_malformed"
| "arp_status_to_network arp_send_failed = net_send_failed"

text \<open>The callbacks the stack gives its resolver.\<close>

definition transmit_frame :: "'l link_send \<Rightarrow> 'l stack_ctx frame_transmit" where
  "transmit_frame link_send self destination ether_type payload =
     (case ee_send_frame link_send (sc_endpoint self) (sc_link self) destination ether_type payload of
        (endpoint, link, error) \<Rightarrow> (self\<lparr>sc_endpoint := endpoint, sc_link := link\<rparr>, error))"

definition transmit_arp :: "'l link_send \<Rightarrow> 'l stack_ctx arp_transmit" where
  "transmit_arp link_send self destination payload =
     (case ee_send_frame link_send (sc_endpoint self) (sc_link self) destination kEtherTypeArp payload of
        (endpoint, link, error) \<Rightarrow> (self\<lparr>sc_endpoint := endpoint, sc_link := link\<rparr>, error))"

definition stack_arp_failure :: "'l stack_ctx arp_failure" where
  "stack_arp_failure self target reason =
     (if reason = arp_unreachable
      then self\<lparr>sc_statistics := (sc_statistics self)\<lparr>nst_arp_unreachable :=
             nst_arp_unreachable (sc_statistics self) + 1\<rparr>\<rparr>
      else self)"

definition stack_callbacks :: "'l link_send \<Rightarrow> 'l stack_ctx ArpResolverCallbacks" where
  "stack_callbacks link_send = \<lparr>cb_arp_transmit = Some (transmit_arp link_send),
     cb_frame_transmit = Some (transmit_frame link_send), cb_failure = Some stack_arp_failure\<rparr>"

definition default_CaptureMetadata :: CaptureMetadata where
  "default_CaptureMetadata = \<lparr>cm_capture_timestamp_ns = 0, cm_captured_length = 0, cm_wire_length = 0\<rparr>"

definition new_NetworkStack ::
  "'l link_send \<Rightarrow> EthernetEndpoint \<Rightarrow> 'l \<Rightarrow> NetworkStackConfig \<Rightarrow> 'l NetworkStack" where
  "new_NetworkStack link_send endpoint link config =
     \<lparr>ns_ctx = \<lparr>sc_endpoint = endpoint, sc_link = link, sc_statistics = default_NetworkStackStatistics\<rparr>,
      ns_config = config,
      ns_arp = new_ArpResolver (nc_local_address config) (ii_mac (ee_info endpoint)) (nc_arp config)
        (stack_callbacks link_send),
      ns_reassembly = new_ReassemblyTable kDefaultReassemblySlots kDefaultReassemblyTimeoutNs,
      ns_identification = 0,
      ns_fragment_scratch = replicate (unat (ii_mtu (ee_info endpoint))) 0,
      ns_send_destination = 0, ns_send_now_ns = 0, ns_poll_now_ns = 0, ns_send_status = net_accepted,
      ns_send_queued = False, ns_current_metadata = default_CaptureMetadata\<rparr>"

text \<open>\<open>open\<close>; \<open>opened\<close> is what opening the link with a configuration comes back with.\<close>

definition stack_open ::
  "'l link_send \<Rightarrow> NetworkStackConfig \<Rightarrow> (LinkConfig \<Rightarrow> error_code + EthernetEndpoint \<times> 'l) \<Rightarrow> error_code + 'l NetworkStack" where
  "stack_open link_send config opened =
     (if nc_interface_name config = [] \<or> nc_local_address config = 0 then Inl invalid_argument
      else
        let link_config = \<lparr>lc_interface_name = nc_interface_name config,
              lc_requested_buffer_bytes = nc_requested_bpf_buffer_bytes config, lc_promiscuous = nc_promiscuous config,
              lc_capture_filter = cf_stack_arp_ipv4_253\<rparr>
        in case opened link_config of
             Inl error \<Rightarrow> Inl error
           | Inr (endpoint, link) \<Rightarrow> Inr (new_NetworkStack link_send endpoint link config))"

section \<open>Sending\<close>

definition emit_fragment :: "'l NetworkStack packet_callback" where
  "emit_fragment self packet =
     (case queue_frame (ns_arp self) (ns_ctx self) (ns_send_destination self) kEtherTypeIpv4 packet
             (ns_send_now_ns self) of
        (arp, ctx, status) \<Rightarrow>
          let self = self\<lparr>ns_arp := arp, ns_ctx := ctx\<rparr> in
          if status \<noteq> arp_ok \<and> status \<noteq> arp_queued
          then (self\<lparr>ns_send_status := arp_status_to_network status\<rparr>, False)
          else if status = arp_queued then (self\<lparr>ns_send_queued := True\<rparr>, True)
          else (self, True))"

definition send_datagram ::
  "'l NetworkStack \<Rightarrow> Ipv4Address \<Rightarrow> byte list \<Rightarrow> u64 \<Rightarrow> 'l NetworkStack \<times> NetworkStatus" where
  "send_datagram self destination payload now_ns =
     (let self = self\<lparr>ns_send_destination := destination, ns_send_now_ns := now_ns,
                     ns_send_status := net_accepted, ns_send_queued := False\<rparr>;
          (identification, id_value) = id_next (ns_identification self);
          self = self\<lparr>ns_identification := identification\<rparr>;
          header = default_Ipv4Header\<lparr>ip_identification := id_value, ip_ttl := kVectorNetTtl,
                     ip_protocol := kVectorNetProtocol, ip_source := nc_local_address (ns_config self),
                     ip_destination := destination\<rparr>;
          mtu = unat (ii_mtu (ee_info (sc_endpoint (ns_ctx self))));
          (status, scratch, self) =
            fragment_ipv4_payload header payload mtu (ns_fragment_scratch self) (Some emit_fragment) self;
          self = self\<lparr>ns_fragment_scratch := scratch\<rparr>
      in if status = payload_too_large then (self, net_payload_too_large)
         else if status \<noteq> ip_ok
         then (self, if ns_send_status self = net_accepted then net_send_failed else ns_send_status self)
         else (self, if ns_send_queued self then net_queued_for_arp else net_accepted))"

section \<open>Receiving\<close>

definition count_net :: "(NetworkStackStatistics \<Rightarrow> NetworkStackStatistics) \<Rightarrow> 'l NetworkStack \<Rightarrow> 'l NetworkStack" where
  "count_net f self = self\<lparr>ns_ctx := (ns_ctx self)\<lparr>sc_statistics := f (sc_statistics (ns_ctx self))\<rparr>\<rparr>"

definition deliver ::
  "('l, 'u) datagram_callback \<Rightarrow> 'l NetworkStack \<times> 'u \<Rightarrow> Ipv4Address \<Rightarrow> byte list \<Rightarrow> 'l NetworkStack \<times> 'u" where
  "deliver callback st source payload =
     (case st of (self, user) \<Rightarrow>
        let self = count_net (\<lambda>s. s\<lparr>nst_ipv4_delivered := nst_ipv4_delivered s + 1\<rparr>) self
        in callback (self, user) source payload (ns_current_metadata self))"

text \<open>
  The reassembly table calls back in the middle of its insertion; the stack that the callback sees has the table
  of before, which no operation of the stack but the receive path reads.
\<close>

definition reassembly_complete ::
  "('l, 'u) datagram_callback \<Rightarrow> ('l NetworkStack \<times> 'u) reassembly_callback" where
  "reassembly_complete callback st key payload = (deliver callback st (rk_source key) payload, True)"

definition receive_ipv4 ::
  "('l, 'u) datagram_callback \<Rightarrow> 'l NetworkStack \<times> 'u \<Rightarrow> byte list \<Rightarrow> CaptureMetadata \<Rightarrow> 'l NetworkStack \<times> 'u" where
  "receive_ipv4 callback st payload metadata =
     (case st of (self, user) \<Rightarrow>
        let self = count_net (\<lambda>s. s\<lparr>nst_ipv4_received := nst_ipv4_received s + 1\<rparr>) self in
        case parse_ipv4_packet payload of (status, packet) \<Rightarrow>
        if status \<noteq> ip_ok
        then (count_net (\<lambda>s. s\<lparr>nst_malformed_drops := nst_malformed_drops s + 1\<rparr>) self, user)
        else if ip_destination (pv_header packet) \<noteq> nc_local_address (ns_config self)
        then (count_net (\<lambda>s. s\<lparr>nst_wrong_destination_drops := nst_wrong_destination_drops s + 1\<rparr>) self, user)
        else if ip_protocol (pv_header packet) \<noteq> kVectorNetProtocol
        then (count_net (\<lambda>s. s\<lparr>nst_wrong_protocol_drops := nst_wrong_protocol_drops s + 1\<rparr>) self, user)
        else
          let self = self\<lparr>ns_current_metadata := metadata\<rparr>;
              fragmented = (ip_flags_fragment_offset (pv_header packet) AND
                            (kIpv4FlagMoreFragments OR kIpv4FragmentOffsetMask) \<noteq> 0)
          in if \<not> fragmented
          then deliver callback (self, user) (ip_source (pv_header packet)) (pv_payload packet)
          else
            (case rt_insert (ns_reassembly self) (pv_header packet) (pv_payload packet) (ns_poll_now_ns self)
                    (Some (reassembly_complete callback)) (self, user) of
               (reassembly, status, (self, user)) \<Rightarrow>
                 let self = self\<lparr>ns_reassembly := reassembly\<rparr> in
                 if status = rs_malformed \<or> status = rs_table_full \<or> status = rs_hole_capacity_exhausted \<or>
                    status = rs_callback_rejected
                 then (count_net (\<lambda>s. s\<lparr>nst_reassembly_drops := nst_reassembly_drops s + 1\<rparr>) self, user)
                 else (self, user)))"

definition receive_frame ::
  "('l, 'u) datagram_callback \<Rightarrow> u64 \<Rightarrow> 'l NetworkStack \<times> 'u \<Rightarrow> EthernetHeader \<Rightarrow> byte list \<Rightarrow> CaptureMetadata
     \<Rightarrow> 'l NetworkStack \<times> 'u" where
  "receive_frame callback now_ns st header payload metadata =
     (case st of (self, user) \<Rightarrow>
        let self = self\<lparr>ns_poll_now_ns := now_ns\<rparr> in
        if eh_ether_type header = kEtherTypeArp
        then
          (case on_arp_payload (ns_arp self) (ns_ctx self) payload (ns_poll_now_ns self) of
             (arp, ctx, status) \<Rightarrow>
               let self = self\<lparr>ns_arp := arp, ns_ctx := ctx\<rparr> in
               if status = arp_malformed \<or> status = arp_unsupported
               then (count_net (\<lambda>s. s\<lparr>nst_malformed_drops := nst_malformed_drops s + 1\<rparr>) self, user)
               else (self, user))
        else if eh_ether_type header \<noteq> kEtherTypeIpv4 then (self, user)
        else receive_ipv4 callback (self, user) payload metadata)"

text \<open>
  \<open>clock_gettime(CLOCK_MONOTONIC)\<close>: seconds and nanoseconds, or a failure.
\<close>

definition monotonic_now_ns :: "(int \<times> int) option \<Rightarrow> u64" where
  "monotonic_now_ns clock_value =
     (case clock_value of
        None \<Rightarrow> 0
      | Some (sec, nsec) \<Rightarrow>
          if sec < 0 \<or> nsec < 0 then 0 else word_of_int sec * 1000000000 + word_of_int nsec)"

definition frame_received ::
  "('u \<Rightarrow> 'u \<times> (int \<times> int) option) \<Rightarrow> ('l, 'u) datagram_callback \<Rightarrow> ('l NetworkStack \<times> 'u) frame_callback" where
  "frame_received clock callback st header payload metadata =
     (case st of (self, user) \<Rightarrow>
        case clock user of (user, clock_value) \<Rightarrow>
        receive_frame callback (monotonic_now_ns clock_value) (self, user) header payload metadata)"

text \<open>
  \<open>poll\<close>, on the frames and the error the link's poll came back with; the clock is part of the state beside the
  stack. The endpoint's drop counters are written by the endpoint, its transmit buffer by the callbacks.
\<close>

definition stack_poll ::
  "('u \<Rightarrow> 'u \<times> (int \<times> int) option) \<Rightarrow> 'l NetworkStack \<Rightarrow> ('l, 'u) datagram_callback option \<Rightarrow> 'u
     \<Rightarrow> (byte list \<times> CaptureMetadata) list \<times> error_code \<Rightarrow> ('l NetworkStack \<times> 'u) \<times> error_code" where
  "stack_poll clock self callback user captured =
     (case callback of
        None \<Rightarrow> ((self, user), invalid_argument)
      | Some callback \<Rightarrow>
          (case clock user of (user, clock_value) \<Rightarrow>
           let self = self\<lparr>ns_poll_now_ns := monotonic_now_ns clock_value\<rparr> in
           case ee_poll_frames (sc_endpoint (ns_ctx self)) (Some (frame_received clock callback)) (self, user)
                  captured of
             (endpoint, (self, user), error) \<Rightarrow>
               let ctx = ns_ctx self;
                   self = self\<lparr>ns_ctx := ctx\<lparr>sc_endpoint :=
                     (sc_endpoint ctx)\<lparr>ee_drop_counters := ee_drop_counters endpoint\<rparr>\<rparr>\<rparr>
               in ((self, user), error)))"

definition stack_tick :: "'l NetworkStack \<Rightarrow> u64 \<Rightarrow> 'l NetworkStack" where
  "stack_tick self now_ns =
     (case arp_tick (ns_arp self) (ns_ctx self) now_ns of (arp, ctx) \<Rightarrow>
        self\<lparr>ns_arp := arp, ns_ctx := ctx,
             ns_reassembly := fst (rt_sweep (ns_reassembly self) now_ns)\<rparr>)"

end
