(* ===== verification/Link_Endpoint.thy ===== *)
theory Link_Endpoint
  imports Bpf_Run Network_Stack
begin

text \<open>
  The platform-independent link (\<^verbatim>\<open>include/vectornet/link/link_endpoint.hpp\<close>, \<^verbatim>\<open>src/link/link_endpoint.cpp\<close>): a
  handle on the capture backend that a move leaves empty (\<open>None\<close>), every operation of which answers
  \<open>bad_file_descriptor\<close> on an empty handle and forwards to the backend otherwise. \<open>link_transmit\<close> is the
  link as the network stack sees it; the lemmas compose the two layers.
\<close>

type_synonym LinkEndpoint = "BpfBackend option"

definition link_open :: "'w bpf_os \<Rightarrow> LinkConfig \<Rightarrow> 'w \<Rightarrow> 'w \<times> error_code \<times> LinkEndpoint option" where
  "link_open os config w =
     (case bpf_open os config w of
        (w, Inl e) \<Rightarrow> (w, e, None)
      | (w, Inr backend) \<Rightarrow> (w, no_error, Some (Some backend)))"

definition link_move :: "LinkEndpoint \<Rightarrow> LinkEndpoint \<times> LinkEndpoint" where
  "link_move source = (source, None)"

definition link_poll_frames ::
  "'w bpf_os \<Rightarrow> bpf_abi \<Rightarrow> LinkEndpoint \<Rightarrow> 'w \<Rightarrow> ('s \<Rightarrow> byte list \<Rightarrow> CaptureMetadata \<Rightarrow> 's) option \<Rightarrow> 's
     \<Rightarrow> ('w \<times> 's \<times> error_code) option" where
  "link_poll_frames os abi l w callback ctx =
     (case l of
        None \<Rightarrow> Some (w, ctx, bad_file_descriptor)
      | Some backend \<Rightarrow> bpf_poll_frames os abi backend w callback ctx)"

definition link_poll_frames_for ::
  "'w bpf_os \<Rightarrow> bpf_abi \<Rightarrow> LinkEndpoint \<Rightarrow> 'w \<Rightarrow> ('s \<Rightarrow> byte list \<Rightarrow> CaptureMetadata \<Rightarrow> 's) option \<Rightarrow> 's \<Rightarrow> u32
     \<Rightarrow> ('w \<times> 's \<times> error_code) option" where
  "link_poll_frames_for os abi l w callback ctx timeout_ms =
     (case l of
        None \<Rightarrow> Some (w, ctx, bad_file_descriptor)
      | Some backend \<Rightarrow> bpf_poll_frames_for os abi backend w callback ctx timeout_ms)"

definition link_send_frame ::
  "'w bpf_os \<Rightarrow> LinkEndpoint \<Rightarrow> 'w \<Rightarrow> byte list \<Rightarrow> TxMetadata option \<Rightarrow> 'w \<times> TxMetadata option \<times> error_code" where
  "link_send_frame os l w frame metadata =
     (case l of
        None \<Rightarrow> (w, metadata, bad_file_descriptor)
      | Some backend \<Rightarrow> bpf_send_frame os backend w frame metadata)"

definition link_interface_info :: "LinkEndpoint \<Rightarrow> InterfaceInfo" where
  "link_interface_info l =
     (case l of
        None \<Rightarrow> \<lparr>ii_mac = zero_mac, ii_mtu = 0, ii_bpf_buffer_bytes = 0\<rparr>
      | Some backend \<Rightarrow> bb_info backend)"

definition link_bpf_statistics :: "'w bpf_os \<Rightarrow> LinkEndpoint \<Rightarrow> 'w \<Rightarrow> 'w \<times> error_code \<times> BpfStatistics" where
  "link_bpf_statistics os l w =
     (case l of
        None \<Rightarrow> (w, bad_file_descriptor, \<lparr>bs_received = 0, bs_dropped = 0\<rparr>)
      | Some backend \<Rightarrow> bpf_statistics os backend w)"

section \<open>The link under the stack\<close>

definition link_transmit :: "'w bpf_os \<Rightarrow> LinkEndpoint \<Rightarrow> 'w link_send" where
  "link_transmit os l w frame = (case link_send_frame os l w frame None of (w, _, e) \<Rightarrow> (w, e))"

text \<open>
  Success means that the whole frame was written, once, to an open device; a failing system call sets an
  \<open>errno\<close> other than 0.
\<close>

lemma link_transmit_success:
  assumes "link_transmit os l w frame = (w', no_error)"
    and errno: "\<And>w. snd (os_clock os w) \<noteq> Inl 0" "\<And>w fd bytes. snd (os_write os w fd bytes) \<noteq> Inl 0"
  shows "\<exists>b w1 w2. l = Some b \<and> kEthernetHeaderBytes \<le> length frame \<and>
     length frame \<le> unat (ii_mtu (bb_info b)) + kEthernetHeaderBytes \<and> w1 = fst (os_clock os w) \<and>
     os_write os w1 (bb_fd b) frame = (w2, Inr (length frame)) \<and> w' = fst (os_clock os w2)"
proof -
  obtain b where "l = Some b"
    using assms by (cases l) (auto simp: link_transmit_def link_send_frame_def)
  have clk: "os_clock os v = (v', Inl e) \<Longrightarrow> errno_error e \<noteq> no_error" for v v' e
    using errno(1) [of v] by (auto simp: errno_error_def)
  have wr: "os_write os v fd bytes = (v', Inl e) \<Longrightarrow> errno_error e \<noteq> no_error" for v fd bytes v' e
    using errno(2) [of v fd bytes] by (auto simp: errno_error_def)
  show ?thesis
    using assms(1) \<open>l = Some b\<close>
    by (auto simp: link_transmit_def link_send_frame_def bpf_send_frame_def Let_def
        dest: clk wr split: if_splits sum.splits prod.splits)
qed

text \<open>An empty handle never reaches the system.\<close>

lemma moved_link_inert:
  "link_transmit os None w frame = (w, bad_file_descriptor)"
  "link_poll_frames os abi None w callback ctx = Some (w, ctx, bad_file_descriptor)"
  by (simp_all add: link_transmit_def link_send_frame_def link_poll_frames_def)

end
