(* ===== verification/Network_Run.thy ===== *)
theory Network_Run
  imports Network_Stack
begin

text \<open>
  A datagram across the link: what the sending stack hands to the link, and what the receiving stack
  delivers when those frames arrive.
\<close>

section \<open>Sending\<close>

text \<open>A link that records the frames it is given.\<close>

definition record_link :: "byte list list link_send" where
  "record_link sent frame = (sent @ [frame], no_error)"

definition endpoint_ok :: "EthernetEndpoint \<Rightarrow> bool" where
  "endpoint_ok e \<longleftrightarrow> ee_link_open e \<and> length (ii_mac (ee_info e)) = 6 \<and>
     length (ee_tx_buffer e) = max (unat (ii_mtu (ee_info e)) + 14) 60"

text \<open>A stack whose resolver knows the hardware address of the destination.\<close>

definition knows :: "Ipv4Address \<Rightarrow> u64 \<Rightarrow> MacAddress \<Rightarrow> byte list list NetworkStack \<Rightarrow> bool" where
  "knows destination now hw s \<longleftrightarrow> endpoint_ok (sc_endpoint (ns_ctx s)) \<and>
     ar_callbacks (ns_arp s) = stack_callbacks record_link \<and> cache_inv (ar_cache (ns_arp s)) \<and>
     cache_view (ar_cache (ns_arp s)) now destination = Some hw \<and> length hw = 6"

lemma send_frame_ok:
  assumes e: "endpoint_ok e" and d: "length hw = 6" and ty: "\<not> is_vlan ty"
    and p: "length payload \<le> unat (ii_mtu (ee_info e))"
  shows "\<exists>e'. ee_send_frame record_link e sent hw ty payload =
      (e', sent @ [eth_encode hw (ii_mac (ee_info e)) ty payload], no_error) \<and> endpoint_ok e' \<and> ee_info e' = ee_info e"
proof -
  let ?mac = "ii_mac (ee_info e)" and ?f = "eth_encode hw (ii_mac (ee_info e)) ty payload"
  have mtu: "unat (ii_mtu (ee_info e)) < 2 ^ 32" by (rule unat_u32_bound)
  have len: "length ?f = max (14 + length payload) 60" using e d by (simp add: eth_encode_def endpoint_ok_def)
  have "build_ethernet_frame hw ?mac ty payload (ee_tx_buffer e) =
      (eth_ok, ?f @ drop (max (14 + length payload) 60) (ee_tx_buffer e), max (14 + length payload) 60)"
    using e d ty p mtu by (intro build_ethernet_ok) (auto simp: endpoint_ok_def)
  then show ?thesis
    using e p len by (auto simp: ee_send_frame_def endpoint_ok_def record_link_def)
qed

lemma ipv4_not_vlan: "\<not> is_vlan kEtherTypeIpv4"
  by (simp add: is_vlan_def kEtherTypeIpv4_def kEtherTypeVlan8021Q_def kEtherTypeVlan8021Ad_def)

lemma emit_fragment_known:
  assumes k: "knows (ns_send_destination s) (ns_send_now_ns s) hw s"
    and p: "length packet \<le> unat (ii_mtu (ee_info (sc_endpoint (ns_ctx s))))" "length packet \<le> 2048"
  shows "\<exists>s'. emit_fragment s packet = (s', True) \<and> knows (ns_send_destination s') (ns_send_now_ns s') hw s' \<and>
    ee_info (sc_endpoint (ns_ctx s')) = ee_info (sc_endpoint (ns_ctx s)) \<and>
    sc_link (ns_ctx s') = sc_link (ns_ctx s) @
      [eth_encode hw (ii_mac (ee_info (sc_endpoint (ns_ctx s)))) kEtherTypeIpv4 packet] \<and>
    ns_send_queued s' = ns_send_queued s \<and> ns_send_status s' = ns_send_status s"
proof -
  let ?e = "sc_endpoint (ns_ctx s)" and ?d = "ns_send_destination s" and ?now = "ns_send_now_ns s"
  obtain c r where l: "cache_lookup (ar_cache (ns_arp s)) ?d ?now = (c, r)" by fastforce
  have law: "cache_inv c" "r = Some hw" "cache_view c ?now = cache_view (ar_cache (ns_arp s)) ?now"
    using cache_lookup_law [OF _ l] k by (auto simp: knows_def)
  obtain e' where e': "ee_send_frame record_link ?e (sc_link (ns_ctx s)) hw kEtherTypeIpv4 packet =
      (e', sc_link (ns_ctx s) @ [eth_encode hw (ii_mac (ee_info ?e)) kEtherTypeIpv4 packet], no_error)"
      "endpoint_ok e'" "ee_info e' = ee_info ?e"
    using send_frame_ok [of ?e hw kEtherTypeIpv4 packet "sc_link (ns_ctx s)"] k p ipv4_not_vlan by (auto simp: knows_def)
  have "queue_frame (ns_arp s) (ns_ctx s) ?d kEtherTypeIpv4 packet ?now =
     ((ns_arp s)\<lparr>ar_cache := c\<rparr>, (ns_ctx s)\<lparr>sc_endpoint := e',
       sc_link := sc_link (ns_ctx s) @ [eth_encode hw (ii_mac (ee_info ?e)) kEtherTypeIpv4 packet]\<rparr>, arp_ok)"
    using k p(2) l law(2) e'(1)
    by (simp add: queue_frame_def knows_def stack_callbacks_def transmit_frame_def kArpMaximumPendingPayloadBytes_def Let_def)
  then show ?thesis
    using k law e' by (simp add: emit_fragment_def knows_def Let_def)
qed

lemma feed_known:
  "knows (ns_send_destination s) (ns_send_now_ns s) hw s \<Longrightarrow>
   (\<And>p. p \<in> set ps \<Longrightarrow> length p \<le> unat (ii_mtu (ee_info (sc_endpoint (ns_ctx s)))) \<and> length p \<le> 2048) \<Longrightarrow>
   \<exists>s'. feed emit_fragment s ps = (ip_ok, s') \<and> ee_info (sc_endpoint (ns_ctx s')) = ee_info (sc_endpoint (ns_ctx s)) \<and>
     sc_link (ns_ctx s') = sc_link (ns_ctx s) @
       map (eth_encode hw (ii_mac (ee_info (sc_endpoint (ns_ctx s)))) kEtherTypeIpv4) ps \<and>
     ns_send_queued s' = ns_send_queued s \<and> ns_send_status s' = ns_send_status s"
proof (induction ps arbitrary: s)
  case (Cons p ps)
  obtain s1 where 1: "emit_fragment s p = (s1, True)" "knows (ns_send_destination s1) (ns_send_now_ns s1) hw s1"
    "ee_info (sc_endpoint (ns_ctx s1)) = ee_info (sc_endpoint (ns_ctx s))"
    "sc_link (ns_ctx s1) = sc_link (ns_ctx s) @
      [eth_encode hw (ii_mac (ee_info (sc_endpoint (ns_ctx s)))) kEtherTypeIpv4 p]"
    "ns_send_queued s1 = ns_send_queued s" "ns_send_status s1 = ns_send_status s"
    using emit_fragment_known [OF Cons.prems(1), of p] Cons.prems(2) by auto
  then show ?case using Cons.IH [OF 1(2)] Cons.prems(2) by auto
qed simp

text \<open>The header of the stack's datagrams.\<close>

definition datagram_header :: "byte list list NetworkStack \<Rightarrow> Ipv4Address \<Rightarrow> Ipv4Header" where
  "datagram_header s destination = default_Ipv4Header\<lparr>ip_identification := ns_identification s,
     ip_ttl := kVectorNetTtl, ip_protocol := kVectorNetProtocol,
     ip_source := nc_local_address (ns_config s), ip_destination := destination\<rparr>"

lemma fragment_packet_length: "length (fragment_packet h f) = 20 + length (fg_bytes f)"
  by (simp add: fragment_packet_def ip_encode_def)

lemma send_datagram_emits:
  assumes k: "knows destination now hw s"
    and mtu: "mtu = unat (ii_mtu (ee_info (sc_endpoint (ns_ctx s))))" "28 \<le> mtu" "mtu \<le> 2048" "mtu \<le> length (ns_fragment_scratch s)"
    and p: "length payload \<le> 65515"
    and s: "send_datagram s destination payload now = (s', status)"
  shows "status = net_accepted \<and> sc_link (ns_ctx s') = sc_link (ns_ctx s) @
    map (\<lambda>f. eth_encode hw (ii_mac (ee_info (sc_endpoint (ns_ctx s)))) kEtherTypeIpv4
          (fragment_packet (datagram_header s destination) f)) (fragments payload mtu)"
proof -
  define s0 where "s0 = s\<lparr>ns_send_destination := destination, ns_send_now_ns := now, ns_send_status := net_accepted,
    ns_send_queued := False, ns_identification := ns_identification s + 1\<rparr>"
  let ?h = "datagram_header s destination" and ?ps = "frag_packets (datagram_header s destination) payload mtu"
  have k0: "knows (ns_send_destination s0) (ns_send_now_ns s0) hw s0" using k by (simp add: s0_def knows_def)
  have "length q \<le> mtu \<and> length q \<le> 2048" if "q \<in> set ?ps" for q
    using that fragments_partition [OF mtu(2), of payload] mtu(3)
    by (auto simp: frag_packets_def fragment_packet_length)
  then obtain s1 where f: "feed emit_fragment s0 ?ps = (ip_ok, s1)"
    "sc_link (ns_ctx s1) = sc_link (ns_ctx s) @ map (eth_encode hw (ii_mac (ee_info (sc_endpoint (ns_ctx s)))) kEtherTypeIpv4) ?ps"
    "ns_send_queued s1 = False" "ns_send_status s1 = net_accepted"
    using feed_known [OF k0, of ?ps] mtu(1) by (auto simp: s0_def)
  obtain st scratch s2 where fr: "fragment_ipv4_payload ?h payload mtu (ns_fragment_scratch s) (Some emit_fragment) s0 = (st, scratch, s2)"
    by (metis prod_cases3)
  have "(st, s2) = (ip_ok, s1)"
    using fragmentation_feeds [where h = ?h and payload = payload and mtu = mtu and scratch = "ns_fragment_scratch s"
        and callback = "Some emit_fragment" and ctx = s0] fr f(1) mtu p by simp
  then have "send_datagram s destination payload now = (s1\<lparr>ns_fragment_scratch := scratch\<rparr>, net_accepted)"
    using fr f(3) mtu(1)
    by (simp add: send_datagram_def id_next_def Let_def s0_def datagram_header_def)
  then show ?thesis using s f(2) by (simp add: frag_packets_def)
qed

section \<open>Receiving\<close>

text \<open>
  The application of these runs writes down what it receives; its state is that log and the clock.
\<close>

definition log_datagram :: "('l, (Ipv4Address \<times> byte list) list \<times> 'c) datagram_callback" where
  "log_datagram st source payload metadata = (case st of (self, log, c) \<Rightarrow> (self, log @ [(source, payload)], c))"

definition with_clock :: "('c \<Rightarrow> 'c \<times> 'v) \<Rightarrow> 'a \<times> 'c \<Rightarrow> ('a \<times> 'c) \<times> 'v" where
  "with_clock clock u = (case u of (a, c) \<Rightarrow> case clock c of (c, v) \<Rightarrow> ((a, c), v))"

text \<open>A stack that has received the fragments \<open>F\<close> of the datagram and awaits the others.\<close>

definition receiving :: "Ipv4Header \<Rightarrow> byte list \<Rightarrow> fragment set \<Rightarrow> 'l NetworkStack \<Rightarrow> bool" where
  "receiving h payload F s \<longleftrightarrow> nc_local_address (ns_config s) = ip_destination h \<and> rt_inv (ns_reassembly s) \<and>
     rt_abs (ns_reassembly s) (key_of h) = (if F = {} then None else Some (dg_of payload F)) \<and>
     (F \<noteq> {} \<or> active_slots (ns_reassembly s) \<noteq> rt_capacity (ns_reassembly s))"

lemma count_net_simps [simp]:
  "ns_reassembly (count_net f s) = ns_reassembly s" "ns_config (count_net f s) = ns_config s"
  "ns_poll_now_ns (count_net f s) = ns_poll_now_ns s"
  by (simp_all add: count_net_def)

lemma parse_padded:
  assumes "slice_of payload f" "length payload \<le> 65515"
  shows "parse_ipv4_packet (fragment_packet h f @ pad) = parse_ipv4_packet (fragment_packet h f)"
proof -
  let ?v = "\<lparr>pv_header = built_header (fragment_header h f) (fg_bytes f), pv_payload = fg_bytes f\<rparr>"
  have "ip_valid ?v" using assms by (intro built_header_valid) (simp add: slice_of_def)
  then show ?thesis
    using parse_ip_encode [of ?v pad] parse_ip_encode [of ?v "[]"] by (simp add: fragment_packet_def)
qed

lemma fragmented_bits:
  "flags AND (kIpv4FlagMoreFragments OR kIpv4FragmentOffsetMask) \<noteq> 0 \<longleftrightarrow>
   flags AND kIpv4FlagMoreFragments \<noteq> 0 \<or> flags AND kIpv4FragmentOffsetMask \<noteq> 0" for flags :: u16
  by (simp add: bit.conj_disj_distrib or_eq_0_iff)

lemma receive_ipv4_fragment:
  assumes s: "receiving h payload F s" and pr: "ip_protocol h = kVectorNetProtocol"
    and f: "slice_of payload f" "fg_bytes f \<noteq> []" "fg_more f \<or> fg_offset f \<noteq> 0"
    and len: "length payload \<le> 65515" and F: "finite F" "\<forall>g \<in> F. slice_of payload g"
    and r: "receive_ipv4 log_datagram (s, log, c) (fragment_packet h f @ pad) md = (s', log', c')"
  shows "c' = c \<and> (if dg_complete (dg_of payload (insert f F)) then log' = log @ [(ip_source h, payload)]
    else log' = log \<and> receiving h payload (insert f F) s')"
proof -
  obtain v where v: "parse_ipv4_packet (fragment_packet h f) = (ip_ok, v)" "ip_destination (pv_header v) = ip_destination h"
      "ip_protocol (pv_header v) = ip_protocol h"
      "8 * unat (ip_flags_fragment_offset (pv_header v) AND kIpv4FragmentOffsetMask) = fg_offset f"
      "ip_flags_fragment_offset (pv_header v) AND kIpv4FlagMoreFragments \<noteq> 0 \<longleftrightarrow> fg_more f"
    using fragment_packet_parsed [OF f(1) len, of h] by auto
  have fr: "ip_flags_fragment_offset (pv_header v) AND (kIpv4FlagMoreFragments OR kIpv4FragmentOffsetMask) \<noteq> 0"
    unfolding fragmented_bits using f(3) v(4,5) by auto
  define s1 where "s1 = (count_net (\<lambda>s. s\<lparr>nst_ipv4_received := nst_ipv4_received s + 1\<rparr>) s)\<lparr>ns_current_metadata := md\<rparr>"
  let ?t = "ns_reassembly s"
  let ?cb = "reassembly_complete log_datagram"
  obtain t' status s2 log1 c1 where ins: "rt_insert ?t (pv_header v) (pv_payload v) (ns_poll_now_ns s) (Some ?cb) (s1, log, c)
      = (t', status, (s2, log1, c1))" by (metis prod.exhaust)
  have rf: "receive_fragment ?cb (ns_poll_now_ns s, fragment_packet h f) (?t, (s1, log, c)) = ((t', (s2, log1, c1)), status)"
    using v(1) ins by (simp add: receive_fragment_def)
  have abs: "rt_inv ?t" "rt_abs ?t (key_of h) = (if F = {} then None else Some (dg_of payload F))"
    "F \<noteq> {} \<or> active_slots ?t \<noteq> rt_capacity ?t" "nc_local_address (ns_config s) = ip_destination h"
    using s by (simp_all add: receiving_def)
  note R = receive_slice [OF abs(1) f len F abs(2,3) rf]
  have s1: "ns_reassembly s1 = ?t" "ns_config s1 = ns_config s" "ns_poll_now_ns s1 = ns_poll_now_ns s"
    by (simp_all add: s1_def)
  have out: "log' = log1 \<and> c' = c1 \<and> ns_reassembly s' = t' \<and> ns_config s' = ns_config s2"
    using r v(1-3) pr abs(4) fr ins unfolding receive_ipv4_def
    by (auto simp: parse_padded [OF f(1) len] Let_def s1_def [symmetric] s1 split: if_splits)
  show ?thesis
  proof (cases "dg_complete (dg_of payload (insert f F))")
    case True
    then have "(s2, log1, c1) = fst (?cb (s1, log, c) (key_of h) payload)" using R by simp
    then show ?thesis
      using True out by (simp add: reassembly_complete_def deliver_def log_datagram_def key_of_def Let_def)
  next
    case False
    then have "log1 = log" "c1 = c" "s2 = s1" "rt_inv t'" "rt_abs t' (key_of h) = Some (dg_of payload (insert f F))"
      using R by auto
    then show ?thesis using False out abs(4) s1 by (simp add: receiving_def)
  qed
qed

lemma receive_ipv4_whole:
  assumes s: "nc_local_address (ns_config s) = ip_destination h" and pr: "ip_protocol h = kVectorNetProtocol"
    and f: "f = \<lparr>fg_offset = 0, fg_bytes = payload, fg_more = False\<rparr>" and len: "length payload \<le> 65515"
    and r: "receive_ipv4 log_datagram (s, log, c) (fragment_packet h f @ pad) md = (s', log', c')"
  shows "c' = c \<and> log' = log @ [(ip_source h, payload)]"
proof -
  have sl: "slice_of payload f" by (simp add: f slice_of_def)
  obtain v where v: "parse_ipv4_packet (fragment_packet h f) = (ip_ok, v)" "ip_destination (pv_header v) = ip_destination h"
      "ip_protocol (pv_header v) = ip_protocol h" "pv_payload v = payload" "ip_source (pv_header v) = ip_source h"
      "8 * unat (ip_flags_fragment_offset (pv_header v) AND kIpv4FragmentOffsetMask) = 0"
      "ip_flags_fragment_offset (pv_header v) AND kIpv4FlagMoreFragments = 0"
    using fragment_packet_parsed [OF sl len, of h] by (auto simp: f)
  have "ip_flags_fragment_offset (pv_header v) AND kIpv4FragmentOffsetMask = 0"
    using v(6) by (simp add: unsigned_eq_0_iff)
  then have "ip_flags_fragment_offset (pv_header v) AND (kIpv4FlagMoreFragments OR kIpv4FragmentOffsetMask) = 0"
    using fragmented_bits v(7) by blast
  then show ?thesis
    using r v(1-5) pr s unfolding receive_ipv4_def
    by (auto simp: parse_padded [OF sl len] Let_def deliver_def log_datagram_def)
qed

section \<open>Polling\<close>

lemma dispatch_encoded:
  assumes "length hw = 6" "length mac = 6"
  shows "dispatch_frame (frame_received (with_clock clock) log_datagram) (eth_encode hw mac kEtherTypeIpv4 packet, md) (n, (s, log, c)) =
    (case clock c of (c, value) \<Rightarrow>
       (n, receive_ipv4 log_datagram (s\<lparr>ns_poll_now_ns := monotonic_now_ns value\<rparr>, log, c)
             (packet @ replicate (46 - length packet) 0) md))"
proof -
  have "kEtherTypeIpv4 \<noteq> kEtherTypeArp" by (simp add: kEtherTypeIpv4_def kEtherTypeArp_def)
  then show ?thesis
    using parse_eth_encode [OF assms ipv4_not_vlan, of packet]
    by (simp add: dispatch_frame_def frame_received_def receive_frame_def with_clock_def Let_def split: prod.split)
qed

lemma receiving_poll_time [simp]: "receiving h payload F (s\<lparr>ns_poll_now_ns := now\<rparr>) = receiving h payload F s"
  by (simp add: receiving_def)

lemma poll_fragments:
  assumes fs: "contiguous 0 fs" "concat (map fg_bytes fs) = payload" "payload \<noteq> []"
      "\<forall>f \<in> set fs. slice_of payload f \<and> fg_bytes f \<noteq> [] \<and> (fg_more f \<or> fg_offset f \<noteq> 0)"
    and len: "length payload \<le> 65515" and pr: "ip_protocol h = kVectorNetProtocol"
    and mac: "length hw = 6" "length mac = 6"
  shows "receiving h payload F s \<Longrightarrow> F \<subseteq> set fs \<Longrightarrow> l \<notin> F \<Longrightarrow> l \<in> set fs \<Longrightarrow>
    fst ` set arrivals \<subseteq> set fs - {l} \<Longrightarrow> F \<union> fst ` set arrivals \<union> {l} = set fs \<Longrightarrow>
    fold (dispatch_frame (frame_received (with_clock clock) log_datagram))
      (map (\<lambda>(f, md). (eth_encode hw mac kEtherTypeIpv4 (fragment_packet h f), md)) (arrivals @ [(l, md)])) (n, (s, log, c))
    = (n', (s', log', c')) \<Longrightarrow> n' = n \<and> log' = log @ [(ip_source h, payload)]"
proof (induction arrivals arbitrary: F s c)
  case Nil
  have fin: "finite F" "\<forall>g \<in> F. slice_of payload g" using Nil.prems(2) finite_subset fs(4) by auto
  have "insert l F = set fs" using Nil.prems by auto
  then have comp: "dg_complete (dg_of payload (insert l F))" using dg_complete_iff [OF fs(1-3), of "set fs"] fs(4) by auto
  obtain c1 v where cl: "clock c = (c1, v)" by fastforce
  have rcv: "receiving h payload F (s\<lparr>ns_poll_now_ns := monotonic_now_ns v\<rparr>)" using Nil.prems(1) by simp
  obtain s1 log1 c2 where r: "receive_ipv4 log_datagram (s\<lparr>ns_poll_now_ns := monotonic_now_ns v\<rparr>, log, c1)
      (fragment_packet h l @ replicate (46 - length (fragment_packet h l)) 0) md = (s1, log1, c2)" by (metis prod_cases3)
  have "log1 = log @ [(ip_source h, payload)]"
    using receive_ipv4_fragment [OF rcv pr _ _ _ len fin r] fs(4) Nil.prems(4) comp by auto
  then show ?case using Nil.prems(7) r cl by (auto simp: dispatch_encoded [OF mac])
next
  case (Cons a arrivals)
  obtain f m where a: "a = (f, m)" by fastforce
  have f: "f \<in> set fs" "f \<noteq> l" using Cons.prems(5) a by auto
  have fin: "finite F" "\<forall>g \<in> F. slice_of payload g" using Cons.prems(2) finite_subset fs(4) by auto
  have "insert f F \<noteq> set fs" using Cons.prems(3,4) f by auto
  then have nc: "\<not> dg_complete (dg_of payload (insert f F))"
    using dg_complete_iff [OF fs(1-3), of "insert f F"] fs(4) f Cons.prems(2) by auto
  obtain c1 v where cl: "clock c = (c1, v)" by fastforce
  have rcv: "receiving h payload F (s\<lparr>ns_poll_now_ns := monotonic_now_ns v\<rparr>)" using Cons.prems(1) by simp
  obtain s1 log1 c2 where r: "receive_ipv4 log_datagram (s\<lparr>ns_poll_now_ns := monotonic_now_ns v\<rparr>, log, c1)
      (fragment_packet h f @ replicate (46 - length (fragment_packet h f)) 0) m = (s1, log1, c2)" by (metis prod_cases3)
  have s1: "c2 = c1" "log1 = log" "receiving h payload (insert f F) s1"
    using receive_ipv4_fragment [OF rcv pr _ _ _ len fin r] fs(4) f(1) nc by auto
  show ?case
    using s1 f a Cons.prems r cl
    by (intro Cons.IH [of "insert f F" s1 c1]) (auto simp: dispatch_encoded [OF mac])
qed

text \<open>
  The frames of a datagram, each with its metadata: \<open>arrivals\<close> holds every fragment but the last one to
  arrive, in any order and with duplicates.
\<close>

definition arrives :: "fragment list \<Rightarrow> (fragment \<times> CaptureMetadata) list \<Rightarrow> fragment \<Rightarrow> bool" where
  "arrives fs arrivals l \<longleftrightarrow> l \<notin> fst ` set arrivals \<and> insert l (fst ` set arrivals) = set fs"

lemma poll_datagram:
  assumes rcv: "receiving h payload {} r" and open': "ee_link_open (sc_endpoint (ns_ctx r))"
    and pr: "ip_protocol h = kVectorNetProtocol" and mac: "length hw = 6" "length mac = 6"
    and mtu: "28 \<le> mtu" and len: "length payload \<le> 65515" and arr: "arrives (fragments payload mtu) arrivals l"
  shows "\<exists>r' c'. stack_poll (with_clock clock) r (Some log_datagram) ([], c)
     (map (\<lambda>(f, md). (eth_encode hw mac kEtherTypeIpv4 (fragment_packet h f), md)) (arrivals @ [(l, md)]), no_error)
   = ((r', [(ip_source h, payload)], c'), no_error)"
proof -
  let ?frames = "map (\<lambda>(f, md). (eth_encode hw mac kEtherTypeIpv4 (fragment_packet h f), md)) (arrivals @ [(l, md)])"
  obtain c1 v where cl: "clock c = (c1, v)" by fastforce
  define r1 where "r1 = r\<lparr>ns_poll_now_ns := monotonic_now_ns v\<rparr>"
  obtain n s log c2 where fo: "fold (dispatch_frame (frame_received (with_clock clock) log_datagram)) ?frames
      (ee_drop_counters (sc_endpoint (ns_ctx r1)), (r1, [], c1)) = (n, (s, log, c2))" by (metis prod.exhaust)
  have rcv1: "receiving h payload {} r1" using rcv by (simp add: r1_def)
  have "log = [(ip_source h, payload)]"
  proof (cases "length payload \<le> mtu - 20")
    case True
    then have fs: "fragments payload mtu = [\<lparr>fg_offset = 0, fg_bytes = payload, fg_more = False\<rparr>]" by (simp add: fragments_def)
    have a: "l \<notin> fst ` set arrivals" and ins: "insert l (fst ` set arrivals) = set (fragments payload mtu)"
      using arr unfolding arrives_def by blast+
    have s: "set (fragments payload mtu) = {\<lparr>fg_offset = 0, fg_bytes = payload, fg_more = False\<rparr>}" by (simp add: fs)
    have l: "l = \<lparr>fg_offset = 0, fg_bytes = payload, fg_more = False\<rparr>" using ins unfolding s by blast
    have "fst ` set arrivals \<subseteq> {l}" using subset_insertI [of "fst ` set arrivals" l] unfolding ins s unfolding l .
    then have "fst ` set arrivals = {}" using a by (metis subset_singletonD singletonI)
    then have "arrivals = []" by simp
    obtain c3 v3 where cl3: "clock c1 = (c3, v3)" by fastforce
    obtain s3 log3 c4 where r3: "receive_ipv4 log_datagram (r1\<lparr>ns_poll_now_ns := monotonic_now_ns v3\<rparr>, [], c3)
        (fragment_packet h l @ replicate (46 - length (fragment_packet h l)) 0) md = (s3, log3, c4)" by (metis prod_cases3)
    have "c4 = c3 \<and> log3 = [] @ [(ip_source h, payload)]"
      by (rule receive_ipv4_whole [OF _ pr l len r3]) (use rcv1 in \<open>simp add: receiving_def\<close>)
    then show ?thesis using fo \<open>arrivals = []\<close> cl3 r3 by (auto simp: dispatch_encoded [OF mac])
  next
    case False
    let ?fs = "fragments payload mtu"
    have ne: "payload \<noteq> []" using False by auto
    note part = fragments_partition [OF mtu, of payload]
    have "fg_more f \<or> fg_offset f \<noteq> 0" if "f \<in> set ?fs" for f
    proof -
      have "slice_of payload f" "20 + length (fg_bytes f) \<le> mtu" using part that by auto
      then show ?thesis using False by (auto simp: slice_of_def)
    qed
    then have fs: "contiguous 0 ?fs" "concat (map fg_bytes ?fs) = payload"
        "\<forall>f \<in> set ?fs. slice_of payload f \<and> fg_bytes f \<noteq> [] \<and> (fg_more f \<or> fg_offset f \<noteq> 0)"
      using part ne by auto
    have "l \<in> set ?fs" "fst ` set arrivals \<subseteq> set ?fs - {l}" "{} \<union> fst ` set arrivals \<union> {l} = set ?fs"
      using arr by (auto simp: arrives_def)
    then have "n = ee_drop_counters (sc_endpoint (ns_ctx r1)) \<and> log = [] @ [(ip_source h, payload)]"
      using poll_fragments [OF fs(1,2) ne fs(3) len pr mac rcv1, of l arrivals clock md _ "[]" c1 n s log c2] fo by simp
    then show ?thesis by simp
  qed
  moreover have "ns_ctx r1 = ns_ctx r" by (simp add: r1_def)
  ultimately show ?thesis
    using cl fo open' by (simp add: stack_poll_def with_clock_def Let_def r1_def [symmetric] ee_poll_frames_def)
qed

section \<open>Properties\<close>

definition datagram_frame :: "byte list list NetworkStack \<Rightarrow> Ipv4Address \<Rightarrow> MacAddress \<Rightarrow> fragment \<Rightarrow> byte list" where
  "datagram_frame s destination hw f = eth_encode hw (ii_mac (ee_info (sc_endpoint (ns_ctx s)))) kEtherTypeIpv4
     (fragment_packet (datagram_header s destination) f)"

text \<open>
  Claim C3. A datagram of any size crosses the link: a stack that knows the destination's hardware
  address accepts it and hands the link one frame per fragment; when these frames are captured by the
  stack of the destination, in any order and with duplicates of the fragments before the last, one poll
  delivers the datagram, once and byte for byte, with the sender's address.
\<close>

theorem datagram_crosses_the_link:
  assumes k: "knows destination now hw s"
    and mtu: "mtu = unat (ii_mtu (ee_info (sc_endpoint (ns_ctx s))))" "28 \<le> mtu" "mtu \<le> 2048"
      "mtu \<le> length (ns_fragment_scratch s)" and len: "length payload \<le> 65515"
    and r: "receiving (datagram_header s destination) payload {} r" "ee_link_open (sc_endpoint (ns_ctx r))"
    and arr: "arrives (fragments payload mtu) arrivals l"
  shows "\<exists>s' r' c'. send_datagram s destination payload now = (s', net_accepted) \<and>
    sc_link (ns_ctx s') = sc_link (ns_ctx s) @ map (datagram_frame s destination hw) (fragments payload mtu) \<and>
    stack_poll (with_clock clock) r (Some log_datagram) ([], c)
      (map (\<lambda>(f, md). (datagram_frame s destination hw f, md)) (arrivals @ [(l, md)]), no_error)
      = ((r', [(nc_local_address (ns_config s), payload)], c'), no_error)"
proof -
  obtain s' st where sd: "send_datagram s destination payload now = (s', st)" by fastforce
  note send = send_datagram_emits [OF k mtu len sd]
  have hw: "length hw = 6" "length (ii_mac (ee_info (sc_endpoint (ns_ctx s)))) = 6"
    using k by (simp_all add: knows_def endpoint_ok_def)
  have h: "ip_protocol (datagram_header s destination) = kVectorNetProtocol"
    "ip_source (datagram_header s destination) = nc_local_address (ns_config s)"
    by (simp_all add: datagram_header_def)
  show ?thesis
    using send sd poll_datagram [OF r h(1) hw mtu(2) len arr, of clock c md]
    by (simp add: datagram_frame_def [abs_def] h(2))
qed

definition example_stack :: "Ipv4Address \<Rightarrow> byte \<Rightarrow> byte list list NetworkStack" where
  "example_stack address mac = new_NetworkStack record_link
     (new_EthernetEndpoint \<lparr>ii_mac = [2, 0, 0, 0, 0, mac], ii_mtu = 60, ii_bpf_buffer_bytes = 0\<rparr>) []
     \<lparr>nc_interface_name = ''en0'', nc_local_address = address, nc_requested_bpf_buffer_bytes = 0,
      nc_promiscuous = False, nc_arp = default_ArpResolverConfig\<rparr>"

definition introduced :: "Ipv4Address \<Rightarrow> MacAddress \<Rightarrow> byte list list NetworkStack \<Rightarrow> byte list list NetworkStack" where
  "introduced address hw s = s\<lparr>ns_arp := (ns_arp s)\<lparr>ar_cache := fst (cache_insert (ar_cache (ns_arp s)) address hw 0)\<rparr>\<rparr>"

lemma example_knows: "knows 20 1 [2, 0, 0, 0, 0, 9] (introduced 20 [2, 0, 0, 0, 0, 9] (example_stack 10 8))"
proof -
  let ?c = "new_ArpCache 64 kArpDefaultTtlNs"
  obtain c' ok where ins: "cache_insert ?c 20 [2, 0, 0, 0, 0, 9] 0 = (c', ok)" by fastforce
  have cfg: "ar_cache (ns_arp (example_stack 10 8)) = ?c"
    by (simp add: example_stack_def new_NetworkStack_def new_ArpResolver_def default_ArpResolverConfig_def)
  have "length (ac_entries ?c) = 64" by (simp add: new_ArpCache_def)
  then have law: "cache_inv c'" "cache_view c' 1 20 = (if 1 < expiration_from ?c 0 then Some [2, 0, 0, 0, 0, 9] else None)"
    using cache_insert_law [OF new_ArpCache_law(1) ins] by (auto simp: new_ArpCache_law(2))
  have "(1 :: u64) < expiration_from ?c 0" by code_simp
  then show ?thesis
    using law ins cfg
    by (simp add: knows_def introduced_def example_stack_def new_NetworkStack_def endpoint_ok_def
        new_EthernetEndpoint_def kEthernetHeaderBytes_def kEthernetMinimumFrameBytes_def new_ArpResolver_def Let_def)
qed

theorem datagram_crosses_the_link_witness:
  "let s = introduced 20 [2, 0, 0, 0, 0, 9] (example_stack 10 8); payload = replicate 100 (7 :: byte);
       fs = fragments payload 60; md = default_CaptureMetadata
   in \<exists>s' r' c'. send_datagram s 20 payload 1 = (s', net_accepted) \<and>
     stack_poll (with_clock (\<lambda>c. (c, None))) (example_stack 20 9) (Some log_datagram) ([], ())
       (map (\<lambda>(f, md). (datagram_frame s 20 [2, 0, 0, 0, 0, 9] f, md)) ([(fs ! 2, md), (fs ! 0, md)] @ [(fs ! 1, md)]), no_error)
     = ((r', [(10, payload)], c'), no_error)"
proof -
  let ?p = "replicate 100 (7 :: byte)" and ?s = "introduced 20 [2, 0, 0, 0, 0, 9] (example_stack 10 8)"
  define fs where "fs = fragments ?p 60"
  have len: "length fs = 3" and off: "fg_offset (fs ! 0) = 0" "fg_offset (fs ! 1) = 40" "fg_offset (fs ! 2) = 80"
    unfolding fs_def by (simp_all add: fragments_def slices.simps)
  have set: "set fs = {fs ! 0, fs ! 1, fs ! 2}"
    using len by (auto simp: set_conv_nth less_Suc_eq numeral_3_eq_3 numeral_2_eq_2)
  have ne: "fs ! 1 \<noteq> fs ! 2" "fs ! 1 \<noteq> fs ! 0" using off by auto
  have arr: "arrives (fragments ?p 60) [(fs ! 2, default_CaptureMetadata), (fs ! 0, default_CaptureMetadata)] (fs ! 1)"
    unfolding arrives_def fs_def [symmetric] set using ne by auto
  have sim: "unat (ii_mtu (ee_info (sc_endpoint (ns_ctx ?s)))) = 60" "length (ns_fragment_scratch ?s) = 60"
    "nc_local_address (ns_config ?s) = 10"
    by (simp_all add: introduced_def example_stack_def new_NetworkStack_def new_EthernetEndpoint_def Let_def)
  have full: "active_slots (new_ReassemblyTable 64 5000000000) \<noteq> 64"
    by (simp add: active_slots_def new_ReassemblyTable_def default_Slot_def)
  have rcv: "receiving (datagram_header ?s 20) ?p {} (example_stack 20 9)"
    using full rt_inv_new
    by (simp add: receiving_def example_stack_def new_NetworkStack_def datagram_header_def
        kDefaultReassemblySlots_def kDefaultReassemblyTimeoutNs_def) (simp add: new_ReassemblyTable_def)
  have op: "ee_link_open (sc_endpoint (ns_ctx (example_stack 20 9)))"
    by (simp add: example_stack_def new_NetworkStack_def new_EthernetEndpoint_def Let_def)
  show ?thesis
    using datagram_crosses_the_link [OF example_knows sim(1) [symmetric] _ _ _ _ rcv op arr,
        where clock = "\<lambda>c. (c, None)" and c = "()" and md = default_CaptureMetadata]
    by (auto simp: Let_def fs_def sim)
qed

end
