(* ===== verification/Timestamps.thy ===== *)
theory Timestamps
  imports Prelude
begin

text \<open>
  The timestamps of the instrumentation (\<^verbatim>\<open>include/vectornet/instrument/timestamp.hpp\<close>,
  \<^verbatim>\<open>src/instrument/timestamp.cpp\<close>): a 64-bit count of nanoseconds and the clock it was read from. The system
  calls are arguments: a clock reading is \<open>None\<close> when \<open>clock_gettime\<close> fails, a socket option is set with
  the \<open>errno\<close> the call leaves, and the control messages of a received packet are the list that
  \<open>CMSG_FIRSTHDR\<close> and \<open>CMSG_NXTHDR\<close> walk, with the constants of the platform as a record.
\<close>

datatype TimestampSource = bpf_rx_capture | link_tx_monotonic_before_syscall
  | link_tx_monotonic_after_syscall | tcp_rx_monotonic_cmsg | application_rtt_monotonic

record Timestamp =
  ts_value_ns :: u64
  ts_source :: TimestampSource

definition instrument_now_ns :: "(int \<times> int) option \<Rightarrow> u64" where
  "instrument_now_ns clock_value =
     (case clock_value of None \<Rightarrow> 0 | Some (sec, nsec) \<Rightarrow> word_of_int sec * 1000000000 + word_of_int nsec)"

definition bpf_rx_timestamp :: "u64 \<Rightarrow> Timestamp" where
  "bpf_rx_timestamp value_ns = \<lparr>ts_value_ns = value_ns, ts_source = bpf_rx_capture\<rparr>"

definition link_tx_before_timestamp :: "u64 \<Rightarrow> Timestamp" where
  "link_tx_before_timestamp value_ns = \<lparr>ts_value_ns = value_ns, ts_source = link_tx_monotonic_before_syscall\<rparr>"

definition link_tx_after_timestamp :: "u64 \<Rightarrow> Timestamp" where
  "link_tx_after_timestamp value_ns = \<lparr>ts_value_ns = value_ns, ts_source = link_tx_monotonic_after_syscall\<rparr>"

definition application_timestamp :: "(int \<times> int) option \<Rightarrow> Timestamp" where
  "application_timestamp clock_value =
     \<lparr>ts_value_ns = instrument_now_ns clock_value, ts_source = application_rtt_monotonic\<rparr>"

definition enable_tcp_monotonic_timestamps :: "nat option \<Rightarrow> error_code" where
  "enable_tcp_monotonic_timestamps setsockopt_errno =
     (case setsockopt_errno of Some errno \<Rightarrow> other_error errno | None \<Rightarrow> no_error)"

record cmsghdr =
  cm_level :: int
  cm_type :: int
  cm_len :: nat
  cm_data :: "byte list"

record cmsg_abi =
  abi_sol_socket :: int
  abi_scm_timestamp_monotonic :: int
  abi_cmsg_len :: "nat \<Rightarrow> nat"
  abi_u64 :: "byte list \<Rightarrow> u64"

text \<open>\<open>memcpy\<close> of eight bytes into a \<open>uint64_t\<close> is the platform's \<open>abi_u64\<close>.\<close>

fun parse_tcp_monotonic_timestamp :: "cmsg_abi \<Rightarrow> cmsghdr list \<Rightarrow> Timestamp \<Rightarrow> Timestamp \<times> bool" where
  "parse_tcp_monotonic_timestamp abi [] timestamp = (timestamp, False)"
| "parse_tcp_monotonic_timestamp abi (header # headers) timestamp =
     (if cm_level header \<noteq> abi_sol_socket abi \<or> cm_type header \<noteq> abi_scm_timestamp_monotonic abi
         \<or> cm_len header < abi_cmsg_len abi 8
      then parse_tcp_monotonic_timestamp abi headers timestamp
      else (\<lparr>ts_value_ns = abi_u64 abi (take 8 (cm_data header)), ts_source = tcp_rx_monotonic_cmsg\<rparr>, True))"

fun timestamp_source_name :: "TimestampSource \<Rightarrow> string" where
  "timestamp_source_name bpf_rx_capture = ''bpf_hdr.bh_tstamp''"
| "timestamp_source_name link_tx_monotonic_before_syscall = ''CLOCK_MONOTONIC before link write''"
| "timestamp_source_name link_tx_monotonic_after_syscall = ''CLOCK_MONOTONIC after link write''"
| "timestamp_source_name tcp_rx_monotonic_cmsg = ''SO_TIMESTAMP_MONOTONIC recvmsg cmsg''"
| "timestamp_source_name application_rtt_monotonic = ''application CLOCK_MONOTONIC RTT''"

text \<open>The names tell the clocks apart, which is what lets a log be read back.\<close>

lemma timestamp_source_name_inj: "timestamp_source_name a = timestamp_source_name b \<longleftrightarrow> a = b"
  by (cases a; cases b) simp_all

text \<open>The parser takes the first control message that carries a monotonic timestamp, and only such a one.\<close>

definition carries_timestamp :: "cmsg_abi \<Rightarrow> cmsghdr \<Rightarrow> bool" where
  "carries_timestamp abi header \<longleftrightarrow> cm_level header = abi_sol_socket abi \<and>
     cm_type header = abi_scm_timestamp_monotonic abi \<and> abi_cmsg_len abi 8 \<le> cm_len header"

lemma parse_tcp_monotonic_timestamp_first:
  "parse_tcp_monotonic_timestamp abi headers timestamp =
     (case find (carries_timestamp abi) headers of
        None \<Rightarrow> (timestamp, False)
      | Some header \<Rightarrow>
          (\<lparr>ts_value_ns = abi_u64 abi (take 8 (cm_data header)), ts_source = tcp_rx_monotonic_cmsg\<rparr>, True))"
  by (induction headers) (auto simp: carries_timestamp_def)

end
