(* ===== verification/Histogram.thy ===== *)
theory Histogram
  imports Timestamps Complex_Main "HOL-Library.Multiset"
begin

text \<open>
  The latency histogram (\<^verbatim>\<open>include/vectornet/instrument/histogram.hpp\<close>, \<^verbatim>\<open>src/instrument/histogram.cpp\<close>): 64
  buckets, bucket \<open>i\<close> counting the samples of \<open>i + 1\<close> significant bits, with counters that wrap at 64 bits.
  The rank of a percentile is computed in \<open>double\<close>: the rounding of one floating-point operation is the
  argument \<open>rnd\<close>, applied at every operation of the source. The output file is the argument \<open>fprintf\<close>, which
  takes the formatted text and says whether the call succeeded.

  The lemmas relate a histogram to the list of the samples it has accepted; the abstract percentile is
  the order statistic of that list.
\<close>

definition kLatencyHistogramBuckets :: nat where
  [simp]: "kLatencyHistogramBuckets = 64"

record LatencyHistogram =
  lh_buckets :: "u64 arr"
  lh_sample_count :: u64
  lh_rejected_samples :: u64
  lh_minimum_ns :: u64
  lh_maximum_ns :: u64

definition new_LatencyHistogram :: LatencyHistogram where
  "new_LatencyHistogram = \<lparr>lh_buckets = (\<lambda>_. 0), lh_sample_count = 0, lh_rejected_samples = 0,
     lh_minimum_ns = 0, lh_maximum_ns = 0\<rparr>"

text \<open>\<open>std::bit_width\<close>.\<close>

fun bit_width :: "nat \<Rightarrow> nat" where
  "bit_width n = (if n = 0 then 0 else Suc (bit_width (n div 2)))"

declare bit_width.simps [simp del]

definition bucket_index :: "u64 \<Rightarrow> nat" where
  "bucket_index value_ns = (if value_ns = 0 then 0 else bit_width (unat value_ns) - 1)"

definition bucket_upper_bound :: "nat \<Rightarrow> u64" where
  "bucket_upper_bound index = (if 63 \<le> index then - 1 else push_bit (index + 1) 1 - 1)"

definition lh_record :: "LatencyHistogram \<Rightarrow> u64 \<Rightarrow> LatencyHistogram \<times> bool" where
  "lh_record h latency_ns =
     (let i = bucket_index latency_ns;
          h = h\<lparr>lh_buckets := (lh_buckets h)(i := lh_buckets h i + 1)\<rparr>;
          h = (if lh_sample_count h = 0
               then h\<lparr>lh_minimum_ns := latency_ns, lh_maximum_ns := latency_ns\<rparr>
               else h\<lparr>lh_minimum_ns := min (lh_minimum_ns h) latency_ns,
                      lh_maximum_ns := max (lh_maximum_ns h) latency_ns\<rparr>)
      in (h\<lparr>lh_sample_count := lh_sample_count h + 1\<rparr>, True))"

definition same_clock :: "Timestamp \<Rightarrow> Timestamp \<Rightarrow> bool" where
  "same_clock first final \<longleftrightarrow> ts_source first = ts_source final \<or>
     (ts_source first = link_tx_monotonic_before_syscall \<and> ts_source final = link_tx_monotonic_after_syscall)"

definition record_between :: "LatencyHistogram \<Rightarrow> Timestamp \<Rightarrow> Timestamp \<Rightarrow> LatencyHistogram \<times> bool" where
  "record_between h first final =
     (if \<not> same_clock first final \<or> ts_value_ns final < ts_value_ns first
      then (h\<lparr>lh_rejected_samples := lh_rejected_samples h + 1\<rparr>, False)
      else lh_record h (ts_value_ns final - ts_value_ns first))"

text \<open>\<open>static_cast<std::uint64_t>\<close> truncates a non-negative \<open>double\<close>.\<close>

definition percentile_rank :: "(real \<Rightarrow> real) \<Rightarrow> real \<Rightarrow> u64 \<Rightarrow> u64" where
  "percentile_rank rnd percentile_value sample_count =
     (let clamped = max 0 (min 100 percentile_value) in
      max 1 (word_of_int \<lfloor>rnd (rnd (rnd (clamped / 100) * rnd (real (unat sample_count))) + rnd 0.999999999)\<rfloor>))"

text \<open>The loop over the buckets; \<open>None\<close> when it runs to its end.\<close>

function percentile_loop :: "u64 arr \<Rightarrow> u64 \<Rightarrow> u64 \<Rightarrow> nat \<Rightarrow> u64 option" where
  "percentile_loop buckets rank cumulative index =
     (if index < kLatencyHistogramBuckets then
        let cumulative = cumulative + buckets index in
        if rank \<le> cumulative then Some (bucket_upper_bound index)
        else percentile_loop buckets rank cumulative (Suc index)
      else None)"
  by pat_completeness auto
termination
  by (relation "measure (\<lambda>(buckets, rank, cumulative, index). kLatencyHistogramBuckets - index)") auto

declare percentile_loop.simps [simp del]

definition percentile :: "(real \<Rightarrow> real) \<Rightarrow> LatencyHistogram \<Rightarrow> real \<Rightarrow> u64" where
  "percentile rnd h percentile_value =
     (if lh_sample_count h = 0 then 0
      else case percentile_loop (lh_buckets h) (percentile_rank rnd percentile_value (lh_sample_count h)) 0 0 of
        Some bound \<Rightarrow> bound
      | None \<Rightarrow> lh_maximum_ns h)"

section \<open>Writing\<close>

text \<open>\<open>%llu\<close> and \<open>%zu\<close>.\<close>

fun decimal :: "nat \<Rightarrow> string" where
  "decimal n = (if n < 10 then [char_of (48 + n)] else decimal (n div 10) @ [char_of (48 + n mod 10)])"

declare decimal.simps [simp del]

text \<open>A loop of \<open>fprintf\<close> calls that returns false at the first one that fails.\<close>

fun print_all :: "('f \<Rightarrow> string \<Rightarrow> 'f \<times> bool) \<Rightarrow> 'f \<Rightarrow> string list \<Rightarrow> 'f \<times> bool" where
  "print_all fprintf output [] = (output, True)"
| "print_all fprintf output (line # rest) =
     (case fprintf output line of
        (output, ok) \<Rightarrow> if ok then print_all fprintf output rest else (output, False))"

definition csv_row :: "LatencyHistogram \<Rightarrow> TimestampSource \<Rightarrow> nat \<Rightarrow> string" where
  "csv_row h source index = timestamp_source_name source @ '','' @ decimal index @ '','' @
     decimal (unat (bucket_upper_bound index)) @ '','' @ decimal (unat (lh_buckets h index)) @ [CHR 0x0A]"

text \<open>A null file is \<open>None\<close>.\<close>

definition write_csv ::
  "('f \<Rightarrow> string \<Rightarrow> 'f \<times> bool) \<Rightarrow> LatencyHistogram \<Rightarrow> 'f option \<Rightarrow> TimestampSource \<Rightarrow> 'f option \<times> bool" where
  "write_csv fprintf h output source =
     (case output of
        None \<Rightarrow> (None, False)
      | Some file \<Rightarrow>
          (case fprintf file (''source,bucket,upper_bound_ns,count'' @ [CHR 0x0A]) of
             (file, ok) \<Rightarrow>
               if \<not> ok then (Some file, False)
               else (case print_all fprintf file (map (csv_row h source) [0..<kLatencyHistogramBuckets]) of
                       (file, ok) \<Rightarrow> (Some file, ok))))"

definition jsonl_head :: "LatencyHistogram \<Rightarrow> TimestampSource \<Rightarrow> string" where
  "jsonl_head h source = ''{\"timestamp_source\":\"'' @ timestamp_source_name source @ ''\",\"sample_count\":'' @
     decimal (unat (lh_sample_count h)) @ '',\"rejected_samples\":'' @ decimal (unat (lh_rejected_samples h)) @
     '',\"minimum_ns\":'' @ decimal (unat (lh_minimum_ns h)) @ '',\"maximum_ns\":'' @
     decimal (unat (lh_maximum_ns h)) @ '',\"buckets\":[''"

definition jsonl_bucket :: "LatencyHistogram \<Rightarrow> nat \<Rightarrow> string" where
  "jsonl_bucket h index = (if index = 0 then [] else '','') @ decimal (unat (lh_buckets h index))"

definition write_jsonl ::
  "('f \<Rightarrow> string \<Rightarrow> 'f \<times> bool) \<Rightarrow> LatencyHistogram \<Rightarrow> 'f option \<Rightarrow> TimestampSource \<Rightarrow> 'f option \<times> bool" where
  "write_jsonl fprintf h output source =
     (case output of
        None \<Rightarrow> (None, False)
      | Some file \<Rightarrow>
          (case fprintf file (jsonl_head h source) of
             (file, ok) \<Rightarrow>
               if \<not> ok then (Some file, False)
               else (case print_all fprintf file (map (jsonl_bucket h) [0..<kLatencyHistogramBuckets]) of
                       (file, ok) \<Rightarrow>
                         if \<not> ok then (Some file, False)
                         else (case fprintf file ('']}'' @ [CHR 0x0A]) of (file, ok) \<Rightarrow> (Some file, ok)))))"


text \<open>With a file that accepts everything, the writers append their lines in order.\<close>

lemma print_all_appends:
  "(\<And>file s. fprintf file s = (file @ s, True)) \<Longrightarrow> print_all fprintf out lines = (out @ concat lines, True)"
  by (induction lines arbitrary: out) simp_all

lemma write_csv_appends:
  "(\<And>file s. fprintf file s = (file @ s, True)) \<Longrightarrow>
   write_csv fprintf h (Some out) source = (Some (out @ ''source,bucket,upper_bound_ns,count'' @ [CHR 0x0A] @
     concat (map (csv_row h source) [0..<kLatencyHistogramBuckets])), True)"
  by (simp add: write_csv_def print_all_appends del: upt_rec_numeral kLatencyHistogramBuckets_def)

section \<open>The buckets\<close>

lemma bit_width_bounds: "0 < n \<Longrightarrow> 2 ^ (bit_width n - 1) \<le> n \<and> n < 2 ^ bit_width n \<and> 0 < bit_width n"
proof (induction n rule: bit_width.induct)
  case (1 n)
  show ?case
  proof (cases "n div 2 = 0")
    case True
    then have "n = 1" using 1(2) by auto
    then show ?thesis by (simp add: bit_width.simps)
  next
    case False
    then have ih: "2 ^ (bit_width (n div 2) - 1) \<le> n div 2" "n div 2 < 2 ^ bit_width (n div 2)" "0 < bit_width (n div 2)"
      using 1 by auto
    define w where "w = bit_width (n div 2) - 1"
    have w: "bit_width (n div 2) = Suc w" using ih(3) by (simp add: w_def)
    have "bit_width n = Suc (Suc w)" using 1(2) w by (subst bit_width.simps) simp
    then show ?thesis using ih(1,2) by (simp add: w; linarith)
  qed
qed

lemma bucket_index_bounds:
  "bucket_index v < 64" "unat v < 2 ^ Suc (bucket_index v)" "v \<noteq> 0 \<Longrightarrow> 2 ^ bucket_index v \<le> unat v"
proof -
  have nz: "2 ^ bucket_index v \<le> unat v \<and> unat v < 2 ^ Suc (bucket_index v) \<and> bucket_index v < 64" if "v \<noteq> 0"
  proof -
    have pos: "0 < unat v" using that by (simp add: unat_gt_0)
    note b = bit_width_bounds [OF pos]
    have "unat v < 2 ^ 64" using unsigned_less [of v] by simp
    then have "(2 :: nat) ^ (bit_width (unat v) - 1) < 2 ^ 64" using b by linarith
    then have "bit_width (unat v) - 1 < 64" by (rule power_less_imp_less_exp [rotated]) simp
    then show ?thesis using b that by (simp add: bucket_index_def)
  qed
  show "bucket_index v < 64" "unat v < 2 ^ Suc (bucket_index v)" using nz by (cases "v = 0"; simp add: bucket_index_def)+
  show "v \<noteq> 0 \<Longrightarrow> 2 ^ bucket_index v \<le> unat v" using nz by simp
qed

lemma unat_bucket_upper_bound: "i < 64 \<Longrightarrow> unat (bucket_upper_bound i) = 2 ^ Suc i - 1"
proof (cases "63 \<le> i")
  case True
  moreover assume "i < 64"
  ultimately have "i = 63" by simp
  then show ?thesis by (simp add: bucket_upper_bound_def unsigned_minus_1_eq_mask mask_eq_exp_minus_1)
next
  case False
  then have "unat (push_bit (i + 1) 1 :: u64) = 2 ^ Suc i"
  proof -
    have "(2 :: nat) ^ Suc i < 2 ^ 64" using False by (intro power_strict_increasing) auto
    then have "unat (of_nat (2 ^ Suc i) :: u64) = 2 ^ Suc i" by (simp only: unat_of_nat) simp
    then show ?thesis by (simp add: push_bit_eq_mult)
  qed
  then show ?thesis using False by (simp add: bucket_upper_bound_def unat_sub_if_size word_le_nat_alt)
qed

lemma bucket_index_mono: "a \<le> b \<Longrightarrow> bucket_index a \<le> bucket_index b"
proof (rule ccontr)
  assume le: "a \<le> b" and "\<not> bucket_index a \<le> bucket_index b"
  then have lt: "Suc (bucket_index b) \<le> bucket_index a" by simp
  then have "a \<noteq> 0" by (auto simp: bucket_index_def)
  then have "(2 :: nat) ^ Suc (bucket_index b) \<le> unat a"
    using bucket_index_bounds(3) [of a] power_increasing [OF lt, of "2 :: nat"] by linarith
  then show False using le bucket_index_bounds(2) [of b] by (simp add: word_le_nat_alt)
qed

text \<open>A bucket's bound is at least the sample and at most twice it.\<close>

lemma bucket_upper_bound_near:
  "v \<le> bucket_upper_bound (bucket_index v)" "unat (bucket_upper_bound (bucket_index v)) \<le> 2 * unat v + 1"
proof -
  note u = unat_bucket_upper_bound [OF bucket_index_bounds(1) [of v]]
  show "v \<le> bucket_upper_bound (bucket_index v)"
    using bucket_index_bounds(2) [of v] by (simp add: word_le_nat_alt u)
  show "unat (bucket_upper_bound (bucket_index v)) \<le> 2 * unat v + 1"
    using bucket_index_bounds(3) [of v] unat_bucket_upper_bound [of 0]
    by (cases "v = 0") (simp add: bucket_index_def, simp add: u)
qed

lemma bucket_index_iff:
  assumes "i < 64"
  shows "bucket_index v = i \<longleftrightarrow> (i = 0 \<or> 2 ^ i \<le> unat v) \<and> v \<le> bucket_upper_bound i"
proof
  assume "bucket_index v = i"
  then show "(i = 0 \<or> 2 ^ i \<le> unat v) \<and> v \<le> bucket_upper_bound i"
    using bucket_upper_bound_near(1) [of v] bucket_index_bounds(3) [of v] by (cases "v = 0") (auto simp: bucket_index_def)
next
  assume v: "(i = 0 \<or> 2 ^ i \<le> unat v) \<and> v \<le> bucket_upper_bound i"
  then have le: "unat v < 2 ^ Suc i"
  proof -
    have "unat v \<le> 2 ^ Suc i - 1" using v unat_bucket_upper_bound [OF assms] by (simp add: word_le_nat_alt)
    moreover have "(0 :: nat) < 2 ^ Suc i" by simp
    ultimately show ?thesis by linarith
  qed
  show "bucket_index v = i"
  proof (cases "v = 0")
    case True
    then show ?thesis using v by (simp add: bucket_index_def)
  next
    case False
    then have "(2 :: nat) ^ bucket_index v < 2 ^ Suc i" using le bucket_index_bounds(3) [of v] by linarith
    then have "bucket_index v \<le> i" by (simp only: power_strict_increasing_iff less_Suc_eq_le)
    moreover have "(2 :: nat) ^ i < 2 ^ Suc (bucket_index v)" if "i \<noteq> 0"
      using v that bucket_index_bounds(2) [of v] by linarith
    then have "i \<le> bucket_index v" by (cases "i = 0") (simp_all only: power_strict_increasing_iff less_Suc_eq_le, simp_all)
    ultimately show ?thesis by simp
  qed
qed

section \<open>The samples of a histogram\<close>

text \<open>
  What a pair of timestamps means: a latency when the two were read from clocks that can be compared and
  in this order, otherwise nothing.
\<close>

definition latency_between :: "Timestamp \<times> Timestamp \<Rightarrow> u64 option" where
  "latency_between = (\<lambda>(first, final).
     if same_clock first final \<and> ts_value_ns first \<le> ts_value_ns final
     then Some (ts_value_ns final - ts_value_ns first) else None)"

definition record_all :: "(Timestamp \<times> Timestamp) list \<Rightarrow> LatencyHistogram \<Rightarrow> LatencyHistogram" where
  "record_all = fold (\<lambda>(first, final) h. fst (record_between h first final))"

definition in_bucket :: "nat \<Rightarrow> u64 list \<Rightarrow> nat" where
  "in_bucket i xs = length (filter (\<lambda>v. bucket_index v = i) xs)"

definition below_bucket :: "nat \<Rightarrow> u64 list \<Rightarrow> nat" where
  "below_bucket i xs = length (filter (\<lambda>v. bucket_index v < i) xs)"

text \<open>The histogram \<open>h\<close> holds the samples \<open>xs\<close>; the extrema are kept as long as the counter has not wrapped.\<close>

definition holds_samples :: "LatencyHistogram \<Rightarrow> u64 list \<Rightarrow> bool" where
  "holds_samples h xs \<longleftrightarrow> (\<forall>i. lh_buckets h i = of_nat (in_bucket i xs)) \<and> lh_sample_count h = of_nat (length xs) \<and>
     (0 < length xs \<and> length xs < 2 ^ 64 \<longrightarrow> lh_minimum_ns h = Min (set xs) \<and> lh_maximum_ns h = Max (set xs))"

lemma holds_samples_new: "holds_samples new_LatencyHistogram []"
  by (simp add: holds_samples_def new_LatencyHistogram_def in_bucket_def)

lemma unat_of_nat_u64: "n < 2 ^ 64 \<Longrightarrow> unat (of_nat n :: u64) = n"
  by (simp only: unat_of_nat) simp

lemma of_nat_u64_eq_0: "n < 2 ^ 64 \<Longrightarrow> (of_nat n :: u64) = 0 \<longleftrightarrow> n = 0"
  using unat_of_nat_u64 [of n] by (metis of_nat_0 unat_eq_zero)

lemma lh_record_holds:
  assumes "holds_samples h xs"
  shows "holds_samples (fst (lh_record h v)) (xs @ [v])" "lh_rejected_samples (fst (lh_record h v)) = lh_rejected_samples h"
proof -
  note h = assms [unfolded holds_samples_def]
  show "lh_rejected_samples (fst (lh_record h v)) = lh_rejected_samples h" by (simp add: lh_record_def Let_def)
  have "lh_minimum_ns (fst (lh_record h v)) = Min (set (xs @ [v])) \<and> lh_maximum_ns (fst (lh_record h v)) = Max (set (xs @ [v]))"
    if "length (xs @ [v]) < 2 ^ 64"
  proof (cases "xs = []")
    case True
    then show ?thesis using h by (simp add: lh_record_def Let_def)
  next
    case False
    then have "lh_sample_count h \<noteq> 0" using h that by (simp add: of_nat_u64_eq_0)
    then show ?thesis using h that False by (simp add: lh_record_def Let_def min.commute max.commute)
  qed
  then show "holds_samples (fst (lh_record h v)) (xs @ [v])"
    using h by (simp add: holds_samples_def in_bucket_def) (simp add: lh_record_def Let_def add.commute)
qed

lemma record_between_holds:
  assumes "holds_samples h xs"
  shows "case latency_between (first, final) of
     None \<Rightarrow> record_between h first final = (h\<lparr>lh_rejected_samples := lh_rejected_samples h + 1\<rparr>, False)
   | Some v \<Rightarrow> record_between h first final = lh_record h v \<and> holds_samples (fst (lh_record h v)) (xs @ [v])"
  using lh_record_holds(1) [OF assms] by (auto simp: latency_between_def record_between_def)

lemma record_all_holds:
  "holds_samples h xs \<Longrightarrow> holds_samples (record_all ps h) (xs @ List.map_filter latency_between ps) \<and>
     lh_rejected_samples (record_all ps h) = lh_rejected_samples h + of_nat (length (filter (\<lambda>q. latency_between q = None) ps))"
proof (induction ps arbitrary: h xs)
  case Nil
  then show ?case by (simp add: record_all_def List.map_filter_def)
next
  case (Cons q ps)
  obtain first final where q: "q = (first, final)" by fastforce
  note step = record_between_holds [OF Cons.prems, of first final]
  have unf: "record_all (q # ps) h = record_all ps (fst (record_between h first final))" by (simp add: record_all_def q)
  show ?case
  proof (cases "latency_between q")
    case None
    then have "record_all (q # ps) h = record_all ps (h\<lparr>lh_rejected_samples := lh_rejected_samples h + 1\<rparr>)"
      using step unf q by simp
    moreover have "holds_samples (h\<lparr>lh_rejected_samples := lh_rejected_samples h + 1\<rparr>) xs"
      using Cons.prems by (simp add: holds_samples_def)
    ultimately show ?thesis using Cons.IH None by (simp add: map_filter_simps)
  next
    case (Some v)
    then have "record_all (q # ps) h = record_all ps (fst (lh_record h v))" "holds_samples (fst (lh_record h v)) (xs @ [v])"
      using step unf q by simp_all
    then show ?thesis using Cons.IH [of "fst (lh_record h v)" "xs @ [v]"] lh_record_holds(2) [OF Cons.prems, of v] Some
      by (simp add: map_filter_simps)
  qed
qed

section \<open>The percentile\<close>

lemma below_bucket_Suc: "below_bucket (Suc i) xs = below_bucket i xs + in_bucket i xs"
  by (induction xs) (auto simp: below_bucket_def in_bucket_def)

lemma below_bucket_le: "below_bucket i xs \<le> length xs"
  by (simp add: below_bucket_def)

lemma below_bucket_mono: "i \<le> j \<Longrightarrow> below_bucket i xs \<le> below_bucket j xs"
  by (induction xs) (auto simp: below_bucket_def)

lemma percentile_loop_finds:
  assumes "\<And>i. buckets i = of_nat (in_bucket i xs)" "length xs < 2 ^ 64" "i \<le> k" "k < 64"
    and "below_bucket k xs < unat rank" "unat rank \<le> below_bucket (Suc k) xs"
  shows "percentile_loop buckets rank (of_nat (below_bucket i xs)) i = Some (bucket_upper_bound k)"
  using assms(3)
proof (induction "k - i" arbitrary: i)
  case 0
  then show ?case
    using assms below_bucket_le [of "Suc k" xs]
    by (subst percentile_loop.simps)
       (simp add: below_bucket_Suc word_le_nat_alt unat_of_nat_u64 flip: of_nat_add)
next
  case (Suc n)
  have "below_bucket (Suc i) xs \<le> below_bucket k xs"
    using Suc.hyps(2) by (intro below_bucket_mono) simp
  then have "\<not> rank \<le> of_nat (below_bucket (Suc i) xs)"
    using assms below_bucket_le [of "Suc i" xs] by (simp add: word_le_nat_alt unat_of_nat_u64)
  then show ?case
    using Suc.hyps(1) [of "Suc i"] Suc.hyps(2) Suc.prems assms(1,4)
    by (subst percentile_loop.simps) (simp add: below_bucket_Suc)
qed

lemma percentile_loop_misses:
  assumes "\<And>i. buckets i = of_nat (in_bucket i xs)" "length xs < unat rank" "length xs < 2 ^ 64"
  shows "percentile_loop buckets rank (of_nat (below_bucket i xs)) i = None"
proof (induction "64 - i" arbitrary: i)
  case 0
  then show ?case by (subst percentile_loop.simps) simp
next
  case (Suc n)
  have "\<not> rank \<le> of_nat (below_bucket (Suc i) xs)"
    using assms(2,3) below_bucket_le [of "Suc i" xs] by (simp add: word_le_nat_alt unat_of_nat_u64)
  then show ?case
    using Suc.hyps(1) [of "Suc i"] Suc.hyps(2) assms(1) by (subst percentile_loop.simps) (simp add: below_bucket_Suc)
qed

text \<open>The rank-th smallest sample lies in the bucket at which the running total reaches the rank.\<close>

lemma order_statistic_bucket:
  assumes "1 \<le> r" "r \<le> length xs"
  shows "below_bucket (bucket_index (sort xs ! (r - 1))) xs < r"
    "r \<le> below_bucket (Suc (bucket_index (sort xs ! (r - 1)))) xs"
proof -
  let ?s = "sort xs" and ?k = "bucket_index (sort xs ! (r - 1))"
  have card: "below_bucket j xs = card {i. i < length xs \<and> bucket_index (?s ! i) < j}" for j
  proof -
    have "below_bucket j xs = length (filter (\<lambda>v. bucket_index v < j) ?s)"
      unfolding below_bucket_def filter_sort by simp
    then show ?thesis by (simp add: length_filter_conv_card)
  qed
  have nth: "?s ! i \<le> ?s ! j" if "i \<le> j" "j < length xs" for i j
    using that by (simp add: sorted_nth_mono)
  have "i < r - 1" if "i < length xs" "bucket_index (?s ! i) < ?k" for i
    using that bucket_index_mono [OF nth [of "r - 1" i]] by (meson leD leI)
  then have "{i. i < length xs \<and> bucket_index (?s ! i) < ?k} \<subseteq> {..<r - 1}" by auto
  then have "below_bucket ?k xs \<le> r - 1" using card_mono [OF finite_lessThan] unfolding card by fastforce
  then show "below_bucket ?k xs < r" using assms by simp
  have "bucket_index (?s ! i) < Suc ?k" if "i < r" for i
  proof -
    have "i \<le> r - 1" "r - 1 < length xs" using that assms by auto
    then show ?thesis using bucket_index_mono [OF nth] by (simp add: less_Suc_eq_le)
  qed
  then have "{..<r} \<subseteq> {i. i < length xs \<and> bucket_index (?s ! i) < Suc ?k}" using assms by auto
  then have "card {..<r} \<le> below_bucket (Suc ?k) xs" unfolding card by (intro card_mono) auto
  then show "r \<le> below_bucket (Suc ?k) xs" by simp
qed

lemma percentile_holds:
  assumes h: "holds_samples h xs" and ne: "xs \<noteq> []" and len: "length xs < 2 ^ 64"
    and r: "r = unat (percentile_rank rnd q (of_nat (length xs)))"
  shows "1 \<le> r" "percentile rnd h q =
    (if r \<le> length xs then bucket_upper_bound (bucket_index (sort xs ! (r - 1))) else Max (set xs))"
proof -
  have "(1 :: u64) \<le> percentile_rank rnd q (of_nat (length xs))" by (simp add: percentile_rank_def)
  then show r1: "1 \<le> r" by (simp add: r word_le_nat_alt)
  have h': "\<And>i. lh_buckets h i = of_nat (in_bucket i xs)" "lh_sample_count h = of_nat (length xs)"
      "lh_maximum_ns h = Max (set xs)"
    using h ne len by (simp_all add: holds_samples_def)
  have nz: "lh_sample_count h \<noteq> 0" using h'(2) ne len by (simp add: of_nat_u64_eq_0)
  have zero: "of_nat (below_bucket 0 xs) = (0 :: u64)" by (simp add: below_bucket_def)
  show "percentile rnd h q =
    (if r \<le> length xs then bucket_upper_bound (bucket_index (sort xs ! (r - 1))) else Max (set xs))"
  proof (cases "r \<le> length xs")
    case True
    note o = order_statistic_bucket [OF r1 True]
    show ?thesis
      using percentile_loop_finds [OF h'(1) len le0 bucket_index_bounds(1), of _ _, OF o [unfolded r]] nz True r zero h'(2)
      by (simp add: percentile_def)
  next
    case False
    then show ?thesis
      using percentile_loop_misses [OF h'(1), of "percentile_rank rnd q (of_nat (length xs))" 0] len nz r zero h'(2,3)
      by (simp add: percentile_def)
  qed
qed

section \<open>The rank\<close>

text \<open>
  What is used of the \<open>double\<close> type: rounding one result to the nearest representable value is off by at most half
  a unit of the 53rd bit, or of the smallest representable value.
\<close>

definition double_rounding :: "(real \<Rightarrow> real) \<Rightarrow> bool" where
  "double_rounding rnd \<longleftrightarrow> (\<forall>x. \<bar>x\<bar> \<le> 2 ^ 64 \<longrightarrow> \<bar>rnd x - x\<bar> \<le> \<bar>x\<bar> / 2 ^ 53 + 1 / 2 ^ 1074)"

lemma double_rounding_id: "double_rounding id"
  by (simp add: double_rounding_def)

lemma rounding_error:
  assumes "double_rounding rnd" "\<bar>x\<bar> \<le> m" "m \<le> 2 ^ 64" "m / 2 ^ 53 + 1 / 2 ^ 60 \<le> err"
  shows "\<bar>rnd x - x\<bar> \<le> err"
proof -
  have "\<bar>rnd x - x\<bar> \<le> \<bar>x\<bar> / 2 ^ 53 + 1 / 2 ^ 1074" using assms by (simp add: double_rounding_def)
  moreover have "\<bar>x\<bar> / 2 ^ 53 \<le> m / 2 ^ 53" using assms(2) by (simp add: divide_right_mono)
  moreover have "(1 :: real) / 2 ^ 1074 \<le> 1 / 2 ^ 60"
    by (intro divide_left_mono power_increasing) auto
  ultimately show ?thesis using assms(4) by linarith
qed

lemma rank_error:
  assumes rnd: "double_rounding rnd" and c: "0 \<le> c" "c \<le> 100" and n: "0 \<le> n" "n \<le> 10 ^ 6"
  shows "\<bar>rnd (rnd (rnd (c / 100) * rnd n) + rnd 0.999999999) - (c * n / 100 + 0.999999999)\<bar> \<le> 9 / 10 ^ 10"
proof -
  define a b where "a = rnd (c / 100)" and "b = rnd n"
  define p k where "p = rnd (a * b)" and "k = rnd 0.999999999"
  have a: "\<bar>a - c / 100\<bar> \<le> 2 / 10 ^ 16"
    unfolding a_def by (rule rounding_error [OF rnd, where m = 1]) (use c in auto)
  have b: "\<bar>b - n\<bar> \<le> 12 / 10 ^ 11"
    unfolding b_def by (rule rounding_error [OF rnd, where m = "10 ^ 6"]) (use n in auto)
  have a2: "\<bar>a\<bar> \<le> 1001 / 1000" using a c by (simp add: abs_if split: if_splits)
  have "\<bar>a * (b - n)\<bar> \<le> 1001 / 1000 * (12 / 10 ^ 11)"
    unfolding abs_mult by (rule mult_mono [OF a2 b]) auto
  moreover have "\<bar>(a - c / 100) * n\<bar> \<le> 2 / 10 ^ 16 * 10 ^ 6"
    unfolding abs_mult by (rule mult_mono [OF a]) (use n in auto)
  moreover have "a * b - c * n / 100 = a * (b - n) + (a - c / 100) * n" by (simp add: algebra_simps)
  ultimately have ab: "\<bar>a * b - c * n / 100\<bar> \<le> 33 / 10 ^ 11" by (simp add: abs_if split: if_splits)
  have "0 \<le> c * n / 100" "c * n / 100 \<le> 10 ^ 6"
    using c n mult_mono [of c 100 n "10 ^ 6"] by auto
  note cn = this
  have p: "\<bar>p - a * b\<bar> \<le> 12 / 10 ^ 11"
    unfolding p_def by (rule rounding_error [OF rnd, where m = "10 ^ 6 + 1"])
      (use ab cn in \<open>simp_all add: abs_if split: if_splits\<close>)
  have k: "\<bar>k - 0.999999999\<bar> \<le> 2 / 10 ^ 16"
    unfolding k_def by (rule rounding_error [OF rnd, where m = 1]) auto
  have "\<bar>rnd (p + k) - (p + k)\<bar> \<le> 12 / 10 ^ 11"
    by (rule rounding_error [OF rnd, where m = "10 ^ 6 + 3"])
      (use ab cn p k in \<open>simp_all add: abs_if split: if_splits\<close>)
  then show ?thesis using ab p k unfolding a_def [symmetric] b_def [symmetric] p_def [symmetric] k_def [symmetric]
    by (simp add: abs_if split: if_splits)
qed

text \<open>
  The rank is that of the definition, the least number of samples that are at least the given share of all, except that
  a share that exceeds a whole number of samples by less than two billionths counts as that number.
\<close>

lemma percentile_rank_exact:
  fixes q e :: real
  assumes rnd: "double_rounding rnd" and n: "0 < n" "n \<le> 10 ^ 6" and e: "e = max 0 (min 100 q) * real n / 100"
    and r: "r = unat (percentile_rank rnd q (of_nat n))"
  shows "max 1 \<lceil>e - 2 / 10 ^ 9\<rceil> \<le> int r \<and> int r \<le> max 1 \<lceil>e\<rceil> \<and> r \<le> n"
proof -
  let ?c = "max 0 (min 100 q)"
  let ?s = "rnd (rnd (rnd (?c / 100) * rnd (real n)) + rnd 0.999999999)"
  have u: "unat (of_nat n :: u64) = n" using n by (simp add: unat_of_nat_u64)
  have s: "\<bar>?s - (e + 0.999999999)\<bar> \<le> 9 / 10 ^ 10"
    unfolding e by (rule rank_error [OF rnd]) (use n in auto)
  have e0: "0 \<le> e" "e \<le> real n"
    using mult_mono [of ?c 100 "real n" "real n"] by (auto simp: e)
  have lo: "e + 1 - 2 / 10 ^ 9 \<le> ?s" and hi: "?s < e + 1" using s by (simp_all add: abs_if split: if_splits)
  have "\<lceil>e - 2 / 10 ^ 9\<rceil> \<le> \<lfloor>?s\<rfloor>" using lo by linarith
  moreover have "\<lfloor>?s\<rfloor> \<le> \<lceil>e\<rceil>" using hi by linarith
  moreover have "0 \<le> \<lfloor>?s\<rfloor>" using lo e0 by simp
  moreover have "\<lceil>e\<rceil> \<le> int n" using e0 by (simp add: ceiling_le_iff)
  ultimately have fl: "\<lceil>e - 2 / 10 ^ 9\<rceil> \<le> \<lfloor>?s\<rfloor>" "\<lfloor>?s\<rfloor> \<le> \<lceil>e\<rceil>" "0 \<le> \<lfloor>?s\<rfloor>" "\<lceil>e\<rceil> \<le> int n" .
  have "int n \<le> 1000000" using n(2) by simp
  then have "\<lfloor>?s\<rfloor> < 18446744073709551616" using fl by linarith
  then have "\<lfloor>?s\<rfloor> mod 2 ^ 64 = \<lfloor>?s\<rfloor>" using fl(3) by (intro mod_pos_pos_trivial) simp_all
  then have w: "unat (word_of_int \<lfloor>?s\<rfloor> :: u64) = nat \<lfloor>?s\<rfloor>"
    by (simp only: unat_eq_nat_uint uint_word_of_int) simp
  have "r = max 1 (nat \<lfloor>?s\<rfloor>)"
    using w by (simp add: r percentile_rank_def u unat_max Let_def)
  then have "int r = max 1 \<lfloor>?s\<rfloor>" using fl(3) by linarith
  then show ?thesis using fl n by linarith
qed

lemma ceiling_grid:
  fixes e :: real
  assumes "e = of_int m / 10 ^ 5"
  shows "\<lceil>e - 2 / 10 ^ 9\<rceil> = \<lceil>e\<rceil>"
proof -
  define z where "z = \<lceil>e\<rceil>"
  have z: "of_int z - 1 < e" "e \<le> of_int z" unfolding z_def by linarith+
  have m: "e * 10 ^ 5 = of_int m" using assms by simp
  have "(of_int z - 1) * 10 ^ 5 < (of_int m :: real)" using z(1) by (simp add: m [symmetric])
  then have "of_int ((z - 1) * 10 ^ 5) < (of_int m :: real)" by simp
  then have "(z - 1) * 10 ^ 5 + 1 \<le> m" by (simp only: of_int_less_iff zless_iff_Suc_zadd) linarith
  then have "of_int ((z - 1) * 10 ^ 5 + 1) \<le> (of_int m :: real)" by (simp only: of_int_le_iff)
  then have "of_int z - 1 + 1 / 10 ^ 5 \<le> e" by (simp add: m [symmetric])
  then show ?thesis unfolding z_def [symmetric] using z(2) by (intro ceiling_unique) simp_all
qed

section \<open>Properties\<close>

text \<open>
  Claim C36. A histogram counts its samples: after any sequence of pairs of timestamps, every bucket holds,
  modulo 2 to the 64, the number of latencies of its range (at least half its bound and at most its bound),
  the pairs from incomparable clocks or in the wrong order are counted as rejected and nowhere else, and the
  extrema are those of the accepted latencies.
\<close>

theorem histogram_counts_samples:
  assumes "h = record_all ps new_LatencyHistogram" "xs = List.map_filter latency_between ps" "i < 64"
  shows "lh_buckets h i = of_nat (length (filter (\<lambda>v. (i = 0 \<or> 2 ^ i \<le> unat v) \<and> v \<le> bucket_upper_bound i) xs)) \<and>
    lh_sample_count h = of_nat (length xs) \<and>
    lh_rejected_samples h = of_nat (length (filter (\<lambda>q. latency_between q = None) ps)) \<and>
    (0 < length xs \<and> length xs < 2 ^ 64 \<longrightarrow> lh_minimum_ns h = Min (set xs) \<and> lh_maximum_ns h = Max (set xs))"
proof -
  have h: "holds_samples h xs" "lh_rejected_samples h = of_nat (length (filter (\<lambda>q. latency_between q = None) ps))"
    using record_all_holds [OF holds_samples_new, of ps] assms by (auto simp: new_LatencyHistogram_def)
  then show ?thesis
    using bucket_index_iff [OF assms(3)] by (simp add: holds_samples_def in_bucket_def)
qed

definition example_pairs :: "(Timestamp \<times> Timestamp) list" where
  "example_pairs = [(link_tx_before_timestamp 10, link_tx_after_timestamp 15), (link_tx_after_timestamp 3, bpf_rx_timestamp 9),
     (bpf_rx_timestamp 7, bpf_rx_timestamp 7), (bpf_rx_timestamp 100, bpf_rx_timestamp 400), (bpf_rx_timestamp 9, bpf_rx_timestamp 8)]"

lemma example_latencies: "List.map_filter latency_between example_pairs = [5, 0, 300]"
  by (simp add: example_pairs_def latency_between_def same_clock_def link_tx_before_timestamp_def
      link_tx_after_timestamp_def bpf_rx_timestamp_def map_filter_simps)

theorem histogram_counts_samples_witness:
  "let h = record_all example_pairs new_LatencyHistogram
   in lh_buckets h 2 = 1 \<and> lh_sample_count h = 3 \<and> lh_minimum_ns h = 0 \<and> lh_maximum_ns h = 300"
  using histogram_counts_samples [OF refl example_latencies [symmetric], of 2]
  by (simp add: Let_def bucket_upper_bound_def)

text \<open>
  Claim C37. The percentile of a histogram is the order statistic of its samples, up to the width of a
  bucket. With doubles that round as IEEE 754 doubles do, and up to a million samples, the answer to a percentile \<open>q\<close>
  (clamped to 0 and 100) of \<open>n\<close> samples is the bound of the bucket of the \<open>r\<close>-th smallest of them, hence not below that
  sample and at most twice it plus one. The rank \<open>r\<close> is the smallest whole number that is at least \<open>q n / 100\<close>, and at
  least one: exactly for percentiles of up to three decimals, and for others except that a number exceeded by
  less than two billionths counts as reached.
\<close>

theorem percentile_is_order_statistic:
  fixes q e :: real
  assumes "h = record_all ps new_LatencyHistogram" "xs = List.map_filter latency_between ps"
    and "xs \<noteq> []" "length xs \<le> 10 ^ 6" "double_rounding rnd"
    and "e = max 0 (min 100 q) * real (length xs) / 100"
  shows "\<exists>r. max 1 \<lceil>e - 2 / 10 ^ 9\<rceil> \<le> int r \<and> int r \<le> max 1 \<lceil>e\<rceil> \<and> r \<le> length xs \<and>
    ((\<exists>m :: int. q = of_int m / 10 ^ 3) \<longrightarrow> int r = max 1 \<lceil>e\<rceil>) \<and>
    percentile rnd h q = bucket_upper_bound (bucket_index (sort xs ! (r - 1))) \<and>
    sort xs ! (r - 1) \<le> percentile rnd h q \<and> unat (percentile rnd h q) \<le> 2 * unat (sort xs ! (r - 1)) + 1"
proof -
  define r where "r = unat (percentile_rank rnd q (of_nat (length xs)))"
  have hs: "holds_samples h xs" using record_all_holds [OF holds_samples_new, of ps] assms by simp
  have len: "length xs < 2 ^ 64" using assms(4) by simp
  have b: "max 1 \<lceil>e - 2 / 10 ^ 9\<rceil> \<le> int r \<and> int r \<le> max 1 \<lceil>e\<rceil> \<and> r \<le> length xs"
    by (rule percentile_rank_exact [OF assms(5) _ assms(4,6) r_def]) (use assms(3) in simp)
  have p: "percentile rnd h q = bucket_upper_bound (bucket_index (sort xs ! (r - 1)))"
    using percentile_holds(2) [OF hs assms(3) len r_def] b by simp
  have "int r = max 1 \<lceil>e\<rceil>" if m: "q = of_int m / 10 ^ 3" for m :: int
  proof -
    have "max 0 (min 100 q) = of_int (max 0 (min 100000 m)) / 10 ^ 3" by (auto simp: m max_def min_def field_simps)
    then have "e = of_int (max 0 (min 100000 m) * int (length xs)) / 10 ^ 5" by (simp add: assms(6))
    from ceiling_grid [OF this] show ?thesis using b by linarith
  qed
  then show ?thesis using b p bucket_upper_bound_near [of "sort xs ! (r - 1)"] by (intro exI [of _ r]) auto
qed

theorem percentile_is_order_statistic_witness:
  "percentile id (record_all example_pairs new_LatencyHistogram) 50 = 7"
proof -
  have s: "sort [5, 0, 300 :: u64] ! 1 = 5" by simp
  have b: "bucket_upper_bound (bucket_index 5) = 7" by code_simp
  have e: "3 / 2 = max 0 (min 100 50) * real (length [5, 0, 300 :: u64]) / 100" by simp
  have m: "(50 :: real) = of_int 50000 / 10 ^ 3" by simp
  have c: "max 1 \<lceil>3 / 2 :: real\<rceil> = 2" by (simp add: ceiling_divide_eq_div_numeral)
  have xs: "[5, 0, 300 :: u64] \<noteq> []" "length [5, 0, 300 :: u64] \<le> 10 ^ 6" by simp_all
  from percentile_is_order_statistic [OF refl example_latencies [symmetric] xs double_rounding_id e]
  obtain r where r: "(\<exists>m :: int. 50 = real_of_int m / 10 ^ 3) \<longrightarrow> int r = max 1 \<lceil>3 / 2 :: real\<rceil>"
    "percentile id (record_all example_pairs new_LatencyHistogram) 50 =
      bucket_upper_bound (bucket_index (sort [5, 0, 300] ! (r - 1)))" by blast
  from r(1) m have "int r = 2" unfolding c by blast
  then have "r - 1 = 1" by linarith
  then show ?thesis using r(2) s b by simp
qed

end
