(* ===== verification/Bench_Payload.thy ===== *)
theory Bench_Payload
  imports Prelude
begin

text \<open>
  The payload of the benchmark (\<^verbatim>\<open>tools/bench_runner.cpp\<close> 40-52, 134-167): eight bytes of magic, a sequence number
  and the time of sending in network byte order, and a pattern. The two loops over the eight bytes of a number are folds
  over the index.
\<close>

definition kMagic :: "byte list" where
  "kMagic = [0x56, 0x4E, 0x42, 0x45, 0x4E, 0x43, 0x48, 0x31]"

definition write_u64 :: "byte list \<Rightarrow> nat \<Rightarrow> u64 \<Rightarrow> byte list" where
  "write_u64 output offset value' =
     fold (\<lambda>index output. output[offset + index := ucast (drop_bit ((7 - index) * 8) value' AND 0xFF)]) [0..<8] output"

definition read_u64 :: "byte list \<Rightarrow> nat \<Rightarrow> u64" where
  "read_u64 input offset = fold (\<lambda>index value'. push_bit 8 value' OR ucast (input ! (offset + index))) [0..<8] 0"

definition fill_payload :: "byte list \<Rightarrow> u64 \<Rightarrow> u64 \<Rightarrow> byte list" where
  "fill_payload output sequence sent_ns =
     (let output = memcpy_at output 0 kMagic;
          output = write_u64 output 8 sequence;
          output = write_u64 output 16 sent_ns
      in fold (\<lambda>index output. output[index := ucast ((sequence + of_nat index) AND 0xFF)]) [24..<length output] output)"

definition valid_payload :: "byte list \<Rightarrow> bool" where
  "valid_payload input \<longleftrightarrow> 24 \<le> length input \<and> take 8 input = kMagic"

section \<open>Lemmas\<close>

lemma upt_8: "[0..<8] = [0, 1, 2, 3, 4, 5, 6, 7 :: nat]" by (simp add: upt_rec)

lemma length_write_u64 [simp]: "length (write_u64 output offset v) = length output"
  by (simp add: write_u64_def upt_8)

lemma take_write_u64: "n \<le> offset \<Longrightarrow> take n (write_u64 output offset v) = take n output"
  by (simp add: write_u64_def upt_8)

lemma write_u64_nth:
  assumes "offset + 8 \<le> length output" "index < 8"
  shows "write_u64 output offset v ! (offset + index) = ucast (drop_bit ((7 - index) * 8) v AND 0xFF)"
proof -
  have "index \<in> set [0..<8]" using assms(2) by simp
  then consider "index = 0" | "index = 1" | "index = 2" | "index = 3" | "index = 4" | "index = 5" | "index = 6" | "index = 7"
    unfolding upt_8 by auto
  then show ?thesis using assms(1) by cases (simp_all add: write_u64_def upt_8)
qed

lemma write_u64_other: "k < offset \<or> offset + 8 \<le> k \<Longrightarrow> write_u64 output offset v ! k = output ! k"
  by (auto simp: write_u64_def upt_8)

lemma join_low_byte: "push_bit 8 (drop_bit 8 w) OR ucast (ucast (w AND 0xFF) :: byte) = (w :: u64)"
proof (rule bit_word_eqI)
  fix n assume "n < LENGTH(64)"
  moreover have "bit (0xFF :: u64) n \<longleftrightarrow> n < 8"
  proof -
    have m: "(0xFF :: u64) = mask 8" by (simp add: mask_eq_exp_minus_1)
    show ?thesis using \<open>n < LENGTH(64)\<close> unfolding m bit_mask_iff by simp
  qed
  ultimately show "bit (push_bit 8 (drop_bit 8 w) OR ucast (ucast (w AND 0xFF) :: byte)) n = bit w n"
    by (auto simp: bit_or_iff bit_and_iff bit_push_bit_iff bit_drop_bit_eq bit_ucast_iff)
qed

lemma join_bytes:
  fixes v :: u64
  assumes "k \<le> 8" "\<And>index. index < 8 \<Longrightarrow> input ! (offset + index) = (ucast (drop_bit ((7 - index) * 8) v AND 0xFF) :: byte)"
  shows "fold (\<lambda>index w. push_bit 8 w OR ucast (input ! (offset + index))) [0..<k] 0 = drop_bit ((8 - k) * 8) v"
  using assms(1)
proof (induction k)
  case 0
  show ?case by (rule bit_word_eqI) (auto simp: bit_drop_bit_eq dest: bit_imp_le_length)
next
  case (Suc k)
  then have "(8 - k) * 8 = 8 + (7 - k) * 8" by simp
  then have "drop_bit ((8 - k) * 8) v = drop_bit 8 (drop_bit ((7 - k) * 8) v)" by (simp only: drop_bit_drop_bit)
  then show ?case using Suc assms(2) [of k] join_low_byte [of "drop_bit ((7 - k) * 8) v"] by simp
qed

lemma read_write_u64: "offset + 8 \<le> length output \<Longrightarrow> read_u64 (write_u64 output offset v) offset = v"
  unfolding read_u64_def using join_bytes [of 8 "write_u64 output offset v" offset v] write_u64_nth [of offset "output"]
  by simp

lemma read_u64_cong: "(\<And>k. offset \<le> k \<Longrightarrow> k < offset + 8 \<Longrightarrow> a ! k = b ! k) \<Longrightarrow> read_u64 a offset = read_u64 b offset"
  by (simp add: read_u64_def upt_8)

lemma fold_list_update:
  "length (fold (\<lambda>i xs. xs[i := f i]) is xs) = length xs"
  "k \<notin> set is \<Longrightarrow> fold (\<lambda>i xs. xs[i := f i]) is xs ! k = xs ! k"
  by (induction "is" arbitrary: xs) auto

text \<open>What \<open>fill_payload\<close> writes is a valid payload, from which the sequence number and the time are read back.\<close>

lemma fill_payload_roundtrip:
  assumes "24 \<le> length output"
  shows "length (fill_payload output sequence sent_ns) = length output" "valid_payload (fill_payload output sequence sent_ns)"
    "read_u64 (fill_payload output sequence sent_ns) 8 = sequence" "read_u64 (fill_payload output sequence sent_ns) 16 = sent_ns"
proof -
  define a b p where "a = memcpy_at output 0 kMagic" and "b = write_u64 a 8 sequence"
    and "p = fill_payload output sequence sent_ns"
  let ?c = "write_u64 b 16 sent_ns"
  have len: "length a = length output" "length b = length output" "length kMagic = 8"
    using assms by (simp_all add: a_def b_def kMagic_def)
  have p: "p = fold (\<lambda>index output. output[index := ucast ((sequence + of_nat index) AND 0xFF)]) [24..<length output] ?c"
    unfolding p_def fill_payload_def Let_def a_def [symmetric] b_def [symmetric] by (simp add: len)
  have nth: "p ! k = ?c ! k" if "k < 24" for k unfolding p using that by (intro fold_list_update(2)) simp
  have lp: "length p = length output" unfolding p by (simp add: fold_list_update(1) len)
  have "take 8 p = take 8 ?c" using nth lp assms len by (intro nth_equalityI) simp_all
  also have "\<dots> = kMagic" using take_memcpy_at [of 0 "output" kMagic] len by (simp add: take_write_u64 b_def a_def)
  finally show "valid_payload (fill_payload output sequence sent_ns)" using lp assms by (simp add: valid_payload_def p_def [symmetric])
  show "length (fill_payload output sequence sent_ns) = length output" using lp by (simp add: p_def)
  have "read_u64 p 16 = read_u64 ?c 16" using nth by (intro read_u64_cong) simp
  then show "read_u64 (fill_payload output sequence sent_ns) 16 = sent_ns"
    using read_write_u64 [of 16 b] assms len by (simp add: p_def)
  have "read_u64 p 8 = read_u64 b 8" using nth write_u64_other [of _ 16 b] by (intro read_u64_cong) simp
  then show "read_u64 (fill_payload output sequence sent_ns) 8 = sequence"
    using read_write_u64 [of 8 a] assms len by (simp add: p_def b_def)
qed

end
