(* ===== verification/Bench_Options.thy ===== *)
theory Bench_Options
  imports Prelude Ipv4
begin

text \<open>
  The command line of the benchmark (\<^verbatim>\<open>tools/bench_runner.cpp\<close> 37-125, 169-185, 201-282). \<open>argv\<close> is the list of arguments
  after the program's name; \<open>inet_pton\<close> is an argument that gives the address in host byte order. \<open>from_chars\<close> is
  \<open>std::from_chars\<close> on an unsigned type of \<open>w\<close> bits: the longest prefix of digits, no sign and no space, refused when it
  is empty or does not fit.
\<close>

definition kDefaultTcpPort :: u16 where "kDefaultTcpPort = 46000"
definition kClientCustomIp :: u32 where "kClientCustomIp = 0xC6130001"
definition kServerCustomIp :: u32 where "kServerCustomIp = 0xC6130002"
definition kMaxPayloadBytes :: nat where "kMaxPayloadBytes = 1200"

datatype Mode = custom_client | custom_server | tcp_client | tcp_server
datatype Workload = wl_rtt | wl_throughput

record Options =
  op_mode :: Mode
  op_workload :: Workload
  op_interface_name :: string
  op_bind_address :: string
  op_peer_address :: string
  op_local_custom_ip :: Ipv4Address
  op_peer_custom_ip :: Ipv4Address
  op_tcp_port :: u16
  op_warmup_ms :: u32
  op_duration_ms :: u32
  op_max_runtime_ms :: u32
  op_payload_bytes :: nat
  op_output_path :: string

definition default_Options :: Options where
  "default_Options = \<lparr>op_mode = custom_client, op_workload = wl_rtt, op_interface_name = '''',
     op_bind_address = ''198.18.0.1'', op_peer_address = ''198.18.0.2'', op_local_custom_ip = kClientCustomIp,
     op_peer_custom_ip = kServerCustomIp, op_tcp_port = kDefaultTcpPort, op_warmup_ms = 1000, op_duration_ms = 3000,
     op_max_runtime_ms = 8000, op_payload_bytes = 256, op_output_path = ''''\<rparr>"

definition is_digit :: "char \<Rightarrow> bool" where
  "is_digit ch \<longleftrightarrow> 48 \<le> (of_char ch :: nat) \<and> (of_char ch :: nat) \<le> 57"

definition digits_value :: "string \<Rightarrow> nat" where
  "digits_value ds = foldl (\<lambda>n ch. n * 10 + (of_char ch - 48)) 0 ds"

definition from_chars :: "nat \<Rightarrow> string \<Rightarrow> (nat \<times> string) option" where
  "from_chars w text' =
     (let digits = takeWhile is_digit text' in
      if digits = [] \<or> digits_value digits \<ge> 2 ^ w then None
      else Some (digits_value digits, dropWhile is_digit text'))"

text \<open>The parsers write their result even when characters are left over, and then return false.\<close>

definition parse_u32 :: "string \<Rightarrow> u32 \<Rightarrow> u32 \<times> bool" where
  "parse_u32 text' v = (case from_chars 32 text' of Some (n, rest) \<Rightarrow> (of_nat n, rest = []) | None \<Rightarrow> (v, False))"

definition parse_size_value :: "string \<Rightarrow> nat \<Rightarrow> nat \<times> bool" where
  "parse_size_value text' v = (case from_chars 64 text' of Some (n, rest) \<Rightarrow> (n, rest = []) | None \<Rightarrow> (v, False))"

definition parse_u16 :: "string \<Rightarrow> u16 \<Rightarrow> u16 \<times> bool" where
  "parse_u16 text' v =
     (case parse_u32 text' 0 of (parsed, ok) \<Rightarrow>
        if \<not> ok \<or> parsed > 65535 then (v, False) else (ucast parsed, True))"

definition parse_ipv4 :: "(string \<Rightarrow> u32 option) \<Rightarrow> string \<Rightarrow> Ipv4Address \<Rightarrow> Ipv4Address \<times> bool" where
  "parse_ipv4 inet_pton text' v = (case inet_pton text' of None \<Rightarrow> (v, False) | Some address \<Rightarrow> (address, True))"

fun mode_name :: "Mode \<Rightarrow> string" where
  "mode_name custom_client = ''custom-client''"
| "mode_name custom_server = ''custom-server''"
| "mode_name tcp_client = ''tcp-client''"
| "mode_name tcp_server = ''tcp-server''"

fun workload_name :: "Workload \<Rightarrow> string" where
  "workload_name wl_rtt = ''rtt''"
| "workload_name wl_throughput = ''throughput''"

definition parse_mode :: "string \<Rightarrow> Options \<Rightarrow> Options option" where
  "parse_mode mode options =
     (if mode = ''custom-client''
      then Some (options\<lparr>op_mode := custom_client, op_local_custom_ip := kClientCustomIp, op_peer_custom_ip := kServerCustomIp\<rparr>)
      else if mode = ''custom-server''
      then Some (options\<lparr>op_mode := custom_server, op_local_custom_ip := kServerCustomIp, op_peer_custom_ip := kClientCustomIp\<rparr>)
      else if mode = ''tcp-client'' then Some (options\<lparr>op_mode := tcp_client\<rparr>)
      else if mode = ''tcp-server'' then Some (options\<lparr>op_mode := tcp_server, op_bind_address := ''198.18.0.2''\<rparr>)
      else None)"

text \<open>One option with its value; an option without a value, or an unknown one, is refused.\<close>

definition parse_argument :: "(string \<Rightarrow> u32 option) \<Rightarrow> string \<Rightarrow> string \<Rightarrow> Options \<Rightarrow> Options \<times> bool" where
  "parse_argument inet_pton argument v options =
     (if argument = ''--workload''
      then (if v = ''rtt'' then (options\<lparr>op_workload := wl_rtt\<rparr>, True)
            else if v = ''throughput'' then (options\<lparr>op_workload := wl_throughput\<rparr>, True) else (options, False))
      else if argument = ''--interface'' then (options\<lparr>op_interface_name := v\<rparr>, True)
      else if argument = ''--bind'' then (options\<lparr>op_bind_address := v\<rparr>, True)
      else if argument = ''--peer'' then (options\<lparr>op_peer_address := v\<rparr>, True)
      else if argument = ''--local-custom-ip''
      then (case parse_ipv4 inet_pton v (op_local_custom_ip options) of (a, ok) \<Rightarrow> (options\<lparr>op_local_custom_ip := a\<rparr>, ok))
      else if argument = ''--peer-custom-ip''
      then (case parse_ipv4 inet_pton v (op_peer_custom_ip options) of (a, ok) \<Rightarrow> (options\<lparr>op_peer_custom_ip := a\<rparr>, ok))
      else if argument = ''--port''
      then (case parse_u16 v (op_tcp_port options) of (a, ok) \<Rightarrow> (options\<lparr>op_tcp_port := a\<rparr>, ok))
      else if argument = ''--warmup-ms''
      then (case parse_u32 v (op_warmup_ms options) of (a, ok) \<Rightarrow> (options\<lparr>op_warmup_ms := a\<rparr>, ok))
      else if argument = ''--duration-ms''
      then (case parse_u32 v (op_duration_ms options) of (a, ok) \<Rightarrow> (options\<lparr>op_duration_ms := a\<rparr>, ok))
      else if argument = ''--max-runtime-ms''
      then (case parse_u32 v (op_max_runtime_ms options) of (a, ok) \<Rightarrow> (options\<lparr>op_max_runtime_ms := a\<rparr>, ok))
      else if argument = ''--payload-bytes''
      then (case parse_size_value v (op_payload_bytes options) of (a, ok) \<Rightarrow> (options\<lparr>op_payload_bytes := a\<rparr>, ok))
      else if argument = ''--out'' then (options\<lparr>op_output_path := v\<rparr>, True)
      else (options, False))"

fun parse_arguments :: "(string \<Rightarrow> u32 option) \<Rightarrow> string list \<Rightarrow> Options \<Rightarrow> Options \<times> bool" where
  "parse_arguments inet_pton [] options = (options, True)"
| "parse_arguments inet_pton [argument] options = (options, False)"
| "parse_arguments inet_pton (argument # v # rest) options =
     (case parse_argument inet_pton argument v options of (options, ok) \<Rightarrow>
        if ok then parse_arguments inet_pton rest options else (options, False))"

definition parse_options :: "(string \<Rightarrow> u32 option) \<Rightarrow> string list \<Rightarrow> Options \<Rightarrow> Options \<times> bool" where
  "parse_options inet_pton argv options =
     (case argv of
        [] \<Rightarrow> (options, False)
      | mode # arguments \<Rightarrow>
          (case parse_mode mode options of
             None \<Rightarrow> (options, False)
           | Some options \<Rightarrow>
               (case parse_arguments inet_pton arguments options of (options, ok) \<Rightarrow>
                  if \<not> ok then (options, False)
                  else if op_output_path options = [] \<or> op_payload_bytes options < 24 \<or>
                          op_payload_bytes options > kMaxPayloadBytes \<or> op_duration_ms options = 0
                  then (options, False)
                  else
                    let custom = op_mode options = custom_client \<or> op_mode options = custom_server
                    in (options, if custom then op_interface_name options \<noteq> [] else True))))"

section \<open>Lemmas\<close>

lemma mode_name_inj: "mode_name a = mode_name b \<longleftrightarrow> a = b"
  by (cases a; cases b) simp_all

lemma parse_mode_name: "\<exists>o'. parse_mode (mode_name m) options = Some o' \<and> op_mode o' = m"
  by (cases m) (simp_all add: parse_mode_def)

lemma parse_argument_mode: "op_mode (fst (parse_argument inet_pton a v options)) = op_mode options"
  by (simp add: parse_argument_def split: prod.split)

lemma parse_arguments_mode: "op_mode (fst (parse_arguments inet_pton arguments options)) = op_mode options"
proof (induction inet_pton arguments options rule: parse_arguments.induct)
  case (3 inet_pton a v rest options)
  then show ?case using parse_argument_mode [of inet_pton a v options] by (auto split: prod.split)
qed simp_all

text \<open>A command line that is accepted names its mode first, and its options are within the limits the benchmark relies on.\<close>

lemma parse_options_sound:
  assumes "parse_options inet_pton argv options = (o', True)"
  shows "argv \<noteq> [] \<and> hd argv = mode_name (op_mode o') \<and> op_output_path o' \<noteq> [] \<and> 24 \<le> op_payload_bytes o' \<and>
    op_payload_bytes o' \<le> kMaxPayloadBytes \<and> op_duration_ms o' \<noteq> 0 \<and>
    (op_mode o' \<in> {custom_client, custom_server} \<longrightarrow> op_interface_name o' \<noteq> [])"
proof -
  obtain mode arguments o1 where m: "argv = mode # arguments" "parse_mode mode options = Some o1"
    using assms by (auto simp: parse_options_def split: list.splits option.splits)
  obtain o2 ok where a: "parse_arguments inet_pton arguments o1 = (o2, ok)" by fastforce
  have "op_mode o2 = op_mode o1" using parse_arguments_mode [of inet_pton arguments o1] a by simp
  moreover have "mode = mode_name (op_mode o1)" using m(2) by (auto simp: parse_mode_def split: if_splits)
  ultimately show ?thesis
    using assms m a by (auto simp: parse_options_def Let_def split: if_splits)
qed

end
