(* ===== verification/Bench_Runner.thy ===== *)
theory Bench_Runner
  imports Bench_Payload Bench_Options Connection Network_Stack Histogram Spsc_Ring
begin

text \<open>
  The benchmark over the whole stack (\<^verbatim>\<open>tools/bench_runner.cpp\<close> 82-90, 616-921): a connection whose segments are datagrams of a
  network stack, an echo server and a client.

  The callbacks of the connection work on the pair of the stack and the \<open>CustomRuntime\<close>, which the source reaches through
  pointers; the runtime carries the state of the clock. The callback of the stack works on the runtime and the connection
  beside the stack; a connection is \<open>None\<close> after a call that does not return. The array of echo slots is a function from
  indices with its size of 64 written out.
\<close>

definition kRttOutstanding :: nat where "kRttOutstanding = 32"
definition kNsPerMs :: u64 where "kNsPerMs = 1000000"
definition kEchoSlots :: nat where "kEchoSlots = 64"

definition monotonic_ns :: "(int \<times> int) option \<Rightarrow> u64" where
  "monotonic_ns clock_value =
     (case clock_value of
        None \<Rightarrow> 0
      | Some (sec, nsec) \<Rightarrow>
          if sec < 0 \<or> nsec < 0 then 0 else word_of_int sec * 1000000000 + word_of_int nsec)"

record 'c CustomRuntime =
  rn_options :: Options
  rn_histogram :: LatencyHistogram
  rn_send_payload :: "byte list"
  rn_pending_echo :: "byte list arr"
  rn_pending_echo_bytes :: "nat arr"
  rn_pending_head :: nat
  rn_pending_tail :: nat
  rn_pending_count :: nat
  rn_warmup_end_ns :: u64
  rn_end_ns :: u64
  rn_sequence :: u64
  rn_bytes_sent :: u64
  rn_bytes_acked_start :: u64
  rn_bytes_acked_end :: u64
  rn_bytes_received :: u64
  rn_send_failures :: u64
  rn_receive_errors :: u64
  rn_bpf_rx_timestamps :: u64
  rn_connected :: bool
  rn_clock :: 'c

definition new_CustomRuntime :: "Options \<Rightarrow> 'c \<Rightarrow> 'c CustomRuntime" where
  "new_CustomRuntime options c =
     \<lparr>rn_options = options, rn_histogram = new_LatencyHistogram, rn_send_payload = replicate kMaxPayloadBytes 0,
      rn_pending_echo = (\<lambda>_. replicate kMaxPayloadBytes 0), rn_pending_echo_bytes = (\<lambda>_. 0), rn_pending_head = 0,
      rn_pending_tail = 0, rn_pending_count = 0, rn_warmup_end_ns = 0, rn_end_ns = 0, rn_sequence = 0, rn_bytes_sent = 0,
      rn_bytes_acked_start = 0, rn_bytes_acked_end = 0, rn_bytes_received = 0, rn_send_failures = 0, rn_receive_errors = 0,
      rn_bpf_rx_timestamps = 0, rn_connected = False, rn_clock = c\<rparr>"

type_synonym 'c clock = "'c \<Rightarrow> 'c \<times> (int \<times> int) option"
type_synonym ('l, 'c) bench_ctx = "'l NetworkStack \<times> 'c CustomRuntime"

definition read_clock :: "'c clock \<Rightarrow> ('l, 'c) bench_ctx \<Rightarrow> ('l, 'c) bench_ctx \<times> u64" where
  "read_clock clock ctx =
     (case ctx of (stack, rt) \<Rightarrow>
        case clock (rn_clock rt) of (c, v) \<Rightarrow> ((stack, rt\<lparr>rn_clock := c\<rparr>), monotonic_ns v))"

section \<open>The callbacks of the connection\<close>

definition custom_transmit ::
  "'c clock \<Rightarrow> ('l, 'c) bench_ctx \<Rightarrow> byte list \<Rightarrow> TransmitReason \<Rightarrow> ('l, 'c) bench_ctx \<times> error_code" where
  "custom_transmit clock ctx segment reason =
     (case read_clock clock ctx of ((stack, rt), now) \<Rightarrow>
        case send_datagram stack (op_peer_custom_ip (rn_options rt)) segment now of (stack, status) \<Rightarrow>
          if status = net_accepted \<or> status = net_queued_for_arp then ((stack, rt), no_error)
          else ((stack, rt\<lparr>rn_send_failures := rn_send_failures rt + 1\<rparr>), io_error))"

definition custom_error :: "('l, 'c) bench_ctx \<Rightarrow> ConnectionError \<Rightarrow> ('l, 'c) bench_ctx" where
  "custom_error ctx error =
     (case ctx of (stack, rt) \<Rightarrow> (stack, rt\<lparr>rn_receive_errors := rn_receive_errors rt + 1\<rparr>))"

definition custom_state :: "('l, 'c) bench_ctx \<Rightarrow> ConnectionState \<Rightarrow> ('l, 'c) bench_ctx" where
  "custom_state ctx state = (case ctx of (stack, rt) \<Rightarrow> (stack, rt\<lparr>rn_connected := (state = established)\<rparr>))"

definition enqueue_echo :: "'c CustomRuntime \<Rightarrow> byte list \<Rightarrow> 'c CustomRuntime" where
  "enqueue_echo rt payload =
     (if rn_pending_count rt \<ge> kEchoSlots \<or> length payload > kMaxPayloadBytes
      then rt\<lparr>rn_receive_errors := rn_receive_errors rt + 1\<rparr>
      else
        let tail = rn_pending_tail rt in
        rt\<lparr>rn_pending_echo := (rn_pending_echo rt)(tail := memcpy_at (rn_pending_echo rt tail) 0 payload),
           rn_pending_echo_bytes := (rn_pending_echo_bytes rt)(tail := length payload),
           rn_pending_tail := (tail + 1) mod kEchoSlots,
           rn_pending_count := rn_pending_count rt + 1\<rparr>)"

text \<open>The client's sample of a round trip.\<close>

definition record_round_trip :: "'c CustomRuntime \<Rightarrow> byte list \<Rightarrow> u64 \<Rightarrow> 'c CustomRuntime" where
  "record_round_trip rt payload now =
     (if valid_payload payload \<and> now \<ge> rn_warmup_end_ns rt
      then
        let sent_ns = read_u64 payload 16 in
        if sent_ns \<noteq> 0 \<and> now \<ge> sent_ns
        then rt\<lparr>rn_histogram := fst (lh_record (rn_histogram rt) (now - sent_ns))\<rparr> else rt
      else rt)"

definition custom_receive :: "'c clock \<Rightarrow> ('l, 'c) bench_ctx \<Rightarrow> byte list \<Rightarrow> ('l, 'c) bench_ctx" where
  "custom_receive clock ctx payload =
     (case ctx of (stack, rt) \<Rightarrow>
        if op_workload (rn_options rt) = wl_rtt \<and> op_mode (rn_options rt) = custom_server
        then (stack, enqueue_echo rt payload)
        else
          case (if op_mode (rn_options rt) = custom_client \<and> op_workload (rn_options rt) = wl_rtt
                then case read_clock clock (stack, rt) of ((stack, rt), now) \<Rightarrow> (stack, record_round_trip rt payload now)
                else (stack, rt)) of
            (stack, rt) \<Rightarrow>
              (case read_clock clock (stack, rt) of ((stack, rt), now) \<Rightarrow>
                 if now \<ge> rn_warmup_end_ns rt
                 then (stack, rt\<lparr>rn_bytes_received := rn_bytes_received rt + of_nat (length payload)\<rparr>)
                 else (stack, rt)))"

definition bench_callbacks :: "'c clock \<Rightarrow> ('l, 'c) bench_ctx ConnectionCallbacks" where
  "bench_callbacks clock = \<lparr>ccb_transmit = Some (custom_transmit clock), ccb_receive = Some (custom_receive clock),
     ccb_state = Some custom_state, ccb_error = Some custom_error\<rparr>"

section \<open>The callback of the stack\<close>

type_synonym ('l, 'c) bench_user = "'c CustomRuntime \<times> ('l, 'c) bench_ctx Impl option"

definition custom_datagram :: "'c clock \<Rightarrow> ('l, ('l, 'c) bench_user) datagram_callback" where
  "custom_datagram clock st source payload metadata =
     (case st of (stack, rt, connection) \<Rightarrow>
        let rt = (if cm_capture_timestamp_ns metadata \<noteq> 0
                  then rt\<lparr>rn_bpf_rx_timestamps := rn_bpf_rx_timestamps rt + 1\<rparr> else rt) in
        case connection of
          None \<Rightarrow> (stack, rt, None)
        | Some connection \<Rightarrow>
            (case read_clock clock (stack, rt) of ((stack, rt), now) \<Rightarrow>
               case cn_on_segment connection (stack, rt) payload now of
                 None \<Rightarrow> (stack, rt, None)
               | Some (connection, (stack, rt), ok) \<Rightarrow> (stack, rt, Some connection)))"

section \<open>The echo server and the client\<close>

definition echo_front :: "'c CustomRuntime \<Rightarrow> byte list" where
  "echo_front rt = take (rn_pending_echo_bytes rt (rn_pending_head rt)) (rn_pending_echo rt (rn_pending_head rt))"

definition echo_advance :: "'c CustomRuntime \<Rightarrow> 'c CustomRuntime" where
  "echo_advance rt = rt\<lparr>rn_pending_head := (rn_pending_head rt + 1) mod kEchoSlots,
     rn_pending_count := rn_pending_count rt - 1\<rparr>"

partial_function (option) flush_echo ::
  "'c clock \<Rightarrow> ('l, 'c) bench_ctx Impl \<Rightarrow> ('l, 'c) bench_ctx \<Rightarrow> (('l, 'c) bench_ctx Impl \<times> ('l, 'c) bench_ctx) option" where
  "flush_echo clock connection ctx =
     (if rn_pending_count (snd ctx) = 0 then Some (connection, ctx)
      else
        let payload = echo_front (snd ctx) in
        case read_clock clock ctx of (ctx, now) \<Rightarrow>
        case cn_send connection ctx payload now of (connection, (stack, rt), status) \<Rightarrow>
          if status = snd_would_block then Some (connection, (stack, rt))
          else if status \<noteq> snd_accepted
          then Some (connection, (stack, rt\<lparr>rn_send_failures := rn_send_failures rt + 1\<rparr>))
          else flush_echo clock connection (stack, echo_advance rt))"

declare flush_echo.simps [code]

definition payload_bytes_64 :: "'c CustomRuntime \<Rightarrow> u64" where
  "payload_bytes_64 rt = of_nat (op_payload_bytes (rn_options rt))"

text \<open>
  The next payload of the client: the first bytes of the send buffer are filled, the sequence number moves on.
\<close>

definition fill_next :: "u64 \<Rightarrow> 'c CustomRuntime \<Rightarrow> 'c CustomRuntime \<times> byte list" where
  "fill_next sent_ns rt =
     (let n = op_payload_bytes (rn_options rt);
          payload = fill_payload (take n (rn_send_payload rt)) (rn_sequence rt) sent_ns
      in (rt\<lparr>rn_send_payload := payload @ drop n (rn_send_payload rt), rn_sequence := rn_sequence rt + 1\<rparr>, payload))"

fun rtt_burst ::
  "'c clock \<Rightarrow> u64 \<Rightarrow> nat \<Rightarrow> ('l, 'c) bench_ctx Impl \<Rightarrow> ('l, 'c) bench_ctx \<Rightarrow> ('l, 'c) bench_ctx Impl \<times> ('l, 'c) bench_ctx" where
  "rtt_burst clock now 0 connection ctx = (connection, ctx)"
| "rtt_burst clock now (Suc n) connection ctx =
     (case read_clock clock ctx of ((stack, rt), sent_ns) \<Rightarrow>
      case fill_next sent_ns rt of (rt, payload) \<Rightarrow>
      case read_clock clock (stack, rt) of (ctx, send_ns) \<Rightarrow>
      case cn_send connection ctx payload send_ns of (connection, (stack, rt), status) \<Rightarrow>
        if status = snd_would_block then (connection, (stack, rt))
        else if status \<noteq> snd_accepted then (connection, (stack, rt\<lparr>rn_send_failures := rn_send_failures rt + 1\<rparr>))
        else rtt_burst clock now n connection
               (stack, if now \<ge> rn_warmup_end_ns rt
                       then rt\<lparr>rn_bytes_sent := rn_bytes_sent rt + payload_bytes_64 rt\<rparr> else rt))"

partial_function (option) throughput_burst ::
  "'c clock \<Rightarrow> u64 \<Rightarrow> byte list \<Rightarrow> ('l, 'c) bench_ctx Impl \<Rightarrow> ('l, 'c) bench_ctx
     \<Rightarrow> (('l, 'c) bench_ctx Impl \<times> ('l, 'c) bench_ctx) option" where
  "throughput_burst clock now payload connection ctx =
     (case read_clock clock ctx of (ctx, send_ns) \<Rightarrow>
      case cn_send connection ctx payload send_ns of (connection, (stack, rt), status) \<Rightarrow>
        if status = snd_would_block then Some (connection, (stack, rt))
        else if status \<noteq> snd_accepted then Some (connection, (stack, rt\<lparr>rn_send_failures := rn_send_failures rt + 1\<rparr>))
        else throughput_burst clock now payload connection
               (stack, if now \<ge> rn_warmup_end_ns rt
                       then rt\<lparr>rn_bytes_sent := rn_bytes_sent rt + payload_bytes_64 rt\<rparr>
                       else rt\<lparr>rn_bytes_acked_start := cst_payload_bytes_acked (cn_statistics connection)\<rparr>))"

definition drive_custom_client ::
  "'c clock \<Rightarrow> ('l, 'c) bench_ctx Impl \<Rightarrow> ('l, 'c) bench_ctx \<Rightarrow> (('l, 'c) bench_ctx Impl \<times> ('l, 'c) bench_ctx) option" where
  "drive_custom_client clock connection ctx =
     (if \<not> rn_connected (snd ctx) then Some (connection, ctx)
      else
        let ctx = (if rn_warmup_end_ns (snd ctx) = 0
                   then case read_clock clock ctx of ((stack, rt), now) \<Rightarrow>
                     let warmup_end = now + ucast (op_warmup_ms (rn_options rt)) * kNsPerMs
                     in (stack, rt\<lparr>rn_warmup_end_ns := warmup_end,
                                   rn_end_ns := warmup_end + ucast (op_duration_ms (rn_options rt)) * kNsPerMs\<rparr>)
                   else ctx)
        in case read_clock clock ctx of ((stack, rt), now) \<Rightarrow>
          if now \<ge> rn_end_ns rt
          then Some (connection, (stack, rt\<lparr>rn_bytes_acked_end := cst_payload_bytes_acked (cn_statistics connection)\<rparr>))
          else if op_workload (rn_options rt) = wl_rtt
          then Some (rtt_burst clock now kRttOutstanding connection (stack, rt))
          else case fill_next 0 rt of (rt, payload) \<Rightarrow> throughput_burst clock now payload connection (stack, rt))"

section \<open>The run\<close>

definition bench_stack_config :: "Options \<Rightarrow> NetworkStackConfig" where
  "bench_stack_config options = \<lparr>nc_interface_name = op_interface_name options,
     nc_local_address = op_local_custom_ip options, nc_requested_bpf_buffer_bytes = 1048576, nc_promiscuous = False,
     nc_arp = default_ArpResolverConfig\<rparr>"

definition bench_connection_config :: "Options \<Rightarrow> ConnectionConfig" where
  "bench_connection_config options = default_ConnectionConfig\<lparr>
     cf_maximum_segment_payload_bytes := of_nat (op_payload_bytes options),
     cf_packet_pool_buffers := 4096, cf_retransmission_capacity := 1024, cf_receive_capacity := 1024\<rparr>"

text \<open>The connection of a run and, for the client, its SYN; the addresses of the pools' storage are arguments.\<close>

definition start_custom ::
  "'c clock \<Rightarrow> nat \<Rightarrow> nat \<Rightarrow> ('l, 'c) bench_ctx \<Rightarrow> ('l, 'c) bench_ctx Impl \<times> ('l, 'c) bench_ctx" where
  "start_custom clock tx_base rx_base ctx =
     (let options = rn_options (snd ctx);
          connection = new_Connection tx_base rx_base (bench_connection_config options) (bench_callbacks clock)
      in if op_mode options = custom_client
         then case read_clock clock ctx of (ctx, now) \<Rightarrow>
           case cn_connect connection ctx now of (connection, ctx, ok) \<Rightarrow> (connection, ctx)
         else (connection, ctx))"

definition user_clock :: "'c clock \<Rightarrow> ('l, 'c) bench_user \<Rightarrow> ('l, 'c) bench_user \<times> (int \<times> int) option" where
  "user_clock clock user =
     (case user of (rt, connection) \<Rightarrow> case clock (rn_clock rt) of (c, v) \<Rightarrow> ((rt\<lparr>rn_clock := c\<rparr>, connection), v))"

text \<open>
  The body of the loop of \<open>run_custom\<close> on the frames that this round's poll of the link captured; the flag tells
  whether the client breaks out of the loop.
\<close>

definition custom_round ::
  "'c clock \<Rightarrow> (byte list \<times> CaptureMetadata) list \<times> error_code \<Rightarrow> ('l, 'c) bench_ctx Impl \<Rightarrow> ('l, 'c) bench_ctx
     \<Rightarrow> (('l, 'c) bench_ctx Impl \<times> ('l, 'c) bench_ctx \<times> bool) option" where
  "custom_round clock captured connection ctx =
     (case stack_poll (user_clock clock) (fst ctx) (Some (custom_datagram clock)) (snd ctx, Some connection) captured of
        ((stack, rt, None), error) \<Rightarrow> None
      | ((stack, rt, Some connection), error) \<Rightarrow>
          let rt = (if error \<noteq> no_error \<and> error \<noteq> timed_out
                    then rt\<lparr>rn_receive_errors := rn_receive_errors rt + 1\<rparr> else rt) in
          case read_clock clock (stack, rt) of ((stack, rt), now) \<Rightarrow>
          case cn_tick connection (stack_tick stack now, rt) now of (connection, ctx) \<Rightarrow>
            if op_mode (rn_options (snd ctx)) = custom_server
            then map_option (\<lambda>(connection, ctx). (connection, ctx, False)) (flush_echo clock connection ctx)
            else
              (case drive_custom_client clock connection ctx of
                 None \<Rightarrow> None
               | Some (connection, ctx) \<Rightarrow>
                   if rn_end_ns (snd ctx) \<noteq> 0
                   then case read_clock clock ctx of (ctx, now) \<Rightarrow> Some (connection, ctx, now \<ge> rn_end_ns (snd ctx))
                   else Some (connection, ctx, False)))"

text \<open>The loop; \<open>capture n\<close> is what the \<open>n\<close>-th poll of the link comes back with.\<close>

partial_function (option) custom_loop ::
  "'c clock \<Rightarrow> (nat \<Rightarrow> (byte list \<times> CaptureMetadata) list \<times> error_code) \<Rightarrow> u64 \<Rightarrow> nat \<Rightarrow> ('l, 'c) bench_ctx Impl
     \<Rightarrow> ('l, 'c) bench_ctx \<Rightarrow> (('l, 'c) bench_ctx Impl \<times> ('l, 'c) bench_ctx) option" where
  "custom_loop clock capture max_end_ns n connection ctx =
     (case read_clock clock ctx of (ctx, t) \<Rightarrow>
        if \<not> t < max_end_ns then Some (connection, ctx)
        else case custom_round clock (capture n) connection ctx of
          None \<Rightarrow> None
        | Some (connection, ctx, stop) \<Rightarrow>
            if stop then Some (connection, ctx) else custom_loop clock capture max_end_ns (Suc n) connection ctx)"

section \<open>The echo queue\<close>

definition echo_slot :: "'c CustomRuntime \<Rightarrow> nat \<Rightarrow> byte list" where
  "echo_slot rt k = take (rn_pending_echo_bytes rt k) (rn_pending_echo rt k)"

definition echo_contents :: "'c CustomRuntime \<Rightarrow> byte list list" where
  "echo_contents rt = map (\<lambda>i. echo_slot rt ((rn_pending_head rt + i) mod kEchoSlots)) [0..<rn_pending_count rt]"

definition echo_inv :: "'c CustomRuntime \<Rightarrow> bool" where
  "echo_inv rt \<longleftrightarrow> rn_pending_head rt < kEchoSlots \<and> rn_pending_count rt \<le> kEchoSlots \<and>
     rn_pending_tail rt = (rn_pending_head rt + rn_pending_count rt) mod kEchoSlots \<and>
     (\<forall>k. length (rn_pending_echo rt k) = kMaxPayloadBytes)"

definition echo_fits :: "byte list \<Rightarrow> bool" where
  "echo_fits payload \<longleftrightarrow> length payload \<le> kMaxPayloadBytes"

definition echo_push :: "byte list \<Rightarrow> 'c CustomRuntime \<Rightarrow> 'c CustomRuntime \<times> bool" where
  "echo_push payload rt = (enqueue_echo rt payload, rn_pending_count rt < kEchoSlots \<and> echo_fits payload)"

definition echo_pop :: "byte list \<Rightarrow> 'c CustomRuntime \<Rightarrow> 'c CustomRuntime \<times> byte list \<times> bool" where
  "echo_pop y rt = (if rn_pending_count rt = 0 then (rt, y, False) else (echo_advance rt, echo_front rt, True))"

lemma new_CustomRuntime_echo: "echo_inv (new_CustomRuntime options c)" "echo_contents (new_CustomRuntime options c) = []"
  by (simp_all add: echo_inv_def echo_contents_def new_CustomRuntime_def kEchoSlots_def)

lemma length_echo_contents [simp]: "length (echo_contents rt) = rn_pending_count rt"
  by (simp add: echo_contents_def)

lemma mod_slots_apart: "i < n \<Longrightarrow> n < kEchoSlots \<Longrightarrow> (h + i) mod kEchoSlots \<noteq> (h + n) mod kEchoSlots"
  using slots_apart [of "h + i" "h + n" kEchoSlots] by simp

lemma enqueue_echo_contents:
  assumes inv: "echo_inv rt" and room: "rn_pending_count rt < kEchoSlots" and fit: "echo_fits payload"
  shows "echo_inv (enqueue_echo rt payload) \<and> echo_contents (enqueue_echo rt payload) = echo_contents rt @ [payload]"
proof -
  let ?h = "rn_pending_head rt" and ?n = "rn_pending_count rt"
  let ?t = "(?h + ?n) mod kEchoSlots"
  define r where "r = enqueue_echo rt payload"
  have r: "r = rt\<lparr>rn_pending_echo := (rn_pending_echo rt)(?t := memcpy_at (rn_pending_echo rt ?t) 0 payload),
      rn_pending_echo_bytes := (rn_pending_echo_bytes rt)(?t := length payload),
      rn_pending_tail := (?t + 1) mod kEchoSlots, rn_pending_count := ?n + 1\<rparr>"
    using inv room fit by (simp add: r_def enqueue_echo_def echo_inv_def echo_fits_def Let_def)
  have len: "length (rn_pending_echo rt ?t) = kMaxPayloadBytes" using inv by (simp add: echo_inv_def)
  have "echo_slot r ?t = payload"
    using take_memcpy_at [of 0 "rn_pending_echo rt ?t" payload] by (simp add: echo_slot_def r)
  moreover have "echo_slot r ((?h + i) mod kEchoSlots) = echo_slot rt ((?h + i) mod kEchoSlots)" if "i < ?n" for i
    using mod_slots_apart [OF that room, of ?h] by (simp add: echo_slot_def r)
  ultimately have "echo_contents r = echo_contents rt @ [payload]" by (simp add: echo_contents_def) (simp add: r)
  moreover have "echo_inv r"
    using inv room len fit by (simp add: echo_inv_def r echo_fits_def mod_Suc_eq)
  ultimately show ?thesis by (simp add: r_def)
qed

lemma echo_advance_contents:
  assumes inv: "echo_inv rt" and c: "echo_contents rt = x # xs"
  shows "echo_front rt = x \<and> echo_inv (echo_advance rt) \<and> echo_contents (echo_advance rt) = xs"
proof -
  let ?h = "rn_pending_head rt"
  obtain n where n: "rn_pending_count rt = Suc n" using c length_echo_contents [of rt] by (cases "rn_pending_count rt") auto
  have h: "?h mod kEchoSlots = ?h" using inv by (simp add: echo_inv_def)
  have "x # xs = echo_slot rt ((?h + 0) mod kEchoSlots) # map (\<lambda>i. echo_slot rt ((?h + Suc i) mod kEchoSlots)) [0..<n]"
    using c unfolding echo_contents_def n by (simp add: upt_conv_Cons map_Suc_upt [symmetric] comp_def del: upt_Suc)
  moreover have "echo_contents (echo_advance rt) = map (\<lambda>i. echo_slot rt ((?h + Suc i) mod kEchoSlots)) [0..<n]"
  proof -
    have "((?h + 1) mod kEchoSlots + i) mod kEchoSlots = (?h + Suc i) mod kEchoSlots" for i
      using mod_add_left_eq [of "?h + 1" kEchoSlots i] by simp
    then show ?thesis by (simp add: echo_contents_def echo_advance_def n echo_slot_def)
  qed
  moreover have "echo_inv (echo_advance rt)"
    using inv n by (simp add: echo_inv_def echo_advance_def mod_add_left_eq)
  ultimately show ?thesis using h by (simp add: echo_front_def echo_slot_def)
qed

interpretation echo_queue: bounded_fifo echo_inv echo_contents kEchoSlots echo_fits echo_push echo_pop
proof unfold_locales
  fix r :: "'b CustomRuntime" and x y z xs r' b
  assume inv: "echo_inv r"
  show "length (echo_contents r) \<le> kEchoSlots" using inv by (simp add: echo_inv_def)
  show "length (echo_contents r) = kEchoSlots \<or> \<not> echo_fits x \<Longrightarrow> echo_push x r = (r', b) \<Longrightarrow>
      \<not> b \<and> echo_inv r' \<and> echo_contents r' = echo_contents r"
    using inv by (auto simp: echo_push_def enqueue_echo_def echo_fits_def echo_inv_def echo_contents_def echo_slot_def)
  show "length (echo_contents r) < kEchoSlots \<Longrightarrow> echo_fits x \<Longrightarrow> echo_push x r = (r', b) \<Longrightarrow>
      b \<and> echo_inv r' \<and> echo_contents r' = echo_contents r @ [x]"
    using enqueue_echo_contents [OF inv] by (auto simp: echo_push_def)
  show "echo_contents r = [] \<Longrightarrow> echo_pop y r = (r, y, False)"
    using length_echo_contents [of r] by (simp add: echo_pop_def)
  show "echo_contents r = x # xs \<Longrightarrow> echo_pop y r = (r', z, b) \<Longrightarrow> b \<and> z = x \<and> echo_inv r' \<and> echo_contents r' = xs"
    using echo_advance_contents [OF inv, of x xs] length_echo_contents [of r] by (auto simp: echo_pop_def)
qed

section \<open>The echo server answers in order\<close>

text \<open>What a connection's \<open>send\<close> does to the state of its callbacks, as far as the two callbacks it uses keep \<open>g\<close>.\<close>

lemma transmit_bytes_ctx:
  assumes tr: "\<And>f ctx bytes reason. ccb_transmit (cn_callbacks c) = Some f \<Longrightarrow> g (fst (f ctx bytes reason)) = g ctx"
    and er: "\<And>f ctx e. ccb_error (cn_callbacks c) = Some f \<Longrightarrow> g (f ctx e) = g ctx"
    and t: "transmit_bytes c ctx bytes reason = (c', ctx', ok)"
  shows "g ctx' = g ctx \<and> cn_callbacks c' = cn_callbacks c"
proof -
  have ne: "g (cn_notify_error d x transmit_failed) = g x" if "cn_callbacks d = cn_callbacks c" for d x
    using that er by (simp add: cn_notify_error_def split: option.split)
  show ?thesis
  proof (cases "ccb_transmit (cn_callbacks c)")
    case None
    then show ?thesis using t ne by (auto simp: transmit_bytes_def count_def Let_def)
  next
    case (Some f)
    then show ?thesis using t tr [OF Some, of ctx bytes reason] ne
      by (auto simp: transmit_bytes_def count_def Let_def split: prod.splits if_splits)
  qed
qed

lemma cn_send_ctx:
  assumes tr: "\<And>f ctx bytes reason. ccb_transmit (cn_callbacks c) = Some f \<Longrightarrow> g (fst (f ctx bytes reason)) = g ctx"
    and er: "\<And>f ctx e. ccb_error (cn_callbacks c) = Some f \<Longrightarrow> g (f ctx e) = g ctx"
    and s: "cn_send c ctx payload now = (c', ctx', status)"
  shows "g ctx' = g ctx \<and> cn_callbacks c' = cn_callbacks c"
proof -
  have t: "g y = g ctx \<and> cn_callbacks d' = cn_callbacks c"
    if "cn_callbacks d = cn_callbacks c" "transmit_bytes d ctx b r = (d', y, ok)" for d b r d' y ok
    using transmit_bytes_ctx [of d g ctx b r d' y ok] tr er that by metis
  show ?thesis
    using s unfolding cn_send_def Let_def
    by (auto split: if_splits prod.splits dest!: t [rotated] simp: count_def)
qed

definition echo_state :: "('l, 'c) bench_ctx \<Rightarrow> byte list arr \<times> nat arr \<times> nat \<times> nat \<times> nat" where
  "echo_state ctx = (let rt = snd ctx in (rn_pending_echo rt, rn_pending_echo_bytes rt, rn_pending_head rt,
     rn_pending_tail rt, rn_pending_count rt))"

lemma echo_state_cong:
  "echo_state ctx = echo_state ctx' \<Longrightarrow> echo_inv (snd ctx) = echo_inv (snd ctx') \<and>
     echo_contents (snd ctx) = echo_contents (snd ctx') \<and> rn_pending_count (snd ctx) = rn_pending_count (snd ctx')"
  by (simp add: echo_state_def echo_inv_def echo_contents_def echo_slot_def Let_def)

lemma read_clock_echo: "read_clock clock ctx = (ctx', now) \<Longrightarrow> echo_state ctx' = echo_state ctx"
  by (auto simp: read_clock_def echo_state_def Let_def split: prod.splits)

lemma bench_send_echo:
  fixes c :: "('l, 'c) bench_ctx Impl"
  assumes cb: "cn_callbacks c = bench_callbacks clock" and s: "cn_send c ctx payload now = (c', ctx', status)"
  shows "echo_state ctx' = echo_state ctx \<and> cn_callbacks c' = bench_callbacks clock"
proof -
  have tr: "echo_state (fst (custom_transmit clock x bytes reason)) = echo_state x" for x :: "('l, 'c) bench_ctx" and bytes reason
    by (auto simp: custom_transmit_def read_clock_def echo_state_def Let_def split: prod.splits)
  have er: "echo_state (custom_error x e) = echo_state x" for x :: "('l, 'c) bench_ctx" and e
    by (auto simp: custom_error_def echo_state_def Let_def split: prod.splits)
  show ?thesis
    unfolding cb [symmetric] by (rule cn_send_ctx [OF _ _ s]) (use tr er in \<open>auto simp: cb bench_callbacks_def\<close>)
qed

text \<open>The payloads \<open>ps\<close> were handed to the connection in this order, each was accepted and taken off the queue.\<close>

inductive sends ::
  "'c clock \<Rightarrow> byte list list \<Rightarrow> ('l, 'c) bench_ctx Impl \<times> ('l, 'c) bench_ctx \<Rightarrow> ('l, 'c) bench_ctx Impl \<times> ('l, 'c) bench_ctx \<Rightarrow> bool"
  for clock where
  sends_none: "sends clock [] s s"
| sends_one: "read_clock clock ctx = (ctx1, now) \<Longrightarrow> cn_send c ctx1 p now = (c1, (stack, rt), snd_accepted) \<Longrightarrow>
    sends clock ps (c1, (stack, echo_advance rt)) s \<Longrightarrow> sends clock (p # ps) (c, ctx) s"

text \<open>
  The connection was handed \<open>p\<close> and did not accept it: it would block, or it failed, which is counted. What it left is \<open>s'\<close>.
\<close>

definition refuses ::
  "'c clock \<Rightarrow> byte list \<Rightarrow> ('l, 'c) bench_ctx Impl \<times> ('l, 'c) bench_ctx \<Rightarrow> ('l, 'c) bench_ctx Impl \<times> ('l, 'c) bench_ctx \<Rightarrow> bool" where
  "refuses clock p s s' \<longleftrightarrow> (case s of (c, ctx) \<Rightarrow>
     case read_clock clock ctx of (ctx, now) \<Rightarrow>
     case cn_send c ctx p now of (c, (stack, rt), status) \<Rightarrow> status \<noteq> snd_accepted \<and>
       s' = (c, (stack, if status = snd_would_block then rt else rt\<lparr>rn_send_failures := rn_send_failures rt + 1\<rparr>)))"

lemma flush_echo_in_order:
  fixes c :: "('l, 'c) bench_ctx Impl"
  assumes "echo_inv (snd ctx)" "cn_callbacks c = bench_callbacks clock" "echo_contents (snd ctx) = ps"
  shows "\<exists>k c' ctx' s. k \<le> length ps \<and> flush_echo clock c ctx = Some (c', ctx') \<and> sends clock (take k ps) (c, ctx) s \<and>
    echo_inv (snd ctx') \<and> echo_contents (snd ctx') = drop k ps \<and>
     (if k < length ps then refuses clock (ps ! k) s (c', ctx') else (c', ctx') = s)"
  using assms
proof (induction ps arbitrary: c ctx)
  case Nil
  then have "rn_pending_count (snd ctx) = 0" using length_echo_contents [of "snd ctx"] by simp
  then have "flush_echo clock c ctx = Some (c, ctx)" by (simp add: flush_echo.simps)
  then show ?case using Nil sends_none [of clock "(c, ctx)"]
    by (intro exI [of _ "0 :: nat"] exI [of _ c] exI [of _ ctx] exI [of _ "(c, ctx)"]) simp
next
  case (Cons p ps)
  have ne: "rn_pending_count (snd ctx) \<noteq> 0" using Cons.prems(3) length_echo_contents [of "snd ctx"] by auto
  have front: "echo_front (snd ctx) = p" using echo_advance_contents [OF Cons.prems(1,3)] by simp
  obtain ctx1 now where rd: "read_clock clock ctx = (ctx1, now)" by fastforce
  obtain c1 stack rt status where sd: "cn_send c ctx1 p now = (c1, (stack, rt), status)" by (metis prod.exhaust)
  have es: "echo_state (stack, rt) = echo_state ctx" "cn_callbacks c1 = bench_callbacks clock"
    using bench_send_echo [OF Cons.prems(2) sd] read_clock_echo [OF rd] by simp_all
  then have rt: "echo_inv rt" "echo_contents rt = p # ps" using echo_state_cong [OF es(1)] Cons.prems(1,3) by simp_all
  show ?case
  proof (cases "status = snd_accepted")
    case False
    define rt' where "rt' = (if status = snd_would_block then rt else rt\<lparr>rn_send_failures := rn_send_failures rt + 1\<rparr>)"
    have "flush_echo clock c ctx = Some (c1, (stack, rt'))"
      using ne rd sd front False by (subst flush_echo.simps) (simp add: rt'_def)
    moreover have "echo_inv rt' \<and> echo_contents rt' = p # ps"
      using rt by (simp add: rt'_def echo_inv_def echo_contents_def echo_slot_def)
    moreover have "refuses clock p (c, ctx) (c1, (stack, rt'))" using rd sd False by (simp add: refuses_def rt'_def)
    ultimately show ?thesis using sends_none [of clock "(c, ctx)"]
      by (intro exI [of _ "0 :: nat"] exI [of _ c1] exI [of _ "(stack, rt')"] exI [of _ "(c, ctx)"]) simp
  next
    case True
    note adv = echo_advance_contents [OF rt]
    have fl: "flush_echo clock c ctx = flush_echo clock c1 (stack, echo_advance rt)"
      using ne rd sd front True by (subst flush_echo.simps) simp
    obtain k c' ctx' s where ih: "k \<le> length ps" "flush_echo clock c1 (stack, echo_advance rt) = Some (c', ctx')"
        "sends clock (take k ps) (c1, (stack, echo_advance rt)) s" "echo_inv (snd ctx')" "echo_contents (snd ctx') = drop k ps"
        "if k < length ps then refuses clock (ps ! k) s (c', ctx') else (c', ctx') = s"
      using Cons.IH [of "(stack, echo_advance rt)" c1] adv es(2) by auto
    have "sends clock (take (Suc k) (p # ps)) (c, ctx) s" using sends_one [OF rd] sd True ih(3) by simp
    then show ?thesis using ih fl by (intro exI [of _ "Suc k"] exI [of _ c'] exI [of _ ctx'] exI [of _ s]) simp
  qed
qed

lemma receive_all_echo:
  assumes "op_workload (rn_options rt) = wl_rtt" "op_mode (rn_options rt) = custom_server"
  shows "fold (\<lambda>p ctx. custom_receive clock ctx p) ps (stack, rt) = (stack, echo_queue.push_all ps rt)"
  using assms
proof (induction ps arbitrary: rt)
  case (Cons p ps)
  have "rn_options (enqueue_echo rt p) = rn_options rt" by (simp add: enqueue_echo_def Let_def)
  moreover have "custom_receive clock (stack, rt) p = (stack, enqueue_echo rt p)" using Cons.prems by (simp add: custom_receive_def)
  moreover have "fst (echo_push p rt) = enqueue_echo rt p" by (simp add: echo_push_def)
  ultimately show ?case using Cons by simp
qed simp

section \<open>Properties\<close>

text \<open>
  Claim C20. The echo server answers in order and loses nothing: after any payloads that fit its queue, flushing
  returns, hands the connection a prefix of the payloads, each once and in the order received, keeps the rest
  queued in that order, and stops early only at a payload the connection did not accept. The connection, the stack
  and the runtime it leaves are those after these sends and, when it stopped early, after the refused one.
\<close>

theorem echo_server_in_order:
  assumes server: "op_workload (rn_options rt) = wl_rtt" "op_mode (rn_options rt) = custom_server"
    and queue: "echo_inv rt" "echo_contents rt = []" "list_all echo_fits ps" "length ps \<le> kEchoSlots"
    and c: "cn_callbacks c = bench_callbacks clock"
    and ctx: "ctx = fold (\<lambda>p ctx. custom_receive clock ctx p) ps (stack, rt)"
  shows "\<exists>k c' ctx' s. k \<le> length ps \<and> flush_echo clock c ctx = Some (c', ctx') \<and> sends clock (take k ps) (c, ctx) s \<and>
    echo_contents (snd ctx') = drop k ps \<and>
     (if k < length ps then refuses clock (ps ! k) s (c', ctx') else (c', ctx') = s)"
proof -
  have "echo_inv (snd ctx)" "echo_contents (snd ctx) = ps"
    using echo_queue.push_all_contents [OF queue(1), of ps] queue(2-4) length_echo_contents [of rt]
    by (simp_all add: ctx receive_all_echo [OF server])
  then show ?thesis using flush_echo_in_order [OF _ c] by blast
qed

definition example_options :: Options where
  "example_options = default_Options\<lparr>op_mode := custom_server, op_interface_name := ''feth1'', op_output_path := ''o''\<rparr>"

definition example_bench_stack :: "unit NetworkStack" where
  "example_bench_stack = new_NetworkStack (\<lambda>link frame. (link, no_error))
     (new_EthernetEndpoint \<lparr>ii_mac = [2, 0, 0, 0, 0, 1], ii_mtu = 1500, ii_bpf_buffer_bytes = 0\<rparr>) ()
     (bench_stack_config example_options)"

theorem echo_server_in_order_witness:
  "let rt = new_CustomRuntime example_options (0 :: int); clock = (\<lambda>c. (c + 1, Some (c, 0))); ps = [[1], [2, 3]];
       ctx = fold (\<lambda>p ctx. custom_receive clock ctx p) ps (example_bench_stack, rt);
       c = new_Connection 4096 8192 (bench_connection_config example_options) (bench_callbacks clock)
   in \<exists>k c' ctx' s. k \<le> length ps \<and> flush_echo clock c ctx = Some (c', ctx') \<and> sends clock (take k ps) (c, ctx) s \<and>
     echo_contents (snd ctx') = drop k ps \<and>
     (if k < length ps then refuses clock (ps ! k) s (c', ctx') else (c', ctx') = s)"
proof -
  let ?rt = "new_CustomRuntime example_options (0 :: int)" and ?clock = "\<lambda>c :: int. (c + 1, Some (c, 0 :: int))"
  have o: "op_workload (rn_options ?rt) = wl_rtt" "op_mode (rn_options ?rt) = custom_server"
    by (simp_all add: new_CustomRuntime_def example_options_def default_Options_def)
  have fits: "list_all echo_fits [[1], [2, 3]]" "length [[1 :: byte], [2, 3]] \<le> kEchoSlots"
    by (simp_all add: echo_fits_def kMaxPayloadBytes_def kEchoSlots_def)
  have cb: "cn_callbacks (new_Connection 4096 8192 (bench_connection_config example_options)
      (bench_callbacks ?clock :: (unit, int) bench_ctx ConnectionCallbacks)) = bench_callbacks ?clock"
    by (simp add: new_Connection_def)
  show ?thesis
    unfolding Let_def by (rule echo_server_in_order [OF o new_CustomRuntime_echo fits cb refl])
qed

end
