(* ===== verification/Bench_Tcp.thy ===== *)
theory Bench_Tcp
  imports Bench_Payload Bench_Options Histogram
begin

text \<open>
  The TCP baseline of the benchmark (\<^verbatim>\<open>tools/bench_runner.cpp\<close> 335-388, 468-521, 570-596): the loops that send and
  receive a whole payload over a stream socket, and the measuring loops of the client and the server between opening the
  socket and printing the result. The socket and the clock are the argument \<open>os\<close>.
\<close>

datatype received = recv_failed bool | recv_bytes "byte list" "cmsghdr list"

text \<open>\<open>recv_failed\<close> tells whether \<open>errno\<close> was \<open>EAGAIN\<close> or \<open>EWOULDBLOCK\<close>; a send answers like \<open>send(2)\<close>.\<close>

record 'w tcp_os =
  tcp_send :: "'w \<Rightarrow> byte list \<Rightarrow> 'w \<times> int"
  tcp_recv :: "'w \<Rightarrow> nat \<Rightarrow> 'w \<times> received"
  tcp_now :: "'w \<Rightarrow> 'w \<times> u64"
  tcp_abi :: cmsg_abi

function send_all_from :: "'w tcp_os \<Rightarrow> byte list \<Rightarrow> nat \<Rightarrow> 'w \<Rightarrow> 'w \<times> bool" where
  "send_all_from os payload sent w =
     (if sent < length payload
      then case tcp_send os w (drop sent payload) of (w, result) \<Rightarrow>
        if result \<le> 0 then (w, False) else send_all_from os payload (sent + nat result) w
      else (w, True))"
  by pat_completeness auto
termination
  by (relation "measure (\<lambda>(os, payload, sent, w). length payload - sent)") auto

declare send_all_from.simps [simp del]

definition send_all :: "'w tcp_os \<Rightarrow> byte list \<Rightarrow> 'w \<Rightarrow> 'w \<times> bool" where
  "send_all os payload w = send_all_from os payload 0 w"

text \<open>The result is the payload, the flags \<open>timeout\<close> and \<open>timestamp_seen\<close>, and the returned value.\<close>

function recv_exact_from ::
  "'w tcp_os \<Rightarrow> nat \<Rightarrow> byte list \<Rightarrow> bool \<Rightarrow> 'w \<Rightarrow> 'w \<times> byte list \<times> bool \<times> bool \<times> bool" where
  "recv_exact_from os received payload timestamp_seen w =
     (if received < length payload
      then case tcp_recv os w (length payload - received) of
        (w, recv_failed again) \<Rightarrow> (w, payload, again, timestamp_seen, False)
      | (w, recv_bytes bytes headers) \<Rightarrow>
          if bytes = [] then (w, payload, False, timestamp_seen, False)
          else
            let payload = memcpy_at payload received (take (length payload - received) bytes);
                timestamp = \<lparr>ts_value_ns = 0, ts_source = application_rtt_monotonic\<rparr>;
                seen = snd (parse_tcp_monotonic_timestamp (tcp_abi os) headers timestamp)
            in recv_exact_from os (received + length bytes) payload (timestamp_seen \<or> seen) w
      else (w, payload, False, timestamp_seen, True))"
  by pat_completeness auto
termination
  by (relation "measure (\<lambda>(os, received, payload, seen, w). length payload - received)") (auto intro: diff_less_mono2)

declare recv_exact_from.simps [simp del]

definition recv_exact :: "'w tcp_os \<Rightarrow> byte list \<Rightarrow> bool \<Rightarrow> 'w \<Rightarrow> 'w \<times> byte list \<times> bool \<times> bool \<times> bool" where
  "recv_exact os payload timestamp_seen w = recv_exact_from os 0 payload timestamp_seen w"

record tcp_run =
  tr_payload :: "byte list"
  tr_histogram :: LatencyHistogram
  tr_timestamp_seen :: bool
  tr_sequence :: u64
  tr_bytes_sent :: u64
  tr_bytes_received :: u64
  tr_send_failures :: u64
  tr_receive_failures :: u64

definition new_tcp_run :: "Options \<Rightarrow> tcp_run" where
  "new_tcp_run options = \<lparr>tr_payload = replicate (op_payload_bytes options) 0, tr_histogram = new_LatencyHistogram,
     tr_timestamp_seen = False, tr_sequence = 0, tr_bytes_sent = 0, tr_bytes_received = 0, tr_send_failures = 0,
     tr_receive_failures = 0\<rparr>"

text \<open>The burst of a client's round: at most \<open>n\<close> payloads, and the number that was sent.\<close>

fun tcp_send_burst :: "'w tcp_os \<Rightarrow> nat \<Rightarrow> nat \<Rightarrow> tcp_run \<Rightarrow> 'w \<Rightarrow> 'w \<times> tcp_run \<times> nat" where
  "tcp_send_burst os 0 sent_now r w = (w, r, sent_now)"
| "tcp_send_burst os (Suc n) sent_now r w =
     (case tcp_now os w of (w, now) \<Rightarrow>
        let r = r\<lparr>tr_payload := fill_payload (tr_payload r) (tr_sequence r) now, tr_sequence := tr_sequence r + 1\<rparr> in
        case send_all os (tr_payload r) w of (w, ok) \<Rightarrow>
          if \<not> ok then (w, r\<lparr>tr_send_failures := tr_send_failures r + 1\<rparr>, sent_now)
          else tcp_send_burst os n (sent_now + 1)
                 (r\<lparr>tr_bytes_sent := tr_bytes_sent r + of_nat (length (tr_payload r))\<rparr>) w)"

definition tcp_sample :: "u64 \<Rightarrow> u64 \<Rightarrow> tcp_run \<Rightarrow> tcp_run" where
  "tcp_sample warmup_end received_ns r =
     (if valid_payload (tr_payload r) \<and> received_ns \<ge> warmup_end
      then
        let sent_ns = read_u64 (tr_payload r) 16 in
        if sent_ns \<noteq> 0 \<and> received_ns \<ge> sent_ns
        then r\<lparr>tr_histogram := fst (lh_record (tr_histogram r) (received_ns - sent_ns))\<rparr> else r
      else r)"

fun tcp_receive_burst :: "'w tcp_os \<Rightarrow> u64 \<Rightarrow> nat \<Rightarrow> tcp_run \<Rightarrow> 'w \<Rightarrow> 'w \<times> tcp_run" where
  "tcp_receive_burst os warmup_end 0 r w = (w, r)"
| "tcp_receive_burst os warmup_end (Suc n) r w =
     (case recv_exact os (tr_payload r) (tr_timestamp_seen r) w of (w, payload, timeout, seen, ok) \<Rightarrow>
        let r = r\<lparr>tr_payload := payload, tr_timestamp_seen := seen\<rparr> in
        if \<not> ok then (w, r\<lparr>tr_receive_failures := tr_receive_failures r + 1\<rparr>)
        else
          let r = r\<lparr>tr_bytes_received := tr_bytes_received r + of_nat (length payload)\<rparr> in
          case tcp_now os w of (w, received_ns) \<Rightarrow>
            tcp_receive_burst os warmup_end n (tcp_sample warmup_end received_ns r) w)"

partial_function (option) tcp_rtt_loop ::
  "'w tcp_os \<Rightarrow> u64 \<Rightarrow> u64 \<Rightarrow> tcp_run \<Rightarrow> 'w \<Rightarrow> ('w \<times> tcp_run) option" where
  "tcp_rtt_loop os warmup_end end_ns r w =
     (case tcp_now os w of (w, t) \<Rightarrow>
        if \<not> t < end_ns then Some (w, r)
        else case tcp_now os w of (w, now) \<Rightarrow>
          case (if now < end_ns then tcp_send_burst os 32 0 r w else (w, r, 0)) of (w, r, sent_now) \<Rightarrow>
          case tcp_receive_burst os warmup_end sent_now r w of (w, r) \<Rightarrow>
            tcp_rtt_loop os warmup_end end_ns r w)"

partial_function (option) tcp_throughput_loop ::
  "'w tcp_os \<Rightarrow> u64 \<Rightarrow> u64 \<Rightarrow> tcp_run \<Rightarrow> 'w \<Rightarrow> ('w \<times> tcp_run) option" where
  "tcp_throughput_loop os warmup_end end_ns r w =
     (case tcp_now os w of (w, t) \<Rightarrow>
        if \<not> t < end_ns then Some (w, r)
        else case tcp_now os w of (w, now) \<Rightarrow>
          case send_all os (tr_payload r) w of (w, ok) \<Rightarrow>
            if \<not> ok then Some (w, r\<lparr>tr_send_failures := tr_send_failures r + 1\<rparr>)
            else tcp_throughput_loop os warmup_end end_ns
                   (if now \<ge> warmup_end
                    then r\<lparr>tr_bytes_sent := tr_bytes_sent r + of_nat (length (tr_payload r))\<rparr> else r) w)"

definition tcp_client_run :: "'w tcp_os \<Rightarrow> Options \<Rightarrow> 'w \<Rightarrow> ('w \<times> tcp_run) option" where
  "tcp_client_run os options w =
     (case tcp_now os w of (w, connected_ns) \<Rightarrow>
        let warmup_end = connected_ns + ucast (op_warmup_ms options) * 1000000;
            end_ns = warmup_end + ucast (op_duration_ms options) * 1000000;
            r = new_tcp_run options
        in if op_workload options = wl_rtt then tcp_rtt_loop os warmup_end end_ns r w
           else tcp_throughput_loop os warmup_end end_ns (r\<lparr>tr_payload := fill_payload (tr_payload r) 0 0\<rparr>) w)"

partial_function (option) tcp_server_loop ::
  "'w tcp_os \<Rightarrow> Workload \<Rightarrow> u64 \<Rightarrow> tcp_run \<Rightarrow> 'w \<Rightarrow> ('w \<times> tcp_run) option" where
  "tcp_server_loop os workload end_ns r w =
     (case tcp_now os w of (w, t) \<Rightarrow>
        if \<not> t < end_ns then Some (w, r)
        else case recv_exact os (tr_payload r) (tr_timestamp_seen r) w of (w, payload, timeout, seen, ok) \<Rightarrow>
          let r = r\<lparr>tr_payload := payload, tr_timestamp_seen := seen\<rparr> in
          if \<not> ok
          then (if timeout then tcp_server_loop os workload end_ns r w
                else Some (w, r\<lparr>tr_receive_failures := tr_receive_failures r + 1\<rparr>))
          else
            let r = r\<lparr>tr_bytes_received := tr_bytes_received r + of_nat (length payload)\<rparr> in
            if workload = wl_rtt
            then (case send_all os payload w of (w, ok) \<Rightarrow>
                    if \<not> ok then Some (w, r)
                    else tcp_server_loop os workload end_ns
                           (r\<lparr>tr_bytes_sent := tr_bytes_sent r + of_nat (length payload)\<rparr>) w)
            else tcp_server_loop os workload end_ns r w)"

definition tcp_server_run :: "'w tcp_os \<Rightarrow> Options \<Rightarrow> 'w \<Rightarrow> ('w \<times> tcp_run) option" where
  "tcp_server_run os options w =
     (case tcp_now os w of (w, start_ns) \<Rightarrow>
        tcp_server_loop os (op_workload options) (start_ns + ucast (op_max_runtime_ms options) * 1000000)
          (new_tcp_run options) w)"

section \<open>The two transfers over a byte stream\<close>

text \<open>
  \<open>out w\<close> and \<open>inp w\<close> are the bytes the socket has taken and those it has still to give; \<open>send\<close> takes a prefix of what it is
  offered and \<open>recv\<close> gives at least one byte when there is one and room for it.
\<close>

definition stream_socket :: "'w tcp_os \<Rightarrow> ('w \<Rightarrow> byte list) \<Rightarrow> ('w \<Rightarrow> byte list) \<Rightarrow> bool" where
  "stream_socket os out inp \<longleftrightarrow>
     (\<forall>w bytes w' n. tcp_send os w bytes = (w', n) \<longrightarrow> 0 < n \<longrightarrow>
        nat n \<le> length bytes \<and> out w' = out w @ take (nat n) bytes \<and> inp w' = inp w) \<and>
     (\<forall>w n. 0 < n \<longrightarrow> inp w \<noteq> [] \<longrightarrow> (\<exists>w' bytes headers. tcp_recv os w n = (w', recv_bytes bytes headers) \<and>
        bytes \<noteq> [] \<and> length bytes \<le> n \<and> inp w = bytes @ inp w' \<and> out w' = out w))"

lemma send_all_from_stream:
  assumes os: "stream_socket os out inp"
  shows "sent \<le> length payload \<Longrightarrow> send_all_from os payload sent w = (w', True) \<Longrightarrow>
    out w' = out w @ drop sent payload \<and> inp w' = inp w"
proof (induction "length payload - sent" arbitrary: sent w rule: less_induct)
  case less
  show ?case
  proof (cases "sent < length payload")
    case False
    then show ?thesis using less.prems by (simp add: send_all_from.simps)
  next
    case True
    obtain w1 n where s: "tcp_send os w (drop sent payload) = (w1, n)" by fastforce
    have n: "0 < n" and rest: "send_all_from os payload (sent + nat n) w1 = (w', True)"
      using less.prems(2) True s by (subst (asm) send_all_from.simps; simp split: if_splits)+
    have st: "nat n \<le> length payload - sent" "out w1 = out w @ take (nat n) (drop sent payload)" "inp w1 = inp w"
      using os s n unfolding stream_socket_def by fastforce+
    have "out w' = out w1 @ drop (sent + nat n) payload \<and> inp w' = inp w1"
      using less.hyps [OF _ _ rest] st(1) n True by simp
    moreover have "take (nat n) (drop sent payload) @ drop (sent + nat n) payload = drop sent payload"
      by (metis append_take_drop_id drop_drop add.commute)
    ultimately show ?thesis using st by simp
  qed
qed

lemma recv_exact_from_stream:
  assumes os: "stream_socket os out inp"
  shows "received \<le> length payload \<Longrightarrow> length payload - received \<le> length (inp w) \<Longrightarrow>
    \<exists>w' seen'. recv_exact_from os received payload seen w =
      (w', take received payload @ take (length payload - received) (inp w), False, seen', True) \<and>
      inp w = take (length payload - received) (inp w) @ inp w' \<and> out w' = out w"
proof (induction "length payload - received" arbitrary: received payload seen w rule: less_induct)
  case less
  show ?case
  proof (cases "received < length payload")
    case False
    then show ?thesis using less.prems(1) by (simp add: recv_exact_from.simps)
  next
    case True
    let ?n = "length payload - received"
    have "0 < ?n" "inp w \<noteq> []" using True less.prems(2) by auto
    then obtain w1 bytes headers where rv: "tcp_recv os w ?n = (w1, recv_bytes bytes headers)" "bytes \<noteq> []"
        "length bytes \<le> ?n" "inp w = bytes @ inp w1" "out w1 = out w"
      using os unfolding stream_socket_def by meson
    define p1 where "p1 = memcpy_at payload received bytes"
    have len: "length p1 = length payload" using rv(3) True by (simp add: p1_def)
    have tk: "take (received + length bytes) p1 = take received payload @ bytes"
      using take_memcpy_at [of received payload bytes] True by (simp add: p1_def)
    define seen1 where "seen1 = (seen \<or> snd (parse_tcp_monotonic_timestamp (tcp_abi os) headers
        \<lparr>ts_value_ns = 0, ts_source = application_rtt_monotonic\<rparr>))"
    have unf: "recv_exact_from os received payload seen w = recv_exact_from os (received + length bytes) p1 seen1 w1"
      using True rv(1-3) by (subst recv_exact_from.simps) (simp add: p1_def seen1_def Let_def)
    have lt: "length p1 - (received + length bytes) < ?n" using rv(2) True by (simp add: len diff_less_mono2)
    have fit: "received + length bytes \<le> length p1" using rv(3) True by (simp add: len)
    have rest: "length p1 - (received + length bytes) \<le> length (inp w1)" using rv(4) less.prems(2) by (simp add: len)
    obtain w' seen' where "recv_exact_from os (received + length bytes) p1 seen1 w1 =
        (w', take (received + length bytes) p1 @ take (length p1 - (received + length bytes)) (inp w1), False, seen', True)"
        "inp w1 = take (length p1 - (received + length bytes)) (inp w1) @ inp w'" "out w' = out w1"
      using less.hyps [OF lt fit rest, of seen1] by blast
    moreover have "take ?n (inp w) = bytes @ take (length p1 - (received + length bytes)) (inp w1)"
      using rv(3,4) by (simp add: len)
    ultimately show ?thesis using unf tk rv(4,5) by simp
  qed
qed

text \<open>A payload sent is the payload received, whatever pieces the stream makes of it.\<close>

lemma send_all_stream:
  "stream_socket os out inp \<Longrightarrow> send_all os payload w = (w', True) \<Longrightarrow> out w' = out w @ payload"
  using send_all_from_stream [of os out inp 0 payload w w'] by (simp add: send_all_def)

lemma recv_exact_stream:
  assumes "stream_socket os out inp" "length payload \<le> length (inp w)"
  shows "\<exists>w' seen'. recv_exact os payload seen w = (w', take (length payload) (inp w), False, seen', True) \<and>
    inp w = take (length payload) (inp w) @ inp w'"
  using recv_exact_from_stream [OF assms(1), of 0 payload w seen] assms(2) by (auto simp: recv_exact_def)

section \<open>The server's loop ends\<close>

text \<open>Every reading of the clock is later than the one before; nothing turns it back.\<close>

definition advancing_clock :: "'w tcp_os \<Rightarrow> ('w \<Rightarrow> nat) \<Rightarrow> bool" where
  "advancing_clock os time \<longleftrightarrow>
     (\<forall>w. unat (snd (tcp_now os w)) = time w \<and> time w < time (fst (tcp_now os w))) \<and>
     (\<forall>w bytes. time w \<le> time (fst (tcp_send os w bytes))) \<and> (\<forall>w n. time w \<le> time (fst (tcp_recv os w n)))"

lemma send_all_from_time:
  "advancing_clock os time \<Longrightarrow> send_all_from os payload sent w = (w', ok) \<Longrightarrow> time w \<le> time w'"
proof (induction os payload sent w rule: send_all_from.induct)
  case (1 os payload sent w)
  obtain w1 n where s: "tcp_send os w (drop sent payload) = (w1, n)" by fastforce
  have le: "time w \<le> time w1" using 1(2) s unfolding advancing_clock_def by (metis fst_conv)
  show ?case
  proof (cases "sent < length payload \<and> 0 < n")
    case True
    then have "send_all_from os payload (sent + nat n) w1 = (w', ok)"
      using 1(3) s by (subst (asm) send_all_from.simps) simp
    then show ?thesis using 1(1) [OF _ s [symmetric] _ 1(2)] True le by simp
  next
    case False
    then show ?thesis using 1(3) s le by (subst (asm) send_all_from.simps) (auto split: if_splits)
  qed
qed

lemma recv_exact_from_time:
  "advancing_clock os time \<Longrightarrow> recv_exact_from os received payload seen w = (w', x) \<Longrightarrow> time w \<le> time w'"
proof (induction "length payload - received" arbitrary: received payload seen w rule: less_induct)
  case less
  obtain w1 r where s: "tcp_recv os w (length payload - received) = (w1, r)" by fastforce
  have le: "time w \<le> time w1" using less.prems(1) s unfolding advancing_clock_def by (metis fst_conv)
  show ?case
  proof (cases "received < length payload \<and> (\<exists>bytes headers. r = recv_bytes bytes headers \<and> bytes \<noteq> [])")
    case True
    then obtain bytes headers where r: "received < length payload" "r = recv_bytes bytes headers" "bytes \<noteq> []" by blast
    define p1 where "p1 = memcpy_at payload received (take (length payload - received) bytes)"
    have len: "length p1 = length payload" using r(1) by (simp add: p1_def)
    have "\<exists>seen1. recv_exact_from os (received + length bytes) p1 seen1 w1 = (w', x)"
      using less.prems(2) r s by (subst (asm) recv_exact_from.simps) (auto simp: p1_def Let_def)
    moreover have "length p1 - (received + length bytes) < length payload - received"
      using r(1,3) by (simp add: len diff_less_mono2)
    ultimately show ?thesis using less.hyps less.prems(1) le by (meson le_trans)
  next
    case False
    then show ?thesis
      using less.prems(2) s le by (subst (asm) recv_exact_from.simps) (auto split: if_splits received.splits)
  qed
qed

lemma tcp_server_loop_returns:
  assumes clock: "advancing_clock os time"
  shows "\<exists>x. tcp_server_loop os workload end_ns r w = Some x"
proof (induction "unat end_ns - time w" arbitrary: r w rule: less_induct)
  case less
  obtain w1 t where n: "tcp_now os w = (w1, t)" by fastforce
  have t: "unat t = time w" "time w < time w1" using clock n unfolding advancing_clock_def by (metis fst_conv snd_conv)+
  obtain w2 payload timeout seen ok where rv: "recv_exact os (tr_payload r) (tr_timestamp_seen r) w1 = (w2, payload, timeout, seen, ok)"
    by (metis prod.exhaust)
  have t2: "time w1 \<le> time w2" using recv_exact_from_time [OF clock] rv unfolding recv_exact_def by blast
  obtain w3 ok' where sd: "send_all os payload w2 = (w3, ok')" by fastforce
  have t3: "time w2 \<le> time w3" using send_all_from_time [OF clock] sd unfolding send_all_def by blast
  show ?case
  proof (cases "t < end_ns")
    case False
    then show ?thesis using n by (subst tcp_server_loop.simps) simp
  next
    case True
    then have "time w < unat end_ns" using t by (simp add: word_less_nat_alt)
    then have "\<exists>x. tcp_server_loop os workload end_ns r' w2 = Some x" "\<exists>x. tcp_server_loop os workload end_ns r' w3 = Some x" for r'
      using less.hyps t t2 t3 by simp_all
    then show ?thesis
      using n rv sd True
      by (cases ok; cases timeout; cases workload; cases ok'; subst tcp_server_loop.simps) (simp_all add: Let_def)
  qed
qed

end
