(* ===== verification/Bench_Main.thy ===== *)
theory Bench_Main
  imports Bench_Runner Bench_Tcp Bpf_Run
begin

text \<open>
  The benchmark program as a whole (\<^verbatim>\<open>tools/bench_runner.cpp\<close> 284-294, 322-333, 390-467, 553-572, 802-941): opening the
  sockets of the TCP baseline, the runs with their exit codes and the numbers they report, and \<open>main\<close>. The socket
  calls are the record \<open>socket_os\<close>; \<open>io fd\<close> sends and receives on the descriptor \<open>fd\<close>. Whether the output file
  could be opened and closed are arguments.
\<close>

datatype sock_option = SO_RCVTIMEO nat | SO_SNDTIMEO nat | TCP_NODELAY | SO_REUSEADDR | SO_TIMESTAMP_MONOTONIC

record 'w socket_os =
  sk_socket :: "'w \<Rightarrow> 'w \<times> (nat + nat)"
  sk_setsockopt :: "'w \<Rightarrow> nat \<Rightarrow> sock_option \<Rightarrow> 'w \<times> nat option"
  sk_bind :: "'w \<Rightarrow> nat \<Rightarrow> u32 \<Rightarrow> u16 \<Rightarrow> 'w \<times> nat option"
  sk_listen :: "'w \<Rightarrow> nat \<Rightarrow> nat \<Rightarrow> 'w \<times> nat option"
  sk_connect :: "'w \<Rightarrow> nat \<Rightarrow> u32 \<Rightarrow> u16 \<Rightarrow> 'w \<times> nat option"
  sk_accept :: "'w \<Rightarrow> nat \<Rightarrow> 'w \<times> (nat + nat)"
  sk_close :: "'w \<Rightarrow> nat \<Rightarrow> 'w"

section \<open>Sockets\<close>

definition set_timeouts :: "'w socket_os \<Rightarrow> nat \<Rightarrow> 'w \<Rightarrow> 'w \<times> bool" where
  "set_timeouts os fd w =
     (case sk_setsockopt os w fd (SO_RCVTIMEO 1) of
        (w, Some errno) \<Rightarrow> (w, False)
      | (w, None) \<Rightarrow>
          (case sk_setsockopt os w fd (SO_SNDTIMEO 1) of
             (w, Some errno) \<Rightarrow> (w, False)
           | (w, None) \<Rightarrow> (case sk_setsockopt os w fd TCP_NODELAY of (w, errno) \<Rightarrow> (w, errno = None))))"

text \<open>\<open>set_timeouts\<close> and then \<open>enable_tcp_monotonic_timestamps\<close>, which is not called after a failure.\<close>

definition prepare_socket :: "'w socket_os \<Rightarrow> nat \<Rightarrow> 'w \<Rightarrow> 'w \<times> bool" where
  "prepare_socket os fd w =
     (case set_timeouts os fd w of (w, ok) \<Rightarrow>
        if \<not> ok then (w, False)
        else case sk_setsockopt os w fd SO_TIMESTAMP_MONOTONIC of
          (w, errno) \<Rightarrow> (w, enable_tcp_monotonic_timestamps errno = no_error))"

definition tcp_connect_socket :: "'w socket_os \<Rightarrow> (string \<Rightarrow> u32 option) \<Rightarrow> Options \<Rightarrow> 'w \<Rightarrow> 'w \<times> nat option" where
  "tcp_connect_socket os inet_pton options w =
     (case sk_socket os w of
        (w, Inl errno) \<Rightarrow> (w, None)
      | (w, Inr fd) \<Rightarrow>
          (case prepare_socket os fd w of (w, ok) \<Rightarrow>
             if \<not> ok then (sk_close os w fd, None)
             else case inet_pton (op_bind_address options) of
               None \<Rightarrow> (sk_close os w fd, None)
             | Some bind_address \<Rightarrow>
                 (case sk_bind os w fd bind_address 0 of
                    (w, Some errno) \<Rightarrow> (sk_close os w fd, None)
                  | (w, None) \<Rightarrow>
                      (case inet_pton (op_peer_address options) of
                         None \<Rightarrow> (sk_close os w fd, None)
                       | Some peer \<Rightarrow>
                           (case sk_connect os w fd peer (op_tcp_port options) of
                              (w, Some errno) \<Rightarrow> (sk_close os w fd, None)
                            | (w, None) \<Rightarrow> (w, Some fd))))))"

definition tcp_listen_socket :: "'w socket_os \<Rightarrow> (string \<Rightarrow> u32 option) \<Rightarrow> Options \<Rightarrow> 'w \<Rightarrow> 'w \<times> nat option" where
  "tcp_listen_socket os inet_pton options w =
     (case sk_socket os w of
        (w, Inl errno) \<Rightarrow> (w, None)
      | (w, Inr fd) \<Rightarrow>
          (case sk_setsockopt os w fd SO_REUSEADDR of (w, _) \<Rightarrow>
             case inet_pton (op_bind_address options) of
               None \<Rightarrow> (sk_close os w fd, None)
             | Some bind_address \<Rightarrow>
                 (case sk_bind os w fd bind_address (op_tcp_port options) of
                    (w, Some errno) \<Rightarrow> (sk_close os w fd, None)
                  | (w, None) \<Rightarrow>
                      (case sk_listen os w fd 1 of
                         (w, Some errno) \<Rightarrow> (sk_close os w fd, None)
                       | (w, None) \<Rightarrow> (w, Some fd)))))"

text \<open>The one connection of the server; the listening socket is closed at once.\<close>

definition tcp_accept_socket :: "'w socket_os \<Rightarrow> nat \<Rightarrow> 'w \<Rightarrow> 'w \<times> nat option" where
  "tcp_accept_socket os listen_fd w =
     (case sk_accept os w listen_fd of (w, accepted) \<Rightarrow>
        let w = sk_close os w listen_fd in
        case accepted of
          Inl errno \<Rightarrow> (w, None)
        | Inr fd \<Rightarrow>
            (case prepare_socket os fd w of (w, ok) \<Rightarrow> if \<not> ok then (sk_close os w fd, None) else (w, Some fd)))"

section \<open>The runs\<close>

datatype 'c bench_output = wrote_nothing | wrote_failure string | wrote_tcp tcp_run
  | wrote_custom "'c CustomRuntime" ConnectionStatistics NetworkStackStatistics u64

definition close_output :: "bool \<Rightarrow> int" where
  "close_output fclose_ok = (if fclose_ok then 0 else 1)"

definition run_tcp_client ::
  "'w socket_os \<Rightarrow> (nat \<Rightarrow> 'w tcp_os) \<Rightarrow> (string \<Rightarrow> u32 option) \<Rightarrow> bool \<Rightarrow> bool \<Rightarrow> Options \<Rightarrow> 'w
     \<Rightarrow> ('w \<times> int \<times> 'c bench_output) option" where
  "run_tcp_client os io inet_pton fopen_ok fclose_ok options w =
     (if \<not> fopen_ok then Some (w, 1, wrote_nothing)
      else case tcp_connect_socket os inet_pton options w of
        (w, None) \<Rightarrow> Some (w, 1, wrote_failure ''tcp_connect'')
      | (w, Some fd) \<Rightarrow>
          (case tcp_client_run (io fd) options w of
             None \<Rightarrow> None
           | Some (w, r) \<Rightarrow> Some (sk_close os w fd, close_output fclose_ok, wrote_tcp r)))"

definition run_tcp_server ::
  "'w socket_os \<Rightarrow> (nat \<Rightarrow> 'w tcp_os) \<Rightarrow> (string \<Rightarrow> u32 option) \<Rightarrow> bool \<Rightarrow> bool \<Rightarrow> Options \<Rightarrow> 'w
     \<Rightarrow> ('w \<times> int \<times> 'c bench_output) option" where
  "run_tcp_server os io inet_pton fopen_ok fclose_ok options w =
     (if \<not> fopen_ok then Some (w, 1, wrote_nothing)
      else case tcp_listen_socket os inet_pton options w of
        (w, None) \<Rightarrow> Some (w, 1, wrote_failure ''tcp_listen'')
      | (w, Some listen_fd) \<Rightarrow>
          (case tcp_accept_socket os listen_fd w of
             (w, None) \<Rightarrow> Some (w, 1, wrote_failure ''tcp_accept'')
           | (w, Some fd) \<Rightarrow>
               (case tcp_server_run (io fd) options w of
                  None \<Rightarrow> None
                | Some (w, r) \<Rightarrow> Some (sk_close os w fd, close_output fclose_ok, wrote_tcp r))))"

text \<open>
  The run over the program's own stack. \<open>opened\<close> is what opening the link with a configuration comes back with, \<open>capture n\<close> the result of its
  \<open>n\<close>-th poll, and the bases are the addresses of the storage of the two pools.
\<close>

record ('l, 'c) custom_env =
  ce_link_send :: "'l link_send"
  ce_clock :: "'c clock"
  ce_opened :: "LinkConfig \<Rightarrow> error_code + EthernetEndpoint \<times> 'l"
  ce_capture :: "nat \<Rightarrow> (byte list \<times> CaptureMetadata) list \<times> error_code"
  ce_tx_base :: nat
  ce_rx_base :: nat
  ce_clock_state :: 'c

definition run_custom ::
  "('l, 'c) custom_env \<Rightarrow> bool \<Rightarrow> bool \<Rightarrow> Options \<Rightarrow> (int \<times> 'c bench_output) option" where
  "run_custom env fopen_ok fclose_ok options =
     (if \<not> fopen_ok then Some (1, wrote_nothing)
      else case stack_open (ce_link_send env) (bench_stack_config options) (ce_opened env) of
        Inl error \<Rightarrow> Some (1, wrote_failure ''stack_open'')
      | Inr stack \<Rightarrow>
          (case start_custom (ce_clock env) (ce_tx_base env) (ce_rx_base env)
                  (stack, new_CustomRuntime options (ce_clock_state env)) of (connection, ctx) \<Rightarrow>
           case read_clock (ce_clock env) ctx of (ctx, start_ns) \<Rightarrow>
           case custom_loop (ce_clock env) (ce_capture env) (start_ns + ucast (op_max_runtime_ms options) * kNsPerMs) 0
                  connection ctx of
             None \<Rightarrow> None
           | Some (connection, stack, rt) \<Rightarrow>
               let acked = cst_payload_bytes_acked (cn_statistics connection);
                   rt = (if op_mode options = custom_client \<and> rn_bytes_acked_end rt = 0
                         then rt\<lparr>rn_bytes_acked_end := acked\<rparr> else rt);
                   acked_delta = (if rn_bytes_acked_end rt > rn_bytes_acked_start rt
                                  then rn_bytes_acked_end rt - rn_bytes_acked_start rt else 0);
                   throughput_bytes = (if op_workload options = wl_throughput then acked_delta else rn_bytes_sent rt)
               in Some (close_output fclose_ok,
                    wrote_custom rt (cn_statistics connection) (sc_statistics (ns_ctx stack)) throughput_bytes)))"

definition bench_main ::
  "'w socket_os \<Rightarrow> (nat \<Rightarrow> 'w tcp_os) \<Rightarrow> ('l, 'c) custom_env \<Rightarrow> (string \<Rightarrow> u32 option) \<Rightarrow> bool \<Rightarrow> bool \<Rightarrow> string list \<Rightarrow> 'w
     \<Rightarrow> ('w \<times> int \<times> 'c bench_output) option" where
  "bench_main os io env inet_pton fopen_ok fclose_ok argv w =
     (case parse_options inet_pton argv default_Options of (options, ok) \<Rightarrow>
        if \<not> ok then Some (w, 64, wrote_nothing)
        else case op_mode options of
          custom_client \<Rightarrow> map_option (\<lambda>(code, out). (w, code, out)) (run_custom env fopen_ok fclose_ok options)
        | custom_server \<Rightarrow> map_option (\<lambda>(code, out). (w, code, out)) (run_custom env fopen_ok fclose_ok options)
        | tcp_client \<Rightarrow> run_tcp_client os io inet_pton fopen_ok fclose_ok options w
        | tcp_server \<Rightarrow> run_tcp_server os io inet_pton fopen_ok fclose_ok options w)"

section \<open>Descriptors\<close>

text \<open>What a system call does to the table of descriptors.\<close>

definition socket_lawful :: "'w socket_os \<Rightarrow> (nat \<Rightarrow> 'w tcp_os) \<Rightarrow> ('w \<Rightarrow> nat set) \<Rightarrow> bool" where
  "socket_lawful os io fds \<longleftrightarrow> makes_descriptor fds (sk_socket os) \<and> (\<forall>fd. makes_descriptor fds (\<lambda>w. sk_accept os w fd)) \<and>
     (\<forall>w fd. fds (sk_close os w fd) = fds w - {fd}) \<and> (\<forall>w fd q. fds (fst (sk_setsockopt os w fd q)) = fds w) \<and>
     (\<forall>w fd a p. fds (fst (sk_bind os w fd a p)) = fds w) \<and> (\<forall>w fd n. fds (fst (sk_listen os w fd n)) = fds w) \<and>
     (\<forall>w fd a p. fds (fst (sk_connect os w fd a p)) = fds w) \<and>
     (\<forall>fd w bytes. fds (fst (tcp_send (io fd) w bytes)) = fds w) \<and> (\<forall>fd w n. fds (fst (tcp_recv (io fd) w n)) = fds w) \<and>
     (\<forall>fd w. fds (fst (tcp_now (io fd) w)) = fds w)"

definition tcp_quiet :: "'w tcp_os \<Rightarrow> ('w \<Rightarrow> nat set) \<Rightarrow> bool" where
  "tcp_quiet t fds \<longleftrightarrow> (\<forall>w bytes. fds (fst (tcp_send t w bytes)) = fds w) \<and> (\<forall>w n. fds (fst (tcp_recv t w n)) = fds w) \<and>
     (\<forall>w. fds (fst (tcp_now t w)) = fds w)"

lemma tcp_quietD:
  assumes "tcp_quiet t fds"
  shows "tcp_send t w bytes = (w', n) \<Longrightarrow> fds w' = fds w" "tcp_recv t w k = (w', r) \<Longrightarrow> fds w' = fds w"
    "tcp_now t w = (w', now) \<Longrightarrow> fds w' = fds w"
  using assms unfolding tcp_quiet_def by (metis fst_conv)+

lemma send_all_quiet:
  assumes "tcp_quiet t fds"
  shows "send_all t payload w = (w', ok) \<Longrightarrow> fds w' = fds w"
proof -
  have "send_all_from t payload sent w = (w', ok) \<Longrightarrow> fds w' = fds w" for sent
    using assms
  proof (induction t payload sent w rule: send_all_from.induct)
    case (1 t payload sent w)
    obtain w1 n where "tcp_send t w (drop sent payload) = (w1, n)" by fastforce
    then show ?case using 1 tcp_quietD(1) [OF 1(3)] by (auto simp: send_all_from.simps [of t payload sent w] split: if_splits)
  qed
  then show "send_all t payload w = (w', ok) \<Longrightarrow> fds w' = fds w" by (simp add: send_all_def)
qed

lemma recv_exact_quiet:
  assumes "tcp_quiet t fds"
  shows "recv_exact t payload seen w = (w', r) \<Longrightarrow> fds w' = fds w"
proof -
  have "recv_exact_from t received payload seen w = (w', r) \<Longrightarrow> fds w' = fds w" for received
    using assms
  proof (induction t received payload seen w rule: recv_exact_from.induct)
    case (1 t received payload seen w)
    obtain w1 got where "tcp_recv t w (length payload - received) = (w1, got)" by fastforce
    then show ?case
      using 1 tcp_quietD(2) [OF 1(3)]
      by (auto simp: recv_exact_from.simps [of t received payload seen w] Let_def split: if_splits received.splits)
  qed
  then show "recv_exact t payload seen w = (w', r) \<Longrightarrow> fds w' = fds w" by (simp add: recv_exact_def)
qed

lemma tcp_send_burst_quiet:
  assumes t: "tcp_quiet t fds"
  shows "tcp_send_burst t n k r w = (w', r', k') \<Longrightarrow> fds w' = fds w"
  by (induction n arbitrary: k r w)
     (auto simp: Let_def dest!: tcp_quietD(3) [OF t] send_all_quiet [OF t] split: prod.splits if_splits)

lemma tcp_receive_burst_quiet:
  assumes t: "tcp_quiet t fds"
  shows "tcp_receive_burst t e n r w = (w', r') \<Longrightarrow> fds w' = fds w"
  by (induction n arbitrary: r w)
     (auto simp: Let_def dest!: tcp_quietD(3) [OF t] recv_exact_quiet [OF t] split: prod.splits if_splits)

lemmas tcp_quiet_dest = tcp_quietD(3) send_all_quiet recv_exact_quiet tcp_send_burst_quiet tcp_receive_burst_quiet

lemma tcp_rtt_loop_quiet:
  assumes t: "tcp_quiet t fds" and run: "tcp_rtt_loop t u e r w = Some res"
  shows "fds (fst res) = fds w"
proof -
  have "t = t \<longrightarrow> fds (fst res) = fds w"
    apply (rule tcp_rtt_loop.raw_induct [where P = "\<lambda>t' u e r w res. t' = t \<longrightarrow> fds (fst res) = fds w", OF _ run])
    subgoal premises p for loop t' u e r w res
    proof -
      have IH: "loop t u e r w = Some res \<Longrightarrow> fds (fst res) = fds w" for u e r w res using p(1) by blast
      show ?thesis using p(2) by (auto simp: Let_def dest!: IH tcp_quiet_dest [OF t] split: prod.splits if_splits)
    qed
    done
  then show ?thesis by simp
qed

lemma tcp_throughput_loop_quiet:
  assumes t: "tcp_quiet t fds" and run: "tcp_throughput_loop t u e r w = Some res"
  shows "fds (fst res) = fds w"
proof -
  have "t = t \<longrightarrow> fds (fst res) = fds w"
    apply (rule tcp_throughput_loop.raw_induct [where P = "\<lambda>t' u e r w res. t' = t \<longrightarrow> fds (fst res) = fds w", OF _ run])
    subgoal premises p for loop t' u e r w res
    proof -
      have IH: "loop t u e r w = Some res \<Longrightarrow> fds (fst res) = fds w" for u e r w res using p(1) by blast
      show ?thesis using p(2) by (auto simp: Let_def dest!: IH tcp_quiet_dest [OF t] split: prod.splits if_splits)
    qed
    done
  then show ?thesis by simp
qed

lemma tcp_server_loop_quiet:
  assumes t: "tcp_quiet t fds" and run: "tcp_server_loop t l e r w = Some res"
  shows "fds (fst res) = fds w"
proof -
  have "t = t \<longrightarrow> fds (fst res) = fds w"
    apply (rule tcp_server_loop.raw_induct [where P = "\<lambda>t' l e r w res. t' = t \<longrightarrow> fds (fst res) = fds w", OF _ run])
    subgoal premises p for loop t' l e r w res
    proof -
      have IH: "loop t l e r w = Some res \<Longrightarrow> fds (fst res) = fds w" for l e r w res using p(1) by blast
      show ?thesis using p(2) by (auto simp: Let_def dest!: IH tcp_quiet_dest [OF t] split: prod.splits if_splits)
    qed
    done
  then show ?thesis by simp
qed

lemma tcp_run_quiet:
  assumes "tcp_quiet t fds"
  shows "tcp_client_run t options w = Some (w', r) \<Longrightarrow> fds w' = fds w" "tcp_server_run t options w = Some (w', r) \<Longrightarrow> fds w' = fds w"
  using tcp_rtt_loop_quiet [OF assms] tcp_throughput_loop_quiet [OF assms] tcp_server_loop_quiet [OF assms] tcp_quietD(3) [OF assms]
  by (fastforce simp: tcp_client_run_def tcp_server_run_def Let_def split: prod.splits if_splits)+

lemma prepare_socket_keeps:
  assumes "socket_lawful os io fds"
  shows "prepare_socket os fd w = (w', ok) \<Longrightarrow> fds w' = fds w"
proof -
  have q: "sk_setsockopt os v k q = (v', r) \<Longrightarrow> fds v' = fds v" for v k q v' r
    using assms by (metis fst_conv socket_lawful_def)
  show "prepare_socket os fd w = (w', ok) \<Longrightarrow> fds w' = fds w"
    by (auto simp: prepare_socket_def set_timeouts_def split: prod.splits option.splits if_splits dest!: q)
qed

lemma socket_calls_keep:
  assumes "socket_lawful os io fds"
  shows "sk_bind os w fd a p = (w', r) \<Longrightarrow> fds w' = fds w" "sk_listen os w fd n = (w', r) \<Longrightarrow> fds w' = fds w"
    "sk_connect os w fd a p = (w', r) \<Longrightarrow> fds w' = fds w" "sk_setsockopt os w fd q = (w', r) \<Longrightarrow> fds w' = fds w"
    "sk_socket os w = (w', Inl e) \<Longrightarrow> fds w' = fds w" "sk_socket os w = (w', Inr k) \<Longrightarrow> k \<notin> fds w \<and> fds w' = insert k (fds w)"
    "sk_accept os w fd = (w', Inl e) \<Longrightarrow> fds w' = fds w" "sk_accept os w fd = (w', Inr k) \<Longrightarrow> k \<notin> fds w \<and> fds w' = insert k (fds w)"
  using assms makes_descriptorD [of fds "sk_socket os" w] makes_descriptorD [of fds "\<lambda>w. sk_accept os w fd" w]
  unfolding socket_lawful_def by (metis fst_conv)+

lemma socket_close: "socket_lawful os io fds \<Longrightarrow> fds (sk_close os w fd) = fds w - {fd}"
  by (simp add: socket_lawful_def)

text \<open>Opening either gives one new descriptor or leaves the table alone.\<close>

definition opens_one :: "('w \<Rightarrow> nat set) \<Rightarrow> 'w \<Rightarrow> 'w \<times> nat option \<Rightarrow> bool" where
  "opens_one fds w r \<longleftrightarrow> (case snd r of None \<Rightarrow> fds (fst r) = fds w | Some fd \<Rightarrow> fd \<notin> fds w \<and> fds (fst r) = insert fd (fds w))"

lemma tcp_connect_opens:
  assumes l: "socket_lawful os io fds"
  shows "opens_one fds w (tcp_connect_socket os inet_pton options w)"
  by (auto simp: opens_one_def tcp_connect_socket_def socket_close [OF l] dest!: socket_calls_keep [OF l] prepare_socket_keeps [OF l]
      split: prod.split sum.split option.split)

lemma tcp_listen_opens:
  assumes l: "socket_lawful os io fds"
  shows "opens_one fds w (tcp_listen_socket os inet_pton options w)"
  by (auto simp: opens_one_def tcp_listen_socket_def socket_close [OF l] dest!: socket_calls_keep [OF l]
      split: prod.split sum.split option.split)

lemma tcp_accept_opens:
  assumes l: "socket_lawful os io fds" and w: "fds w = insert listen_fd F" "listen_fd \<notin> F"
  shows "case tcp_accept_socket os listen_fd w of (w', None) \<Rightarrow> fds w' = F | (w', Some fd) \<Rightarrow> fd \<notin> F \<and> fds w' = insert fd F"
  using w
  by (auto simp: tcp_accept_socket_def socket_close [OF l] Let_def dest!: socket_calls_keep [OF l] prepare_socket_keeps [OF l]
      split: prod.split sum.split option.split)

text \<open>Whatever the system answers, the program closes every socket it opens before it ends.\<close>

theorem bench_closes_sockets:
  assumes l: "socket_lawful os io fds" and run: "bench_main os io env inet_pton fopen_ok fclose_ok argv w = Some (w', code, out)"
  shows "fds w' = fds w"
proof -
  have q: "tcp_quiet (io fd) fds" for fd using l by (simp add: tcp_quiet_def socket_lawful_def)
  have c: "fds w' = fds w" if "run_tcp_client os io inet_pton fopen_ok fclose_ok options w = Some (w', code, out)" for options
    using that tcp_connect_opens [OF l, of w inet_pton options] tcp_run_quiet(1) [OF q]
    by (fastforce simp: run_tcp_client_def opens_one_def socket_close [OF l] split: if_splits prod.splits option.splits)
  have s: "fds w' = fds w" if r: "run_tcp_server os io inet_pton fopen_ok fclose_ok options w = Some (w', code, out)" for options
  proof -
    obtain w1 lf where li: "tcp_listen_socket os inet_pton options w = (w1, lf)" by fastforce
    show ?thesis
    proof (cases "fopen_ok \<and> lf \<noteq> None")
      case False
      then show ?thesis using r li tcp_listen_opens [OF l, of w inet_pton options] by (auto simp: run_tcp_server_def opens_one_def split: if_splits)
    next
      case True
      then obtain listen_fd where lf: "lf = Some listen_fd" by auto
      have "fds w1 = insert listen_fd (fds w)" "listen_fd \<notin> fds w"
        using tcp_listen_opens [OF l, of w inet_pton options] li lf by (simp_all add: opens_one_def)
      from tcp_accept_opens [OF l this] show ?thesis
        using r True li lf tcp_run_quiet(2) [OF q]
        by (fastforce simp: run_tcp_server_def socket_close [OF l] split: prod.splits option.splits)
    qed
  qed
  show ?thesis using run c s by (auto simp: bench_main_def split: prod.splits if_splits Mode.splits)
qed

end
