(* ===== verification/Arp_Context.thy ===== *)
theory Arp_Context
  imports Arp_Resolver
begin

text \<open>
  What the resolver does to the context its callbacks work on. The context has an invariant that the
  callbacks keep as long as the frames they are given satisfy a predicate; the resolver hands on only frames
  it was given, so it keeps the invariant when every frame queued satisfies the predicate.
\<close>

definition cache_macs :: "ArpCache \<Rightarrow> bool" where
  "cache_macs c \<longleftrightarrow> (\<forall>e \<in> set (ac_entries c). length (ce_hardware e) = 6)"

definition pending_good :: "(u16 \<Rightarrow> byte list \<Rightarrow> bool) \<Rightarrow> PendingFrame list \<Rightarrow> bool" where
  "pending_good G ps \<longleftrightarrow> (\<forall>p \<in> set ps. length (pf_payload p) = 2048 \<and>
     (pf_active p \<longrightarrow> G (pf_ether_type p) (take (pf_payload_bytes p) (pf_payload p))))"

definition arp_good ::
  "'s ArpResolverCallbacks \<Rightarrow> ('s \<Rightarrow> bool) \<Rightarrow> (u16 \<Rightarrow> byte list \<Rightarrow> bool) \<Rightarrow> 's ArpResolver \<Rightarrow> 's \<Rightarrow> bool" where
  "arp_good cb I G r ctx \<longleftrightarrow> ar_callbacks r = cb \<and> cache_macs (ar_cache r) \<and> pending_good G (ar_pending r) \<and> I ctx"

lemma arp_good_new:
  "I ctx \<Longrightarrow> arp_good cb I G (new_ArpResolver address mac cfg cb) ctx"
  by (simp add: arp_good_def new_ArpResolver_def cache_macs_def new_ArpCache_def default_ArpEntry_def zero_mac_def
      pending_good_def default_PendingFrame_def kArpMaximumPendingPayloadBytes_def)

lemma arp_good_mono:
  "arp_good cb I G r ctx \<Longrightarrow> (\<And>ty p. G ty p \<Longrightarrow> G' ty p) \<Longrightarrow> I' ctx \<Longrightarrow> arp_good cb I' G' r ctx"
  by (auto simp: arp_good_def pending_good_def)

lemma fold_keeps: "P s \<Longrightarrow> (\<And>x s. P s \<Longrightarrow> P (f x s)) \<Longrightarrow> P (fold f xs s)"
  by (induction xs arbitrary: s) auto

section \<open>The cache keeps hardware addresses of six bytes\<close>

lemma lookup_loop_macs:
  "lookup_loop es a now = (es', res) \<Longrightarrow> \<forall>e \<in> set es. length (ce_hardware e) = 6 \<Longrightarrow>
   (\<forall>e \<in> set es'. length (ce_hardware e) = 6) \<and> (\<forall>hw. res = Some hw \<longrightarrow> length hw = 6)"
  by (induction es a now arbitrary: es' res rule: lookup_loop.induct) (auto split: if_splits prod.splits)

lemma cache_lookup_macs:
  "cache_lookup c a now = (c', res) \<Longrightarrow> cache_macs c \<Longrightarrow> cache_macs c' \<and> (\<forall>hw. res = Some hw \<longrightarrow> length hw = 6)"
  using lookup_loop_macs [of "ac_entries c" a now] by (auto simp: cache_lookup_def cache_macs_def split: prod.splits)

lemma cache_expire_macs: "cache_macs c \<Longrightarrow> cache_macs (cache_expire c now)"
  by (auto simp: cache_macs_def cache_expire_def)

lemma cache_insert_macs:
  assumes "cache_macs c" "length hw = 6" "cache_insert c a hw now = (c', ok)"
  shows "cache_macs c'"
proof -
  have "length (ce_hardware e) = 6" if "e \<in> set ((ac_entries (cache_expire c now))[i := x])" "length (ce_hardware x) = 6" for e i x
    using that set_update_subset_insert [of "ac_entries (cache_expire c now)" i x] cache_expire_macs [OF assms(1), of now]
    by (auto simp: cache_macs_def)
  then show ?thesis
    using assms(2,3) cache_expire_macs [OF assms(1), of now]
    by (auto simp: cache_insert_def cache_macs_def Let_def split: option.splits)
qed

lemma pending_good_drop: "pending_good G ps \<Longrightarrow> pending_good G (drop_frames P ps)"
  by (auto simp: pending_good_def drop_frames_def)

section \<open>The contract of the callbacks\<close>

locale arp_context =
  fixes cb :: "'s ArpResolverCallbacks" and I :: "'s \<Rightarrow> bool" and G :: "u16 \<Rightarrow> byte list \<Rightarrow> bool"
  assumes arp_keeps: "cb_arp_transmit cb = Some f \<Longrightarrow> I ctx \<Longrightarrow> length d = 6 \<Longrightarrow> I (fst (f ctx d p))"
    and frame_keeps: "cb_frame_transmit cb = Some g \<Longrightarrow> I ctx \<Longrightarrow> length d = 6 \<Longrightarrow> G ty p \<Longrightarrow> I (fst (g ctx d ty p))"
    and failure_keeps: "cb_failure cb = Some h \<Longrightarrow> I ctx \<Longrightarrow> I (h ctx t s)"
begin

lemma transmit_message_keeps:
  "ar_callbacks r = cb \<Longrightarrow> I ctx \<Longrightarrow> length d = 6 \<Longrightarrow> I (fst (transmit_message r ctx d m))"
  by (auto simp: transmit_message_def Let_def split_beta arp_keeps split: option.split)

lemma send_request_keeps: "ar_callbacks r = cb \<Longrightarrow> I ctx \<Longrightarrow> I (fst (send_request r ctx t))"
  by (simp add: send_request_def transmit_message_keeps kEthernetBroadcast_def)

lemma failure_call_keeps: "I ctx \<Longrightarrow> I (failure_call cb ctx t s)"
  using failure_keeps by (auto simp: failure_call_def split: option.split)

lemma ensure_resolution_keeps:
  assumes good: "arp_good cb I G r ctx" and e: "ensure_resolution r ctx t now = (r', ctx', st)"
  shows "arp_good cb I G r' ctx' \<and> ar_pending r' = ar_pending r \<and> ar_cache r' = ar_cache r"
proof -
  have r: "\<exists>rs. r' = r\<lparr>ar_resolutions := rs\<rparr>"
    using e by (fastforce simp: ensure_resolution_def Let_def split: if_splits option.splits prod.splits intro: exI [of _ "ar_resolutions r"])
  have "I c" if "send_request (r\<lparr>ar_resolutions := rs\<rparr>) ctx t = (c, s)" for rs c s
    using send_request_keeps [of "r\<lparr>ar_resolutions := rs\<rparr>" ctx t] good that by (simp add: arp_good_def)
  then have "I ctx'"
    using e good by (auto simp: ensure_resolution_def Let_def arp_good_def split: if_splits option.splits prod.splits)
  then show ?thesis using r good by (auto simp: arp_good_def)
qed

lemma flush_loop_keeps:
  "I ctx \<Longrightarrow> pending_good G ps \<Longrightarrow> length hw = 6 \<Longrightarrow> I (fst (snd (flush_loop cb t hw ps ctx res)))"
proof (induction ps arbitrary: ctx res)
  case (Cons p ps)
  have ps: "pending_good G ps" using Cons.prems(2) by (simp add: pending_good_def)
  show ?case
  proof (cases "pf_active p \<and> pf_target p = t")
    case False
    then show ?thesis using Cons.IH [OF Cons.prems(1) ps Cons.prems(3)] by (auto simp: split_beta)
  next
    case True
    obtain ctx1 err where f: "(case cb_frame_transmit cb of None \<Rightarrow> (ctx, operation_not_supported)
        | Some frame_transmit \<Rightarrow> frame_transmit ctx hw (pf_ether_type p) (take (pf_payload_bytes p) (pf_payload p)))
      = (ctx1, err)" by fastforce
    have "G (pf_ether_type p) (take (pf_payload_bytes p) (pf_payload p))"
      using Cons.prems(2) True by (simp add: pending_good_def)
    then have "I ctx1"
      using f Cons.prems(1) frame_keeps [OF _ Cons.prems(1,3)] by (auto split: option.splits) (metis fst_conv)
    then have "I (fst (snd (flush_loop cb t hw ps (if err \<noteq> no_error then failure_call cb ctx1 t arp_send_failed else ctx1) res')))" for res'
      by (intro Cons.IH ps Cons.prems(3)) (simp add: failure_call_keeps)
    then show ?thesis using True f by (auto simp: Let_def split_beta)
  qed
qed simp

lemma fail_loop_keeps: "I ctx \<Longrightarrow> I (snd (fail_loop cb t s ps ctx))"
proof (induction ps arbitrary: ctx)
  case (Cons p ps)
  then show ?case using failure_call_keeps [OF Cons.prems] by (auto split: prod.splits) (metis snd_conv)+
qed simp

lemma expire_pending_keeps: "I ctx \<Longrightarrow> I (snd (expire_pending cb now ps ctx))"
proof (induction ps arbitrary: ctx)
  case (Cons p ps)
  then show ?case using failure_call_keeps [OF Cons.prems] by (auto split: prod.splits) (metis snd_conv)+
qed simp

lemma fail_pending_keeps:
  assumes "arp_good cb I G r ctx" "fail_pending r ctx t s = (r', ctx')"
  shows "arp_good cb I G r' ctx'"
  using assms fail_loop_keeps [of ctx t s "ar_pending r"] fail_loop_pending [of cb t s "ar_pending r" ctx] pending_good_drop
  by (auto simp: arp_good_def fail_pending_def split: prod.splits)

text \<open>The three operations the network stack calls.\<close>

lemma queue_frame_keeps:
  assumes good: "arp_good cb I G r ctx" and G: "G ty payload"
    and q: "queue_frame r ctx t ty payload now = (r', ctx', st)"
  shows "arp_good cb I G r' ctx'"
proof (cases "length payload > 2048 \<or> cb_frame_transmit cb = None")
  case True
  moreover have "ar_callbacks r = cb" using good by (simp add: arp_good_def)
  ultimately have "r' = r \<and> ctx' = ctx"
    using q by (auto simp: queue_frame_def kArpMaximumPendingPayloadBytes_def split: if_splits)
  then show ?thesis using good by simp
next
  case False
  then obtain g where g: "cb_frame_transmit cb = Some g" "length payload \<le> 2048" by auto
  obtain c hw where l: "cache_lookup (ar_cache r) t now = (c, hw)" by fastforce
  have c: "cache_macs c" "\<And>h. hw = Some h \<Longrightarrow> length h = 6"
    using cache_lookup_macs [OF l] good by (auto simp: arp_good_def)
  define r1 where "r1 = r\<lparr>ar_cache := c\<rparr>"
  have good1: "arp_good cb I G r1 ctx" using good c(1) by (simp add: arp_good_def r1_def)
  note code = q [unfolded queue_frame_def]
  consider (hit) h where "hw = Some h" | (full) "hw = None" "index_where (\<lambda>p. \<not> pf_active p) (ar_pending r) = None"
    | (wait) i where "hw = None" "index_where (\<lambda>p. \<not> pf_active p) (ar_pending r) = Some i" by blast
  then show ?thesis
  proof cases
    case hit
    obtain c1 e where f: "g ctx h ty payload = (c1, e)" by fastforce
    have "I c1" using frame_keeps [OF g(1) _ c(2) [OF hit] G, of ctx] f good by (simp add: arp_good_def)
    then show ?thesis
      using code g l hit f good1 good by (auto simp: arp_good_def kArpMaximumPendingPayloadBytes_def Let_def r1_def)
  next
    case full
    then show ?thesis using code g l good1 good by (auto simp: arp_good_def kArpMaximumPendingPayloadBytes_def Let_def r1_def)
  next
    case wait
    let ?old = "ar_pending r ! i"
    define x where "x = ?old\<lparr>pf_target := t, pf_ether_type := ty, pf_payload_bytes := length payload,
      pf_deadline_ns := deadline_from now (cfg_pending_deadline_ns (ar_config r)), pf_active := True,
      pf_payload := memcpy_at (pf_payload ?old) 0 payload\<rparr>"
    define r2 where "r2 = r1\<lparr>ar_pending := (ar_pending r)[i := x]\<rparr>"
    have len: "length (pf_payload ?old) = 2048"
      using good index_where_Some [OF wait(2)] by (simp add: arp_good_def pending_good_def)
    have x: "length (pf_payload x) = 2048" "take (pf_payload_bytes x) (pf_payload x) = payload" "pf_ether_type x = ty"
      using g(2) len take_memcpy_at [of 0 "pf_payload ?old" payload] by (simp_all add: x_def)
    then have "pending_good G ((ar_pending r)[i := x])"
      using good G set_update_subset_insert [of "ar_pending r" i x] by (auto simp: arp_good_def pending_good_def)
    then have good2: "arp_good cb I G r2 ctx" using good1 by (simp add: arp_good_def r2_def)
    obtain r3 c3 s3 where e: "ensure_resolution r2 ctx t now = (r3, c3, s3)" by (metis prod_cases3)
    note good3 = ensure_resolution_keeps [OF good2 e]
    have "pending_good G ((ar_pending r3)[i := (ar_pending r3 ! i)\<lparr>pf_active := False\<rparr>])"
    proof -
      have "ar_pending r3 ! i = x" using good3 index_where_Some [OF wait(2)] by (simp add: r2_def)
      then show ?thesis
        using good3 x(1) set_update_subset_insert [of "ar_pending r3" i "x\<lparr>pf_active := False\<rparr>"]
        by (auto simp: arp_good_def pending_good_def)
    qed
    moreover have "ctx' = c3 \<and> (r' = r3 \<or> r' = r3\<lparr>ar_pending := (ar_pending r3)[i := (ar_pending r3 ! i)\<lparr>pf_active := False\<rparr>]\<rparr>)"
      using code g l wait good e [unfolded r2_def r1_def x_def]
      by (auto simp: arp_good_def kArpMaximumPendingPayloadBytes_def Let_def split: if_splits)
    ultimately show ?thesis using good3 by (auto simp: arp_good_def)
  qed
qed

lemma on_arp_payload_keeps:
  assumes good: "arp_good cb I G r ctx" and a: "on_arp_payload r ctx payload now = (r', ctx', st)"
  shows "arp_good cb I G r' ctx'"
proof -
  obtain ps m where p: "parse_arp_message payload = (ps, m)" by fastforce
  show ?thesis
  proof (cases "ps = arp_ok")
    case False
    then show ?thesis using a p good by (simp add: on_arp_payload_def)
  next
    case True
    let ?t = "am_sender_protocol m" and ?hw = "am_sender_hardware m"
    have hw: "length ?hw = 6" using parse_arp_okD p True by (auto simp: arp_valid_def)
    obtain c cached where ins: "cache_insert (ar_cache r) ?t ?hw now = (c, cached)" by fastforce
    define r1 where "r1 = clear_resolution (r\<lparr>ar_cache := c\<rparr>) ?t"
    have r1: "ar_callbacks r1 = cb" "cache_macs (ar_cache r1)" "pending_good G (ar_pending r1)"
      using good cache_insert_macs [OF _ hw ins] by (simp_all add: r1_def clear_resolution_def arp_good_def)
    obtain qs c1 fs where f: "flush_loop cb ?t ?hw (ar_pending r1) ctx arp_ok = (qs, c1, fs)" by (metis prod_cases3)
    have 1: "I c1" "pending_good G qs"
      using flush_loop_keeps [OF _ r1(3) hw, of ctx ?t arp_ok] f good flush_loop_pending [of cb ?t ?hw "ar_pending r1" ctx arp_ok]
        pending_good_drop [OF r1(3)] by (auto simp: arp_good_def)
    define r2 where "r2 = r1\<lparr>ar_pending := qs\<rparr>"
    have "I (fst (transmit_message r2 c1 ?hw msg))" for msg
      by (rule transmit_message_keeps) (use 1 hw r1 in \<open>simp_all add: r2_def\<close>)
    moreover have "r' = r2 \<and> (ctx' = c1 \<or> (\<exists>msg. ctx' = fst (transmit_message r2 c1 ?hw msg)))"
      using a p True ins f r1(1)
      by (auto simp: on_arp_payload_def Let_def flush_pending_def r1_def [symmetric] r2_def [symmetric] split: if_splits prod.splits)
         (metis fst_conv)+
    ultimately show ?thesis using 1 r1 by (auto simp: arp_good_def r2_def)
  qed
qed

lemma tick_resolution_keeps:
  assumes good: "arp_good cb I G r ctx" and t: "tick_resolution now i (r, ctx) = (r', ctx')"
  shows "arp_good cb I G r' ctx'"
proof -
  let ?x = "ar_resolutions r ! i"
  have upd: "arp_good cb I G (r1\<lparr>ar_resolutions := rs\<rparr>) c" if "arp_good cb I G r1 c" for r1 rs c
    using that by (simp add: arp_good_def)
  obtain r1 c1 where 1: "fail_pending r ctx (rs_target ?x) arp_unreachable = (r1, c1)" by fastforce
  obtain c2 s2 where 2: "send_request r ctx (rs_target ?x) = (c2, s2)" by fastforce
  obtain r3 c3 where 3: "fail_pending r c2 (rs_target ?x) s2 = (r3, c3)" by fastforce
  have g2: "arp_good cb I G r c2" using good send_request_keeps [of r ctx "rs_target ?x"] 2 by (simp add: arp_good_def)
  show ?thesis
    using t good upd [OF good] upd [OF g2] upd [OF fail_pending_keeps [OF good 1]] upd [OF fail_pending_keeps [OF g2 3]]
    by (auto simp: tick_resolution_def Let_def 1 2 3 split: if_splits)
qed

lemma tick_refresh_keeps:
  assumes good: "arp_good cb I G r ctx" and t: "tick_refresh now i (r, ctx) = (r', ctx')"
  shows "arp_good cb I G r' ctx'"
proof -
  let ?e = "ac_entries (ar_cache r) ! i"
  obtain r1 c1 s1 where e: "ensure_resolution r ctx (ce_address ?e) now = (r1, c1, s1)" by (metis prod_cases3)
  note good1 = ensure_resolution_keeps [OF good e]
  let ?es = "(ac_entries (ar_cache r))[i := ?e\<lparr>ce_refresh_requested := True\<rparr>]"
  have "length (ce_hardware (?es ! k)) = 6" if "k < length ?es" for k
    using good that by (cases "k = i") (auto simp: arp_good_def cache_macs_def)
  then have "cache_macs ((ar_cache r)\<lparr>ac_entries := ?es\<rparr>)" by (simp add: cache_macs_def all_set_conv_all_nth)
  then show ?thesis
    using t good good1 by (auto simp: tick_refresh_def Let_def e arp_good_def split: if_splits)
qed

lemma arp_tick_keeps:
  assumes good: "arp_good cb I G r ctx" and t: "arp_tick r ctx now = (r', ctx')"
  shows "arp_good cb I G r' ctx'"
proof -
  let ?P = "\<lambda>st. arp_good cb I G (fst st) (snd st)"
  define r1 where "r1 = r\<lparr>ar_cache := cache_expire (ar_cache r) now\<rparr>"
  obtain ps c1 where x: "expire_pending cb now (ar_pending r) ctx = (ps, c1)" by fastforce
  have "?P (r1\<lparr>ar_pending := ps\<rparr>, c1)"
    using good x expire_pending_keeps [of ctx now "ar_pending r"] expire_pending_pending [of cb now "ar_pending r" ctx]
      pending_good_drop [of G "ar_pending r"] cache_expire_macs [of "ar_cache r" now]
    by (auto simp: arp_good_def r1_def)
  then have "?P (fold (tick_resolution now) is (r1\<lparr>ar_pending := ps\<rparr>, c1))" for "is"
    by (rule fold_keeps) (metis tick_resolution_keeps prod.collapse)
  then have "?P (fold (tick_refresh now) js (fold (tick_resolution now) is (r1\<lparr>ar_pending := ps\<rparr>, c1)))" for "is" js
    by (rule fold_keeps) (metis tick_refresh_keeps prod.collapse)
  moreover have "(r', ctx') = fold (tick_refresh now) [0..<length (ac_entries (ar_cache r1))]
      (fold (tick_resolution now) [0..<length (ar_resolutions r1)] (r1\<lparr>ar_pending := ps\<rparr>, c1))"
    using t x good by (simp add: arp_tick_def Let_def r1_def arp_good_def)
  ultimately show ?thesis by (metis fst_conv snd_conv)
qed

end

end
