(* ===== verification/Stack_Context.thy ===== *)
theory Stack_Context
  imports Network_Run Arp_Context
begin

text \<open>
  What a network stack puts on the link, and what it hands to its application.

  \<open>P\<close> is a predicate on datagrams. A frame carries \<open>P\<close> when whatever a receiver parses out of it as an IPv4
  packet is a whole datagram with \<open>P\<close>. A stack whose application sends only such datagrams, each fitting the
  MTU, puts only such frames on the link, at once or from the resolver's queue later on; and the application
  of a stack that captures only such frames receives only such datagrams.
\<close>

section \<open>Frames\<close>

text \<open>A link that keeps the frames it is given, and refuses some of them.\<close>

definition wire :: "(byte list list \<Rightarrow> bool) \<Rightarrow> byte list list link_send" where
  "wire ok sent frame = (if ok sent then (sent @ [frame], no_error) else (sent, io_error))"

definition packet_carries :: "(byte list \<Rightarrow> bool) \<Rightarrow> byte list \<Rightarrow> bool" where
  "packet_carries P bytes \<longleftrightarrow> (case parse_ipv4_packet bytes of (status, v) \<Rightarrow> status = ip_ok \<longrightarrow>
     ip_flags_fragment_offset (pv_header v) AND (kIpv4FlagMoreFragments OR kIpv4FragmentOffsetMask) = 0 \<and>
     P (pv_payload v))"

definition frame_carries :: "(byte list \<Rightarrow> bool) \<Rightarrow> byte list \<Rightarrow> bool" where
  "frame_carries P frame \<longleftrightarrow> (case parse_ethernet_frame frame of (status, v) \<Rightarrow> status = eth_ok \<longrightarrow>
     eh_ether_type (ev_header v) = kEtherTypeIpv4 \<longrightarrow> packet_carries P (ev_payload v))"

definition whole_packet :: "(byte list \<Rightarrow> bool) \<Rightarrow> u16 \<Rightarrow> byte list \<Rightarrow> bool" where
  "whole_packet P ty packet \<longleftrightarrow> ty = kEtherTypeIpv4 \<and> (\<exists>h payload. length payload \<le> 65515 \<and> P payload \<and>
     packet = fragment_packet h \<lparr>fg_offset = 0, fg_bytes = payload, fg_more = False\<rparr>)"

lemma frame_carries_mono: "frame_carries P f \<Longrightarrow> (\<And>p. P p \<Longrightarrow> Q p) \<Longrightarrow> frame_carries Q f"
  by (auto simp: frame_carries_def packet_carries_def split: prod.splits)

lemma whole_packet_mono: "whole_packet P ty p \<Longrightarrow> (\<And>p. P p \<Longrightarrow> Q p) \<Longrightarrow> whole_packet Q ty p"
  by (auto simp: whole_packet_def)

lemma whole_packet_carries:
  assumes "whole_packet P ty packet"
  shows "packet_carries P (packet @ pad)"
proof -
  obtain h payload f where len: "length payload \<le> 65515" and P: "P payload" and f: "packet = fragment_packet h f"
      "f = \<lparr>fg_offset = 0, fg_bytes = payload, fg_more = False\<rparr>"
    using assms by (auto simp: whole_packet_def)
  have sl: "slice_of payload f" by (simp add: f(2) slice_of_def)
  obtain v where v: "parse_ipv4_packet (fragment_packet h f) = (ip_ok, v)" "pv_payload v = payload"
      "8 * unat (ip_flags_fragment_offset (pv_header v) AND kIpv4FragmentOffsetMask) = 0"
      "ip_flags_fragment_offset (pv_header v) AND kIpv4FlagMoreFragments = 0"
    using fragment_packet_parsed [OF sl len, of h] by (auto simp: f(2))
  have "ip_flags_fragment_offset (pv_header v) AND kIpv4FragmentOffsetMask = 0"
    using v(3) by (simp add: unsigned_eq_0_iff)
  then have "ip_flags_fragment_offset (pv_header v) AND (kIpv4FlagMoreFragments OR kIpv4FragmentOffsetMask) = 0"
    using fragmented_bits v(4) by blast
  then show ?thesis using v(1,2) P by (simp add: packet_carries_def f(1) parse_padded [OF sl len])
qed

lemma frame_carries_encoded:
  assumes "length d = 6" "length s = 6" "whole_packet P ty p"
  shows "frame_carries P (eth_encode d s ty p)"
  using parse_eth_encode [OF assms(1,2), of ty p] whole_packet_carries [OF assms(3)] ipv4_not_vlan assms(3)
  by (simp add: frame_carries_def whole_packet_def)

lemma arp_not_vlan: "\<not> is_vlan kEtherTypeArp"
  by (simp add: is_vlan_def kEtherTypeArp_def kEtherTypeVlan8021Q_def kEtherTypeVlan8021Ad_def)

lemma frame_carries_arp:
  "length d = 6 \<Longrightarrow> length s = 6 \<Longrightarrow> frame_carries P (eth_encode d s kEtherTypeArp p)"
  using parse_eth_encode [of d s kEtherTypeArp p] arp_not_vlan
  by (simp add: frame_carries_def kEtherTypeArp_def kEtherTypeIpv4_def)

section \<open>The sending side\<close>

definition link_good :: "nat \<Rightarrow> (byte list \<Rightarrow> bool) \<Rightarrow> byte list list stack_ctx \<Rightarrow> bool" where
  "link_good mtu P ctx \<longleftrightarrow> length (ii_mac (ee_info (sc_endpoint ctx))) = 6 \<and>
     unat (ii_mtu (ee_info (sc_endpoint ctx))) = mtu \<and> length (ee_tx_buffer (sc_endpoint ctx)) = max (mtu + 14) 60 \<and>
     (\<forall>f \<in> set (sc_link ctx). frame_carries P f)"

lemma link_good_mono: "link_good mtu P ctx \<Longrightarrow> (\<And>p. P p \<Longrightarrow> Q p) \<Longrightarrow> link_good mtu Q ctx"
  by (auto simp: link_good_def intro: frame_carries_mono)

lemma send_frame_keeps:
  assumes good: "link_good mtu P ctx" and d: "length d = 6" and ty: "\<not> is_vlan ty"
    and frame: "frame_carries P (eth_encode d (ii_mac (ee_info (sc_endpoint ctx))) ty payload)"
    and s: "ee_send_frame (wire ok) (sc_endpoint ctx) (sc_link ctx) d ty payload = (e, l, err)"
  shows "link_good mtu P (ctx\<lparr>sc_endpoint := e, sc_link := l\<rparr>)"
proof (cases "ee_link_open (sc_endpoint ctx) \<and> length payload \<le> mtu")
  case False
  then have "e = sc_endpoint ctx \<and> l = sc_link ctx"
    using s good by (auto simp: ee_send_frame_def link_good_def split: if_splits)
  then show ?thesis using good by (simp add: link_good_def)
next
  case True
  let ?e = "sc_endpoint ctx" and ?f = "eth_encode d (ii_mac (ee_info (sc_endpoint ctx))) ty payload"
  have "mtu < 2 ^ 32" using good unat_u32_bound by (auto simp: link_good_def)
  then have b: "build_ethernet_frame d (ii_mac (ee_info ?e)) ty payload (ee_tx_buffer ?e) =
      (eth_ok, ?f @ drop (max (14 + length payload) 60) (ee_tx_buffer ?e), max (14 + length payload) 60)"
    using good d ty True by (intro build_ethernet_ok) (auto simp: link_good_def)
  have len: "length ?f = max (14 + length payload) 60" using good d by (simp add: eth_encode_def link_good_def)
  have e: "e = ?e\<lparr>ee_tx_buffer := ?f @ drop (max (14 + length payload) 60) (ee_tx_buffer ?e)\<rparr>"
    and l: "l = sc_link ctx \<or> l = sc_link ctx @ [?f]"
    using s b len True good by (auto simp: ee_send_frame_def link_good_def wire_def Let_def split: if_splits)
  then show ?thesis using good frame True len by (auto simp: link_good_def)
qed

interpretation stack_arp: arp_context "stack_callbacks (wire ok)" "link_good mtu P" "whole_packet P"
proof
  fix f :: "byte list list stack_ctx arp_transmit" and ctx :: "byte list list stack_ctx" and d :: MacAddress and p
  assume "cb_arp_transmit (stack_callbacks (wire ok)) = Some f" and I: "link_good mtu P ctx" "length d = 6"
  then have f: "f = transmit_arp (wire ok)" by (simp add: stack_callbacks_def)
  obtain e l err where s: "ee_send_frame (wire ok) (sc_endpoint ctx) (sc_link ctx) d kEtherTypeArp p = (e, l, err)"
    by (metis prod_cases3)
  show "link_good mtu P (fst (f ctx d p))"
    using send_frame_keeps [OF I arp_not_vlan _ s] frame_carries_arp I s by (simp add: f transmit_arp_def link_good_def)
next
  fix g :: "byte list list stack_ctx frame_transmit" and ctx :: "byte list list stack_ctx" and d :: MacAddress and ty p
  assume "cb_frame_transmit (stack_callbacks (wire ok)) = Some g" and I: "link_good mtu P ctx" "length d = 6"
    and G: "whole_packet P ty p"
  then have g: "g = transmit_frame (wire ok)" by (simp add: stack_callbacks_def)
  obtain e l err where s: "ee_send_frame (wire ok) (sc_endpoint ctx) (sc_link ctx) d ty p = (e, l, err)"
    by (metis prod_cases3)
  have "\<not> is_vlan ty" using G ipv4_not_vlan by (simp add: whole_packet_def)
  then show "link_good mtu P (fst (g ctx d ty p))"
    using send_frame_keeps [OF I _ _ s] frame_carries_encoded [OF I(2) _ G] I s
    by (simp add: g transmit_frame_def link_good_def)
next
  fix h :: "byte list list stack_ctx arp_failure" and ctx :: "byte list list stack_ctx" and t s
  assume "cb_failure (stack_callbacks (wire ok)) = Some h" "link_good mtu P ctx"
  then show "link_good mtu P (h ctx t s)" by (auto simp: stack_callbacks_def stack_arp_failure_def link_good_def)
qed

definition stack_good :: "(byte list list \<Rightarrow> bool) \<Rightarrow> nat \<Rightarrow> (byte list \<Rightarrow> bool) \<Rightarrow> byte list list NetworkStack \<Rightarrow> bool" where
  "stack_good ok mtu P s \<longleftrightarrow> arp_good (stack_callbacks (wire ok)) (link_good mtu P) (whole_packet P) (ns_arp s) (ns_ctx s)"

lemma stack_good_mono:
  assumes "stack_good ok mtu P s" "\<And>p. P p \<Longrightarrow> Q p"
  shows "stack_good ok mtu Q s"
  unfolding stack_good_def
proof (rule arp_good_mono [OF assms(1) [unfolded stack_good_def]])
  show "whole_packet Q ty p" if "whole_packet P ty p" for ty p using whole_packet_mono [OF that assms(2)] .
  show "link_good mtu Q (ns_ctx s)"
    using assms link_good_mono [of mtu P "ns_ctx s" Q] by (simp add: stack_good_def arp_good_def)
qed

lemma stack_good_frames: "stack_good ok mtu P s \<Longrightarrow> f \<in> set (sc_link (ns_ctx s)) \<Longrightarrow> frame_carries P f"
  by (simp add: stack_good_def arp_good_def link_good_def)

lemma stack_good_new:
  assumes "endpoint_ok e" "mtu = unat (ii_mtu (ee_info e))"
  shows "stack_good ok mtu P (new_NetworkStack (wire ok) e [] cfg)"
  using assms unfolding stack_good_def new_NetworkStack_def
  by (auto simp: link_good_def endpoint_ok_def intro!: arp_good_new)

lemma count_net_arp [simp]: "ns_arp (count_net f s) = ns_arp s"
  by (simp add: count_net_def)

lemma stack_good_fields [simp]:
  "stack_good ok mtu P (count_net f s) = stack_good ok mtu P s"
  "stack_good ok mtu P (s\<lparr>ns_poll_now_ns := t\<rparr>) = stack_good ok mtu P s"
  "stack_good ok mtu P (s\<lparr>ns_current_metadata := md\<rparr>) = stack_good ok mtu P s"
  by (simp_all add: stack_good_def arp_good_def link_good_def count_net_def)

lemma emit_fragment_keeps:
  assumes "stack_good ok mtu P s" "whole_packet P kEtherTypeIpv4 packet"
  shows "stack_good ok mtu P (fst (emit_fragment s packet))"
proof -
  obtain a c st where q: "queue_frame (ns_arp s) (ns_ctx s) (ns_send_destination s) kEtherTypeIpv4 packet (ns_send_now_ns s) = (a, c, st)"
    by (metis prod_cases3)
  show ?thesis
    using stack_arp.queue_frame_keeps [OF assms(1) [unfolded stack_good_def] assms(2) q] q
    by (simp add: emit_fragment_def stack_good_def Let_def)
qed

lemma send_datagram_keeps:
  assumes good: "stack_good ok mtu P s" and P: "P payload" and fit: "length payload \<le> mtu - 20"
  shows "stack_good ok mtu P (fst (send_datagram s destination payload now))"
proof -
  define s0 where "s0 = s\<lparr>ns_send_destination := destination, ns_send_now_ns := now, ns_send_status := net_accepted,
    ns_send_queued := False, ns_identification := ns_identification s + 1\<rparr>"
  let ?h = "datagram_header s destination"
  let ?f = "\<lparr>fg_offset = 0, fg_bytes = payload, fg_more = False\<rparr>"
  have mtu: "mtu = unat (ii_mtu (ee_info (sc_endpoint (ns_ctx s))))" using good by (simp add: stack_good_def arp_good_def link_good_def)
  have good0: "stack_good ok mtu P s0" using good by (simp add: stack_good_def s0_def)
  obtain st scratch s1 where fr: "fragment_ipv4_payload ?h payload mtu (ns_fragment_scratch s) (Some emit_fragment) s0 = (st, scratch, s1)"
    by (metis prod_cases3)
  have one: "frag_packets ?h payload mtu = [fragment_packet ?h ?f]" using fit by (simp add: frag_packets_def fragments_def)
  have "s1 = s0 \<or> length payload \<le> 65515 \<and> s1 = snd (feed emit_fragment s0 [fragment_packet ?h ?f])"
    using fragmentation_feeds [where h = ?h and payload = payload and mtu = mtu and scratch = "ns_fragment_scratch s"
        and callback = "Some emit_fragment" and ctx = s0] fr one
    by (auto split: if_splits dest: arg_cong [where f = snd])
  moreover have "snd (feed emit_fragment s0 [p]) = fst (emit_fragment s0 p)" for p by (simp split: prod.split)
  moreover have "whole_packet P kEtherTypeIpv4 (fragment_packet ?h ?f)" if "length payload \<le> 65515"
    using that P by (auto simp: whole_packet_def)
  ultimately have "stack_good ok mtu P s1" using good0 emit_fragment_keeps by metis
  moreover have "\<exists>status. send_datagram s destination payload now = (s1\<lparr>ns_fragment_scratch := scratch\<rparr>, status)"
    using fr mtu by (simp add: send_datagram_def id_next_def Let_def s0_def datagram_header_def)
  ultimately show ?thesis by (auto simp: stack_good_def)
qed

lemma stack_tick_keeps: "stack_good ok mtu P s \<Longrightarrow> stack_good ok mtu P (stack_tick s now)"
  using stack_arp.arp_tick_keeps by (auto simp: stack_good_def stack_tick_def split: prod.split)

section \<open>The receiving side\<close>

text \<open>
  What the stack relies on of its application: the callback keeps the invariant \<open>J\<close> of stack and application
  when it is given a datagram with \<open>Q\<close>, and \<open>J\<close> asks of the stack only that its frames carry what the
  application has sent.
\<close>

locale datagram_user =
  fixes ok :: "byte list list \<Rightarrow> bool" and mtu :: nat and P :: "'u \<Rightarrow> byte list \<Rightarrow> bool" and Q :: "byte list \<Rightarrow> bool"
    and J :: "byte list list NetworkStack \<times> 'u \<Rightarrow> bool" and clock :: "'u \<Rightarrow> 'u \<times> (int \<times> int) option"
    and callback :: "(byte list list, 'u) datagram_callback"
  assumes sends: "J (s, u) \<Longrightarrow> stack_good ok mtu (P u) s"
    and stable: "J (s, u) \<Longrightarrow> stack_good ok mtu (P u) s' \<Longrightarrow> J (s', u)"
    and clock_keeps: "J (s, u) \<Longrightarrow> J (s, fst (clock u))"
    and delivers: "J (s, u) \<Longrightarrow> Q payload \<Longrightarrow> J (callback (s, u) source payload metadata)"
begin

lemma counted: "J (s, u) \<Longrightarrow> J (count_net f s, u)"
  by (rule stable) (simp_all add: sends)

lemma receive_ipv4_keeps:
  assumes "J (s, u)" "packet_carries Q payload"
  shows "J (receive_ipv4 callback (s, u) payload metadata)"
proof -
  obtain st v where p: "parse_ipv4_packet payload = (st, v)" by fastforce
  let ?s = "count_net (\<lambda>s. s\<lparr>nst_ipv4_received := nst_ipv4_received s + 1\<rparr>) s"
  have 1: "J (?s, u)" by (rule counted [OF assms(1)])
  have "J (?s\<lparr>ns_current_metadata := metadata\<rparr>, u)" by (rule stable [OF 1]) (simp add: sends [OF assms(1)])
  from counted [OF this] have 2: "J (count_net f (?s\<lparr>ns_current_metadata := metadata\<rparr>), u)" for f .
  show ?thesis
    using p assms(2) counted [OF 1] delivers [OF 2]
    by (auto simp: receive_ipv4_def deliver_def packet_carries_def Let_def)
qed

lemma receive_frame_keeps:
  assumes J: "J (s, u)" and Q: "eh_ether_type header = kEtherTypeIpv4 \<Longrightarrow> packet_carries Q payload"
  shows "J (receive_frame callback now (s, u) header payload metadata)"
proof -
  have 1: "J (s\<lparr>ns_poll_now_ns := now\<rparr>, u)" by (rule stable [OF J]) (simp add: sends [OF J])
  obtain a c st where o: "on_arp_payload (ns_arp s) (ns_ctx s) payload now = (a, c, st)" by (metis prod_cases3)
  have "stack_good ok mtu (P u) (s\<lparr>ns_poll_now_ns := now, ns_arp := a, ns_ctx := c\<rparr>)"
    using stack_arp.on_arp_payload_keeps [OF sends [OF J, unfolded stack_good_def] o] by (simp add: stack_good_def)
  then have 2: "J (s\<lparr>ns_poll_now_ns := now, ns_arp := a, ns_ctx := c\<rparr>, u)" by (rule stable [OF J])
  have "kEtherTypeIpv4 \<noteq> kEtherTypeArp" by (simp add: kEtherTypeIpv4_def kEtherTypeArp_def)
  then show ?thesis
    using receive_ipv4_keeps [OF 1 Q] 1 2 counted [OF 2] o by (auto simp: receive_frame_def Let_def)
qed

lemma dispatch_keeps:
  assumes J: "J (snd st)" and f: "frame_carries Q (fst captured)"
  shows "J (snd (dispatch_frame (frame_received clock callback) captured st))"
proof -
  obtain frame md n s u where c: "captured = (frame, md)" "st = (n, (s, u))" by (metis prod.exhaust)
  obtain status v where p: "parse_ethernet_frame frame = (status, v)" by fastforce
  obtain u1 t where cl: "clock u = (u1, t)" by fastforce
  have J1: "J (s, u1)" using clock_keeps [of s u] J c cl by simp
  show ?thesis
    using receive_frame_keeps [OF J1, of "ev_header v" "ev_payload v"] f J c p cl
    by (auto simp: dispatch_frame_def frame_received_def frame_carries_def Let_def)
qed

lemma poll_keeps:
  assumes J: "J (s, u)" and f: "\<And>c. c \<in> set (fst captured) \<Longrightarrow> frame_carries Q (fst c)"
  shows "J (fst (stack_poll clock s (Some callback) u captured))"
proof -
  obtain u1 t where cl: "clock u = (u1, t)" by fastforce
  define s1 where "s1 = s\<lparr>ns_poll_now_ns := monotonic_now_ns t\<rparr>"
  have J1: "J (s1, u1)"
    using stable [of s u1 s1] sends [of s u1] clock_keeps [OF J] cl by (simp add: s1_def)
  have fold: "J (snd st) \<Longrightarrow> set cs \<subseteq> set (fst captured) \<Longrightarrow> J (snd (fold (dispatch_frame (frame_received clock callback)) cs st))"
    for cs st
  proof (induction cs arbitrary: st)
    case (Cons c cs)
    have "frame_carries Q (fst c)" using Cons.prems(2) f [of c] by simp
    then show ?case using Cons.IH [OF dispatch_keeps [OF Cons.prems(1)]] Cons.prems(2) by simp
  qed simp
  obtain n s2 u2 where fo: "fold (dispatch_frame (frame_received clock callback)) (fst captured)
      (ee_drop_counters (sc_endpoint (ns_ctx s1)), (s1, u1)) = (n, (s2, u2))" by (metis prod.exhaust)
  have J2: "J (s2, u2)" using fold [of "(ee_drop_counters (sc_endpoint (ns_ctx s1)), (s1, u1))" "fst captured"] J1 fo by simp
  have upd: "J (s'\<lparr>ns_ctx := (ns_ctx s')\<lparr>sc_endpoint := (sc_endpoint (ns_ctx s'))\<lparr>ee_drop_counters := d\<rparr>\<rparr>\<rparr>, u')"
    if "J (s', u')" for s' u' d
    by (rule stable [OF that]) (use sends [OF that] in \<open>simp add: stack_good_def arp_good_def link_good_def\<close>)
  show ?thesis
    using cl fo J1 upd [OF J1] upd [OF J2] by (auto simp: stack_poll_def ee_poll_frames_def Let_def s1_def [symmetric])
qed

end

end
