(* ===== verification/Two_Hosts.thy ===== *)
theory Two_Hosts
  imports Stack_Context Connection_Net Bench_Runner
begin

text \<open>
  Two hosts, each a connection over a network stack over a link, exchange data end to end.

  A host is what \<^verbatim>\<open>tools/bench_runner.cpp\<close> puts together: a \<open>NetworkStack\<close>, a \<open>Connection\<close> whose \<open>transmit\<close> sends a
  datagram (\<open>custom_transmit\<close>) and a poll whose callback gives the datagram to the connection
  (\<open>custom_datagram\<close>). The callbacks are the program's; beside what they do each writes its event to a log,
  a history variable that is kept with the state of the clock. The link of a host keeps the frames its stack
  has sent, some of which it refuses; a poll of the other host captures any of them, any number of times and
  in any order.
\<close>

section \<open>History\<close>

type_synonym 'k history = "'k \<times> cn_event list"
type_synonym 'k host_ctx = "(byte list list, 'k history) bench_ctx"

definition history_clock :: "'k clock \<Rightarrow> 'k history clock" where
  "history_clock clock h = (case clock (fst h) of (k, v) \<Rightarrow> ((k, snd h), v))"

definition note_event :: "cn_event \<Rightarrow> 'k host_ctx \<Rightarrow> 'k host_ctx" where
  "note_event e ctx = (case ctx of (stack, rt) \<Rightarrow> (stack, rt\<lparr>rn_clock := (fst (rn_clock rt), snd (rn_clock rt) @ [e])\<rparr>))"

definition traced :: "'k host_ctx ConnectionCallbacks \<Rightarrow> 'k host_ctx ConnectionCallbacks" where
  "traced cb = \<lparr>
     ccb_transmit = map_option (\<lambda>f ctx b r. case f ctx b r of (ctx, e) \<Rightarrow> (note_event (Tx b r) ctx, e)) (ccb_transmit cb),
     ccb_receive = map_option (\<lambda>f ctx p. note_event (Rx p) (f ctx p)) (ccb_receive cb),
     ccb_state = map_option (\<lambda>f ctx s. note_event (St s) (f ctx s)) (ccb_state cb),
     ccb_error = map_option (\<lambda>f ctx e. note_event (Er e) (f ctx e)) (ccb_error cb)\<rparr>"

definition events :: "'k history CustomRuntime \<Rightarrow> cn_event list" where
  "events rt = snd (rn_clock rt)"

text \<open>What a host's stack may put on the link: the segments its connection has transmitted.\<close>

definition transmitted :: "cn_event list \<Rightarrow> byte list \<Rightarrow> bool" where
  "transmitted seen segment \<longleftrightarrow> segment \<in> set (sent_by seen)"

text \<open>The MTU is written \<open>64 + n\<close>: an IPv4 header, the largest transport header and \<open>n\<close> bytes of payload.\<close>

definition host_observer :: "(byte list list \<Rightarrow> bool) \<Rightarrow> nat \<Rightarrow> 'k host_ctx observer" where
  "host_observer ok n = \<lparr>ob_events = (\<lambda>(stack, rt). events rt),
     ob_good = (\<lambda>(stack, rt). stack_good ok (64 + n) (transmitted (events rt)) stack), ob_limit = 44 + n\<rparr>"

lemma host_observer_simps [simp]:
  "ob_events (host_observer ok n) (stack, rt) = events rt"
  "ob_good (host_observer ok n) (stack, rt) = stack_good ok (64 + n) (transmitted (events rt)) stack"
  "ob_limit (host_observer ok n) = 44 + n"
  by (simp_all add: host_observer_def)

lemma sent_by_append [simp]: "sent_by (l @ l') = sent_by l @ sent_by l'"
  by (induction l rule: sent_by.induct) simp_all

lemma transmitted_grows: "transmitted seen b \<Longrightarrow> transmitted (seen @ es) b"
  by (simp add: transmitted_def)

lemma stack_good_grows:
  "stack_good ok mtu (transmitted seen) s \<Longrightarrow> stack_good ok mtu (transmitted (seen @ es)) s"
  by (erule stack_good_mono) (rule transmitted_grows)

lemma note_event_good:
  "ob_good (host_observer ok n) ctx \<Longrightarrow> ob_good (host_observer ok n) (note_event e ctx)"
  by (cases ctx) (auto simp: note_event_def events_def stack_good_grows)

lemma note_event_events: "ob_events (host_observer ok n) (note_event e ctx) = ob_events (host_observer ok n) ctx @ [e]"
  by (cases ctx) (simp add: note_event_def events_def)

section \<open>The program's callbacks\<close>

text \<open>All but \<open>transmit\<close> leave the stack and the history alone.\<close>

definition same_host :: "'k host_ctx \<Rightarrow> 'k host_ctx \<Rightarrow> bool" where
  "same_host ctx ctx' \<longleftrightarrow> fst ctx' = fst ctx \<and> events (snd ctx') = events (snd ctx)"

lemma same_host_observed:
  "same_host ctx ctx' \<Longrightarrow> ob_events (host_observer ok n) ctx' = ob_events (host_observer ok n) ctx"
  "same_host ctx ctx' \<Longrightarrow> ob_good (host_observer ok n) ctx' = ob_good (host_observer ok n) ctx"
  by (cases ctx; cases ctx'; simp add: same_host_def)+

lemma read_clock_same: "read_clock (history_clock clock) ctx = (ctx', now) \<Longrightarrow> same_host ctx ctx'"
  by (auto simp: read_clock_def history_clock_def same_host_def events_def split: prod.splits)

lemma enqueue_echo_clock [simp]: "rn_clock (enqueue_echo rt p) = rn_clock rt"
  by (simp add: enqueue_echo_def Let_def)

lemma record_round_trip_clock [simp]: "rn_clock (record_round_trip rt p now) = rn_clock rt"
  by (simp add: record_round_trip_def Let_def)

lemma custom_receive_same: "same_host ctx (custom_receive (history_clock clock) ctx p)"
  by (cases ctx) (auto simp: custom_receive_def read_clock_def history_clock_def same_host_def events_def split: prod.split)

lemma custom_state_same: "same_host ctx (custom_state ctx s)"
  by (cases ctx) (simp add: custom_state_def same_host_def events_def)

lemma custom_error_same: "same_host ctx (custom_error ctx e)"
  by (cases ctx) (simp add: custom_error_def same_host_def events_def)

lemma custom_transmit_good:
  assumes good: "ob_good (host_observer ok n) ctx" and len: "length segment \<le> 44 + n"
    and t: "custom_transmit (history_clock clock) ctx segment reason = (ctx', e)"
  shows "ob_good (host_observer ok n) (note_event (Tx segment reason) ctx')"
proof -
  obtain s rt now where rd: "read_clock (history_clock clock) ctx = ((s, rt), now)" by (metis prod.exhaust)
  have same: "same_host ctx (s, rt)" by (rule read_clock_same [OF rd])
  let ?seen = "events rt @ [Tx segment reason]"
  have "stack_good ok (64 + n) (transmitted (events rt)) s" using same_host_observed(2) [OF same, of ok n] good by simp
  then have "stack_good ok (64 + n) (transmitted ?seen) s" by (rule stack_good_grows)
  moreover have "transmitted ?seen segment" by (simp add: transmitted_def)
  ultimately have sent: "stack_good ok (64 + n) (transmitted ?seen) (fst (send_datagram s d segment now))" for d
    by (rule send_datagram_keeps) (use len in simp)
  obtain s' st where sd: "send_datagram s (op_peer_custom_ip (rn_options rt)) segment now = (s', st)" by fastforce
  have "fst ctx' = s' \<and> events (snd ctx') = events rt"
    using t rd sd by (auto simp: custom_transmit_def events_def split: if_splits)
  then show ?thesis
    using sent [of "op_peer_custom_ip (rn_options rt)"] sd by (cases ctx') (auto simp: note_event_def events_def)
qed

lemma custom_transmit_events:
  assumes "custom_transmit (history_clock clock) ctx segment reason = (ctx', e)"
  shows "ob_events (host_observer ok n) ctx' = ob_events (host_observer ok n) ctx"
proof -
  obtain s rt now where rd: "read_clock (history_clock clock) ctx = ((s, rt), now)" by (metis prod.exhaust)
  have "events (snd ctx') = events rt"
    using assms rd by (auto simp: custom_transmit_def events_def split: if_splits prod.splits)
  then show ?thesis using read_clock_same [OF rd] by (cases ctx; cases ctx') (simp add: same_host_def)
qed

interpretation bench: observed "host_observer ok n" "traced (bench_callbacks (history_clock clock))"
proof
  show "44 \<le> ob_limit (host_observer ok n)" by simp
  show "\<exists>f. ccb_transmit (traced (bench_callbacks (history_clock clock))) = Some f \<and> (\<forall>ctx b r.
      ob_events (host_observer ok n) (fst (f ctx b r)) = ob_events (host_observer ok n) ctx @ [Tx b r] \<and>
      (ob_good (host_observer ok n) ctx \<longrightarrow> length b \<le> ob_limit (host_observer ok n) \<longrightarrow>
        ob_good (host_observer ok n) (fst (f ctx b r))))"
    by (auto simp: traced_def bench_callbacks_def note_event_events custom_transmit_events
        intro!: custom_transmit_good [rotated 2] split: prod.split)
qed (auto simp: traced_def bench_callbacks_def note_event_events same_host_observed [OF custom_receive_same]
    same_host_observed [OF custom_state_same] same_host_observed [OF custom_error_same] intro!: note_event_good)

section \<open>A host\<close>

record 'k host =
  ho_stack :: "byte list list NetworkStack"
  ho_runtime :: "'k history CustomRuntime"
  ho_conn :: "'k host_ctx Impl"
  ho_accepted :: "byte list"

definition new_host ::
  "(byte list list \<Rightarrow> bool) \<Rightarrow> 'k clock \<Rightarrow> EthernetEndpoint \<Rightarrow> Options \<Rightarrow> 'k \<Rightarrow> nat \<Rightarrow> nat \<Rightarrow> 'k host" where
  "new_host ok clock endpoint options k tx rx = \<lparr>
     ho_stack = new_NetworkStack (wire ok) endpoint [] (bench_stack_config options),
     ho_runtime = new_CustomRuntime options (k, []),
     ho_conn = new_Connection tx rx (bench_connection_config options) (traced (bench_callbacks (history_clock clock))),
     ho_accepted = []\<rparr>"

text \<open>
  What happens on a host: the application calls the connection, the stack's timer runs, or the stack is polled
  and captures some of the frames on the other host's link.
\<close>

datatype host_op = Call app_op | Timer u64 | Poll "(nat \<times> CaptureMetadata) list" error_code

definition captured :: "byte list list \<Rightarrow> (nat \<times> CaptureMetadata) list \<Rightarrow> (byte list \<times> CaptureMetadata) list" where
  "captured frames picks = map (\<lambda>(k, md). (frames ! k, md)) (filter (\<lambda>(k, md). k < length frames) picks)"

fun host_step :: "'k clock \<Rightarrow> byte list list \<Rightarrow> host_op \<Rightarrow> 'k host \<Rightarrow> 'k host option" where
  "host_step clock frames (Call a) h =
     (case app_call a (ho_conn h) (ho_stack h, ho_runtime h) of
        (c, (s, rt), p) \<Rightarrow> Some \<lparr>ho_stack = s, ho_runtime = rt, ho_conn = c, ho_accepted = ho_accepted h @ p\<rparr>)"
| "host_step clock frames (Timer now) h = Some (h\<lparr>ho_stack := stack_tick (ho_stack h) now\<rparr>)"
| "host_step clock frames (Poll picks error) h =
     (case stack_poll (user_clock (history_clock clock)) (ho_stack h) (Some (custom_datagram (history_clock clock)))
             (ho_runtime h, Some (ho_conn h)) (captured frames picks, error) of
        ((s, rt, None), e) \<Rightarrow> None
      | ((s, rt, Some c), e) \<Rightarrow> Some (h\<lparr>ho_stack := s, ho_runtime := rt, ho_conn := c\<rparr>))"

fun host_offered :: "host_op \<Rightarrow> nat" where
  "host_offered (Call a) = offered a"
| "host_offered (Timer now) = 0"
| "host_offered (Poll picks error) = 0"

definition host_holds ::
  "(byte list list \<Rightarrow> bool) \<Rightarrow> nat \<Rightarrow> streams \<Rightarrow> byte list list NetworkStack \<times> (byte list list, 'k history) bench_user \<Rightarrow> bool" where
  "host_holds ok n m st \<longleftrightarrow> (case st of (s, rt, connection) \<Rightarrow>
     in_bounded (sm_in m) \<and> (\<exists>c. connection = Some c \<and> conn_inv (host_observer ok n) m c (s, rt)))"

text \<open>The invariant of a connection looks at its context through the observer only.\<close>

lemma conn_inv_context:
  "conn_inv ob m c ctx \<Longrightarrow> ob_events ob ctx' = ob_events ob ctx \<Longrightarrow> ob_good ob ctx' \<Longrightarrow> conn_inv ob m c ctx'"
  by (simp add: conn_inv_def)

lemma conn_inv_good: "conn_inv ob m c ctx \<Longrightarrow> ob_good ob ctx"
  by (simp add: conn_inv_def)

lemma conn_inv_same_host:
  assumes "conn_inv (host_observer ok n) m c ctx" "same_host ctx ctx'"
  shows "conn_inv (host_observer ok n) m c ctx'"
  by (rule conn_inv_context [OF assms(1)])
     (use same_host_observed [OF assms(2)] conn_inv_good [OF assms(1)] in simp_all)

lemma custom_datagram_keeps:
  assumes h: "host_holds ok n m (s, rt, connection)" and seg: "in_carries (sm_irs m) (sm_in m) payload"
  shows "host_holds ok n m (custom_datagram (history_clock clock) (s, rt, connection) source payload md)"
proof -
  obtain c where c: "connection = Some c" "in_bounded (sm_in m)" "conn_inv (host_observer ok n) m c (s, rt)"
    using h by (auto simp: host_holds_def)
  define rt1 where "rt1 = (if cm_capture_timestamp_ns md \<noteq> 0
    then rt\<lparr>rn_bpf_rx_timestamps := rn_bpf_rx_timestamps rt + 1\<rparr> else rt)"
  obtain ctx now where rd: "read_clock (history_clock clock) (s, rt1) = (ctx, now)" by fastforce
  have "same_host (s, rt) (s, rt1)" by (simp add: same_host_def rt1_def events_def)
  then have "conn_inv (host_observer ok n) m c ctx"
    by (intro conn_inv_same_host [OF conn_inv_same_host [OF c(3)] read_clock_same [OF rd]])
  from on_segment_inv [OF this c(2) seg, of now]
  obtain c' s' rt' b where "cn_on_segment c ctx payload now = Some (c', (s', rt'), b)" "conn_inv (host_observer ok n) m c' (s', rt')"
    by auto
  then show ?thesis
    using c(1,2) rd by (cases ctx) (simp add: custom_datagram_def host_holds_def rt1_def [symmetric] Let_def)
qed

interpretation datagrams: datagram_user ok "64 + n" "\<lambda>u. transmitted (events (fst u))" "in_carries (sm_irs m) (sm_in m)"
  "host_holds ok n m" "user_clock (history_clock (clock :: 'k clock))" "custom_datagram (history_clock clock)"
proof
  fix s s' and u :: "(byte list list, 'k history) bench_user" and payload source metadata
  obtain rt connection where u: "u = (rt, connection)" by fastforce
  assume h: "host_holds ok n m (s, u)"
  then obtain c where c: "connection = Some c" "in_bounded (sm_in m)" "conn_inv (host_observer ok n) m c (s, rt)"
    by (auto simp: host_holds_def u)
  show "stack_good ok (64 + n) (transmitted (events (fst u))) s" using conn_inv_good [OF c(3)] by (simp add: u)
  show "host_holds ok n m (s', u)" if "stack_good ok (64 + n) (transmitted (events (fst u))) s'"
    using conn_inv_context [OF c(3), of "(s', rt)"] that c(1,2) by (simp add: host_holds_def u)
  show "host_holds ok n m (s, fst (user_clock (history_clock clock) u))"
  proof -
    obtain h v where hv: "history_clock clock (rn_clock rt) = (h, v)" by fastforce
    then have "same_host (s, rt) (s, rt\<lparr>rn_clock := h\<rparr>)"
      by (auto simp: same_host_def events_def history_clock_def split: prod.splits)
    from conn_inv_same_host [OF c(3) this] show ?thesis
      using c(1,2) hv by (simp add: user_clock_def host_holds_def u)
  qed
  show "host_holds ok n m (custom_datagram (history_clock clock) (s, u) source payload metadata)"
    if "in_carries (sm_irs m) (sm_in m) payload"
    using custom_datagram_keeps [OF h [unfolded u] that] by (simp add: u)
qed

section \<open>The invariant of a host\<close>

definition host_streams :: "u32 \<Rightarrow> u32 \<Rightarrow> byte list \<Rightarrow> 'k host \<Rightarrow> streams" where
  "host_streams iss irs R h = \<lparr>sm_iss = iss, sm_out = ho_accepted h, sm_irs = irs, sm_in = Some R\<rparr>"

definition host_inv :: "(byte list list \<Rightarrow> bool) \<Rightarrow> nat \<Rightarrow> u32 \<Rightarrow> u32 \<Rightarrow> byte list \<Rightarrow> 'k host \<Rightarrow> bool" where
  "host_inv ok n iss irs R h \<longleftrightarrow>
     conn_inv (host_observer ok n) (host_streams iss irs R h) (ho_conn h) (ho_stack h, ho_runtime h)"

abbreviation frames_of :: "'k host \<Rightarrow> byte list list" where
  "frames_of h \<equiv> sc_link (ns_ctx (ho_stack h))"

lemma host_streams_simps [simp]:
  "sm_irs (host_streams iss irs R h) = irs" "sm_in (host_streams iss irs R h) = Some R"
  "sm_iss (host_streams iss irs R h) = iss" "sm_out (host_streams iss irs R h) = ho_accepted h"
  by (simp_all add: host_streams_def)

lemma host_frames:
  assumes "host_inv ok n iss irs R h" "f \<in> set (frames_of h)"
  shows "frame_carries (carries iss (ho_accepted h)) f"
proof -
  have "stack_good ok (64 + n) (transmitted (events (ho_runtime h))) (ho_stack h)"
    and sent: "sent_ok iss (ho_accepted h) (events (ho_runtime h))"
    using assms(1) by (simp_all add: host_inv_def conn_inv_def)
  then have "frame_carries (transmitted (events (ho_runtime h))) f" using stack_good_frames [OF _ assms(2)] by blast
  then show ?thesis by (rule frame_carries_mono) (simp add: transmitted_def sent_by_ok [OF sent])
qed

lemma host_inv_peer: "host_inv ok n iss irs R h \<Longrightarrow> host_inv ok n iss irs (R @ T) h"
  unfolding host_inv_def by (drule conn_inv_append [where T = T]) (simp_all add: host_streams_def)

lemma host_step_inv:
  assumes inv: "host_inv ok n iss irs R h" and len: "length R < 2 ^ 32"
    and frames: "\<And>f. f \<in> set frames \<Longrightarrow> frame_carries (carries irs R) f"
  shows "\<exists>h' T. host_step clock frames a h = Some h' \<and> host_inv ok n iss irs R h' \<and>
    ho_accepted h' = ho_accepted h @ T \<and> length T \<le> host_offered a"
proof (cases a)
  case (Call b)
  obtain c s rt p where s: "app_call b (ho_conn h) (ho_stack h, ho_runtime h) = (c, (s, rt), p)" by (metis prod.exhaust)
  show ?thesis
    using app_call_inv [OF inv [unfolded host_inv_def] s] app_call_offered [OF s] s Call
    by (simp add: host_inv_def host_streams_def)
next
  case (Timer now)
  have "stack_good ok (64 + n) (transmitted (events (ho_runtime h))) (stack_tick (ho_stack h) now)"
    by (rule stack_tick_keeps) (use conn_inv_good [OF inv [unfolded host_inv_def]] in simp)
  then have "host_inv ok n iss irs R (h\<lparr>ho_stack := stack_tick (ho_stack h) now\<rparr>)"
    using conn_inv_context [OF inv [unfolded host_inv_def], of "(stack_tick (ho_stack h) now, ho_runtime h)"]
    by (simp add: host_inv_def host_streams_def)
  then show ?thesis using Timer by simp
next
  case (Poll picks e)
  let ?m = "host_streams iss irs R h"
  obtain s rt connection e' where p: "stack_poll (user_clock (history_clock clock)) (ho_stack h)
      (Some (custom_datagram (history_clock clock))) (ho_runtime h, Some (ho_conn h)) (captured frames picks, e)
    = ((s, rt, connection), e')" by (metis prod.exhaust)
  have "host_holds ok n ?m (ho_stack h, (ho_runtime h, Some (ho_conn h)))"
    using inv len by (simp add: host_holds_def host_inv_def in_bounded_def)
  moreover have "frame_carries (in_carries (sm_irs ?m) (sm_in ?m)) (fst c)" if "c \<in> set (captured frames picks)" for c
    using that frames by (auto simp: captured_def in_carries_def [abs_def])
  ultimately have "host_holds ok n ?m (s, rt, connection)"
    using datagrams.poll_keeps [of ok n ?m "ho_stack h" "(ho_runtime h, Some (ho_conn h))" "(captured frames picks, e)" clock] p
    by simp
  then show ?thesis
    using Poll p by (auto simp: host_holds_def host_inv_def host_streams_def)
qed

section \<open>Two hosts\<close>

datatype hosts_op = On_A host_op | On_B host_op

fun hosts_step :: "'k clock \<Rightarrow> 'k clock \<Rightarrow> hosts_op \<Rightarrow> 'k host \<times> 'k host \<Rightarrow> ('k host \<times> 'k host) option" where
  "hosts_step clA clB (On_A a) (A, B) = map_option (\<lambda>A. (A, B)) (host_step clA (frames_of B) a A)"
| "hosts_step clA clB (On_B b) (A, B) = map_option (\<lambda>B. (A, B)) (host_step clB (frames_of A) b B)"

fun hosts_run :: "'k clock \<Rightarrow> 'k clock \<Rightarrow> hosts_op list \<Rightarrow> 'k host \<times> 'k host \<Rightarrow> ('k host \<times> 'k host) option" where
  "hosts_run clA clB [] st = Some st"
| "hosts_run clA clB (s # ss) st = (case hosts_step clA clB s st of None \<Rightarrow> None | Some st \<Rightarrow> hosts_run clA clB ss st)"

fun hosts_offered_A :: "hosts_op list \<Rightarrow> nat" where
  "hosts_offered_A [] = 0"
| "hosts_offered_A (On_A a # ss) = host_offered a + hosts_offered_A ss"
| "hosts_offered_A (On_B b # ss) = hosts_offered_A ss"

fun hosts_offered_B :: "hosts_op list \<Rightarrow> nat" where
  "hosts_offered_B [] = 0"
| "hosts_offered_B (On_B b # ss) = host_offered b + hosts_offered_B ss"
| "hosts_offered_B (On_A a # ss) = hosts_offered_B ss"

definition hosts_inv where
  "hosts_inv okA okB n isA isB st \<longleftrightarrow> (case st of (A, B) \<Rightarrow>
     host_inv okA n isA isB (ho_accepted B) A \<and> host_inv okB n isB isA (ho_accepted A) B)"

lemma hosts_run_inv:
  "hosts_inv okA okB n isA isB (A, B) \<Longrightarrow> length (ho_accepted A) + hosts_offered_A ops < 2 ^ 32 \<Longrightarrow>
   length (ho_accepted B) + hosts_offered_B ops < 2 ^ 32 \<Longrightarrow>
   \<exists>A' B'. hosts_run clA clB ops (A, B) = Some (A', B') \<and> hosts_inv okA okB n isA isB (A', B')"
proof (induction ops arbitrary: A B)
  case (Cons s ops)
  have A: "host_inv okA n isA isB (ho_accepted B) A" and B: "host_inv okB n isB isA (ho_accepted A) B"
    using Cons.prems(1) by (simp_all add: hosts_inv_def)
  have len: "length (ho_accepted A) < 2 ^ 32" "length (ho_accepted B) < 2 ^ 32" using Cons.prems(2,3) by auto
  show ?case
  proof (cases s)
    case (On_A a)
    obtain A1 T where 1: "host_step clA (frames_of B) a A = Some A1" "host_inv okA n isA isB (ho_accepted B) A1"
        "ho_accepted A1 = ho_accepted A @ T" "length T \<le> host_offered a"
      using host_step_inv [OF A len(2) host_frames [OF B], of "frames_of B" clA a] by auto
    then have "hosts_inv okA okB n isA isB (A1, B)" using host_inv_peer [OF B] by (simp add: hosts_inv_def)
    then show ?thesis using Cons.IH [of A1 B] Cons.prems(2,3) 1 On_A by simp
  next
    case (On_B b)
    obtain B1 T where 1: "host_step clB (frames_of A) b B = Some B1" "host_inv okB n isB isA (ho_accepted A) B1"
        "ho_accepted B1 = ho_accepted B @ T" "length T \<le> host_offered b"
      using host_step_inv [OF B len(1) host_frames [OF A], of "frames_of A" clB b] by auto
    then have "hosts_inv okA okB n isA isB (A, B1)" using host_inv_peer [OF A] by (simp add: hosts_inv_def)
    then show ?thesis using Cons.IH [of A B1] Cons.prems(2,3) 1 On_B by simp
  qed
qed simp

text \<open>The benchmark's configuration: the sequence numbers start alike, and the payloads fit the MTU.\<close>

definition host_fits :: "nat \<Rightarrow> EthernetEndpoint \<Rightarrow> Options \<Rightarrow> nat \<Rightarrow> nat \<Rightarrow> bool" where
  "host_fits n endpoint options tx rx \<longleftrightarrow> endpoint_ok endpoint \<and> unat (ii_mtu (ee_info endpoint)) = 64 + n \<and>
     0 < op_payload_bytes options \<and> op_payload_bytes options \<le> min n 2004 \<and>
     pool_placed tx 4096 \<and> pool_placed rx 1024"

lemma new_host_inv:
  assumes fits: "host_fits n endpoint options tx rx"
  shows "host_inv ok n 0 0 R (new_host ok clock endpoint options k tx rx)"
proof -
  let ?cfg = "bench_connection_config options"
  have p: "unat (of_nat (op_payload_bytes options) :: u32) = op_payload_bytes options"
    using fits by (simp add: host_fits_def unat_of_nat take_bit_nat_eq_self)
  then have "(of_nat (op_payload_bytes options) :: u32) \<noteq> 0" using fits by (auto simp: host_fits_def)
  then have "unat (cf_maximum_segment_payload_bytes (clamp_config ?cfg)) = op_payload_bytes options"
    using fits p by (simp add: clamp_config_def bench_connection_config_def Let_def kPacketBufferBytes_def host_fits_def)
  then have lim: "44 + unat (cf_maximum_segment_payload_bytes (clamp_config ?cfg)) \<le> ob_limit (host_observer ok n)"
    using fits by (simp add: host_fits_def)
  have "stack_good ok (64 + n) P (new_NetworkStack (wire ok) endpoint [] (bench_stack_config options))" for P
    by (rule stack_good_new) (use fits in \<open>simp_all add: host_fits_def\<close>)
  then show ?thesis
    using new_Connection_inv [OF bench.observed_axioms [where clock = clock] _ _ lim, where R = "Some R" and tx = tx and rx = rx
        and ctx = "(new_NetworkStack (wire ok) endpoint [] (bench_stack_config options), new_CustomRuntime options (k, []))"] fits
    by (simp add: host_inv_def host_streams_def new_host_def events_def new_CustomRuntime_def host_fits_def
        bench_connection_config_def default_ConnectionConfig_def)
qed

lemma hosts_run_new:
  assumes "host_fits n ea oa ta ra" "host_fits n eb ob tb rb" "hosts_offered_A ops < 2 ^ 32" "hosts_offered_B ops < 2 ^ 32"
  shows "\<exists>A B. hosts_run clA clB ops (new_host okA clA ea oa ka ta ra, new_host okB clB eb ob kb tb rb) = Some (A, B) \<and>
    hosts_inv okA okB n 0 0 (A, B)"
proof -
  let ?A = "new_host okA clA ea oa ka ta ra" and ?B = "new_host okB clB eb ob kb tb rb"
  have "hosts_inv okA okB n 0 0 (?A, ?B)"
    by (simp add: hosts_inv_def new_host_inv [OF assms(1)] new_host_inv [OF assms(2)])
  then show ?thesis
    using hosts_run_inv [of okA okB n 0 0 ?A ?B ops clA clB] assms(3,4) by (simp add: new_host_def)
qed

text \<open>The storage that the source declares with a fixed size, as the lists that model it must have it.\<close>

definition sized_pool :: "PacketPool \<Rightarrow> bool" where
  "sized_pool p \<longleftrightarrow> (\<forall>b \<in> held p. length (pb_data (deref p b)) = kPacketBufferBytes)"

definition sized_host :: "'k host \<Rightarrow> bool" where
  "sized_host h \<longleftrightarrow> (let c = ho_conn h; s = ho_stack h; e = sc_endpoint (ns_ctx s) in
     length (cn_control_buffer c) = kMaximumTransportHeaderBytes \<and>
     length (cn_remembered_control_buffer c) = kMaximumTransportHeaderBytes \<and>
     sized_pool (cn_tx_pool c) \<and> sized_pool (cn_rx_pool c) \<and>
     length (ee_tx_buffer e) = max (unat (ii_mtu (ee_info e)) + kEthernetHeaderBytes) kEthernetMinimumFrameBytes \<and>
     list_all (\<lambda>p. length (pf_payload p) = kArpMaximumPendingPayloadBytes) (ar_pending (ns_arp s)) \<and>
     list_all (\<lambda>x. length (ce_hardware x) = 6) (ac_entries (ar_cache (ns_arp s))))"

lemma host_inv_sized:
  assumes "host_inv ok n iss irs R h"
  shows "sized_host h"
proof -
  have "stack_good ok (64 + n) (transmitted (events (ho_runtime h))) (ho_stack h)" "control_ok (ho_conn h)"
      "pool_inv (cn_tx_pool (ho_conn h))" "pool_inv (cn_rx_pool (ho_conn h))"
    using assms by (auto simp: host_inv_def conn_inv_def tx_ok_def rx_ok_def)
  then show ?thesis
    by (auto simp: sized_host_def sized_pool_def Let_def stack_good_def arp_good_def link_good_def control_ok_def
        pending_good_def cache_macs_def list_all_iff held_data_length kArpMaximumPendingPayloadBytes_def
        kEthernetHeaderBytes_def kEthernetMinimumFrameBytes_def)
qed

section \<open>Properties\<close>

text \<open>
  Claim C1. End to end over the whole stack: two hosts run the program's connection over its network stack with
  the callbacks of the benchmark, over links that refuse, lose, duplicate and reorder frames at will, with ARP
  requests, queued frames and timers in between. Whatever the applications do, every step returns, and what each
  connection has delivered to its application is a prefix of what the other's \<open>send\<close> accepted, as long as a
  segment fits the MTU and neither side offers as much as the sequence space.
\<close>

theorem end_to_end_prefix:
  assumes "host_fits n ea oa ta ra" "host_fits n eb ob tb rb" "hosts_offered_A ops < 2 ^ 32" "hosts_offered_B ops < 2 ^ 32"
  shows "\<exists>A B. hosts_run clA clB ops (new_host okA clA ea oa ka ta ra, new_host okB clB eb ob kb tb rb) = Some (A, B) \<and>
    prefix (delivered (events (ho_runtime B))) (ho_accepted A) \<and> prefix (delivered (events (ho_runtime A))) (ho_accepted B)"
proof -
  obtain A B where run: "hosts_run clA clB ops (new_host okA clA ea oa ka ta ra, new_host okB clB eb ob kb tb rb) = Some (A, B)"
      and inv: "hosts_inv okA okB n 0 0 (A, B)"
    using hosts_run_new [OF assms, of clA clB okA ka okB kb] by blast
  have "prefix (delivered (events (ho_runtime B))) (ho_accepted A)" "prefix (delivered (events (ho_runtime A))) (ho_accepted B)"
    using inv by (auto simp: hosts_inv_def host_inv_def conn_inv_def prefix_ok_def prefix_at_def take_is_prefix)
  with run show ?thesis by blast
qed

definition example_host_endpoint :: "byte \<Rightarrow> EthernetEndpoint" where
  "example_host_endpoint mac = new_EthernetEndpoint \<lparr>ii_mac = [2, 0, 0, 0, 0, mac], ii_mtu = 1500, ii_bpf_buffer_bytes = 0\<rparr>"

definition example_exchange :: "hosts_op list" where
  "example_exchange = [On_A (Call (Connect 1)), On_B (Poll [(0, default_CaptureMetadata)] no_error),
     On_A (Poll [(0, default_CaptureMetadata)] no_error), On_A (Timer 2), On_B (Poll [(1, default_CaptureMetadata), (1, default_CaptureMetadata)] no_error),
     On_A (Call (Send [7, 8, 9] 3)), On_B (Call (Tick 4))]"

lemma example_fits: "host_fits 1436 (example_host_endpoint mac) example_options 64 64"
  by (simp add: host_fits_def example_host_endpoint_def endpoint_ok_def new_EthernetEndpoint_def example_options_def
      default_Options_def pool_placed_def sizeof_PacketBuffer_def kEthernetHeaderBytes_def kEthernetMinimumFrameBytes_def)

theorem end_to_end_prefix_witness:
  "let clock = (\<lambda>c :: int. (c + 1, Some (c, 0))) in
   \<exists>A B. hosts_run clock clock example_exchange
      (new_host (\<lambda>_. True) clock (example_host_endpoint 1) example_options 1 64 64,
       new_host (\<lambda>_. True) clock (example_host_endpoint 2) example_options 1 64 64) = Some (A, B) \<and>
    prefix (delivered (events (ho_runtime B))) (ho_accepted A) \<and> prefix (delivered (events (ho_runtime A))) (ho_accepted B)"
  unfolding Let_def
  by (rule end_to_end_prefix [OF example_fits example_fits]) (simp_all add: example_exchange_def)

text \<open>
  Claim C38. Fixed-size storage keeps its size: in every state that two hosts reach, the transmit buffer of the
  endpoint, the control buffers of the connection, every buffer in use of both pools, the payload arrays of the
  pending frames and the hardware addresses in the cache have the sizes the source declares them with, whatever
  was copied into them.
\<close>

theorem hosts_keep_array_sizes:
  assumes "host_fits n ea oa ta ra" "host_fits n eb ob tb rb" "hosts_offered_A ops < 2 ^ 32" "hosts_offered_B ops < 2 ^ 32"
  shows "\<exists>A B. hosts_run clA clB ops (new_host okA clA ea oa ka ta ra, new_host okB clB eb ob kb tb rb) = Some (A, B) \<and>
    sized_host A \<and> sized_host B"
  using hosts_run_new [OF assms, of clA clB okA ka okB kb] by (auto simp: hosts_inv_def intro: host_inv_sized)

theorem hosts_keep_array_sizes_witness:
  "let clock = (\<lambda>c :: int. (c + 1, Some (c, 0))) in
   \<exists>A B. hosts_run clock clock example_exchange
      (new_host (\<lambda>_. True) clock (example_host_endpoint 1) example_options 1 64 64,
       new_host (\<lambda>_. True) clock (example_host_endpoint 2) example_options 1 64 64) = Some (A, B) \<and>
    sized_host A \<and> sized_host B"
  unfolding Let_def
  by (rule hosts_keep_array_sizes [OF example_fits example_fits]) (simp_all add: example_exchange_def)

end
