(* ===== verification/Packet_Pool_Bench.thy ===== *)
theory Packet_Pool_Bench
  imports Packet_Pool
begin

unbundle bit_operations_syntax

text \<open>
  The allocation benchmark of the packet pool (\<^verbatim>\<open>tools/packet_pool_bench.cpp\<close>): the hot window, which empties and
  refills a batch of buffers 20,000 times, and the verdict of the run. What the allocation interposer counted
  (\<^verbatim>\<open>gate_end\<close>), whether it is loaded and the readings of the clock are arguments; an early return is \<open>Inl\<close> of its exit
  code.
\<close>

definition kBatchSize :: nat where "kBatchSize = 128"
definition kIterations :: nat where "kIterations = 20000"
definition kCounterCount :: nat where "kCounterCount = 8"

definition bench_monotonic_ns :: "(int \<times> int) option \<Rightarrow> u64" where
  "bench_monotonic_ns clock_value =
     (case clock_value of
        None \<Rightarrow> 0
      | Some (sec, nsec) \<Rightarrow>
          if sec < 0 \<or> nsec < 0 then 0 else word_of_int sec * 1000000000 + word_of_int nsec)"

fun acquire_batch ::
  "nat \<Rightarrow> nat list \<Rightarrow> PacketPool \<times> nat list \<times> u64 \<Rightarrow> int + PacketPool \<times> nat list \<times> u64" where
  "acquire_batch iteration [] st = Inr st"
| "acquire_batch iteration (index # rest) (pool, batch, checksum) =
     (case acquire pool of (pool, buffer) \<Rightarrow>
        let batch = batch[index := buffer] in
        if buffer = 0 then Inl 3
        else
          let contents = deref pool buffer;
              first = of_nat (iteration XOR index);
              contents = contents\<lparr>pb_length := 1200, pb_data := (pb_data contents)[0 := first]\<rparr>
          in acquire_batch iteration rest (store pool buffer contents, batch, checksum + ucast (pb_data contents ! 0)))"

fun release_batch :: "nat list \<Rightarrow> PacketPool \<Rightarrow> int + PacketPool" where
  "release_batch [] pool = Inr pool"
| "release_batch (buffer # rest) pool =
     (case release pool buffer of (pool, released) \<Rightarrow> if \<not> released then Inl 4 else release_batch rest pool)"

fun hot_window :: "nat list \<Rightarrow> PacketPool \<times> nat list \<times> u64 \<Rightarrow> int + PacketPool \<times> nat list \<times> u64" where
  "hot_window [] st = Inr st"
| "hot_window (iteration # rest) st =
     (case acquire_batch iteration [0..<kBatchSize] st of
        Inl code \<Rightarrow> Inl code
      | Inr (pool, batch, checksum) \<Rightarrow>
          (case release_batch batch pool of
             Inl code \<Rightarrow> Inl code
           | Inr pool \<Rightarrow> hot_window rest (pool, batch, checksum)))"

record pool_bench_report =
  pr_operations :: nat
  pr_duration_ns :: u64
  pr_total :: u64
  pr_calibration_min :: u64
  pr_statistics :: PacketPoolStatistics
  pr_checksum :: u64

text \<open>\<open>main\<close>, with the exit code and what is printed when the run is over.\<close>

definition pool_bench_main ::
  "bool \<Rightarrow> bool \<Rightarrow> u64 list \<Rightarrow> u64 list \<Rightarrow> (int \<times> int) option \<Rightarrow> (int \<times> int) option \<Rightarrow> nat \<Rightarrow> int \<times> pool_bench_report option" where
  "pool_bench_main interposed exercised calibration counts clock_begin clock_end storage_base =
     (if \<not> interposed then (2, None)
      else
        let pool = new_PacketPool storage_base kDefaultPacketBufferCount;
            batch = replicate kBatchSize 0
        in if \<not> exercised then (5, None)
        else if list_ex (\<lambda>count. count = 0) calibration then (6, None)
        else case hot_window [0..<kIterations] (pool, batch, 0) of
          Inl code \<Rightarrow> (code, None)
        | Inr (pool, batch, checksum) \<Rightarrow>
            let hot_begin_ns = bench_monotonic_ns clock_begin;
                hot_end_ns = bench_monotonic_ns clock_end;
                total = foldl (+) 0 counts;
                duration_ns = (if hot_end_ns \<ge> hot_begin_ns then hot_end_ns - hot_begin_ns else 0)
            in (if total = 0 \<and> pool_available pool = pool_capacity pool then 0 else 1,
                Some \<lparr>pr_operations = kIterations * kBatchSize * 2, pr_duration_ns = duration_ns, pr_total = total,
                      pr_calibration_min = foldl min (hd calibration) (tl calibration),
                      pr_statistics = pool_statistics pool, pr_checksum = checksum\<rparr>))"

section \<open>The hot window returns every buffer\<close>

lemma acquire_statistics:
  assumes "0 < pool_available p" "acquire p = (p', b)"
  shows "pool_statistics p' = (pool_statistics p)\<lparr>st_acquired := st_acquired (pool_statistics p) + 1\<rparr> \<and>
    pool_capacity p' = pool_capacity p"
  using assms by (auto simp: acquire_def Let_def)

lemma release_statistics:
  assumes "release p b = (p', True)"
  shows "pool_statistics p' = (pool_statistics p)\<lparr>st_released := st_released (pool_statistics p) + 1\<rparr> \<and>
    pool_capacity p' = pool_capacity p"
  using assms by (auto simp: release_def split: option.splits if_splits)

lemma store_statistics [simp]: "pool_statistics (store p b x) = pool_statistics p"
  by (simp add: store_def)

lemma acquire_batch_ok:
  "pool_inv p \<Longrightarrow> i \<le> length batch \<Longrightarrow> held p = set (take i batch) \<Longrightarrow> distinct (take i batch) \<Longrightarrow>
   length batch - i \<le> pool_available p \<Longrightarrow>
   \<exists>p' batch' ck'. acquire_batch it [i..<length batch] (p, batch, ck) = Inr (p', batch', ck') \<and> pool_inv p' \<and>
     length batch' = length batch \<and> held p' = set batch' \<and> distinct batch' \<and>
     pool_available p' = pool_available p - (length batch - i) \<and> pool_capacity p' = pool_capacity p \<and>
     pool_statistics p' = (pool_statistics p)\<lparr>st_acquired := st_acquired (pool_statistics p) + of_nat (length batch - i)\<rparr>"
proof (induction "length batch - i" arbitrary: i p batch ck)
  case 0
  then have "i = length batch" by simp
  then show ?case using 0 by (simp add: upt_rec)
next
  case (Suc k)
  have i: "i < length batch" using Suc.hyps(2) by simp
  have av: "0 < pool_available p" using Suc.prems(5) i by linarith
  obtain p1 b where a: "acquire p = (p1, b)" by fastforce
  note A = acquire_correct [OF Suc.prems(1) a av]
  define y where "y = (deref p1 b)\<lparr>pb_length := 1200, pb_data := (pb_data (deref p1 b))[0 := of_nat (it XOR i)]\<rparr>"
  have y: "length (pb_data y) = kPacketBufferBytes" using held_data_length [of p1 b] A by (simp add: y_def)
  let ?p = "store p1 b y" and ?batch = "batch[i := b]"
  have tk: "take (Suc i) ?batch = take i batch @ [b]" using i by (simp add: take_Suc_conv_app_nth)
  have step: "acquire_batch it [i..<length batch] (p, batch, ck) =
      acquire_batch it [Suc i..<length ?batch] (?p, ?batch, ck + ucast (pb_data y ! 0))"
    using i a A by (subst upt_rec) (simp add: y_def Let_def)
  have h: "k = length ?batch - Suc i" "pool_inv ?p" "Suc i \<le> length ?batch" "held ?p = set (take (Suc i) ?batch)"
      "distinct (take (Suc i) ?batch)" "length ?batch - Suc i \<le> pool_available ?p"
    using Suc.hyps(2) Suc.prems(3-5) A i tk pool_inv_store [OF _ y] by auto
  obtain p' batch' ck' where "acquire_batch it [Suc i..<length ?batch] (?p, ?batch, ck + ucast (pb_data y ! 0)) = Inr (p', batch', ck')"
      "pool_inv p'" "length batch' = length ?batch" "held p' = set batch'" "distinct batch'"
      "pool_available p' = pool_available ?p - (length ?batch - Suc i)" "pool_capacity p' = pool_capacity ?p"
      "pool_statistics p' = (pool_statistics ?p)\<lparr>st_acquired := st_acquired (pool_statistics ?p) + of_nat (length ?batch - Suc i)\<rparr>"
    using Suc.hyps(1) [OF h, of "ck + ucast (pb_data y ! 0)"] by blast
  moreover have "length batch - i = Suc (length batch - Suc i)" using i by simp
  ultimately show ?case using step A acquire_statistics [OF av a] i by (simp add: algebra_simps)
qed

lemma release_batch_ok:
  "pool_inv p \<Longrightarrow> distinct bs \<Longrightarrow> set bs \<subseteq> held p \<Longrightarrow>
   \<exists>p'. release_batch bs p = Inr p' \<and> pool_inv p' \<and> held p' = held p - set bs \<and>
     pool_available p' = pool_available p + length bs \<and> pool_capacity p' = pool_capacity p \<and>
     pool_statistics p' = (pool_statistics p)\<lparr>st_released := st_released (pool_statistics p) + of_nat (length bs)\<rparr>"
proof (induction bs arbitrary: p)
  case (Cons b bs)
  obtain p1 r where rel: "release p b = (p1, r)" by fastforce
  have R: "r" "pool_inv p1" "held p1 = held p - {b}" "pool_available p1 = pool_available p + 1"
    using release_correct [OF Cons.prems(1) _ rel] Cons.prems(3) by auto
  have "set bs \<subseteq> held p1" using Cons.prems(2,3) R(3) by auto
  then obtain p' where "release_batch bs p1 = Inr p'" "pool_inv p'" "held p' = held p1 - set bs"
      "pool_available p' = pool_available p1 + length bs" "pool_capacity p' = pool_capacity p1"
      "pool_statistics p' = (pool_statistics p1)\<lparr>st_released := st_released (pool_statistics p1) + of_nat (length bs)\<rparr>"
    using Cons.IH [OF R(2)] Cons.prems(2) by auto
  then show ?case using rel R release_statistics [of p b p1] by (auto simp: algebra_simps)
qed simp

text \<open>The state between two iterations: no buffer is out and the counters agree.\<close>

definition between :: "nat \<Rightarrow> nat \<Rightarrow> PacketPool \<Rightarrow> nat list \<Rightarrow> bool" where
  "between capacity n p batch \<longleftrightarrow> pool_inv p \<and> held p = {} \<and> pool_available p = capacity \<and> pool_capacity p = capacity \<and>
     length batch = kBatchSize \<and> pool_statistics p =
       \<lparr>st_acquired = of_nat (n * kBatchSize), st_released = of_nat (n * kBatchSize), st_exhausted = 0, st_invalid_release = 0\<rparr>"

lemma hot_iteration_ok:
  assumes b: "between capacity n p batch" and cap: "kBatchSize \<le> capacity"
  shows "\<exists>p1 p2 batch' ck'. acquire_batch it [0..<kBatchSize] (p, batch, ck) = Inr (p1, batch', ck') \<and>
    release_batch batch' p1 = Inr p2 \<and> between capacity (Suc n) p2 batch'"
proof -
  have len: "length batch = kBatchSize" using b by (simp add: between_def)
  obtain p1 batch' ck' where a: "acquire_batch it [0..<kBatchSize] (p, batch, ck) = Inr (p1, batch', ck')" "pool_inv p1"
      "length batch' = kBatchSize" "held p1 = set batch'" "distinct batch'" "pool_available p1 = capacity - kBatchSize"
      "pool_capacity p1 = capacity"
      "pool_statistics p1 = (pool_statistics p)\<lparr>st_acquired := st_acquired (pool_statistics p) + of_nat kBatchSize\<rparr>"
    using acquire_batch_ok [of p 0 batch it ck] b cap unfolding len by (auto simp: between_def)
  obtain p2 where r: "release_batch batch' p1 = Inr p2" "pool_inv p2" "held p2 = {}" "pool_available p2 = capacity"
      "pool_capacity p2 = capacity"
      "pool_statistics p2 = (pool_statistics p1)\<lparr>st_released := st_released (pool_statistics p1) + of_nat kBatchSize\<rparr>"
    using release_batch_ok [OF a(2,5)] a(3-7) cap by auto
  have "between capacity (Suc n) p2 batch'" using b a r by (simp add: between_def algebra_simps)
  then show ?thesis using a(1) r(1) by blast
qed

lemma hot_window_ok:
  assumes "kBatchSize \<le> capacity"
  shows "between capacity n p batch \<Longrightarrow>
    \<exists>p' batch' ck'. hot_window its (p, batch, ck) = Inr (p', batch', ck') \<and> between capacity (n + length its) p' batch'"
proof (induction its arbitrary: n p batch ck)
  case (Cons it its)
  show ?case
    using hot_iteration_ok [OF Cons.prems assms, of it ck] Cons.IH [of "Suc n"] by fastforce
qed auto

text \<open>
  The benchmark's verdict is about allocations only: with the interposer loaded and calibrated, the run
  neither exhausts the pool nor fails a release (exit codes 3 and 4 cannot occur), acquires and releases
  2,560,000 buffers each, and exits with 0 exactly when the counters of the hot window add up to zero.
\<close>

theorem pool_bench_verdict:
  assumes "pool_placed base kDefaultPacketBufferCount" "list_all (\<lambda>count. count \<noteq> 0) calibration"
  shows "\<exists>report. pool_bench_main True True calibration counts t0 t1 base =
      (if foldl (+) 0 counts = 0 then 0 else 1, Some report) \<and>
    pr_statistics report = \<lparr>st_acquired = 2560000, st_released = 2560000, st_exhausted = 0, st_invalid_release = 0\<rparr>"
proof -
  let ?p = "new_PacketPool base kDefaultPacketBufferCount"
  have "between kDefaultPacketBufferCount 0 ?p (replicate kBatchSize 0)"
    using new_PacketPool_inv [OF assms(1)] by (simp add: between_def) (simp add: new_PacketPool_def)
  moreover have "kBatchSize \<le> kDefaultPacketBufferCount" by (simp add: kBatchSize_def kDefaultPacketBufferCount_def)
  ultimately obtain p batch ck where "hot_window [0..<kIterations] (?p, replicate kBatchSize 0, 0) = Inr (p, batch, ck)"
      and b: "between kDefaultPacketBufferCount kIterations p batch"
    using hot_window_ok [of kDefaultPacketBufferCount 0 ?p "replicate kBatchSize 0" "[0..<kIterations]" 0] by auto
  moreover have "pool_statistics p = \<lparr>st_acquired = 2560000, st_released = 2560000, st_exhausted = 0, st_invalid_release = 0\<rparr>"
    using b by (simp add: between_def kIterations_def kBatchSize_def)
  ultimately show ?thesis
    using assms(2) b by (auto simp: pool_bench_main_def Let_def between_def list_ex_iff list_all_iff)
qed

theorem pool_bench_verdict_witness:
  "\<exists>report. pool_bench_main True True [1, 2, 1, 3, 1, 1, 1, 1] [0, 0, 0, 0, 0, 0, 0, 0] (Some (1, 0)) (Some (2, 0)) 4096 = (0, Some report) \<and>
    pr_statistics report = \<lparr>st_acquired = 2560000, st_released = 2560000, st_exhausted = 0, st_invalid_release = 0\<rparr>"
  using pool_bench_verdict [of 4096 "[1, 2, 1, 3, 1, 1, 1, 1]" "[0, 0, 0, 0, 0, 0, 0, 0]" "Some (1, 0)" "Some (2, 0)"]
  by (simp add: pool_placed_def kDefaultPacketBufferCount_def sizeof_PacketBuffer_def)

end
