(* ===== verification/Fragment_Probe.thy ===== *)
theory Fragment_Probe
  imports Fragmentation
begin

unbundle bit_operations_syntax

text \<open>
  The fragment probe (\<^verbatim>\<open>tools/fragment_probe.cpp\<close>): it fragments a datagram of 4000 bytes for an MTU of 1500 and writes
  the packets to a capture file, for another implementation to read.

  The file is a stream of bytes with its failure state; \<open>disk\<close>, an argument, tells which writes succeed. The arguments
  of \<open>main\<close> are the number of command-line arguments, whether the file could be opened and the reading of the clock.
\<close>

record ofstream =
  os_bytes :: "byte list"
  os_failed :: bool

type_synonym disk = "byte list \<Rightarrow> byte list \<Rightarrow> bool"

definition os_write :: "disk \<Rightarrow> ofstream \<Rightarrow> byte list \<Rightarrow> ofstream" where
  "os_write disk out bytes =
     (if os_failed out then out
      else if disk (os_bytes out) bytes then out\<lparr>os_bytes := os_bytes out @ bytes\<rparr>
      else out\<lparr>os_failed := True\<rparr>)"

definition write_le16 :: "byte list \<Rightarrow> nat \<Rightarrow> u16 \<Rightarrow> byte list" where
  "write_le16 output off value = output[off := ucast (value AND 0xFF), off + 1 := ucast (drop_bit 8 value AND 0xFF)]"

definition write_le32 :: "byte list \<Rightarrow> nat \<Rightarrow> u32 \<Rightarrow> byte list" where
  "write_le32 output off value = output[off := ucast (value AND 0xFF), off + 1 := ucast (drop_bit 8 value AND 0xFF),
     off + 2 := ucast (drop_bit 16 value AND 0xFF), off + 3 := ucast (drop_bit 24 value AND 0xFF)]"

record CaptureContext =
  cx_output :: ofstream
  cx_seconds :: u32
  cx_microseconds :: u32
  cx_sizes :: "nat list"
  cx_offsets :: "u16 list"
  cx_count :: nat
  cx_failed :: bool

definition write_fragment :: "disk \<Rightarrow> CaptureContext packet_callback" where
  "write_fragment disk context packet =
     (if cx_count context \<ge> length (cx_sizes context) \<or> length packet > 2 ^ 32 - 1
      then (context\<lparr>cx_failed := True\<rparr>, False)
      else case parse_ipv4_packet packet of (status, parsed) \<Rightarrow>
        if status \<noteq> ip_ok then (context\<lparr>cx_failed := True\<rparr>, False)
        else
          let rec = replicate 16 0;
              rec = write_le32 rec 0 (cx_seconds context);
              rec = write_le32 rec 4 (cx_microseconds context + of_nat (cx_count context));
              rec = write_le32 rec 8 (of_nat (length packet));
              rec = write_le32 rec 12 (of_nat (length packet));
              out = os_write disk (cx_output context) rec;
              out = os_write disk out packet;
              context = context\<lparr>cx_output := out\<rparr>
          in if os_failed out then (context\<lparr>cx_failed := True\<rparr>, False)
             else (context\<lparr>cx_sizes := (cx_sizes context)[cx_count context := length packet],
                           cx_offsets := (cx_offsets context)[cx_count context :=
                             ip_flags_fragment_offset (pv_header parsed) AND kIpv4FragmentOffsetMask],
                           cx_count := cx_count context + 1\<rparr>, True))"

definition write_global_header :: "disk \<Rightarrow> ofstream \<Rightarrow> ofstream \<times> bool" where
  "write_global_header disk out =
     (let header = replicate 24 0;
          header = write_le32 header 0 0xA1B2C3D4;
          header = write_le16 header 4 2;
          header = write_le16 header 6 4;
          header = write_le32 header 16 65535;
          header = write_le32 header 20 12;
          out = os_write disk out header
      in (out, \<not> os_failed out))"

definition probe_payload :: "byte list" where
  "probe_payload = map (\<lambda>index. of_nat index) [0..<4000]"

definition probe_header :: Ipv4Header where
  "probe_header = default_Ipv4Header\<lparr>ip_identification := 0x1234, ip_ttl := kVectorNetTtl,
     ip_protocol := kVectorNetProtocol, ip_source := 0xC6130001, ip_destination := 0xC6130002\<rparr>"

text \<open>The exit code and, when the probe gets that far, the context it prints from.\<close>

definition fragment_probe_main ::
  "disk \<Rightarrow> nat \<Rightarrow> bool \<Rightarrow> (int \<times> int) option \<Rightarrow> int \<times> CaptureContext option" where
  "fragment_probe_main disk argc opened clock_value =
     (if argc \<noteq> 2 then (64, None)
      else if \<not> opened then (1, None)
      else case write_global_header disk \<lparr>os_bytes = [], os_failed = False\<rparr> of (out, written) \<Rightarrow>
        if \<not> written then (1, None)
        else case clock_value of
          None \<Rightarrow> (1, None)
        | Some (sec, nsec) \<Rightarrow>
            if sec < 0 \<or> nsec < 0 then (1, None)
            else
              let context = \<lparr>cx_output = out, cx_seconds = word_of_int sec, cx_microseconds = word_of_int (nsec div 1000),
                    cx_sizes = replicate 8 0, cx_offsets = replicate 8 0, cx_count = 0, cx_failed = False\<rparr>;
                  (status, scratch, context) = fragment_ipv4_payload probe_header probe_payload 1500 (replicate 1500 0)
                    (Some (write_fragment disk)) context
              in if status \<noteq> ip_ok \<or> cx_failed context \<or> cx_count context \<noteq> 3 then (1, Some context)
                 else (0, Some context))"

section \<open>A reader of capture files\<close>

definition pcap_u32 :: "byte list \<Rightarrow> nat \<Rightarrow> nat" where
  "pcap_u32 bs i = unat (bs ! i) + 256 * unat (bs ! (i + 1)) + 65536 * unat (bs ! (i + 2)) + 16777216 * unat (bs ! (i + 3))"

definition pcap_u16 :: "byte list \<Rightarrow> nat \<Rightarrow> nat" where
  "pcap_u16 bs i = unat (bs ! i) + 256 * unat (bs ! (i + 1))"

record pcap_entry =
  pe_seconds :: nat
  pe_microseconds :: nat
  pe_original_length :: nat
  pe_packet :: "byte list"

text \<open>The records that follow the header, none of them longer than the snapshot length.\<close>

function pcap_records :: "nat \<Rightarrow> byte list \<Rightarrow> pcap_entry list option" where
  "pcap_records snaplen bs =
     (if bs = [] then Some []
      else if length bs < 16 then None
      else
        let n = pcap_u32 bs 8 in
        if length bs < 16 + n \<or> snaplen < n then None
        else map_option (Cons \<lparr>pe_seconds = pcap_u32 bs 0, pe_microseconds = pcap_u32 bs 4,
               pe_original_length = pcap_u32 bs 12, pe_packet = take n (drop 16 bs)\<rparr>)
               (pcap_records snaplen (drop (16 + n) bs)))"
  by pat_completeness auto
termination
  by (relation "measure (\<lambda>(snaplen, bs). length bs)") auto

declare pcap_records.simps [simp del]

record pcap_capture =
  pc_zone :: nat
  pc_accuracy :: nat
  pc_snaplen :: nat
  pc_linktype :: nat
  pc_entries :: "pcap_entry list"

text \<open>
  A capture file in little-endian order: the magic number of a file with microseconds, the version 2.4, the time zone
  and the accuracy of the clock, the snapshot length, the link type, and the records.
\<close>

definition pcap_file :: "byte list \<Rightarrow> pcap_capture option" where
  "pcap_file bs =
     (if length bs < 24 \<or> pcap_u32 bs 0 \<noteq> 0xA1B2C3D4 \<or> pcap_u16 bs 4 \<noteq> 2 \<or> pcap_u16 bs 6 \<noteq> 4 then None
      else map_option (\<lambda>entries. \<lparr>pc_zone = pcap_u32 bs 8, pc_accuracy = pcap_u32 bs 12, pc_snaplen = pcap_u32 bs 16,
             pc_linktype = pcap_u32 bs 20, pc_entries = entries\<rparr>) (pcap_records (pcap_u32 bs 16) (drop 24 bs)))"

lemma le_bytes:
  fixes x :: u32
  shows "unat (ucast (x AND 0xFF) :: byte) + 256 * unat (ucast (drop_bit 8 x AND 0xFF) :: byte) +
    65536 * unat (ucast (drop_bit 16 x AND 0xFF) :: byte) + 16777216 * unat (ucast (drop_bit 24 x AND 0xFF) :: byte) = unat x"
proof -
  have byte: "unat (ucast (y AND 0xFF) :: byte) = unat y mod 256" for y :: u32
  proof -
    have "y AND 0xFF = take_bit 8 y" by (simp add: take_bit_eq_mask mask_eq_exp_minus_1)
    then show ?thesis by (simp only: unsigned_ucast_eq unsigned_take_bit_eq) (simp add: take_bit_eq_mod)
  qed
  have d: "unat (drop_bit k x) = unat x div 2 ^ k" for k by (simp only: unsigned_drop_bit_eq) (simp add: take_bit_nat_eq_self [OF unat_u32_bound] drop_bit_eq_div)
  define q a b c where "q = unat x" and "a = q div 256" and "b = a div 256" and "c = b div 256"
  have digits: "q0 + 256 * a0 + 65536 * b0 + 16777216 * c = q" if "q = 256 * a + q0" "a = 256 * b + a0" "b = 256 * c + b0"
    for q a b c q0 a0 b0 :: nat using that by simp
  have "c < 256" using unat_u32_bound [of x] by (simp add: q_def a_def b_def c_def div_mult2_eq [symmetric])
  then have "c mod 256 = c" by simp
  moreover have "q mod 256 + 256 * (a mod 256) + 65536 * (b mod 256) + 16777216 * c = q"
    by (rule digits) (simp_all add: a_def b_def c_def)
  moreover have "unat x div 2 ^ 8 = a" "unat x div 2 ^ 16 = b" "unat x div 2 ^ 24 = c"
    by (simp_all add: q_def a_def b_def c_def div_mult2_eq [symmetric])
  ultimately show ?thesis by (simp only: byte d q_def)
qed

definition pcap_record :: "u32 \<Rightarrow> u32 \<Rightarrow> byte list \<Rightarrow> byte list" where
  "pcap_record seconds microseconds packet =
     write_le32 (write_le32 (write_le32 (write_le32 (replicate 16 0) 0 seconds) 4 microseconds) 8 (of_nat (length packet)))
       12 (of_nat (length packet)) @ packet"

lemma length_write_le [simp]: "length (write_le32 out i x) = length out" "length (write_le16 out i y) = length out"
  by (simp_all add: write_le32_def write_le16_def)

definition pcap_entry_of :: "u32 \<Rightarrow> u32 \<Rightarrow> byte list \<Rightarrow> pcap_entry" where
  "pcap_entry_of s u packet = \<lparr>pe_seconds = unat s, pe_microseconds = unat u, pe_original_length = length packet,
     pe_packet = packet\<rparr>"

lemma pcap_records_record:
  assumes "length packet \<le> snaplen" "snaplen < 2 ^ 32"
  shows "pcap_records snaplen (pcap_record s u packet @ rest) =
    map_option (Cons (pcap_entry_of s u packet)) (pcap_records snaplen rest)"
proof -
  let ?bs = "pcap_record s u packet @ rest"
  have u: "unat (of_nat (length packet) :: u32) = length packet" using assms by (simp add: unat_of_nat take_bit_nat_eq_self)
  have le: "pcap_u32 ?bs 0 = unat s" "pcap_u32 ?bs 4 = unat u"
    "pcap_u32 ?bs 8 = unat (of_nat (length packet) :: u32)" "pcap_u32 ?bs 12 = unat (of_nat (length packet) :: u32)"
    unfolding le_bytes [symmetric] by (simp_all add: pcap_u32_def pcap_record_def write_le32_def nth_append)
  have "drop 16 ?bs = packet @ rest" "length ?bs = 16 + length packet + length rest" by (simp_all add: pcap_record_def)
  moreover have "drop (16 + length packet) ?bs = drop (length packet) (drop 16 ?bs)" by (simp only: drop_drop add.commute)
  moreover have "pcap_record s u packet \<noteq> []" by (auto simp: pcap_record_def dest: arg_cong [where f = length])
  ultimately show ?thesis
    using assms by (simp add: pcap_records.simps [of _ ?bs] le u pcap_entry_of_def)
qed

section \<open>The capture\<close>

definition good_disk :: "disk \<Rightarrow> bool" where
  "good_disk disk \<longleftrightarrow> (\<forall>old new. disk old new)"

lemma os_write_ok: "good_disk disk \<Longrightarrow> \<not> os_failed out \<Longrightarrow> os_write disk out bytes = out\<lparr>os_bytes := os_bytes out @ bytes\<rparr>"
  by (simp add: os_write_def good_disk_def)

definition capture_fragment :: "CaptureContext \<Rightarrow> Ipv4Header \<Rightarrow> fragment \<Rightarrow> CaptureContext" where
  "capture_fragment c h f = c\<lparr>
    cx_output := (cx_output c)\<lparr>os_bytes := os_bytes (cx_output c) @
      pcap_record (cx_seconds c) (cx_microseconds c + of_nat (cx_count c)) (fragment_packet h f)\<rparr>,
    cx_sizes := (cx_sizes c)[cx_count c := 20 + length (fg_bytes f)],
    cx_offsets := (cx_offsets c)[cx_count c := of_nat (fg_offset f div 8)], cx_count := cx_count c + 1\<rparr>"

lemma write_fragment_ok:
  assumes disk: "good_disk disk" and c: "cx_count c < length (cx_sizes c)" "\<not> os_failed (cx_output c)"
    and f: "slice_of payload f" "length payload \<le> 65515"
  shows "write_fragment disk c (fragment_packet h f) = (capture_fragment c h f, True)"
proof -
  obtain v where v: "parse_ipv4_packet (fragment_packet h f) = (ip_ok, v)"
      "8 * unat (ip_flags_fragment_offset (pv_header v) AND kIpv4FragmentOffsetMask) = fg_offset f"
    using fragment_packet_parsed [OF f, of h] by auto
  have "of_nat (fg_offset f div 8) = ip_flags_fragment_offset (pv_header v) AND kIpv4FragmentOffsetMask"
    unfolding v(2) [symmetric] by simp
  moreover have "length (fragment_packet h f) = 20 + length (fg_bytes f)" by (simp add: fragment_packet_def ip_encode_def)
  moreover have "length (fg_bytes f) \<le> 65515" using f by (auto simp: slice_of_def)
  ultimately show ?thesis
    using v(1) c by (simp add: write_fragment_def os_write_ok [OF disk] pcap_record_def capture_fragment_def Let_def)
qed

lemma capture_fragment_simps [simp]:
  "cx_count (capture_fragment c h f) = cx_count c + 1" "cx_failed (capture_fragment c h f) = cx_failed c"
  "os_failed (cx_output (capture_fragment c h f)) = os_failed (cx_output c)"
  "cx_seconds (capture_fragment c h f) = cx_seconds c" "cx_microseconds (capture_fragment c h f) = cx_microseconds c"
  "cx_sizes (capture_fragment c h f) = (cx_sizes c)[cx_count c := 20 + length (fg_bytes f)]"
  "cx_offsets (capture_fragment c h f) = (cx_offsets c)[cx_count c := of_nat (fg_offset f div 8)]"
  by (simp_all add: capture_fragment_def)

lemma capture_fragment_bytes:
  "os_bytes (cx_output (capture_fragment c h f)) = os_bytes (cx_output c) @
     pcap_record (cx_seconds c) (cx_microseconds c + of_nat (cx_count c)) (fragment_packet h f)"
  by (simp add: capture_fragment_def)

lemma fragment_packet_short: "slice_of payload f \<Longrightarrow> length payload \<le> 65515 \<Longrightarrow> length (fragment_packet h f) \<le> 65535"
  by (auto simp: slice_of_def fragment_packet_def ip_encode_def)

text \<open>Any number of fragments, as long as the arrays of the context have room for them.\<close>

lemma feed_write_fragment:
  assumes disk: "good_disk disk" and payload: "length payload \<le> 65515"
  shows "\<not> os_failed (cx_output c) \<Longrightarrow> (\<forall>f\<in>set fs. slice_of payload f) \<Longrightarrow>
    cx_count c + length fs \<le> length (cx_sizes c) \<Longrightarrow>
    feed (write_fragment disk) c (map (fragment_packet h) fs) = (ip_ok, fold (\<lambda>f c. capture_fragment c h f) fs c)"
  by (induction fs arbitrary: c) (auto simp: write_fragment_ok [OF disk _ _ _ payload])

lemma capture_fragment_entries:
  assumes payload: "length payload \<le> 65515"
  shows "(\<forall>f\<in>set fs. slice_of payload f) \<Longrightarrow>
    \<exists>records. os_bytes (cx_output (fold (\<lambda>f c. capture_fragment c h f) fs c)) = os_bytes (cx_output c) @ records \<and>
      pcap_records 65535 records = Some (map (\<lambda>(i, f). pcap_entry_of (cx_seconds c) (cx_microseconds c + of_nat i)
        (fragment_packet h f)) (enumerate (cx_count c) fs))"
proof (induction fs arbitrary: c)
  case (Cons f fs)
  obtain records where "os_bytes (cx_output (fold (\<lambda>f c. capture_fragment c h f) fs (capture_fragment c h f))) =
      os_bytes (cx_output (capture_fragment c h f)) @ records"
      "pcap_records 65535 records = Some (map (\<lambda>(i, f). pcap_entry_of (cx_seconds c) (cx_microseconds c + of_nat i)
        (fragment_packet h f)) (enumerate (Suc (cx_count c)) fs))"
    using Cons.IH [of "capture_fragment c h f"] Cons.prems by auto
  with Cons.prems show ?case
    by (auto simp: capture_fragment_bytes pcap_records_record [OF fragment_packet_short [OF _ payload]])
qed (simp add: pcap_records.simps)

lemma global_header_bytes:
  assumes "good_disk disk"
  shows "write_global_header disk \<lparr>os_bytes = [], os_failed = False\<rparr> =
    (\<lparr>os_bytes = [0xD4, 0xC3, 0xB2, 0xA1, 2, 0, 4, 0, 0, 0, 0, 0, 0, 0, 0, 0, 0xFF, 0xFF, 0, 0, 12, 0, 0, 0],
      os_failed = False\<rparr>, True)"
proof -
  have "replicate 24 (0 :: byte) = [0, 0, 0, 0, 0, 0, 0, 0, 0, 0, 0, 0, 0, 0, 0, 0, 0, 0, 0, 0, 0, 0, 0, 0]"
    by (simp add: numeral_eq_Suc)
  then show ?thesis
    using assms by (simp add: write_global_header_def os_write_ok write_le32_def write_le16_def Let_def)
qed

lemma probe_fragments:
  assumes "length payload = 4000"
  shows "fragments payload 1500 = [\<lparr>fg_offset = 0, fg_bytes = take 1480 payload, fg_more = True\<rparr>,
    \<lparr>fg_offset = 1480, fg_bytes = take 1480 (drop 1480 payload), fg_more = True\<rparr>,
    \<lparr>fg_offset = 2960, fg_bytes = take 1480 (drop 2960 payload), fg_more = False\<rparr>]"
  using assms by (simp add: fragments_def slices.simps [of _ payload])

text \<open>
  Claim C39. With a disk that takes what is written and a clock that works and is before 2106, the probe exits with 0
  and its file is a capture file: a reader that checks the magic number, the version and the lengths reads it
  back whole, in UTC, with the snapshot length 65535, the link type 12 of raw IP packets, and exactly the three fragments of
  the datagram, complete and stamped with the clock's time, one microsecond apart. They have 1500, 1500 and 1060 bytes, at
  the offsets 0, 185 and 370 that the probe prints.
\<close>

theorem fragment_probe_capture:
  assumes "good_disk disk" "0 \<le> sec" "sec < 2 ^ 32" "0 \<le> nsec" "nsec < 10 ^ 9"
  shows "\<exists>c. fragment_probe_main disk 2 True (Some (sec, nsec)) = (0, Some c) \<and>
    pcap_file (os_bytes (cx_output c)) = Some \<lparr>pc_zone = 0, pc_accuracy = 0, pc_snaplen = 65535, pc_linktype = 12,
      pc_entries = map (\<lambda>(i, packet). \<lparr>pe_seconds = nat sec, pe_microseconds = nat nsec div 1000 + i,
        pe_original_length = length packet, pe_packet = packet\<rparr>) (enumerate 0 (frag_packets probe_header probe_payload 1500))\<rparr> \<and>
    take 3 (cx_sizes c) = [1500, 1500, 1060] \<and> take 3 (cx_offsets c) = [0, 185, 370]"
proof -
  let ?h = probe_header and ?p = probe_payload
  let ?hd = "[0xD4, 0xC3, 0xB2, 0xA1, 2, 0, 4, 0, 0, 0, 0, 0, 0, 0, 0, 0, 0xFF, 0xFF, 0, 0, 12, 0, 0, 0] :: byte list"
  let ?out = "\<lparr>os_bytes = ?hd, os_failed = False\<rparr>"
  define c0 where "c0 = \<lparr>cx_output = ?out, cx_seconds = word_of_int sec, cx_microseconds = word_of_int (nsec div 1000),
    cx_sizes = replicate 8 0, cx_offsets = replicate 8 0, cx_count = 0, cx_failed = False\<rparr>"
  have len: "length ?p = 4000" by (simp add: probe_payload_def)
  note fs = probe_fragments [OF len]
  have sl: "\<forall>f\<in>set (fragments ?p 1500). slice_of ?p f" using fragments_partition [of 1500 ?p] by auto
  obtain st scratch c where fr: "fragment_ipv4_payload ?h ?p 1500 (replicate 1500 0) (Some (write_fragment disk)) c0 = (st, scratch, c)"
    by (metis prod_cases3)
  have "(st, c) = feed (write_fragment disk) c0 (frag_packets ?h ?p 1500)"
    using fragmentation_feeds [where h = ?h and payload = ?p and mtu = 1500 and scratch = "replicate 1500 0"
        and callback = "Some (write_fragment disk)" and ctx = c0] fr len by simp
  also have "\<dots> = (ip_ok, fold (\<lambda>f c. capture_fragment c ?h f) (fragments ?p 1500) c0)"
    unfolding frag_packets_def using assms(1) len sl
    by (intro feed_write_fragment) (simp_all add: c0_def fs)
  finally have c: "st = ip_ok" "c = fold (\<lambda>f c. capture_fragment c ?h f) (fragments ?p 1500) c0" by simp_all
  have eight: "replicate 8 (x :: 'x) = [x, x, x, x, x, x, x, x]" for x by (simp add: numeral_eq_Suc)
  have r: "cx_count c = 3" "\<not> cx_failed c" "take 3 (cx_sizes c) = [1500, 1500, 1060]"
      "take 3 (cx_offsets c) = [0, 185, 370]"
    using len by (simp_all add: c fs c0_def eight numeral_2_eq_2 numeral_3_eq_3)
  let ?es = "map (\<lambda>(i, f). pcap_entry_of (word_of_int sec) (word_of_int (nsec div 1000) + of_nat i) (fragment_packet ?h f))
    (enumerate 0 (fragments ?p 1500))"
  obtain records where rec: "os_bytes (cx_output c) = ?hd @ records" "pcap_records 65535 records = Some ?es"
    using capture_fragment_entries [OF _ sl, of ?h c0] len by (auto simp: c c0_def)
  have "pcap_file (?hd @ records) = Some \<lparr>pc_zone = 0, pc_accuracy = 0, pc_snaplen = 65535, pc_linktype = 12, pc_entries = ?es\<rparr>"
    using rec(2) by (simp add: pcap_file_def pcap_u32_def pcap_u16_def)
  moreover have "?es = map (\<lambda>(i, packet). \<lparr>pe_seconds = nat sec, pe_microseconds = nat nsec div 1000 + i,
      pe_original_length = length packet, pe_packet = packet\<rparr>) (enumerate 0 (frag_packets ?h ?p 1500))"
  proof -
    have "unat (word_of_int sec :: u32) = nat sec"
      using assms(2,3) by (simp add: unat_eq_nat_uint uint_word_of_int)
    moreover have "unat (word_of_int (nsec div 1000) + of_nat i :: u32) = nat nsec div 1000 + i" if "i < 3" for i
    proof -
      have "word_of_int (nsec div 1000) + of_nat i = (word_of_int (nsec div 1000 + int i) :: u32)" by simp
      moreover have "(nsec div 1000 + int i) mod 2 ^ 32 = nsec div 1000 + int i"
        using assms(4,5) that by (intro mod_pos_pos_trivial) auto
      ultimately show ?thesis
        using assms(4) by (simp only: unat_eq_nat_uint uint_word_of_int) (simp add: nat_add_distrib nat_div_distrib)
    qed
    from this [of 0] this [of 1] this [of 2] calculation show ?thesis
      unfolding frag_packets_def fs by (simp add: pcap_entry_of_def)
  qed
  ultimately have cap: "pcap_file (os_bytes (cx_output c)) = Some \<lparr>pc_zone = 0, pc_accuracy = 0, pc_snaplen = 65535, pc_linktype = 12,
      pc_entries = map (\<lambda>(i, packet). \<lparr>pe_seconds = nat sec, pe_microseconds = nat nsec div 1000 + i,
        pe_original_length = length packet, pe_packet = packet\<rparr>) (enumerate 0 (frag_packets ?h ?p 1500))\<rparr>"
    unfolding rec(1) by simp
  have "fragment_probe_main disk 2 True (Some (sec, nsec)) = (0, Some c)"
    using r c(1) fr assms(2,4) global_header_bytes [OF assms(1)] by (simp add: fragment_probe_main_def c0_def [symmetric])
  then show ?thesis using cap r by blast
qed

theorem fragment_probe_capture_witness:
  "\<exists>c. fragment_probe_main (\<lambda>_ _. True) 2 True (Some (1, 5000)) = (0, Some c) \<and>
    pcap_file (os_bytes (cx_output c)) = Some \<lparr>pc_zone = 0, pc_accuracy = 0, pc_snaplen = 65535, pc_linktype = 12,
      pc_entries = map (\<lambda>(i, packet). \<lparr>pe_seconds = 1, pe_microseconds = 5 + i,
        pe_original_length = length packet, pe_packet = packet\<rparr>) (enumerate 0 (frag_packets probe_header probe_payload 1500))\<rparr> \<and>
    take 3 (cx_sizes c) = [1500, 1500, 1060] \<and> take 3 (cx_offsets c) = [0, 185, 370]"
  using fragment_probe_capture [of "\<lambda>_ _. True" 1 5000] by (simp add: good_disk_def)

end
