(* ===== verification/Link_Probe.thy ===== *)
theory Link_Probe
  imports Link_Endpoint
begin

unbundle bit_operations_syntax

text \<open>
  The link probe (\<^verbatim>\<open>tools/link_probe.cpp\<close>): it opens an interface and prints what it found, or sends one frame to a
  hardware address given as text. \<open>scan_hex2\<close> and \<open>scan_fields\<close> are what \<^verbatim>\<open>sscanf\<close> does with the conversion
  \<^verbatim>\<open>%2x\<close> and with the format of \<open>parse_mac\<close>, whose helpers the other probes of the link repeat. Arguments are those
  after the name of the program.
\<close>

definition kProbeEtherType :: u16 where "kProbeEtherType = 0x88B5"

section \<open>Hardware addresses as text\<close>

definition is_space :: "char \<Rightarrow> bool" where
  "is_space ch \<longleftrightarrow> (of_char ch :: nat) = 32 \<or> 9 \<le> (of_char ch :: nat) \<and> (of_char ch :: nat) \<le> 13"

definition hex_value :: "char \<Rightarrow> nat option" where
  "hex_value ch =
     (let n = (of_char ch :: nat) in
      if 48 \<le> n \<and> n \<le> 57 then Some (n - 48)
      else if 65 \<le> n \<and> n \<le> 70 then Some (n - 55)
      else if 97 \<le> n \<and> n \<le> 102 then Some (n - 87)
      else None)"

text \<open>
  At most two characters after the white space: two digits, one digit, or a sign and a digit, which for a minus sign is
  negated as an unsigned number. A lone sign and the prefix \<^verbatim>\<open>0x\<close> without a digit do not match.
\<close>

definition scan_hex2 :: "string \<Rightarrow> (u32 \<times> string) option" where
  "scan_hex2 text' =
     (case dropWhile is_space text' of
        [] \<Rightarrow> None
      | ch # rest \<Rightarrow>
          if ch = CHR ''+'' \<or> ch = CHR ''-''
          then (case rest of
                  [] \<Rightarrow> None
                | d # rest \<Rightarrow>
                    map_option (\<lambda>v. (if ch = CHR ''-'' then - of_nat v else of_nat v, rest)) (hex_value d))
          else (case hex_value ch of
                  None \<Rightarrow> None
                | Some v \<Rightarrow>
                    (case rest of
                       [] \<Rightarrow> Some (of_nat v, [])
                     | d # rest' \<Rightarrow>
                         (case hex_value d of
                            Some v' \<Rightarrow> Some (of_nat (16 * v + v'), rest')
                          | None \<Rightarrow> if v = 0 \<and> (d = CHR ''x'' \<or> d = CHR ''X'') then None else Some (of_nat v, rest)))))"

text \<open>The values assigned, and the text that is left when the scan stops.\<close>

fun scan_fields :: "nat \<Rightarrow> string \<Rightarrow> u32 list \<times> string" where
  "scan_fields 0 text' = ([], text')"
| "scan_fields (Suc n) text' =
     (case scan_hex2 text' of
        None \<Rightarrow> ([], text')
      | Some (v, rest) \<Rightarrow>
          if n = 0 then ([v], rest)
          else (case rest of
                  [] \<Rightarrow> ([v], rest)
                | ch # rest' \<Rightarrow>
                    if ch \<noteq> CHR '':'' then ([v], rest)
                    else (case scan_fields n rest' of (vs, left) \<Rightarrow> (v # vs, left))))"

fun copy_values :: "nat \<Rightarrow> u32 list \<Rightarrow> MacAddress \<Rightarrow> MacAddress \<times> bool" where
  "copy_values index [] mac = (mac, True)"
| "copy_values index (v # vs) mac =
     (if v > 0xFF then (mac, False) else copy_values (index + 1) vs (mac[index := ucast v]))"

definition parse_mac :: "string \<Rightarrow> MacAddress \<Rightarrow> MacAddress \<times> bool" where
  "parse_mac text' mac =
     (case scan_fields 6 text' of (vs, left) \<Rightarrow>
        if length vs \<noteq> 6 \<or> left \<noteq> [] then (mac, False) else copy_values 0 vs mac)"

definition hex_digit :: "nat \<Rightarrow> char" where
  "hex_digit n = char_of (if n < 10 then 48 + n else 87 + n)"

definition hex2 :: "u8 \<Rightarrow> string" where
  "hex2 b = [hex_digit (unat b div 16), hex_digit (unat b mod 16)]"

definition print_mac :: "MacAddress \<Rightarrow> string" where
  "print_mac mac = hex2 (mac ! 0) @ '':'' @ hex2 (mac ! 1) @ '':'' @ hex2 (mac ! 2) @ '':'' @ hex2 (mac ! 3) @ '':'' @
     hex2 (mac ! 4) @ '':'' @ hex2 (mac ! 5) @ [CHR 0x0A]"

section \<open>The probe\<close>

text \<open>The minimum frame with a probe's magic bytes behind the header.\<close>

definition probe_frame :: "MacAddress \<Rightarrow> MacAddress \<Rightarrow> byte list \<Rightarrow> byte list" where
  "probe_frame destination source magic =
     (let frame = replicate kEthernetMinimumFrameBytes 0;
          frame = fold (\<lambda>index frame. frame[index := destination ! index, index + length destination := source ! index])
                    [0..<length destination] frame;
          frame = frame[12 := ucast (drop_bit 8 kProbeEtherType AND 0xFF), 13 := ucast (kProbeEtherType AND 0xFF)]
      in memcpy_at frame kEthernetHeaderBytes magic)"

definition kLinkMagic :: "byte list" where
  "kLinkMagic = [0x56, 0x4E, 0x45, 0x54, 0x50, 0x32]"

definition probe_config :: "string \<Rightarrow> LinkConfig" where
  "probe_config interface_name =
     \<lparr>lc_interface_name = interface_name, lc_requested_buffer_bytes = 0, lc_promiscuous = False, lc_capture_filter = cf_none\<rparr>"

definition open_endpoint :: "'w bpf_os \<Rightarrow> string \<Rightarrow> 'w \<Rightarrow> 'w \<times> LinkEndpoint option" where
  "open_endpoint os interface_name w = (case link_open os (probe_config interface_name) w of (w, _, endpoint) \<Rightarrow> (w, endpoint))"

text \<open>The end of the scope of an endpoint.\<close>

definition drop_endpoint :: "'w bpf_os \<Rightarrow> LinkEndpoint \<Rightarrow> 'w \<Rightarrow> 'w" where
  "drop_endpoint os l w = (case l of None \<Rightarrow> w | Some backend \<Rightarrow> bpf_destroy os backend w)"

fun link_probe_arguments :: "string list \<Rightarrow> string \<times> string \<times> bool \<Rightarrow> (string \<times> string \<times> bool) option" where
  "link_probe_arguments [] st = Some st"
| "link_probe_arguments [argument] (interface_name, destination_text, mac_only) =
     (if argument = ''--mac-only'' then Some (interface_name, destination_text, True) else None)"
| "link_probe_arguments (argument # v # rest) (interface_name, destination_text, mac_only) =
     (if argument = ''--interface'' then link_probe_arguments rest (v, destination_text, mac_only)
      else if argument = ''--destination'' then link_probe_arguments rest (interface_name, v, mac_only)
      else if argument = ''--mac-only'' then link_probe_arguments (v # rest) (interface_name, destination_text, True)
      else None)"

datatype link_probe_output = printed_nothing | printed_mac string | printed_ready u32 nat | printed_sent nat

definition link_probe_run ::
  "'w bpf_os \<Rightarrow> string \<Rightarrow> string \<Rightarrow> bool \<Rightarrow> LinkEndpoint \<Rightarrow> 'w \<Rightarrow> 'w \<times> int \<times> link_probe_output" where
  "link_probe_run os mode destination_text mac_only endpoint w =
     (let info = link_interface_info endpoint in
      if mode = ''info''
      then if destination_text \<noteq> [] then (w, 64, printed_nothing)
           else (w, 0, if mac_only then printed_mac (print_mac (ii_mac info))
                       else printed_ready (ii_mtu info) (ii_bpf_buffer_bytes info))
      else if mode \<noteq> ''send'' \<or> destination_text = [] \<or> mac_only then (w, 64, printed_nothing)
      else case parse_mac destination_text zero_mac of (destination, ok) \<Rightarrow>
        if \<not> ok then (w, 64, printed_nothing)
        else
          let frame = probe_frame destination (ii_mac info) kLinkMagic in
          (case link_send_frame os endpoint w frame None of (w, _, error) \<Rightarrow>
             if error \<noteq> no_error then (w, 1, printed_nothing) else (w, 0, printed_sent (length frame))))"

definition link_probe_main :: "'w bpf_os \<Rightarrow> string list \<Rightarrow> 'w \<Rightarrow> 'w \<times> int \<times> link_probe_output" where
  "link_probe_main os argv w =
     (if length argv < 3 then (w, 64, printed_nothing)
      else case link_probe_arguments (tl argv) ([], [], False) of
        None \<Rightarrow> (w, 64, printed_nothing)
      | Some (interface_name, destination_text, mac_only) \<Rightarrow>
          if interface_name = [] then (w, 64, printed_nothing)
          else (case open_endpoint os interface_name w of
                  (w, None) \<Rightarrow> (w, 1, printed_nothing)
                | (w, Some endpoint) \<Rightarrow>
                    (case link_probe_run os (hd argv) destination_text mac_only endpoint w of
                       (w, code, out) \<Rightarrow> (drop_endpoint os endpoint w, code, out))))"

section \<open>Lemmas\<close>

lemma hex_digit_scan:
  assumes "n < 16"
  shows "hex_value (hex_digit n) = Some n" "\<not> is_space (hex_digit n)" "hex_digit n \<noteq> CHR ''+''" "hex_digit n \<noteq> CHR ''-''"
proof -
  have "n \<in> {0, 1, 2, 3, 4, 5, 6, 7, 8, 9, 10, 11, 12, 13, 14, 15}" using assms by (simp add: insert_iff) presburger
  then show *: "hex_value (hex_digit n) = Some n" and "\<not> is_space (hex_digit n)"
    by (auto simp: hex_value_def hex_digit_def is_space_def)
  have "hex_value CHR ''+'' = None" "hex_value CHR ''-'' = None" by code_simp+
  with * show "hex_digit n \<noteq> CHR ''+''" "hex_digit n \<noteq> CHR ''-''" by (metis option.distinct(1))+
qed

lemma scan_hex2_hex2: "scan_hex2 (hex2 b @ rest) = Some (ucast b, rest)"
proof -
  have "unat b < 256" by (rule unat_u8_bound)
  then have "unat b div 16 < 16" "unat b mod 16 < 16" by simp_all
  note d = hex_digit_scan [OF this(1)] hex_digit_scan [OF this(2)]
  have "16 * (unat b div 16) + unat b mod 16 = unat b" by simp
  moreover have "of_nat (unat b) = (ucast b :: u32)" by simp
  ultimately show ?thesis using d by (simp add: scan_hex2_def hex2_def)
qed

text \<open>What the probe prints as a hardware address it reads back.\<close>

lemma print_mac_parse:
  assumes "length mac = 6" "length old = 6"
  shows "parse_mac (butlast (print_mac mac)) old = (mac, True)"
proof -
  obtain a b c d e f where mac: "mac = [a, b, c, d, e, f]" using assms(1) by (auto simp: length_Suc_conv numeral_eq_Suc)
  have small: "\<not> 0xFF < (ucast x :: u32)" for x :: u8
    using unat_u8_bound [of x] by (simp add: word_less_nat_alt unsigned_ucast_eq take_bit_nat_eq_self)
  have "scan_fields 6 (butlast (print_mac mac)) = (map ucast mac, [])"
    using scan_hex2_hex2 [of f "[]"]
    by (simp add: print_mac_def mac butlast_append numeral_eq_Suc scan_hex2_hex2)
  moreover have "(ucast (ucast x :: u32) :: u8) = x" for x by (rule bit_word_eqI) (simp add: bit_simps)
  moreover obtain a' b' c' d' e' f' where "old = [a', b', c', d', e', f']" using assms(2) by (auto simp: length_Suc_conv numeral_eq_Suc)
  ultimately show ?thesis by (simp add: parse_mac_def mac small)
qed

text \<open>The format in the usage text is not required: white space, signs and single digits pass.\<close>

lemma lenient_mac: "parse_mac ''2:+0: 0:00:-0:1'' zero_mac = ([2, 0, 0, 0, 0, 1], True)"
  by code_simp

lemma probe_frame_encode:
  assumes "length destination = 6" "length source = 6" "length magic \<le> 46"
  shows "probe_frame destination source magic = eth_encode destination source kProbeEtherType magic"
proof -
  have macs: "fold (\<lambda>i out. out[i := destination ! i, i + length destination := source ! i]) [0..<length destination]
      (replicate kEthernetMinimumFrameBytes 0) = destination @ source @ replicate 48 0"
    using assms(1,2) by (subst write_macs) (simp_all add: memcpy_at_def kEthernetMinimumFrameBytes_def)
  have "(destination @ source @ replicate 48 0)[12 := hi, 13 := lo] = destination @ source @ [hi, lo] @ replicate 46 0" for hi lo
    using assms(1,2) by (simp add: list_update_append numeral_eq_Suc)
  then show ?thesis
    unfolding probe_frame_def macs Let_def
    using assms by (simp add: kEthernetHeaderBytes_def memcpy_at_def eth_encode_def be16_def)
qed

end
