(* ===== verification/Link_Batch_Probe.thy ===== *)
theory Link_Batch_Probe
  imports Link_Probe Bench_Options "HOL-Library.Multiset"
begin

unbundle bit_operations_syntax

text \<open>
  The batch probe of the link (\<^verbatim>\<open>tools/link_batch_probe.cpp\<close>): one side sends a number of frames that carry its magic bytes, the
  other counts the frames that arrive with them until it has as many. The counting callback reads the clock once for
  every frame it counts: \<open>clock n\<close> is the reading for the frame after \<open>n\<close> others. The waiting loop is a
  partial function: \<open>None\<close> is a probe that waits for ever.
\<close>

definition kMaximumFrames :: nat where "kMaximumFrames = 1000000"

definition kBatchMagic :: "byte list" where
  "kBatchMagic = [0x56, 0x4E, 0x45, 0x54, 0x42, 0x33]"

record BatchOptions =
  bo_mode :: string
  bo_interface_name :: string
  bo_destination_text :: string
  bo_frames :: nat

record RxContext =
  rx_frames :: nat
  rx_bytes :: u64
  rx_first_ns :: u64
  rx_last_ns :: u64
  rx_invalid_metadata :: bool

definition new_RxContext :: RxContext where
  "new_RxContext = \<lparr>rx_frames = 0, rx_bytes = 0, rx_first_ns = 0, rx_last_ns = 0, rx_invalid_metadata = False\<rparr>"

definition probe_monotonic_ns :: "'w bpf_os \<Rightarrow> 'w \<Rightarrow> 'w \<times> u64" where
  "probe_monotonic_ns os w =
     (case os_clock os w of
        (w, Inl _) \<Rightarrow> (w, 0)
      | (w, Inr time) \<Rightarrow> (w, if tv_sec time < 0 \<or> tv_nsec time < 0 then 0 else nanoseconds time))"

definition on_frame :: "(nat \<Rightarrow> u64) \<Rightarrow> RxContext \<Rightarrow> byte list \<Rightarrow> CaptureMetadata \<Rightarrow> RxContext" where
  "on_frame clock context frame metadata =
     (if length frame < kEthernetHeaderBytes + length kBatchMagic then context
      else if frame ! 12 \<noteq> ucast (drop_bit 8 kProbeEtherType AND 0xFF) \<or> frame ! 13 \<noteq> ucast (kProbeEtherType AND 0xFF) \<or>
              take (length kBatchMagic) (drop kEthernetHeaderBytes frame) \<noteq> kBatchMagic
      then context
      else
        let now = clock (rx_frames context);
            context = (if rx_frames context = 0 then context\<lparr>rx_first_ns := now\<rparr> else context);
            context = context\<lparr>rx_last_ns := now\<rparr>;
            context = context\<lparr>rx_frames := rx_frames context + 1\<rparr>;
            context = context\<lparr>rx_bytes := rx_bytes context + of_nat (length frame)\<rparr>
        in if cm_capture_timestamp_ns metadata = 0 \<or> unat (cm_captured_length metadata) \<noteq> length frame \<or>
              cm_wire_length metadata < cm_captured_length metadata
           then context\<lparr>rx_invalid_metadata := True\<rparr> else context)"

section \<open>Options\<close>

definition parse_size :: "string \<Rightarrow> nat \<Rightarrow> nat \<times> bool" where
  "parse_size text' v =
     (case from_chars 64 text' of
        None \<Rightarrow> (v, False)
      | Some (n, rest) \<Rightarrow> (n, rest = [] \<and> n > 0 \<and> n \<le> kMaximumFrames))"

fun batch_arguments :: "string list \<Rightarrow> BatchOptions \<Rightarrow> BatchOptions \<times> bool" where
  "batch_arguments [] options = (options, True)"
| "batch_arguments [argument] options = (options, False)"
| "batch_arguments (argument # v # rest) options =
     (if argument = ''--interface'' then batch_arguments rest (options\<lparr>bo_interface_name := v\<rparr>)
      else if argument = ''--destination'' then batch_arguments rest (options\<lparr>bo_destination_text := v\<rparr>)
      else if argument = ''--frames''
      then (case parse_size v (bo_frames options) of (n, ok) \<Rightarrow>
              if ok then batch_arguments rest (options\<lparr>bo_frames := n\<rparr>) else (options\<lparr>bo_frames := n\<rparr>, False))
      else (options, False))"

definition batch_parse_options :: "string list \<Rightarrow> BatchOptions \<Rightarrow> BatchOptions \<times> bool" where
  "batch_parse_options argv options =
     (if length argv < 5 then (options, False)
      else case batch_arguments (tl argv) (options\<lparr>bo_mode := hd argv\<rparr>) of (options, ok) \<Rightarrow>
        if \<not> ok then (options, False)
        else if bo_interface_name options = [] \<or> bo_frames options = 0 then (options, False)
        else if bo_mode options = ''rx'' then (options, bo_destination_text options = [])
        else (options, bo_mode options = ''tx'' \<and> bo_destination_text options \<noteq> []))"

section \<open>Receiving\<close>

record batch_report =
  br_frames :: nat
  br_bytes :: u64
  br_polls :: nat
  br_max_frames_per_read :: nat
  br_duration_ns :: u64
  br_statistics :: BpfStatistics

partial_function (option) receive_loop ::
  "'w bpf_os \<Rightarrow> bpf_abi \<Rightarrow> (nat \<Rightarrow> u64) \<Rightarrow> LinkEndpoint \<Rightarrow> nat \<Rightarrow> 'w \<Rightarrow> RxContext \<Rightarrow> nat \<Rightarrow> nat
     \<Rightarrow> ('w \<times> (error_code + RxContext \<times> nat \<times> nat)) option" where
  "receive_loop os abi clock endpoint frames w context polls max_frames_per_read =
     (if rx_frames context < frames
      then
        let before = rx_frames context in
        (case link_poll_frames os abi endpoint w (Some (on_frame clock)) context of
           None \<Rightarrow> None
         | Some (w, context, error) \<Rightarrow>
             if error \<noteq> no_error then Some (w, Inl error)
             else
               let polls = polls + 1;
                   delivered = rx_frames context - before
               in receive_loop os abi clock endpoint frames w context polls
                    (if delivered > max_frames_per_read then delivered else max_frames_per_read))
      else Some (w, Inr (context, polls, max_frames_per_read)))"

definition receive_frames ::
  "'w bpf_os \<Rightarrow> bpf_abi \<Rightarrow> (nat \<Rightarrow> u64) \<Rightarrow> BatchOptions \<Rightarrow> 'w \<Rightarrow> ('w \<times> int \<times> batch_report option) option" where
  "receive_frames os abi clock options w =
     (case open_endpoint os (bo_interface_name options) w of
        (w, None) \<Rightarrow> Some (w, 1, None)
      | (w, Some endpoint) \<Rightarrow>
          (case receive_loop os abi clock endpoint (bo_frames options) w new_RxContext 0 0 of
             None \<Rightarrow> None
           | Some (w, Inl error) \<Rightarrow> Some (drop_endpoint os endpoint w, 1, None)
           | Some (w, Inr (context, polls, max_frames_per_read)) \<Rightarrow>
               (case link_bpf_statistics os endpoint w of (w, statistics_error, statistics) \<Rightarrow>
                  if statistics_error \<noteq> no_error \<or> rx_invalid_metadata context \<or> rx_first_ns context = 0 \<or>
                     rx_last_ns context < rx_first_ns context
                  then Some (drop_endpoint os endpoint w, 1, None)
                  else Some (drop_endpoint os endpoint w, 0,
                         Some \<lparr>br_frames = rx_frames context, br_bytes = rx_bytes context, br_polls = polls,
                               br_max_frames_per_read = max_frames_per_read,
                               br_duration_ns = rx_last_ns context - rx_first_ns context, br_statistics = statistics\<rparr>))))"

section \<open>Sending\<close>

fun send_loop :: "'w bpf_os \<Rightarrow> LinkEndpoint \<Rightarrow> nat list \<Rightarrow> byte list \<Rightarrow> 'w \<Rightarrow> 'w \<times> error_code" where
  "send_loop os endpoint [] frame w = (w, no_error)"
| "send_loop os endpoint (index # rest) frame w =
     (let frame = frame[kEthernetHeaderBytes + length kBatchMagic := of_nat index] in
      case link_send_frame os endpoint w frame None of (w, _, error) \<Rightarrow>
        if error \<noteq> no_error then (w, error) else send_loop os endpoint rest frame w)"

text \<open>The exit code, and the frames, bytes and duration that are printed.\<close>

definition send_frames :: "'w bpf_os \<Rightarrow> BatchOptions \<Rightarrow> 'w \<Rightarrow> 'w \<times> int \<times> (nat \<times> nat \<times> u64) option" where
  "send_frames os options w =
     (case parse_mac (bo_destination_text options) zero_mac of (destination, ok) \<Rightarrow>
        if \<not> ok then (w, 64, None)
        else case open_endpoint os (bo_interface_name options) w of
          (w, None) \<Rightarrow> (w, 1, None)
        | (w, Some endpoint) \<Rightarrow>
            let info = link_interface_info endpoint;
                frame = probe_frame destination (ii_mac info) kBatchMagic
            in case probe_monotonic_ns os w of (w, start_ns) \<Rightarrow>
               case send_loop os endpoint [0..<bo_frames options] frame w of (w, error) \<Rightarrow>
                 if error \<noteq> no_error then (drop_endpoint os endpoint w, 1, None)
                 else case probe_monotonic_ns os w of (w, end_ns) \<Rightarrow>
                   if start_ns = 0 \<or> end_ns < start_ns then (drop_endpoint os endpoint w, 1, None)
                   else (drop_endpoint os endpoint w, 0,
                         Some (bo_frames options, bo_frames options * length frame, end_ns - start_ns)))"

datatype batch_output = received_report "batch_report option" | sent_report "(nat \<times> nat \<times> u64) option" | usage_only

definition batch_probe_main ::
  "'w bpf_os \<Rightarrow> bpf_abi \<Rightarrow> (nat \<Rightarrow> u64) \<Rightarrow> string list \<Rightarrow> 'w \<Rightarrow> ('w \<times> int \<times> batch_output) option" where
  "batch_probe_main os abi clock argv w =
     (case batch_parse_options argv \<lparr>bo_mode = [], bo_interface_name = [], bo_destination_text = [], bo_frames = 0\<rparr> of
        (options, ok) \<Rightarrow>
          if \<not> ok then Some (w, 64, usage_only)
          else if bo_mode options = ''rx''
          then map_option (\<lambda>(w, code, report). (w, code, received_report report)) (receive_frames os abi clock options w)
          else (case send_frames os options w of (w, code, report) \<Rightarrow> Some (w, code, sent_report report)))"

section \<open>What is counted\<close>

text \<open>The frame with a given index, and the frames the receiver counts.\<close>

definition batch_frame :: "MacAddress \<Rightarrow> MacAddress \<Rightarrow> nat \<Rightarrow> byte list" where
  "batch_frame destination source index = eth_encode destination source kProbeEtherType (kBatchMagic @ [of_nat index])"

definition carries_magic :: "byte list \<Rightarrow> bool" where
  "carries_magic frame \<longleftrightarrow> 20 \<le> length frame \<and> take 8 (drop 12 frame) = be16 kProbeEtherType @ kBatchMagic"

definition honest :: "byte list \<times> CaptureMetadata \<Rightarrow> bool" where
  "honest captured \<longleftrightarrow> cm_capture_timestamp_ns (snd captured) \<noteq> 0 \<and>
     unat (cm_captured_length (snd captured)) = length (fst captured) \<and>
     cm_captured_length (snd captured) \<le> cm_wire_length (snd captured)"

definition counted :: "(nat \<Rightarrow> u64) \<Rightarrow> (byte list \<times> CaptureMetadata) list \<Rightarrow> RxContext \<Rightarrow> RxContext" where
  "counted clock captured context = fold (\<lambda>(frame, metadata) context. on_frame clock context frame metadata) captured context"

text \<open>
  What a system notes of the frames written: a write of all bytes adds the frame, the clock changes nothing, and a call that
  fails sets an \<open>errno\<close>.
\<close>

definition records_writes :: "'w bpf_os \<Rightarrow> ('w \<Rightarrow> byte list list) \<Rightarrow> bool" where
  "records_writes os sent \<longleftrightarrow>
     (\<forall>w fd frame w'. os_write os w fd frame = (w', Inr (length frame)) \<longrightarrow> sent w' = sent w @ [frame]) \<and>
     (\<forall>w. sent (fst (os_clock os w)) = sent w) \<and> (\<forall>w. snd (os_clock os w) \<noteq> Inl 0) \<and>
     (\<forall>w fd frame. snd (os_write os w fd frame) \<noteq> Inl 0)"

lemma carries_magic_iff:
  "carries_magic frame \<longleftrightarrow> 20 \<le> length frame \<and> frame ! 12 = 0x88 \<and> frame ! 13 = 0xB5 \<and> take 6 (drop 14 frame) = kBatchMagic"
proof -
  have "take 8 (drop 12 frame) = frame ! 12 # frame ! 13 # take 6 (drop 14 frame)" if "20 \<le> length frame"
  proof -
    have "drop 12 frame = frame ! 12 # frame ! 13 # drop 14 frame"
      using that by (simp add: Cons_nth_drop_Suc [symmetric])
    then show ?thesis by simp
  qed
  moreover have "be16 kProbeEtherType = [0x88, 0xB5]" by code_simp
  ultimately show ?thesis by (auto simp: carries_magic_def)
qed

lemma length_kBatchMagic [simp]: "length kBatchMagic = 6"
  by (simp add: kBatchMagic_def)

lemma on_frame_counts:
  "on_frame clock c frame metadata =
     (if carries_magic frame
      then \<lparr>rx_frames = rx_frames c + 1, rx_bytes = rx_bytes c + of_nat (length frame),
            rx_first_ns = (if rx_frames c = 0 then clock 0 else rx_first_ns c), rx_last_ns = clock (rx_frames c),
            rx_invalid_metadata = (rx_invalid_metadata c \<or> \<not> honest (frame, metadata))\<rparr>
      else c)"
  by (cases c) (auto simp: on_frame_def carries_magic_iff honest_def not_le kEthernetHeaderBytes_def kProbeEtherType_def Let_def not_less)

lemma batch_frame_magic:
  assumes "length destination = 6" "length source = 6"
  shows "carries_magic (batch_frame destination source index)" "length (batch_frame destination source index) = 60"
  using assms by (simp_all add: carries_magic_def batch_frame_def eth_encode_def kBatchMagic_def)

lemma counted_frames:
  "rx_frames (counted clock captured c) = rx_frames c + length (filter carries_magic (map fst captured)) \<and>
   rx_bytes (counted clock captured c) = rx_bytes c + of_nat (sum_list (map length (filter carries_magic (map fst captured)))) \<and>
   rx_invalid_metadata (counted clock captured c) =
     (rx_invalid_metadata c \<or> (\<exists>x\<in>set captured. carries_magic (fst x) \<and> \<not> honest x))"
  by (induction captured arbitrary: c) (auto simp: counted_def on_frame_counts algebra_simps)

lemma link_send_recorded:
  assumes r: "records_writes os sent" and "link_send_frame os l w frame None = (w', m, no_error)"
  shows "sent w' = sent w @ [frame]"
proof -
  have t: "link_transmit os l w frame = (w', no_error)" using assms(2) by (simp add: link_transmit_def)
  have "\<And>w. snd (os_clock os w) \<noteq> Inl 0" "\<And>w fd bytes. snd (os_write os w fd bytes) \<noteq> Inl 0"
    using r by (simp_all add: records_writes_def)
  note link_transmit_success [OF t this]
  then obtain b :: BpfBackend and w2 where "os_write os (fst (os_clock os w)) (bb_fd b) frame = (w2, Inr (length frame))"
      "w' = fst (os_clock os w2)" by blast
  then show ?thesis using r by (auto simp: records_writes_def)
qed

lemma send_loop_sends:
  assumes r: "records_writes os sent" and "length destination = 6" "length source = 6"
  shows "send_loop os l is (eth_encode destination source kProbeEtherType (kBatchMagic @ [x])) w = (w', no_error) \<Longrightarrow>
    sent w' = sent w @ map (batch_frame destination source) is"
proof (induction "is" arbitrary: x w)
  case (Cons i "is")
  have "(eth_encode destination source kProbeEtherType (kBatchMagic @ [x]))[20 := of_nat i] = batch_frame destination source i"
    using assms(2,3) by (simp add: batch_frame_def eth_encode_def kBatchMagic_def be16_def list_update_append numeral_eq_Suc)
  then show ?case
    using Cons link_send_recorded [OF r, of l w "batch_frame destination source i"]
    by (auto simp: Let_def kEthernetHeaderBytes_def kBatchMagic_def [THEN arg_cong [of _ _ length]] batch_frame_def
        split: prod.splits if_splits)
qed simp

lemma sum_lengths: "\<forall>f\<in>set fs. length f = k \<Longrightarrow> sum_list (map length fs) = k * length fs"
  by (induction fs) auto

text \<open>A poll that reads a batch hands its records to the callback.\<close>

lemma link_poll_counts:
  assumes "batch_ok abi rs" "rs \<noteq> []"
    and "retry (\<lambda>w. os_kevent os w (bb_kqueue_fd b) None) (\<lambda>r. r = ready_error EINTR) w = Some (w1, ready_event False data)"
    and "retry (\<lambda>w. os_read os w (bb_fd b) (bb_read_buffer_size b)) (\<lambda>r. r = Inl EINTR) w1 = Some (w2, Inr (concat (map record_bytes rs)))"
  shows "link_poll_frames os abi (Some b) w (Some (on_frame clock)) c =
    Some (w2, counted clock (map (\<lambda>r. (cr_frame r, cr_metadata r)) rs) c, no_error)"
proof -
  have "concat (map record_bytes rs) \<noteq> []" using assms(1,2) record_bytes_pos by (cases rs) auto
  then show ?thesis
    using assms walk_batch_records [OF assms(1), of "on_frame clock" c]
    by (simp add: link_poll_frames_def bpf_poll_frames_def bpf_poll_frames_impl_def counted_def fold_map comp_def)
qed

text \<open>Whatever arrives, the numbers reported at the end of the wait fit together.\<close>

lemma on_frame_grows: "rx_frames c \<le> rx_frames (on_frame clock c frame metadata)"
  by (simp add: on_frame_counts)

lemma walk_batch_grows: "rx_frames c \<le> rx_frames (fst (walk_batch abi (on_frame clock) batch offset c))"
proof (induction abi "on_frame clock" batch offset c rule: walk_batch.induct)
  case (1 abi batch offset c)
  then show ?case
    by (subst walk_batch.simps)
       (fastforce split: sum.split prod.split intro: order_trans [OF on_frame_grows] on_frame_grows)
qed

lemma walk_batch_grows': "walk_batch abi (on_frame clock) batch offset c = (c', e) \<Longrightarrow> rx_frames c \<le> rx_frames c'"
  by (metis fst_conv walk_batch_grows)

lemma link_poll_grows:
  "link_poll_frames os abi l w (Some (on_frame clock)) c = Some (w', c', e) \<Longrightarrow> rx_frames c \<le> rx_frames c'"
  by (auto simp: link_poll_frames_def bpf_poll_frames_def bpf_poll_frames_impl_def dest: walk_batch_grows'
      split: option.splits ready.splits sum.splits if_splits prod.splits)

definition consistent :: "nat \<Rightarrow> RxContext \<Rightarrow> nat \<Rightarrow> nat \<Rightarrow> error_code + RxContext \<times> nat \<times> nat \<Rightarrow> bool" where
  "consistent n c polls most r \<longleftrightarrow> rx_frames c \<le> polls * most \<longrightarrow> most \<le> rx_frames c \<longrightarrow>
     (case r of Inl e \<Rightarrow> True
      | Inr (c', polls', most') \<Rightarrow> n \<le> rx_frames c' \<and> rx_frames c' \<le> polls' * most' \<and> most' \<le> rx_frames c')"

lemma consistent_step:
  assumes "rx_frames c \<le> rx_frames c1" "consistent n c1 (polls + 1) (max (rx_frames c1 - rx_frames c) most) r"
  shows "consistent n c polls most r"
proof -
  let ?m = "max (rx_frames c1 - rx_frames c) most"
  have "rx_frames c1 \<le> (polls + 1) * ?m" if "rx_frames c \<le> polls * most"
  proof -
    have "polls * most \<le> polls * ?m" by (intro mult_le_mono2) simp
    moreover have "rx_frames c1 \<le> rx_frames c + ?m" using assms(1) by linarith
    ultimately show ?thesis using that unfolding distrib_right mult_1 by linarith
  qed
  moreover have "?m \<le> rx_frames c1" if "most \<le> rx_frames c" using that assms(1) by linarith
  ultimately show ?thesis using assms(2) by (auto simp: consistent_def)
qed

lemma receive_loop_consistent:
  assumes "receive_loop os abi clock l n w c polls most = Some (w', r)"
  shows "consistent n c polls most r"
proof -
  have "consistent n c polls most (snd (w', r))"
  proof (rule receive_loop.raw_induct [where P = "\<lambda>os abi clock l n w c polls most r. consistent n c polls most (snd r)", OF _ assms])
    fix loop os abi clock l n w c polls most r
    assume IH: "\<And>os abi clock l n w c polls most r. loop os abi clock l n w c polls most = Some r \<Longrightarrow> consistent n c polls most (snd r)"
      and step: "(if rx_frames c < n
        then let before = rx_frames c in
          (case link_poll_frames os abi l w (Some (on_frame clock)) c of
             None \<Rightarrow> None
           | Some (w, context, error) \<Rightarrow>
               if error \<noteq> no_error then Some (w, Inl error)
               else let polls = polls + 1; delivered = rx_frames context - before
                 in loop os abi clock l n w context polls (if delivered > most then delivered else most))
        else Some (w, Inr (c, polls, most))) = Some r"
    show "consistent n c polls most (snd r)"
    proof (cases "rx_frames c < n")
      case False
      then show ?thesis using step by (auto simp: consistent_def)
    next
      case True
      then obtain w1 c1 e where poll: "link_poll_frames os abi l w (Some (on_frame clock)) c = Some (w1, c1, e)"
        using step by (cases "link_poll_frames os abi l w (Some (on_frame clock)) c") (auto simp: Let_def)
      show ?thesis
      proof (cases "e = no_error")
        case False
        then show ?thesis using step True poll by (auto simp: Let_def consistent_def)
      next
        case ok: True
        have "loop os abi clock l n w1 c1 (polls + 1) (max (rx_frames c1 - rx_frames c) most) = Some r"
          using step True poll ok by (simp add: Let_def max_def not_less split: if_splits)
        then show ?thesis using consistent_step [OF link_poll_grows [OF poll]] IH by blast
      qed
    qed
  qed
  then show ?thesis by simp
qed

text \<open>
  Claim C40. What the batch probe's sender sends its receiver counts: \<open>n\<close> frames sent without an error are \<open>n\<close> frames of 60
  bytes with the probe's type and magic bytes, in order. If the receiver's next read returns them, in any order and
  among other traffic, with metadata that agrees with them, the receiver stops after that read and reports \<open>n\<close> frames,
  their bytes and one poll of \<open>n\<close> frames.
\<close>

theorem batch_probe_counts:
  assumes "records_writes os sent" "length d = 6" "length s = 6" "0 < n"
    and tx: "send_loop os l [0..<n] (probe_frame d s kBatchMagic) w = (w', no_error)"
    and rs: "batch_ok abi rs" "list_all (\<lambda>r. honest (cr_frame r, cr_metadata r)) rs"
      "mset (filter carries_magic (map cr_frame rs)) = mset (drop (length (sent w)) (sent w'))"
    and rx: "retry (\<lambda>v. os_kevent ros v (bb_kqueue_fd b) None) (\<lambda>r. r = ready_error EINTR) v = Some (v1, ready_event False data)"
      "retry (\<lambda>v. os_read ros v (bb_fd b) (bb_read_buffer_size b)) (\<lambda>r. r = Inl EINTR) v1 = Some (v2, Inr (concat (map record_bytes rs)))"
  shows "sent w' = sent w @ map (batch_frame d s) [0..<n] \<and>
    (\<exists>c. receive_loop ros abi clock (Some b) n v new_RxContext 0 0 = Some (v2, Inr (c, 1, n)) \<and>
      rx_frames c = n \<and> rx_bytes c = of_nat (60 * n) \<and> \<not> rx_invalid_metadata c)"
proof -
  have "probe_frame d s kBatchMagic = eth_encode d s kProbeEtherType (kBatchMagic @ [0])"
    using probe_frame_encode [OF assms(2,3), of kBatchMagic]
    by (simp add: eth_encode_def kBatchMagic_def numeral_eq_Suc)
  then have sent: "sent w' = sent w @ map (batch_frame d s) [0..<n]"
    using send_loop_sends [OF assms(1-3), of l "[0..<n]" 0 w w'] tx by simp
  let ?cs = "map (\<lambda>r. (cr_frame r, cr_metadata r)) rs" and ?fs = "filter carries_magic (map cr_frame rs)"
  let ?c = "counted clock ?cs new_RxContext"
  have m: "mset ?fs = mset (map (batch_frame d s) [0..<n])" using rs(3) sent by simp
  have "length ?fs = length (map (batch_frame d s) [0..<n])" using arg_cong [OF m, of size] by (simp only: size_mset)
  then have "length ?fs = n" by (simp only: length_map length_upt)
  moreover have "set ?fs = set (map (batch_frame d s) [0..<n])" using mset_eq_setD [OF m] .
  then have "\<forall>f\<in>set ?fs. length f = 60" using batch_frame_magic(2) [OF assms(2,3)] by (simp only:) auto
  ultimately have "sum_list (map length ?fs) = 60 * n" using sum_lengths [of ?fs 60] by (simp only:)
  then have c: "rx_frames ?c = n" "rx_bytes ?c = of_nat (60 * n)" "\<not> rx_invalid_metadata ?c"
    using counted_frames [of clock ?cs new_RxContext] \<open>length ?fs = n\<close> rs(2)
    by (auto simp: new_RxContext_def comp_def list_all_iff)
  have "rs \<noteq> []" using \<open>length ?fs = n\<close> assms(4) by auto
  then have "receive_loop ros abi clock (Some b) n v new_RxContext 0 0 = Some (v2, Inr (?c, 1, n))"
    using link_poll_counts [OF rs(1) _ rx, of clock new_RxContext] c(1) assms(4)
    by (simp add: receive_loop.simps [of _ _ _ _ _ _ new_RxContext] receive_loop.simps [of _ _ _ _ _ _ ?c])
       (simp add: new_RxContext_def)
  with sent c show ?thesis by blast
qed

definition example_frames_os :: "byte list list bpf_os" where
  "example_frames_os = \<lparr>os_open = (\<lambda>w i. (w, Inr 3)), os_socket = (\<lambda>w. (w, Inr 4)), os_kqueue = (\<lambda>w. (w, Inr 5)), os_close = (\<lambda>w fd. w),
     os_ioctl = (\<lambda>w fd r. (w, reply_ok)), os_getifaddrs = (\<lambda>w. (w, Inr [])), os_kevent_add = (\<lambda>w q fd. (w, None)),
     os_kevent = (\<lambda>w q t. (w, ready_timeout)), os_read = (\<lambda>w fd n. (w, Inl EINTR)),
     os_write = (\<lambda>w fd f. (w @ [f], Inr (length f))), os_clock = (\<lambda>w. (w, Inr \<lparr>tv_sec = 1, tv_nsec = 0\<rparr>))\<rparr>"

definition example_batch_frame :: "byte list" where
  "example_batch_frame = batch_frame [2, 0, 0, 0, 0, 2] [2, 0, 0, 0, 0, 1] 0"

definition example_batch_record :: capture_record where
  "example_batch_record = \<lparr>cr_header = \<lparr>bh_tv_sec = 1, bh_tv_usec = 2, bh_caplen = 60, bh_datalen = 60, bh_hdrlen = 18\<rparr>,
     cr_header_bytes = [1, 0, 0, 0, 2, 0, 0, 0, 60, 0, 0, 0, 60, 0, 0, 0, 18, 0], cr_frame = example_batch_frame, cr_padding = [0, 0],
     cr_metadata = \<lparr>cm_capture_timestamp_ns = 1000002000, cm_captured_length = 60, cm_wire_length = 60\<rparr>\<rparr>"

definition example_read_os :: "(nat set \<times> nat) bpf_os" where
  "example_read_os = example_os\<lparr>os_read := (\<lambda>w fd n. (w, Inr (concat (map record_bytes [example_batch_record, example_record]))))\<rparr>"

theorem batch_probe_counts_witness:
  "[example_batch_frame] = [] @ map (batch_frame [2, 0, 0, 0, 0, 2] [2, 0, 0, 0, 0, 1]) [0..<1] \<and>
   (\<exists>c. receive_loop example_read_os example_abi (\<lambda>_. 5) (Some example_backend) 1 ({3, 300}, 0) new_RxContext 0 0 =
       Some (({3, 300}, 1), Inr (c, 1, 1)) \<and>
     rx_frames c = 1 \<and> rx_bytes c = of_nat (60 * 1) \<and> \<not> rx_invalid_metadata c)"
proof (rule batch_probe_counts [where os = example_frames_os and sent = "\<lambda>w. w" and w = "[]" and w' = "[example_batch_frame]"
      and l = "Some example_backend" and rs = "[example_batch_record, example_record]" and data = 0 and ?v1.0 = "({3, 300}, 1)"])
  show "records_writes example_frames_os (\<lambda>w. w)" by (auto simp: records_writes_def example_frames_os_def)
  show "send_loop example_frames_os (Some example_backend) [0..<1] (probe_frame [2, 0, 0, 0, 0, 2] [2, 0, 0, 0, 0, 1] kBatchMagic) [] =
      ([example_batch_frame], no_error)"
  proof -
    have "(probe_frame [2, 0, 0, 0, 0, 2] [2, 0, 0, 0, 0, 1] kBatchMagic)[20 := 0] = example_batch_frame"
      "length example_batch_frame = 60" by code_simp+
    then show ?thesis
      by (simp add: link_send_frame_def bpf_send_frame_def example_frames_os_def example_backend_def kEthernetHeaderBytes_def)
  qed
  have "record_ok example_abi example_batch_record" by code_simp
  then show "batch_ok example_abi [example_batch_record, example_record]"
    using example_record_ok by (simp add: example_record_def) code_simp
  show "list_all (\<lambda>r. honest (cr_frame r, cr_metadata r)) [example_batch_record, example_record]" by code_simp
  have "filter carries_magic (map cr_frame [example_batch_record, example_record]) = [example_batch_frame]" by code_simp
  then show "mset (filter carries_magic (map cr_frame [example_batch_record, example_record])) =
      mset (drop (length ([] :: byte list list)) [example_batch_frame])" by simp
qed (simp_all add: retry.simps example_read_os_def example_os_def)

end
