(* ===== verification/Ethernet_Probe.thy ===== *)
theory Ethernet_Probe
  imports Link_Probe
begin

text \<open>
  The Ethernet probe (\<^verbatim>\<open>tools/ethernet_probe.cpp\<close>): a client sends a request through the endpoint, after two frames that
  must be refused, and waits for the response; a server waits for a request and answers it from within the callback.
  The link under the endpoint is the record of functions \<open>probe_link\<close> on a state: opening an interface for the endpoint
  (\<open>pl_open\<close>) and for raw frames, closing both, sending a frame, polling, and the statistics. Waiting loops are
  partial functions.
\<close>

definition kIpv4Bytes :: nat where "kIpv4Bytes = 20"

definition kEthernetMagic :: "byte list" where
  "kEthernetMagic = [0x56, 0x4E, 0x45, 0x54, 0x50, 0x30, 0x34, 0x21]"

record EthernetOptions =
  eo_mode :: string
  eo_interface_name :: string
  eo_destination_text :: string

record ServerContext =
  sv_request_received :: bool
  sv_valid_request :: bool
  sv_send_error :: error_code

record ClientContext =
  cl_response_received :: bool
  cl_valid_response :: bool

record 'l probe_link =
  pl_open :: "LinkConfig \<Rightarrow> 'l \<Rightarrow> 'l \<times> InterfaceInfo option"
  pl_open_raw :: "LinkConfig \<Rightarrow> 'l \<Rightarrow> 'l \<times> bool"
  pl_close :: "'l \<Rightarrow> 'l"
  pl_close_raw :: "'l \<Rightarrow> 'l"
  pl_send :: "'l link_send"
  pl_send_raw :: "'l link_send"
  pl_poll :: "'l \<Rightarrow> 'l \<times> (byte list \<times> CaptureMetadata) list \<times> error_code"
  pl_statistics :: "'l \<Rightarrow> 'l \<times> error_code \<times> BpfStatistics"

definition make_payload :: "byte list" where
  "make_payload =
     (let payload = replicate kIpv4Bytes 0;
          payload = payload[0 := 0x45, 2 := 0x00, 3 := of_nat kIpv4Bytes, 8 := 64, 9 := 253]
      in memcpy_at payload 12 kEthernetMagic)"

definition valid_probe_payload :: "byte list \<Rightarrow> bool" where
  "valid_probe_payload payload \<longleftrightarrow> length payload \<ge> kIpv4Bytes \<and> payload ! 0 = 0x45 \<and> payload ! 2 = 0x00 \<and>
     payload ! 3 = of_nat kIpv4Bytes \<and> payload ! 9 = 253 \<and> take (length kEthernetMagic) (drop 12 payload) = kEthernetMagic"

definition on_server_frame :: "'l probe_link \<Rightarrow> (EthernetEndpoint \<times> 'l \<times> ServerContext) frame_callback" where
  "on_server_frame io st header payload metadata =
     (case st of (endpoint, link, context) \<Rightarrow>
        if eh_ether_type header \<noteq> kEtherTypeIpv4 \<or> \<not> valid_probe_payload payload then (endpoint, link, context)
        else
          let context = context\<lparr>sv_request_received := True, sv_valid_request := True\<rparr> in
          (case ee_send_frame (pl_send io) endpoint link (eh_source header) kEtherTypeIpv4 (take kIpv4Bytes payload) of
             (endpoint, link, error) \<Rightarrow> (endpoint, link, context\<lparr>sv_send_error := error\<rparr>)))"

definition on_client_frame :: "ClientContext frame_callback" where
  "on_client_frame context header payload metadata =
     (if eh_ether_type header = kEtherTypeIpv4 \<and> valid_probe_payload payload
      then context\<lparr>cl_response_received := True, cl_valid_response := True\<rparr> else context)"

definition open_ethernet :: "'l probe_link \<Rightarrow> string \<Rightarrow> 'l \<Rightarrow> 'l \<times> EthernetEndpoint option" where
  "open_ethernet io interface_name link =
     (case pl_open io ((probe_config interface_name)\<lparr>lc_capture_filter := cf_stack_arp_ipv4_253\<rparr>) link of
        (link, info) \<Rightarrow> (link, map_option new_EthernetEndpoint info))"

section \<open>The server\<close>

text \<open>
  One call of \<open>poll_frames\<close>. The callback works on the same endpoint: its transmit buffer is written by the callback, its
  drop counters by the poll.
\<close>

definition server_poll ::
  "'l probe_link \<Rightarrow> EthernetEndpoint \<times> 'l \<times> ServerContext \<Rightarrow> (EthernetEndpoint \<times> 'l \<times> ServerContext) \<times> error_code" where
  "server_poll io st =
     (case st of (endpoint, link, context) \<Rightarrow>
        case pl_poll io link of (link, captured) \<Rightarrow>
        case ee_poll_frames endpoint (Some (on_server_frame io)) (endpoint, link, context) captured of
          (polled, (endpoint, link, context), error) \<Rightarrow>
            ((endpoint\<lparr>ee_drop_counters := ee_drop_counters polled\<rparr>, link, context), error))"

partial_function (option) server_loop ::
  "'l probe_link \<Rightarrow> EthernetEndpoint \<times> 'l \<times> ServerContext
     \<Rightarrow> ((EthernetEndpoint \<times> 'l \<times> ServerContext) \<times> error_code) option" where
  "server_loop io st =
     (if sv_request_received (snd (snd st)) then Some (st, no_error)
      else case server_poll io st of (st, error) \<Rightarrow>
        if error \<noteq> no_error then Some (st, error) else server_loop io st)"

record server_report =
  sr_valid_request :: bool
  sr_response_sent :: bool
  sr_drops :: EthernetDropCounters
  sr_statistics :: BpfStatistics
  sr_passed :: bool

definition run_server ::
  "'l probe_link \<Rightarrow> EthernetOptions \<Rightarrow> 'l \<Rightarrow> ('l \<times> int \<times> server_report option) option" where
  "run_server io options link =
     (case open_ethernet io (eo_interface_name options) link of
        (link, None) \<Rightarrow> Some (link, 1, None)
      | (link, Some endpoint) \<Rightarrow>
          (case server_loop io (endpoint, link,
                  \<lparr>sv_request_received = False, sv_valid_request = False, sv_send_error = no_error\<rparr>) of
             None \<Rightarrow> None
           | Some ((endpoint, link, context), error) \<Rightarrow>
               if error \<noteq> no_error then Some (pl_close io link, 1, None)
               else
                 let drops = ee_drop_counters endpoint in
                 (case pl_statistics io link of (link, statistics_error, statistics) \<Rightarrow>
                    let passed = sv_valid_request context \<and> sv_send_error context = no_error \<and>
                          statistics_error = no_error \<and> dc_short_frames drops = 0 \<and> dc_vlan_frames drops = 0
                    in Some (pl_close io link, if passed then 0 else 1,
                         Some \<lparr>sr_valid_request = sv_valid_request context,
                               sr_response_sent = (sv_send_error context = no_error), sr_drops = drops,
                               sr_statistics = statistics, sr_passed = passed\<rparr>))))"

section \<open>The client\<close>

definition client_poll ::
  "'l probe_link \<Rightarrow> EthernetEndpoint \<times> 'l \<times> ClientContext \<Rightarrow> (EthernetEndpoint \<times> 'l \<times> ClientContext) \<times> error_code" where
  "client_poll io st =
     (case st of (endpoint, link, context) \<Rightarrow>
        case pl_poll io link of (link, captured) \<Rightarrow>
        case ee_poll_frames endpoint (Some on_client_frame) context captured of
          (endpoint, context, error) \<Rightarrow> ((endpoint, link, context), error))"

partial_function (option) client_loop ::
  "'l probe_link \<Rightarrow> EthernetEndpoint \<times> 'l \<times> ClientContext
     \<Rightarrow> ((EthernetEndpoint \<times> 'l \<times> ClientContext) \<times> error_code) option" where
  "client_loop io st =
     (if cl_response_received (snd (snd st)) then Some (st, no_error)
      else case client_poll io st of (st, error) \<Rightarrow>
        if error \<noteq> no_error then Some (st, error) else client_loop io st)"

record client_report =
  cr_short_error :: error_code
  cr_vlan_error :: error_code
  cr_valid_response :: bool
  cr_drops :: EthernetDropCounters
  cr_passed :: bool

definition client_exchange ::
  "'l probe_link \<Rightarrow> MacAddress \<Rightarrow> EthernetEndpoint \<Rightarrow> 'l \<Rightarrow> ('l \<times> int \<times> client_report option) option" where
  "client_exchange io destination endpoint link =
     (let payload = make_payload; short_frame = replicate 10 0 in
      case pl_send_raw io link short_frame of (link, short_error) \<Rightarrow>
        if short_error = no_error then Some (link, 1, None)
        else case ee_send_frame (pl_send io) endpoint link destination kEtherTypeVlan8021Q payload of
          (endpoint, link, vlan_error) \<Rightarrow>
            if vlan_error = no_error then Some (link, 1, None)
            else case ee_send_frame (pl_send io) endpoint link destination kEtherTypeIpv4 payload of
              (endpoint, link, send_error) \<Rightarrow>
                if send_error \<noteq> no_error then Some (link, 1, None)
                else case client_loop io (endpoint, link, \<lparr>cl_response_received = False, cl_valid_response = False\<rparr>) of
                  None \<Rightarrow> None
                | Some ((endpoint, link, context), error) \<Rightarrow>
                    if error \<noteq> no_error then Some (link, 1, None)
                    else
                      let drops = ee_drop_counters endpoint;
                          passed = cl_valid_response context \<and> short_error \<noteq> no_error \<and> vlan_error \<noteq> no_error \<and>
                            dc_short_frames drops = 0 \<and> dc_vlan_frames drops = 0
                      in Some (link, if passed then 0 else 1,
                           Some \<lparr>cr_short_error = short_error, cr_vlan_error = vlan_error,
                                 cr_valid_response = cl_valid_response context, cr_drops = drops, cr_passed = passed\<rparr>))"

text \<open>Both endpoints are opened before either is looked at; they are closed in the reverse order.\<close>

definition run_client ::
  "'l probe_link \<Rightarrow> EthernetOptions \<Rightarrow> 'l \<Rightarrow> ('l \<times> int \<times> client_report option) option" where
  "run_client io options link =
     (case parse_mac (eo_destination_text options) zero_mac of (destination, ok) \<Rightarrow>
        if \<not> ok then Some (link, 64, None)
        else case open_ethernet io (eo_interface_name options) link of (link, endpoint) \<Rightarrow>
          case pl_open_raw io (probe_config (eo_interface_name options)) link of (link, raw) \<Rightarrow>
            (case endpoint of
               None \<Rightarrow> Some (if raw then pl_close_raw io link else link, 1, None)
             | Some endpoint \<Rightarrow>
                 if \<not> raw then Some (pl_close io link, 1, None)
                 else map_option (\<lambda>(link, code, report). (pl_close io (pl_close_raw io link), code, report))
                        (client_exchange io destination endpoint link)))"

section \<open>Options\<close>

fun ethernet_arguments :: "string list \<Rightarrow> EthernetOptions \<Rightarrow> EthernetOptions \<times> bool" where
  "ethernet_arguments [] options = (options, True)"
| "ethernet_arguments [argument] options = (options, False)"
| "ethernet_arguments (argument # v # rest) options =
     (if argument = ''--interface'' then ethernet_arguments rest (options\<lparr>eo_interface_name := v\<rparr>)
      else if argument = ''--destination'' then ethernet_arguments rest (options\<lparr>eo_destination_text := v\<rparr>)
      else (options, False))"

definition ethernet_parse_options :: "string list \<Rightarrow> EthernetOptions \<Rightarrow> EthernetOptions \<times> bool" where
  "ethernet_parse_options argv options =
     (if length argv < 3 then (options, False)
      else case ethernet_arguments (tl argv) (options\<lparr>eo_mode := hd argv\<rparr>) of (options, ok) \<Rightarrow>
        if \<not> ok then (options, False)
        else if eo_interface_name options = [] then (options, False)
        else if eo_mode options = ''server'' then (options, eo_destination_text options = [])
        else (options, eo_mode options = ''client'' \<and> eo_destination_text options \<noteq> []))"

datatype ethernet_output = server_output "server_report option" | client_output "client_report option" | ethernet_usage

definition ethernet_probe_main ::
  "'l probe_link \<Rightarrow> string list \<Rightarrow> 'l \<Rightarrow> ('l \<times> int \<times> ethernet_output) option" where
  "ethernet_probe_main io argv link =
     (case ethernet_parse_options argv \<lparr>eo_mode = [], eo_interface_name = [], eo_destination_text = []\<rparr> of (options, ok) \<Rightarrow>
        if \<not> ok then Some (link, 64, ethernet_usage)
        else if eo_mode options = ''server''
        then map_option (\<lambda>(link, code, report). (link, code, server_output report)) (run_server io options link)
        else map_option (\<lambda>(link, code, report). (link, code, client_output report)) (run_client io options link))"

section \<open>The exchange\<close>

definition request_frame :: "MacAddress \<Rightarrow> MacAddress \<Rightarrow> byte list" where
  "request_frame destination source = eth_encode destination source kEtherTypeIpv4 make_payload"

lemma make_payload_value: "make_payload = [0x45, 0, 0, 20, 0, 0, 0, 0, 64, 253, 0, 0, 0x56, 0x4E, 0x45, 0x54, 0x50, 0x30, 0x34, 0x21]"
  by code_simp

text \<open>The padding of the frame does not make the payload invalid, and it is not echoed.\<close>

lemma padded_payload:
  "valid_probe_payload (make_payload @ replicate 26 0)" "take kIpv4Bytes (make_payload @ replicate 26 0) = make_payload"
  by code_simp+

lemma not_vlan_ipv4: "\<not> is_vlan kEtherTypeIpv4"
  by code_simp

lemma length_make_payload [simp]: "length make_payload = 20"
  by (simp add: make_payload_value)

definition endpoint_fits :: "InterfaceInfo \<Rightarrow> EthernetEndpoint \<Rightarrow> bool" where
  "endpoint_fits info e \<longleftrightarrow> ee_link_open e \<and> ee_info e = info \<and> length (ee_tx_buffer e) = max (unat (ii_mtu info) + 14) 60 \<and>
     ee_drop_counters e = \<lparr>dc_short_frames = 0, dc_vlan_frames = 0\<rparr>"

lemma new_endpoint_fits: "endpoint_fits info (new_EthernetEndpoint info)"
  by (simp add: endpoint_fits_def new_EthernetEndpoint_def Let_def kEthernetHeaderBytes_def kEthernetMinimumFrameBytes_def)

lemma send_payload:
  assumes "endpoint_fits info e" "length d = 6" "length (ii_mac info) = 6" "20 \<le> ii_mtu info"
    and "link_send l (request_frame d (ii_mac info)) = (l', err)"
  shows "\<exists>e'. endpoint_fits info e' \<and> ee_send_frame link_send e l d kEtherTypeIpv4 make_payload = (e', l', err)"
proof -
  have mtu: "20 \<le> unat (ii_mtu info)" using assms(4) by (simp add: word_le_nat_alt)
  let ?f = "request_frame d (ii_mac info)"
  have len: "length ?f = 60" using assms(2,3) by (simp add: request_frame_def eth_encode_def)
  have "build_ethernet_frame d (ii_mac info) kEtherTypeIpv4 make_payload (ee_tx_buffer e) = (eth_ok, ?f @ drop 60 (ee_tx_buffer e), 60)"
    using build_ethernet_ok [OF assms(2,3) not_vlan_ipv4, of make_payload "ee_tx_buffer e"] assms(1) mtu
    by (simp add: endpoint_fits_def request_frame_def)
  then show ?thesis
    using assms(1,5) mtu len by (auto simp: ee_send_frame_def endpoint_fits_def)
qed

lemma parse_request:
  assumes "length d = 6" "length s = 6"
  shows "parse_ethernet_frame (request_frame d s) =
    (eth_ok, \<lparr>ev_header = \<lparr>eh_destination = d, eh_source = s, eh_ether_type = kEtherTypeIpv4\<rparr>,
              ev_payload = make_payload @ replicate 26 0\<rparr>)"
  using parse_eth_encode [OF assms not_vlan_ipv4, of make_payload] by (simp add: request_frame_def)

text \<open>
  A server whose first poll captures a request answers with the same payload, addressed to the sender, and passes when
  its link takes the answer.
\<close>

theorem server_answers_request:
  assumes "pl_open io ((probe_config (eo_interface_name options))\<lparr>lc_capture_filter := cf_stack_arp_ipv4_253\<rparr>) l0 = (l1, Some info)"
    and mac: "length (ii_mac info) = 6" "20 \<le> ii_mtu info" "length s = 6" "length d = 6"
    and poll: "pl_poll io l1 = (l2, [(request_frame d s, metadata)], no_error)"
    and send: "pl_send io l2 (request_frame s (ii_mac info)) = (l3, no_error)"
    and stats: "pl_statistics io l3 = (l4, no_error, statistics)"
  shows "\<exists>report. run_server io options l0 = Some (pl_close io l4, 0, Some report) \<and> sr_passed report"
proof -
  let ?e = "new_EthernetEndpoint info"
  obtain e' where e': "endpoint_fits info e'"
      "ee_send_frame (pl_send io) ?e l2 s kEtherTypeIpv4 make_payload = (e', l3, no_error)"
    using send_payload [where link_send = "pl_send io" and l = l2, OF new_endpoint_fits mac(3,1,2) send] by blast
  have e: "ee_link_open ?e" "ee_drop_counters ?e = \<lparr>dc_short_frames = 0, dc_vlan_frames = 0\<rparr>"
    using new_endpoint_fits [of info] by (simp_all add: endpoint_fits_def)
  have "server_poll io (?e, l1, c) = ((e'\<lparr>ee_drop_counters := ee_drop_counters ?e\<rparr>, l3,
      c\<lparr>sv_request_received := True, sv_valid_request := True, sv_send_error := no_error\<rparr>), no_error)" for c
    using poll e parse_request [OF mac(4,3)] e'(2) padded_payload
    by (simp add: server_poll_def ee_poll_frames_def dispatch_frame_def on_server_frame_def)
  then have "server_loop io (?e, l1, \<lparr>sv_request_received = False, sv_valid_request = False, sv_send_error = no_error\<rparr>) =
      Some ((e'\<lparr>ee_drop_counters := ee_drop_counters ?e\<rparr>, l3, \<lparr>sv_request_received = True, sv_valid_request = True, sv_send_error = no_error\<rparr>), no_error)"
    by (simp add: server_loop.simps)
  then show ?thesis
    using assms(1) stats e by (simp add: run_server_def open_ethernet_def)
qed

text \<open>
  A client that the server answers this way passes: the short and the tagged frame are refused, the request is the one frame
  that reaches the link, and the answer is accepted.
\<close>

theorem client_accepts_answer:
  assumes "pl_open io ((probe_config (eo_interface_name options))\<lparr>lc_capture_filter := cf_stack_arp_ipv4_253\<rparr>) l0 = (l1, Some info)"
    and raw: "pl_open_raw io (probe_config (eo_interface_name options)) l1 = (l2, True)"
      "pl_send_raw io l2 (replicate 10 0) = (l2, invalid_argument)"
    and mac: "length (ii_mac info) = 6" "20 \<le> ii_mtu info" "length d = 6"
    and text': "eo_destination_text options = butlast (print_mac d)"
    and send: "pl_send io l2 (request_frame d (ii_mac info)) = (l3, no_error)"
    and poll: "pl_poll io l3 = (l4, [(request_frame (ii_mac info) d, metadata)], no_error)"
  shows "\<exists>report. run_client io options l0 = Some (pl_close io (pl_close_raw io l4), 0, Some report) \<and>
    cr_passed report \<and> cr_vlan_error report = protocol_not_supported"
proof -
  let ?e = "new_EthernetEndpoint info"
  have mtu: "20 \<le> unat (ii_mtu info)" using mac(2) by (simp add: word_le_nat_alt)
  have vlan: "ee_send_frame (pl_send io) ?e l2 d kEtherTypeVlan8021Q make_payload = (?e, l2, protocol_not_supported)"
    using mtu by (simp add: ee_send_frame_def build_ethernet_frame_def is_vlan_def new_EthernetEndpoint_def)
  obtain e' where e': "endpoint_fits info e'"
      "ee_send_frame (pl_send io) ?e l2 d kEtherTypeIpv4 make_payload = (e', l3, no_error)"
    using send_payload [where link_send = "pl_send io" and l = l2, OF new_endpoint_fits mac(3,1,2) send] by blast
  have "client_poll io (e', l3, c) = ((e', l4, c\<lparr>cl_response_received := True, cl_valid_response := True\<rparr>), no_error)" for c
    using poll e'(1) parse_request [OF mac(1,3)] padded_payload
    by (simp add: client_poll_def ee_poll_frames_def dispatch_frame_def on_client_frame_def endpoint_fits_def)
  then have "client_loop io (e', l3, \<lparr>cl_response_received = False, cl_valid_response = False\<rparr>) =
      Some ((e', l4, \<lparr>cl_response_received = True, cl_valid_response = True\<rparr>), no_error)"
    by (simp add: client_loop.simps)
  moreover have "parse_mac (eo_destination_text options) zero_mac = (d, True)"
    using print_mac_parse [OF mac(3), of zero_mac] text' by (simp add: zero_mac_def)
  ultimately show ?thesis
    using assms(1) raw vlan e' by (auto simp: run_client_def client_exchange_def open_ethernet_def Let_def endpoint_fits_def)
qed

end
