(* ===== verification/Instrument_Probe.thy ===== *)
theory Instrument_Probe
  imports Histogram
begin

text \<open>
  The instrumentation probe (\<^verbatim>\<open>tools/instrument_probe.cpp\<close>): it fills a histogram with the latencies of two readings of the clock
  in a row and writes it in both formats. \<open>clock n\<close> is the \<open>n\<close>-th reading; the two files are what \<^verbatim>\<open>fopen\<close> returned,
  \<open>fclose\<close> says whether closing a file succeeded.
\<close>

definition kSamples :: nat where "kSamples = 4096"

fun take_samples :: "(nat \<Rightarrow> (int \<times> int) option) \<Rightarrow> nat list \<Rightarrow> LatencyHistogram \<Rightarrow> LatencyHistogram option" where
  "take_samples clock [] histogram = Some histogram"
| "take_samples clock (index # rest) histogram =
     (let first = application_timestamp (clock (2 * index));
          final = application_timestamp (clock (2 * index + 1))
      in if ts_value_ns first = 0 \<or> ts_value_ns final = 0 then None
         else case record_between histogram first final of (histogram, recorded) \<Rightarrow>
           if \<not> recorded then None else take_samples clock rest histogram)"

record instrument_report =
  ir_sample_count :: u64
  ir_bucket_count :: nat
  ir_p50 :: u64
  ir_p95 :: u64
  ir_p99 :: u64

definition instrument_probe_main ::
  "(real \<Rightarrow> real) \<Rightarrow> ('f \<Rightarrow> string \<Rightarrow> 'f \<times> bool) \<Rightarrow> ('f \<Rightarrow> bool) \<Rightarrow> nat \<Rightarrow> (nat \<Rightarrow> (int \<times> int) option) \<Rightarrow> 'f option \<Rightarrow> 'f option
     \<Rightarrow> int \<times> ('f \<times> 'f) option \<times> instrument_report option" where
  "instrument_probe_main rnd fprintf fclose argc clock csv jsonl =
     (if argc \<noteq> 3 then (2, None, None)
      else case take_samples clock [0..<kSamples] new_LatencyHistogram of
        None \<Rightarrow> (3, None, None)
      | Some histogram \<Rightarrow>
          (case (csv, jsonl) of
             (Some csv_file, Some jsonl_file) \<Rightarrow>
               (case write_csv fprintf histogram (Some csv_file) application_rtt_monotonic of (csv, csv_ok) \<Rightarrow>
                case write_jsonl fprintf histogram (Some jsonl_file) application_rtt_monotonic of (jsonl, jsonl_ok) \<Rightarrow>
                let csv_file = the csv; jsonl_file = the jsonl;
                    csv_close_ok = fclose csv_file; jsonl_close_ok = fclose jsonl_file;
                    close_ok = csv_close_ok \<and> jsonl_close_ok
                in if \<not> csv_ok \<or> \<not> jsonl_ok \<or> \<not> close_ok then (5, Some (csv_file, jsonl_file), None)
                   else (0, Some (csv_file, jsonl_file),
                         Some \<lparr>ir_sample_count = lh_sample_count histogram, ir_bucket_count = kLatencyHistogramBuckets,
                               ir_p50 = percentile rnd histogram 50, ir_p95 = percentile rnd histogram 95,
                               ir_p99 = percentile rnd histogram 99\<rparr>))
           | _ \<Rightarrow> (4, None, None)))"

section \<open>What is measured\<close>

definition reading :: "(nat \<Rightarrow> (int \<times> int) option) \<Rightarrow> nat \<Rightarrow> u64" where
  "reading clock n = instrument_now_ns (clock n)"

definition latency :: "(nat \<Rightarrow> (int \<times> int) option) \<Rightarrow> nat \<Rightarrow> u64" where
  "latency clock i = reading clock (2 * i + 1) - reading clock (2 * i)"

definition readable :: "(nat \<Rightarrow> (int \<times> int) option) \<Rightarrow> nat \<Rightarrow> bool" where
  "readable clock i \<longleftrightarrow> 0 < reading clock (2 * i) \<and> reading clock (2 * i) \<le> reading clock (2 * i + 1)"

lemma take_samples_step:
  assumes "holds_samples h xs"
  shows "take_samples clock (i # is) h =
    (if readable clock i then take_samples clock is (fst (lh_record h (latency clock i))) else None)"
proof -
  obtain h' where "lh_record h (latency clock i) = (h', True)" by (simp add: lh_record_def Let_def)
  moreover have "0 < reading clock (2 * i) \<longleftrightarrow> reading clock (2 * i) \<noteq> 0" by (simp add: word_neq_0_conv)
  ultimately show ?thesis
    by (auto simp: application_timestamp_def record_between_def same_clock_def readable_def reading_def latency_def Let_def
        not_le split: prod.split)
qed

text \<open>
  The loop ends with a histogram of exactly the latencies when the clock works and does not run backwards within a pair, and
  gives up otherwise.
\<close>

lemma take_samples_holds:
  "holds_samples h xs \<Longrightarrow>
   (case take_samples clock is h of
      None \<Rightarrow> \<exists>i\<in>set is. \<not> readable clock i
    | Some h' \<Rightarrow> (\<forall>i\<in>set is. readable clock i) \<and> holds_samples h' (xs @ map (latency clock) is))"
proof (induction "is" arbitrary: h xs)
  case (Cons i "is")
  then show ?case
    using Cons.IH [OF lh_record_holds(1) [OF Cons.prems, of "latency clock i"]]
    unfolding take_samples_step [OF Cons.prems] by (auto split: option.splits)
qed simp

theorem instrument_probe_samples:
  assumes "\<forall>i<kSamples. readable clock i"
  shows "\<exists>h. take_samples clock [0..<kSamples] new_LatencyHistogram = Some h \<and> lh_sample_count h = 4096 \<and>
    lh_minimum_ns h = Min (latency clock ` {..<kSamples}) \<and> lh_maximum_ns h = Max (latency clock ` {..<kSamples})"
proof -
  obtain h where "take_samples clock [0..<kSamples] new_LatencyHistogram = Some h" "holds_samples h (map (latency clock) [0..<kSamples])"
    using take_samples_holds [OF holds_samples_new, of "[0..<kSamples]" clock] assms by (auto split: option.splits)
  then show ?thesis by (auto simp: holds_samples_def kSamples_def atLeast0LessThan)
qed

end
