(* ===== verification/Ndrv_Probe.thy ===== *)
theory Ndrv_Probe
  imports Link_Probe
begin

text \<open>
  The probe of the raw driver socket (\<^verbatim>\<open>tools/ndrv_probe.cpp\<close>): one frame sent through a socket of the family \<^verbatim>\<open>AF_NDRV\<close>. The
  system calls are the record \<open>ndrv_os\<close> of functions on the state of the system; a failing call returns its \<open>errno\<close>.
\<close>

record 'w ndrv_os =
  nd_getifaddrs :: "'w \<Rightarrow> 'w \<times> ifaddr list option"
  nd_socket :: "'w \<Rightarrow> 'w \<times> (nat + nat)"
  nd_bind :: "'w \<Rightarrow> nat \<Rightarrow> string \<Rightarrow> 'w \<times> nat option"
  nd_connect :: "'w \<Rightarrow> nat \<Rightarrow> string \<Rightarrow> 'w \<times> nat option"
  nd_send :: "'w \<Rightarrow> nat \<Rightarrow> byte list \<Rightarrow> 'w \<times> (nat + nat)"
  nd_close :: "'w \<Rightarrow> nat \<Rightarrow> 'w"

definition kNdrvMagic :: "byte list" where
  "kNdrvMagic = [0x56, 0x4E, 0x45, 0x54, 0x4E, 0x44, 0x52, 0x56]"

definition interface_mac :: "'w ndrv_os \<Rightarrow> string \<Rightarrow> MacAddress \<Rightarrow> 'w \<Rightarrow> 'w \<times> MacAddress \<times> bool" where
  "interface_mac os name mac w =
     (case nd_getifaddrs os w of
        (w, None) \<Rightarrow> (w, mac, False)
      | (w, Some addresses) \<Rightarrow>
          (case find (\<lambda>a. ifa_name a = Some name \<and> (case ifa_link_address a of None \<Rightarrow> False | Some bytes \<Rightarrow> length bytes = length mac))
                  addresses of
             None \<Rightarrow> (w, mac, False)
           | Some a \<Rightarrow> (w, the (ifa_link_address a), True)))"

datatype ndrv_output = ndrv_usage | ndrv_error string nat | ndrv_short_send | ndrv_sent nat

text \<open>\<open>fail\<close> prints the operation and \<open>errno\<close> and returns 1.\<close>

definition ndrv_fail :: "string \<Rightarrow> nat \<Rightarrow> int \<times> ndrv_output" where
  "ndrv_fail operation error = (1, ndrv_error operation error)"

definition ndrv_exchange ::
  "'w ndrv_os \<Rightarrow> string \<Rightarrow> MacAddress \<Rightarrow> MacAddress \<Rightarrow> nat \<Rightarrow> 'w \<Rightarrow> 'w \<times> int \<times> ndrv_output" where
  "ndrv_exchange os interface_name destination source fd w =
     (case nd_bind os w fd interface_name of
        (w, Some errno) \<Rightarrow> (nd_close os w fd, ndrv_fail ''bind'' errno)
      | (w, None) \<Rightarrow>
          (case nd_connect os w fd interface_name of
             (w, Some errno) \<Rightarrow> (nd_close os w fd, ndrv_fail ''connect'' errno)
           | (w, None) \<Rightarrow>
               let frame = probe_frame destination source kNdrvMagic in
               (case nd_send os w fd frame of
                  (w, Inl errno) \<Rightarrow> (nd_close os w fd, ndrv_fail ''send'' errno)
                | (w, Inr written) \<Rightarrow>
                    let w = nd_close os w fd in
                    if written \<noteq> length frame then (w, 1, ndrv_short_send) else (w, 0, ndrv_sent (length frame)))))"

definition ndrv_probe_main :: "'w ndrv_os \<Rightarrow> string list \<Rightarrow> 'w \<Rightarrow> 'w \<times> int \<times> ndrv_output" where
  "ndrv_probe_main os argv w =
     (if length argv \<noteq> 3 \<or> argv ! 0 \<noteq> ''--interface'' then (w, 64, ndrv_usage)
      else
        let interface_name = argv ! 1 in
        if interface_name = [] \<or> length interface_name \<ge> IFNAMSIZ then (w, 64, ndrv_usage)
        else case parse_mac (argv ! 2) zero_mac of (destination, ok) \<Rightarrow>
          if \<not> ok then (w, 64, ndrv_usage)
          else case interface_mac os interface_name zero_mac w of (w, source, found) \<Rightarrow>
            if \<not> found then (w, 64, ndrv_usage)
            else (case nd_socket os w of
                    (w, Inl errno) \<Rightarrow> (w, ndrv_fail ''socket'' errno)
                  | (w, Inr fd) \<Rightarrow> ndrv_exchange os interface_name destination source fd w))"

section \<open>Descriptors and frames\<close>

definition ndrv_lawful :: "'w ndrv_os \<Rightarrow> ('w \<Rightarrow> nat set) \<Rightarrow> bool" where
  "ndrv_lawful os fds \<longleftrightarrow> makes_descriptor fds (nd_socket os) \<and> (\<forall>w fd. fds (nd_close os w fd) = fds w - {fd}) \<and>
     (\<forall>w. fds (fst (nd_getifaddrs os w)) = fds w) \<and> (\<forall>w fd name. fds (fst (nd_bind os w fd name)) = fds w) \<and>
     (\<forall>w fd name. fds (fst (nd_connect os w fd name)) = fds w) \<and> (\<forall>w fd frame. fds (fst (nd_send os w fd frame)) = fds w)"

lemma ndrv_exchange_closes:
  assumes "ndrv_lawful os fds"
  shows "fds (fst (ndrv_exchange os name d s fd w)) = fds w - {fd}"
proof -
  have c: "fds (nd_close os v k) = fds v - {k}" for v k using assms by (simp add: ndrv_lawful_def)
  have b: "nd_bind os v k m = (v', r) \<Longrightarrow> fds v' = fds v" "nd_connect os v k m = (v', r) \<Longrightarrow> fds v' = fds v"
      "nd_send os v k f = (v', q) \<Longrightarrow> fds v' = fds v" for v v' k m r f q
    using assms by (metis fst_conv ndrv_lawful_def)+
  show ?thesis
    by (auto simp: ndrv_exchange_def ndrv_fail_def Let_def c dest!: b split: prod.split option.split sum.split)
qed

text \<open>Whatever the system answers, the probe leaves the descriptor table as it found it.\<close>

theorem ndrv_probe_keeps_descriptors:
  assumes l: "ndrv_lawful os fds"
  shows "fds (fst (ndrv_probe_main os argv w)) = fds w"
proof -
  have i: "fds v' = fds v" if "interface_mac os name mac v = (v', r)" for name mac v v' r
  proof -
    have "fds (fst (nd_getifaddrs os v)) = fds v" using l by (simp add: ndrv_lawful_def)
    then show ?thesis using that by (auto simp: interface_mac_def split: prod.splits option.splits)
  qed
  have m: "makes_descriptor fds (nd_socket os)" using l by (simp add: ndrv_lawful_def)
  have s: "fds (fst (case nd_socket os v of (v, Inl errno) \<Rightarrow> (v, ndrv_fail ''socket'' errno)
        | (v, Inr fd) \<Rightarrow> ndrv_exchange os name d src fd v)) = fds v" for v name d src
    using makes_descriptorD [OF m, of v] ndrv_exchange_closes [OF l, of name d src]
    by (cases "nd_socket os v"; cases "snd (nd_socket os v)") auto
  obtain destination ok where p: "parse_mac (argv ! 2) zero_mac = (destination, ok)" by fastforce
  obtain w1 source found where a: "interface_mac os (argv ! 1) zero_mac w = (w1, source, found)" by (metis prod_cases3)
  show ?thesis using i [OF a] by (simp add: ndrv_probe_main_def Let_def p a [simplified] s)
qed

end
