(* ===== verification/Spec2Isabelle.thy ===== *)
theory Spec2Isabelle
  imports Conn_State_Machine Receive_Ranges Fast_Retransmit Rto Congestion Fragment_Reassembly Arp_Run
    Connection_Net Connection_Limits Spsc_Ring Link_Endpoint Network_Run Histogram Bench_Main
    Two_Hosts Packet_Pool_Bench Fragment_Probe Link_Batch_Probe Ethernet_Probe Instrument_Probe Ndrv_Probe
begin

text \<open>
  \<^bold>\<open>A verification of vectorNet\<close>, a userspace network stack in C++20: Ethernet frames captured and sent through the
  packet filter device, ARP, IPv4 with fragmentation and reassembly, and a reliable byte-stream transport over IPv4
  protocol 253, all on preallocated storage. Paths below are relative to the repository.

  \<^bold>\<open>The program's parts and how they interact.\<close> A \<open>Connection\<close> (transport) turns the bytes of an application
  into segments, keeps them in a retransmission queue of pool buffers until they are acknowledged, and hands
  segments to a transmit callback; a \<open>NetworkStack\<close> sends such a segment as a datagram: it fragments the datagram into IPv4
  packets, asks the ARP resolver for the hardware address of the destination, and gives frames to the Ethernet
  endpoint, which writes them to the link. In the other direction the link's poll hands captured frames to the
  endpoint, the endpoint to the stack, the stack ARP messages to the resolver and IPv4 packets to the reassembly
  table, and complete datagrams to the application's callback, which gives them to \<open>Connection::on_segment\<close>.

  \<^bold>\<open>Which theory models which part.\<close>

  \<^item> \<open>Prelude\<close>: words for the fixed-width integers, byte lists for spans, fixed arrays with a counter, big-endian
    accessors, the saturating deadline addition, error codes. \<open>Intervals\<close>: reference algorithms on sorted interval
    lists. \<open>Codec\<close>: the contract of a wire format, a locale that \<open>Wire\<close>, \<open>Arp_Message\<close> and \<open>Ipv4\<close> interpret.
  \<^item> \<open>Packet_Pool\<close> (\<^verbatim>\<open>src/alloc/packet_pool.cpp\<close>): storage, free list and use flags; pointers are addresses. The locale
    \<open>buffer_pool\<close> is what the queue and the connection rely on.
  \<^item> \<open>Spsc_Ring\<close> (\<^verbatim>\<open>include/vectornet/alloc/spsc_ring.hpp\<close>): both threads as step functions over their atomic accesses;
    the locale \<open>bounded_fifo\<close> for calls of one thread.
  \<^item> \<open>Sequence\<close>, \<open>Wire\<close>, \<open>Conn_State_Machine\<close>, \<open>Receive_Ranges\<close>, \<open>Retransmission_Queue\<close>, \<open>Fast_Retransmit\<close>, \<open>Rto\<close>,
    \<open>Congestion\<close>: the files of the same names under \<^verbatim>\<open>src/transport\<close>. The locale \<open>seq_window\<close> gives the modulo comparisons
    as comparisons of offsets.
  \<^item> \<open>Connection\<close> (\<^verbatim>\<open>src/transport/connection.cpp\<close>): the record \<open>Impl\<close> and every member function of \<open>Connection::Impl\<close>.
    \<open>Connection_Inv\<close> and \<open>Connection_Run\<close> hold its invariant and that each operation keeps it, for any callbacks that
    meet the locale \<open>observed\<close> (what a context must tell of the segments transmitted and the bytes delivered);
    \<open>Connection_Capacity\<close> that no operation changes the pools' sizes, \<open>Connection_Net\<close> the runs of two connections over a
    network, \<open>Connection_Limits\<close> what single steps do on unexpected segments.
  \<^item> \<open>Ipv4\<close>, \<open>Fragmentation\<close>, \<open>Reassembly\<close> (\<^verbatim>\<open>src/net\<close>), and \<open>Fragment_Reassembly\<close> for the two together.
  \<^item> \<open>Ethernet\<close>, \<open>Arp_Message\<close>, \<open>Arp_Cache\<close>, \<open>Arp_Resolver\<close> (\<^verbatim>\<open>src/link/ethernet.cpp\<close>, \<^verbatim>\<open>src/link/arp.cpp\<close>); \<open>Arp_Run\<close> for runs of the
    resolver with a link that fails as it likes. The locale \<open>expiring_map\<close> is the contract of the cache, \<open>arp_context\<close>
    (\<open>Arp_Context\<close>) what the resolver keeps of a context that its callbacks change.
  \<^item> \<open>Bpf_Filter\<close>, \<open>Bpf_Backend\<close> (\<^verbatim>\<open>src/link/darwin/bpf_backend.cpp\<close>), \<open>Bpf_Run\<close> for what they do, \<open>Link_Endpoint\<close>
    (\<^verbatim>\<open>src/link/link_endpoint.cpp\<close>) for the handle over them.
  \<^item> \<open>Network_Stack\<close> (\<^verbatim>\<open>src/net/network_stack.cpp\<close>): the composition; \<open>Network_Run\<close> for two stacks and a link;
    \<open>Stack_Context\<close> for what a stack keeps of the datagrams it was given, with the locale \<open>datagram_user\<close> for the
    owner of the datagram callback.
  \<^item> \<open>Timestamps\<close>, \<open>Histogram\<close> (\<^verbatim>\<open>src/instrument\<close>).
  \<^item> \<open>Bench_Options\<close>, \<open>Bench_Payload\<close>, \<open>Bench_Tcp\<close>, \<open>Bench_Runner\<close>, \<open>Bench_Main\<close> (\<^verbatim>\<open>tools/bench_runner.cpp\<close>): the application on top of
    all layers. Its connection transmits through its network stack, whose callback re-enters the connection.
    The echo queue is the second interpretation of \<open>bounded_fifo\<close>. \<open>Two_Hosts\<close> runs two of these hosts against each other:
    there the benchmark's callbacks interpret \<open>observed\<close> and its datagram callback \<open>datagram_user\<close>.
  \<^item> \<open>Packet_Pool_Bench\<close>, \<open>Fragment_Probe\<close>, \<open>Link_Probe\<close>, \<open>Link_Batch_Probe\<close>, \<open>Ethernet_Probe\<close>, \<open>Instrument_Probe\<close>,
    \<open>Ndrv_Probe\<close>: the other programs under \<^verbatim>\<open>tools\<close>, over the definitions of the parts they exercise.

  \<^bold>\<open>How code corresponds to definitions.\<close> A class is a record, a member function a function on it that returns the
  updated record, in the order of the source's statements; every early return and every error code is a branch. A
  definition has the name of its function, with the prefix of its class where the name is taken (\<open>cn_send\<close>,
  \<open>rq_enqueue\<close>, \<open>rr_insert\<close>, \<open>rt_insert\<close>, \<open>bpf_open\<close>). A callback with its \<open>void*\<close> context is a function on a state; a
  null callback is \<open>None\<close>. Statistics are part of the state. \<open>std::size_t\<close> is \<open>nat\<close>, all other integers keep their
  width and wrap. System calls, the kernel's filter machine, the rounding of \<open>double\<close> and the layout of kernel
  structures are arguments, with what is documented of them as hypotheses of the theorems that need it.

  \<^bold>\<open>What the theorems show.\<close>

  \<^item> End to end: two hosts, each a connection over a network stack, joined by links that refuse, lose, duplicate and
    reorder frames, deliver prefixes of what was sent (\<open>end_to_end_prefix\<close>) and keep every fixed-size array at its size
    (\<open>hosts_keep_array_sizes\<close>); so do two connections over any network of segments
    (\<open>delivered_is_prefix_of_accepted\<close>); a datagram crosses two stacks whole and once
    (\<open>datagram_crosses_the_link\<close>, \<open>fragments_reassemble_in_any_order\<close>); no buffer, pending frame or descriptor
    is lost or used twice (\<open>connection_buffers_accounted\<close>, \<open>pool_no_leak_no_double_use\<close>, \<open>arp_frames_accounted\<close>,
    \<open>bpf_open_keeps_descriptors\<close>).
  \<^item> Refinement: the state machine against the table of \<^verbatim>\<open>LLD.md\<close> 4.2, receive ranges and reassembly against sets and maps, the ARP
    cache against an expiring map, the RTO estimator and the congestion window against arithmetic on naturals, the
    ring of two threads against a queue.
  \<^item> Formats: round trips and exact acceptance for the transport header, IPv4, ARP, Ethernet, the capture batches and
    the capture filter.
  \<^item> Time: the bounded wait of ARP, expiry of reassembled datagrams, fast retransmission as a function of the history of
    acknowledgements and once per recovery, backoff.
  \<^item> Measurement: histogram counts, and percentiles as order statistics with the rank of the definition; the echo server answers in order (\<open>echo_server_in_order\<close>).
  \<^item> Programs: the file of the fragment probe reads back, header and records, as a capture of the fragments (\<open>fragment_probe_capture\<close>), the batch
    probe counts what it sends (\<open>batch_probe_counts\<close>), client and server of the Ethernet probe pass with each other, the
    pool benchmark's verdict depends on the allocation counters only, the benchmark and the driver probe close the sockets
    they open (\<open>bench_closes_sockets\<close>, \<open>ndrv_probe_keeps_descriptors\<close>).
  \<^item> \<open>Connection_Limits\<close> shows, on single steps, what goes wrong with segments the code does not expect.

  \<^bold>\<open>Bounds and fuel.\<close> Index loops are \<open>function\<close>s with a measure, so the definitions are total. The loops that
  repeat an interrupted system call, the congestion controller's acknowledgement loop and the loops of the benchmark and the probes are
  partial functions into \<open>option\<close>, where \<open>None\<close> is a call that does not return; that operations of a connection, a flush of
  the echo queue and the server's loop return is proved. The end-to-end theorem of the transport bounds each
  stream by the sequence space, 2 to the 32 bytes. For two hosts the MTU is written \<open>64 + n\<close>, with room for a segment of \<open>n\<close>
  bytes, so that a segment travels in one packet; what was transmitted and delivered is kept in a history variable beside
  the host's clock, which no definition of the program reads.
  The threads of the ring interleave at their atomic accesses, each seeing the latest value.

  \<^bold>\<open>Not modelled.\<close> The usage texts and the formatting of the results of the programs under \<^verbatim>\<open>tools\<close>, whose values are in the
  results of the definitions; \<^verbatim>\<open>test\<close>, \<^verbatim>\<open>scripts\<close>, \<^verbatim>\<open>bench\<close>; \<^verbatim>\<open>src/link/linux\<close>, a README and
  an eight-line marker file that no target includes. Members
  that only forward to an implementation object or return a field have no definition of their own. Weaker memory
  behaviour than the acquire/release orderings give is not part of the ring's model.
\<close>

end
